(* ===== verification/Prelude.thy ===== *)
theory Prelude
  imports Complex_Main "HOL-Library.Word"
begin

text \<open>
  Shared vocabulary of the development: results of fallible Python code as a sum type, the
  few Python conventions every component uses (truthiness of strings and optional values,
  slices, dictionary access with a default), and generic lemmas on lists and maps.

  A raise is \<open>Err e\<close> with the error as a value; a normal return is \<open>Ok x\<close>.  Floating point
  clock readings (\<^verbatim>\<open>time.time()\<close>) are reals: the code only adds, subtracts and compares them.
\<close>

named_theorems py_simps \<open>equations that evaluate the Python vocabulary\<close>
named_theorems step_invs \<open>preservation lemmas of the component invariants\<close>

type_synonym ('e, 'a) res = "'e + 'a"

abbreviation Err :: "'e \<Rightarrow> ('e, 'a) res" where
  "Err \<equiv> Inl"

abbreviation Ok :: "'a \<Rightarrow> ('e, 'a) res" where
  "Ok \<equiv> Inr"

text \<open>Sequencing: an error of the first computation is the error of the whole.\<close>

fun res_bind :: "('e, 'a) res \<Rightarrow> ('a \<Rightarrow> ('e, 'b) res) \<Rightarrow> ('e, 'b) res" where
  "res_bind (Inl e) f = Inl e"
| "res_bind (Inr x) f = f x"

lemma res_bind_eq_Inr [simp]:
  "res_bind m f = Inr y \<longleftrightarrow> (\<exists>x. m = Inr x \<and> f x = Inr y)"
  by (cases m) auto

lemma res_bind_eq_Inl:
  "res_bind m f = Inl e \<longleftrightarrow> m = Inl e \<or> (\<exists>x. m = Inr x \<and> f x = Inl e)"
  by (cases m) auto

lemma res_bind_assoc: "res_bind (res_bind m f) g = res_bind m (\<lambda>x. res_bind (f x) g)"
  by (cases m) simp_all

lemma res_bind_cong [fundef_cong]:
  "m = m' \<Longrightarrow> (\<And>x. m' = Inr x \<Longrightarrow> f x = f' x) \<Longrightarrow> res_bind m f = res_bind m' f'"
  by (cases m') auto

text \<open>Steps of a computation that returned: guards that did not raise, and results that were bound.\<close>

lemma if_Inr_iff: "(if c then Inl e else m) = Inr t \<longleftrightarrow> \<not> c \<and> m = Inr t"
  by simp

lemma if_InrE: "(if c then Inl e else m) = Inr t \<Longrightarrow> (\<not> c \<Longrightarrow> m = Inr t \<Longrightarrow> P) \<Longrightarrow> P"
  by (simp split: if_split_asm)

lemma res_bindE: "res_bind m f = Inr t \<Longrightarrow> (\<And>x. m = Inr x \<Longrightarrow> f x = Inr t \<Longrightarrow> P) \<Longrightarrow> P"
  by (cases m) simp_all

lemma res_bind2E: "res_bind m (case_prod f) = Inr t \<Longrightarrow> (\<And>x y. m = Inr (x, y) \<Longrightarrow> f x y = Inr t \<Longrightarrow> P) \<Longrightarrow> P"
  by (cases m) auto

lemma res_bind3E:
  "res_bind m (\<lambda>(x, y, z). f x y z) = Inr t \<Longrightarrow> (\<And>x y z. m = Inr (x, y, z) \<Longrightarrow> f x y z = Inr t \<Longrightarrow> P) \<Longrightarrow> P"
  by (cases m) auto

text \<open>A list comprehension whose body may raise: the first error in list order wins.\<close>

fun res_map :: "('a \<Rightarrow> ('e, 'b) res) \<Rightarrow> 'a list \<Rightarrow> ('e, 'b list) res" where
  "res_map f [] = Inr []"
| "res_map f (x # xs) =
     res_bind (f x) (\<lambda>y. res_bind (res_map f xs) (\<lambda>ys. Inr (y # ys)))"

lemma res_map_cong [fundef_cong]:
  "xs = ys \<Longrightarrow> (\<And>x. x \<in> set ys \<Longrightarrow> f x = g x) \<Longrightarrow> res_map f xs = res_map g ys"
proof -
  have "(\<And>x. x \<in> set zs \<Longrightarrow> f x = g x) \<Longrightarrow> res_map f zs = res_map g zs" for zs
    by (induction zs) auto
  then show "xs = ys \<Longrightarrow> (\<And>x. x \<in> set ys \<Longrightarrow> f x = g x) \<Longrightarrow> res_map f xs = res_map g ys"
    by blast
qed

lemma res_map_Inr: "(\<And>x. x \<in> set xs \<Longrightarrow> f x = Inr (g x)) \<Longrightarrow> res_map f xs = Inr (map g xs)"
  by (induction xs) auto

lemma res_map_map: "(\<And>x. x \<in> set xs \<Longrightarrow> f (g x) = Inr (h x)) \<Longrightarrow> res_map f (map g xs) = Inr (map h xs)"
  by (induction xs) auto

lemma res_map_length: "res_map f xs = Inr ys \<Longrightarrow> length ys = length xs"
  by (induction xs arbitrary: ys) auto

lemma res_map_list_all2: "res_map f xs = Inr ys \<Longrightarrow> list_all2 (\<lambda>x y. f x = Inr y) xs ys"
  by (induction xs arbitrary: ys) auto

lemma res_map_iff: "res_map f xs = Inr ys \<longleftrightarrow> list_all2 (\<lambda>x y. f x = Inr y) xs ys"
proof (induction xs arbitrary: ys)
  case (Cons x xs)
  show ?case by (cases ys) (auto simp: Cons.IH)
qed auto

lemma res_map_slice:
  "res_map f xs = Inr ys \<Longrightarrow> res_map f (take n (drop m xs)) = Inr (take n (drop m ys))"
  by (simp add: res_map_iff list_all2_takeI list_all2_dropI)

text \<open>Python truthiness of an optional string: \<^verbatim>\<open>None\<close> and the empty string are false.\<close>

fun truthy :: "'a list option \<Rightarrow> bool" where
  "truthy None = False"
| "truthy (Some s) = (s \<noteq> [])"

definition py_slice :: "nat \<Rightarrow> nat \<Rightarrow> 'a list \<Rightarrow> 'a list" where
  "py_slice i j xs = take (j - i) (drop i xs)"

lemma py_slice_0_length [simp]: "py_slice 0 (length xs) xs = xs"
  by (simp add: py_slice_def)

lemma length_py_slice: "i \<le> j \<Longrightarrow> j \<le> length xs \<Longrightarrow> length (py_slice i j xs) = j - i"
  by (simp add: py_slice_def)

lemma py_slice_append_split:
  assumes "i \<le> m" and "m \<le> j"
  shows "py_slice i j xs = py_slice i m xs @ py_slice m j xs"
proof -
  have "take (j - i) (drop i xs) = take ((m - i) + (j - m)) (drop i xs)" using assms by simp
  also have "\<dots> = take (m - i) (drop i xs) @ take (j - m) (drop (m - i) (drop i xs))"
    by (rule take_add)
  finally show ?thesis unfolding py_slice_def using assms by simp
qed

text \<open>Filtering twice by conditions of which the second implies the first.\<close>

lemma filter_filter_mono:
  "(\<And>x. x \<in> set xs \<Longrightarrow> Q x \<Longrightarrow> P x) \<Longrightarrow> filter Q (filter P xs) = filter Q xs"
  by (induction xs) auto

lemma length_filter_mono:
  "(\<And>x. x \<in> set xs \<Longrightarrow> P x \<Longrightarrow> Q x) \<Longrightarrow> length (filter P xs) \<le> length (filter Q xs)"
  by (induction xs) auto

end
