(* ===== verification/RateLimiter.thy ===== *)
theory RateLimiter
  imports Prelude
begin

text \<open>
  The in-memory connectivity rate limiter (app/services/connectivity_rate_limiter.py):
  sliding windows per token, per token for SQL tools, per client address for failed
  authentication, one global window, and a counter of requests in flight per token.

  A \<^verbatim>\<open>_SlidingWindow\<close> is its list of time stamps; a \<^verbatim>\<open>defaultdict\<close> of windows is a total
  function (a missing key reads as the empty window).  Every reading of \<^verbatim>\<open>time.time()\<close> is an
  argument, one per reading in the source.
\<close>

type_synonym window = "real list"

definition prune :: "real \<Rightarrow> real \<Rightarrow> window \<Rightarrow> window" where
  "prune window_s now ts = filter (\<lambda>t. t > now - window_s) ts"

definition count_in_window :: "window \<Rightarrow> real \<Rightarrow> real \<Rightarrow> nat \<times> window" where
  "count_in_window ts window_s now = (let ts' = prune window_s now ts in (length ts', ts'))"

definition record_event :: "window \<Rightarrow> real \<Rightarrow> window" where
  "record_event ts now = ts @ [now]"

definition count_and_record :: "window \<Rightarrow> real \<Rightarrow> real \<Rightarrow> nat \<times> window" where
  "count_and_record ts window_s now =
     (let ts' = prune window_s now ts @ [now] in (length ts', ts'))"

record limiter =
  per_token_rpm :: int
  per_ip_auth_fail_limit :: int
  ip_block_duration_s :: int
  global_rpm :: int
  per_tool_sql_rpm :: int
  max_concurrent_per_token :: int
  token_windows :: "string \<Rightarrow> window"
  token_sql_windows :: "string \<Rightarrow> window"
  ip_fail_windows :: "string \<Rightarrow> window"
  ip_blocks :: "string \<rightharpoonup> real"
  global_window :: window
  concurrency :: "string \<Rightarrow> int"

datatype limit_code = IpBlocked | RateLimited

definition new_limiter :: "int \<Rightarrow> int \<Rightarrow> int \<Rightarrow> int \<Rightarrow> int \<Rightarrow> int \<Rightarrow> limiter" where
  "new_limiter tok_rpm ip_lim ip_dur glob_rpm sql_rpm max_conc =
     \<lparr>per_token_rpm = tok_rpm, per_ip_auth_fail_limit = ip_lim, ip_block_duration_s = ip_dur,
      global_rpm = glob_rpm, per_tool_sql_rpm = sql_rpm, max_concurrent_per_token = max_conc,
      token_windows = (\<lambda>_. []), token_sql_windows = (\<lambda>_. []), ip_fail_windows = (\<lambda>_. []),
      ip_blocks = Map.empty, global_window = [], concurrency = (\<lambda>_. 0)\<rparr>"

definition default_limiter :: limiter where
  "default_limiter = new_limiter 30 5 300 120 10 3"

definition sql_tool :: "string \<Rightarrow> bool" where
  "sql_tool tool_name \<longleftrightarrow> tool_name \<in> {''vectoraiz_sql'', ''sql'', ''execute_sql''}"

text \<open>\<^verbatim>\<open>check_ip_blocked\<close>: a stored time of 0.0 is falsy, so it neither blocks nor is removed.\<close>

definition check_ip_blocked :: "limiter \<Rightarrow> string \<Rightarrow> real \<Rightarrow> limit_code option \<times> limiter" where
  "check_ip_blocked l ip now =
     (case ip_blocks l ip of
        None \<Rightarrow> (None, l)
      | Some until \<Rightarrow>
          (if until \<noteq> 0 \<and> now < until then (Some IpBlocked, l)
           else if until \<noteq> 0 \<and> now \<ge> until
                then (None, l\<lparr>ip_blocks := (ip_blocks l)(ip := None)\<rparr>)
           else (None, l)))"

definition record_auth_failure :: "limiter \<Rightarrow> string \<Rightarrow> real \<Rightarrow> limit_code option \<times> limiter" where
  "record_auth_failure l ip now =
     (let (count, w) = count_and_record (ip_fail_windows l ip) 60 now;
          l1 = l\<lparr>ip_fail_windows := (ip_fail_windows l)(ip := w)\<rparr>
      in if int count \<ge> per_ip_auth_fail_limit l
         then (Some IpBlocked,
               l1\<lparr>ip_blocks := (ip_blocks l1)(ip \<mapsto> now + real_of_int (ip_block_duration_s l))\<rparr>)
         else (None, l1))"

text \<open>
  \<^verbatim>\<open>check_rate_limits\<close> reads the clock once itself (\<open>now\<close>) and once more in
  \<^verbatim>\<open>check_ip_blocked\<close> (\<open>now_ip\<close>).  Each layer that is reached prunes the window it counts.
\<close>

definition check_rate_limits ::
  "limiter \<Rightarrow> string \<Rightarrow> string \<Rightarrow> string \<Rightarrow> real \<Rightarrow> real \<Rightarrow> limit_code option \<times> limiter" where
  "check_rate_limits l token_id tool_name ip now now_ip =
     (let (ipr, l1) = check_ip_blocked l ip now_ip in
      if ipr \<noteq> None then (ipr, l1) else
      let (gc, gw) = count_in_window (global_window l1) 60 now; l2 = l1\<lparr>global_window := gw\<rparr> in
      if int gc \<ge> global_rpm l2 then (Some RateLimited, l2) else
      let (tc, tw) = count_in_window (token_windows l2 token_id) 60 now;
          l3 = l2\<lparr>token_windows := (token_windows l2)(token_id := tw)\<rparr> in
      if int tc \<ge> per_token_rpm l3 then (Some RateLimited, l3) else
      let (sc, l4) =
        (if sql_tool tool_name
         then (let (c, sw) = count_in_window (token_sql_windows l3 token_id) 60 now
               in (Some c, l3\<lparr>token_sql_windows := (token_sql_windows l3)(token_id := sw)\<rparr>))
         else (None, l3)) in
      if (case sc of None \<Rightarrow> False | Some c \<Rightarrow> int c \<ge> per_tool_sql_rpm l4)
      then (Some RateLimited, l4) else
      if concurrency l4 token_id \<ge> max_concurrent_per_token l4 then (Some RateLimited, l4)
      else (None, l4))"

definition record_request :: "limiter \<Rightarrow> string \<Rightarrow> string \<Rightarrow> real \<Rightarrow> limiter" where
  "record_request l token_id tool_name now =
     (let l1 = l\<lparr>global_window := record_event (global_window l) now\<rparr>;
          l2 = l1\<lparr>token_windows :=
                 (token_windows l1)(token_id := record_event (token_windows l1 token_id) now)\<rparr>
      in if sql_tool tool_name
         then l2\<lparr>token_sql_windows :=
                (token_sql_windows l2)(token_id := record_event (token_sql_windows l2 token_id) now)\<rparr>
         else l2)"

definition acquire_concurrency :: "limiter \<Rightarrow> string \<Rightarrow> bool \<times> limiter" where
  "acquire_concurrency l token_id =
     (if concurrency l token_id \<ge> max_concurrent_per_token l then (False, l)
      else (True, l\<lparr>concurrency := (concurrency l)(token_id := concurrency l token_id + 1)\<rparr>))"

definition release_concurrency :: "limiter \<Rightarrow> string \<Rightarrow> limiter" where
  "release_concurrency l token_id =
     l\<lparr>concurrency := (concurrency l)(token_id := max 0 (concurrency l token_id - 1))\<rparr>"

definition get_ip_block_remaining :: "limiter \<Rightarrow> string \<Rightarrow> real \<Rightarrow> real" where
  "get_ip_block_remaining l ip now =
     (case ip_blocks l ip of
        None \<Rightarrow> 0
      | Some until \<Rightarrow> if until \<noteq> 0 then max 0 (until - now) else 0)"


section \<open>Sliding windows as an interface\<close>

text \<open>
  What a limiter layer needs of its window: counting at \<open>now\<close> yields the number of recorded
  events younger than 60 seconds.  \<open>sees w ts T\<close> relates a window to the full history \<open>ts\<close>
  of what was recorded, the clock standing at \<open>T\<close>.
\<close>

definition in_minute :: "real \<Rightarrow> real list \<Rightarrow> real list" where
  "in_minute t ts = filter (\<lambda>x. t - 60 < x \<and> x \<le> t) ts"

definition minute_bound :: "nat \<Rightarrow> real list \<Rightarrow> bool" where
  "minute_bound n ts \<longleftrightarrow> (\<forall>t. length (in_minute t ts) \<le> n)"

locale sliding_window =
  fixes fresh :: 'w
    and count :: "'w \<Rightarrow> real \<Rightarrow> nat \<times> 'w"
    and note_event :: "'w \<Rightarrow> real \<Rightarrow> 'w"
    and sees :: "'w \<Rightarrow> real list \<Rightarrow> real \<Rightarrow> bool"
  assumes sees_fresh: "sees fresh [] T"
    and sees_past: "sees w ts T \<Longrightarrow> x \<in> set ts \<Longrightarrow> x \<le> T"
    and sees_later: "sees w ts T \<Longrightarrow> T \<le> T' \<Longrightarrow> sees w ts T'"
    and sees_count: "sees w ts T \<Longrightarrow> T \<le> now \<Longrightarrow> sees (snd (count w now)) ts now"
    and count_eq: "sees w ts T \<Longrightarrow> T \<le> now \<Longrightarrow> fst (count w now) = length (filter (\<lambda>x. now - 60 < x) ts)"
    and sees_note: "sees w ts T \<Longrightarrow> T \<le> r \<Longrightarrow> sees (note_event w r) (ts @ [r]) r"
begin

lemma note_keeps_bound:
  assumes sees: "sees w ts T" and now: "T \<le> now" and r: "now \<le> r"
    and room: "fst (count w now) < n" and bound: "minute_bound n ts"
  shows "minute_bound n (ts @ [r])"
proof -
  have "length (in_minute t (ts @ [r])) \<le> n" for t
  proof (cases "t - 60 < r \<and> r \<le> t")
    case True
    have "length (in_minute t ts) \<le> length (filter (\<lambda>x. now - 60 < x) ts)"
      unfolding in_minute_def using True r by (intro length_filter_mono) linarith
    also have "\<dots> < n" using room count_eq [OF sees now] by simp
    finally show ?thesis using True by (simp add: in_minute_def)
  next
    case False
    then show ?thesis using bound by (auto simp: in_minute_def minute_bound_def)
  qed
  then show ?thesis by (simp add: minute_bound_def)
qed

end

definition window_sees :: "window \<Rightarrow> real list \<Rightarrow> real \<Rightarrow> bool" where
  "window_sees w ts T \<longleftrightarrow>
     (\<forall>x \<in> set ts. x \<le> T) \<and> (\<forall>c \<ge> T - 60. filter (\<lambda>x. c < x) w = filter (\<lambda>x. c < x) ts)"

interpretation sw: sliding_window "[]" "\<lambda>w now. count_in_window w 60 now" record_event window_sees
proof unfold_locales
  fix w ts :: "real list" and T now :: real
  assume s: "window_sees w ts T" and n: "T \<le> now"
  have *: "filter (\<lambda>x. now - 60 < x) w = filter (\<lambda>x. now - 60 < x) ts"
    using s n by (simp add: window_sees_def)
  show "fst (count_in_window w 60 now) = length (filter (\<lambda>x. now - 60 < x) ts)"
    by (simp add: count_in_window_def prune_def * Let_def)
  have "filter (\<lambda>x. c < x) (filter (\<lambda>x. now - 60 < x) ts) = filter (\<lambda>x. c < x) ts"
    if "c \<ge> now - 60" for c using that by (intro filter_filter_mono) auto
  moreover have "\<forall>x \<in> set ts. x \<le> now" using s n by (auto simp: window_sees_def)
  ultimately show "window_sees (snd (count_in_window w 60 now)) ts now"
    by (auto simp: window_sees_def count_in_window_def prune_def * Let_def)
next
  fix w ts :: "real list" and T T' :: real
  assume s: "window_sees w ts T" and "T \<le> T'"
  then have a: "\<forall>c \<ge> T' - 60. filter (\<lambda>x. c < x) w = filter (\<lambda>x. c < x) ts"
    and b: "\<forall>x \<in> set ts. x \<le> T'" by (fastforce simp: window_sees_def)+
  show "window_sees w ts T'" using a b by (simp add: window_sees_def)
  from a b show "window_sees (record_event w T') (ts @ [T']) T'"
    by (auto simp: window_sees_def record_event_def)
qed (auto simp: window_sees_def)


section \<open>Runs of the limiter\<close>

text \<open>
  The operations in the order the event loop serves them.  \<open>Serve\<close> is a request that passes
  \<^verbatim>\<open>_enforce_rate_limit\<close> and is recorded right after it (app/services/query_orchestrator.py
  lines 104-120); \<open>CheckOnly\<close> is a check whose request is not recorded (the concurrency slot
  was refused).  The log lists the recorded requests: token, tool and time.
\<close>

datatype limiter_op =
    Serve string string string real real real
  | CheckOnly string string string real real
  | AuthFailure string real
  | Acquire string
  | Release string

type_synonym entry = "string \<times> string \<times> real"

fun limiter_step :: "limiter \<Rightarrow> limiter_op \<Rightarrow> entry list \<times> limiter" where
  "limiter_step l (Serve tok tool ip now now_ip rec_t) =
     (let (r, l') = check_rate_limits l tok tool ip now now_ip
      in if r = None then ([(tok, tool, rec_t)], record_request l' tok tool rec_t) else ([], l'))"
| "limiter_step l (CheckOnly tok tool ip now now_ip) =
     ([], snd (check_rate_limits l tok tool ip now now_ip))"
| "limiter_step l (AuthFailure ip now) = ([], snd (record_auth_failure l ip now))"
| "limiter_step l (Acquire tok) = ([], snd (acquire_concurrency l tok))"
| "limiter_step l (Release tok) = ([], release_concurrency l tok)"

fun limiter_run :: "limiter \<Rightarrow> limiter_op list \<Rightarrow> entry list \<times> limiter" where
  "limiter_run l [] = ([], l)"
| "limiter_run l (x # xs) =
     (let (lg, l') = limiter_step l x; (lg', l'') = limiter_run l' xs in (lg @ lg', l''))"

text \<open>The clock does not go back: each operation's readings are at or after the ones before.\<close>

fun clock_after :: "real \<Rightarrow> limiter_op \<Rightarrow> real" where
  "clock_after T (Serve tok tool ip now now_ip rec_t) = rec_t"
| "clock_after T (CheckOnly tok tool ip now now_ip) = now_ip"
| "clock_after T (AuthFailure ip now) = now"
| "clock_after T (Acquire tok) = T"
| "clock_after T (Release tok) = T"

fun clock_ok :: "real \<Rightarrow> limiter_op \<Rightarrow> bool" where
  "clock_ok T (Serve tok tool ip now now_ip rec_t) = (T \<le> now \<and> now \<le> now_ip \<and> now_ip \<le> rec_t)"
| "clock_ok T (CheckOnly tok tool ip now now_ip) = (T \<le> now \<and> now \<le> now_ip)"
| "clock_ok T (AuthFailure ip now) = (T \<le> now)"
| "clock_ok T (Acquire tok) = True"
| "clock_ok T (Release tok) = True"

fun clocks_ok :: "real \<Rightarrow> limiter_op list \<Rightarrow> bool" where
  "clocks_ok T [] = True"
| "clocks_ok T (x # xs) = (clock_ok T x \<and> clocks_ok (clock_after T x) xs)"

definition times :: "(entry \<Rightarrow> bool) \<Rightarrow> entry list \<Rightarrow> real list" where
  "times P lg = map (\<lambda>e. snd (snd e)) (filter P lg)"

abbreviation any_entry :: "entry \<Rightarrow> bool" where "any_entry \<equiv> \<lambda>e. True"
abbreviation of_token :: "string \<Rightarrow> entry \<Rightarrow> bool" where "of_token tok \<equiv> \<lambda>e. fst e = tok"
abbreviation sql_of_token :: "string \<Rightarrow> entry \<Rightarrow> bool" where
  "sql_of_token tok \<equiv> \<lambda>e. fst e = tok \<and> sql_tool (fst (snd e))"

lemma times_Nil [simp]: "times P [] = []"
  by (simp add: times_def)

lemma times_append [simp]: "times P (xs @ ys) = times P xs @ times P ys"
  by (simp add: times_def)

lemma times_single [simp]: "times P [e] = (if P e then [snd (snd e)] else [])"
  by (simp add: times_def)

text \<open>The ghost invariant: every window sees its part of the log.\<close>

definition log_rel :: "limiter \<Rightarrow> entry list \<Rightarrow> real \<Rightarrow> bool" where
  "log_rel l lg T \<longleftrightarrow>
     window_sees (global_window l) (times any_entry lg) T \<and>
     (\<forall>tok. window_sees (token_windows l tok) (times (of_token tok) lg) T) \<and>
     (\<forall>tok. window_sees (token_sql_windows l tok) (times (sql_of_token tok) lg) T)"

definition log_bound :: "limiter \<Rightarrow> entry list \<Rightarrow> bool" where
  "log_bound l lg \<longleftrightarrow>
     minute_bound (nat (global_rpm l)) (times any_entry lg) \<and>
     (\<forall>tok. minute_bound (nat (per_token_rpm l)) (times (of_token tok) lg)) \<and>
     (\<forall>tok. minute_bound (nat (per_tool_sql_rpm l)) (times (sql_of_token tok) lg))"

definition same_limits :: "limiter \<Rightarrow> limiter \<Rightarrow> bool" where
  "same_limits l l' \<longleftrightarrow>
     global_rpm l' = global_rpm l \<and> per_token_rpm l' = per_token_rpm l \<and>
     per_tool_sql_rpm l' = per_tool_sql_rpm l \<and>
     max_concurrent_per_token l' = max_concurrent_per_token l \<and>
     per_ip_auth_fail_limit l' = per_ip_auth_fail_limit l \<and>
     ip_block_duration_s l' = ip_block_duration_s l"

lemma log_rel_later: "log_rel l lg T \<Longrightarrow> T \<le> T' \<Longrightarrow> log_rel l lg T'"
  unfolding log_rel_def using sw.sees_later by blast

lemma check_ip_blocked_frame:
  "snd (check_ip_blocked l ip now) = l\<lparr>ip_blocks := ip_blocks (snd (check_ip_blocked l ip now))\<rparr>"
  by (simp add: check_ip_blocked_def split: option.splits)

text \<open>What a check does to the windows, and what a passed check knows about them.\<close>

definition pruned_by_check :: "limiter \<Rightarrow> limiter \<Rightarrow> real \<Rightarrow> bool" where
  "pruned_by_check l l' now \<longleftrightarrow> same_limits l l' \<and> concurrency l' = concurrency l \<and>
     ip_fail_windows l' = ip_fail_windows l \<and>
     global_window l' \<in> {global_window l, prune 60 now (global_window l)} \<and>
     (\<forall>tok. token_windows l' tok \<in> {token_windows l tok, prune 60 now (token_windows l tok)}) \<and>
     (\<forall>tok. token_sql_windows l' tok
        \<in> {token_sql_windows l tok, prune 60 now (token_sql_windows l tok)})"

lemma check_rate_limits_pruned:
  "pruned_by_check l (snd (check_rate_limits l tok tool ip now now_ip)) now"
proof -
  obtain ipr l1 where c: "check_ip_blocked l ip now_ip = (ipr, l1)" by fastforce
  with check_ip_blocked_frame [of l ip now_ip]
  have l1: "l1 = l\<lparr>ip_blocks := ip_blocks l1\<rparr>" by simp
  then have "same_limits l l1" "concurrency l1 = concurrency l" "global_window l1 = global_window l"
    "token_windows l1 = token_windows l" "token_sql_windows l1 = token_sql_windows l"
    "ip_fail_windows l1 = ip_fail_windows l"
    by (cases l, cases l1, auto simp: same_limits_def)+
  then show ?thesis
    by (simp add: check_rate_limits_def c Let_def pruned_by_check_def same_limits_def
        count_in_window_def)
qed

lemma check_rate_limits_passed:
  assumes "fst (check_rate_limits l tok tool ip now now_ip) = None"
  shows "int (length (prune 60 now (global_window l))) < global_rpm l"
    and "int (length (prune 60 now (token_windows l tok))) < per_token_rpm l"
    and "sql_tool tool \<Longrightarrow> int (length (prune 60 now (token_sql_windows l tok))) < per_tool_sql_rpm l"
    and "concurrency l tok < max_concurrent_per_token l"
proof -
  obtain ipr l1 where c: "check_ip_blocked l ip now_ip = (ipr, l1)" by fastforce
  with check_ip_blocked_frame [of l ip now_ip]
  have l1: "l1 = l\<lparr>ip_blocks := ip_blocks l1\<rparr>" by simp
  then have "same_limits l l1" "concurrency l1 = concurrency l" "global_window l1 = global_window l"
    "token_windows l1 = token_windows l" "token_sql_windows l1 = token_sql_windows l"
    by (cases l, cases l1, auto simp: same_limits_def)+
  with assms show
    "int (length (prune 60 now (global_window l))) < global_rpm l"
    "int (length (prune 60 now (token_windows l tok))) < per_token_rpm l"
    "sql_tool tool \<Longrightarrow> int (length (prune 60 now (token_sql_windows l tok))) < per_tool_sql_rpm l"
    "concurrency l tok < max_concurrent_per_token l"
    by (auto simp: check_rate_limits_def c Let_def same_limits_def count_in_window_def
        split: if_splits)
qed


lemma sees_pruned:
  assumes "window_sees w ts T" "T \<le> now" "w' \<in> {w, prune 60 now w}"
  shows "window_sees w' ts now"
  using assms sw.sees_later [of w ts T now] sw.sees_count [of w ts T now]
  by (auto simp: count_in_window_def Let_def)

lemma log_rel_pruned:
  "log_rel l lg T \<Longrightarrow> T \<le> now \<Longrightarrow> pruned_by_check l l' now \<Longrightarrow> log_rel l' lg now"
  unfolding log_rel_def pruned_by_check_def using sees_pruned by meson

lemma log_bound_same: "same_limits l l' \<Longrightarrow> log_bound l' lg = log_bound l lg"
  by (simp add: log_bound_def same_limits_def)

lemma same_limits_refl [simp]: "same_limits l l"
  by (simp add: same_limits_def)

lemma same_limits_trans: "same_limits l l' \<Longrightarrow> same_limits l' l'' \<Longrightarrow> same_limits l l''"
  by (simp add: same_limits_def)

lemma record_request_windows:
  "global_window (record_request l tok tool r) = record_event (global_window l) r"
  "token_windows (record_request l tok tool r) t =
     (if t = tok then record_event (token_windows l t) r else token_windows l t)"
  "token_sql_windows (record_request l tok tool r) t =
     (if t = tok \<and> sql_tool tool then record_event (token_sql_windows l t) r
      else token_sql_windows l t)"
  "same_limits l (record_request l tok tool r)"
  "concurrency (record_request l tok tool r) = concurrency l"
  "ip_blocks (record_request l tok tool r) = ip_blocks l"
  by (auto simp: record_request_def Let_def same_limits_def)

lemma note_room:
  assumes "window_sees w ts T" "T \<le> now" "now \<le> r" "int (length (prune 60 now w)) < n"
    "minute_bound (nat n) ts"
  shows "minute_bound (nat n) (ts @ [r])"
  by (rule sw.note_keeps_bound [OF assms(1,2,3)])
    (use assms in \<open>auto simp: count_in_window_def Let_def\<close>)

lemma serve_step:
  assumes rel: "log_rel l lg T" and bound: "log_bound l lg"
    and clock: "T \<le> now" "now \<le> now_ip" "now_ip \<le> r"
    and chk: "check_rate_limits l tok tool ip now now_ip = (None, l1)"
  shows "log_rel (record_request l1 tok tool r) (lg @ [(tok, tool, r)]) r"
    and "log_bound (record_request l1 tok tool r) (lg @ [(tok, tool, r)])"
    and "same_limits l (record_request l1 tok tool r)"
proof -
  have r: "now \<le> r" using clock by linarith
  note pass = check_rate_limits_passed [of l tok tool ip now now_ip, unfolded chk, simplified]
  have pr: "pruned_by_check l l1 now"
    using check_rate_limits_pruned [of l tok tool ip now now_ip] chk by simp
  then have same: "same_limits l l1" by (simp add: pruned_by_check_def)
  then show sl: "same_limits l (record_request l1 tok tool r)"
    using record_request_windows(4) same_limits_trans by blast
  have rel1: "log_rel l1 lg now" by (rule log_rel_pruned [OF rel clock(1) pr])
  then have rel2: "log_rel l1 lg r" by (rule log_rel_later) (rule r)
  show "log_rel (record_request l1 tok tool r) (lg @ [(tok, tool, r)]) r"
    using rel1 rel2 sw.sees_note [OF _ r]
    unfolding log_rel_def by (auto simp: record_request_windows)
  have "minute_bound (nat (global_rpm l)) (times any_entry lg @ [r])"
    using rel bound pass(1) by (intro note_room [OF _ clock(1) r]) (auto simp: log_rel_def log_bound_def)
  moreover have "minute_bound (nat (per_token_rpm l)) (times (of_token tok) lg @ [r])"
    using rel bound pass(2) by (intro note_room [OF _ clock(1) r]) (auto simp: log_rel_def log_bound_def)
  moreover have "minute_bound (nat (per_tool_sql_rpm l)) (times (sql_of_token tok) lg @ [r])"
    if "sql_tool tool"
    using rel bound pass(3) [OF that]
    by (intro note_room [OF _ clock(1) r]) (auto simp: log_rel_def log_bound_def)
  ultimately have "log_bound l (lg @ [(tok, tool, r)])"
    using bound by (auto simp: log_bound_def)
  then show "log_bound (record_request l1 tok tool r) (lg @ [(tok, tool, r)])"
    using log_bound_same [OF sl] by simp
qed

lemma auth_failure_frame:
  "log_rel (snd (record_auth_failure l ip now)) lg T = log_rel l lg T"
  "same_limits l (snd (record_auth_failure l ip now))"
  "concurrency (snd (record_auth_failure l ip now)) = concurrency l"
  by (auto simp: record_auth_failure_def Let_def log_rel_def same_limits_def split: prod.splits)

lemma concurrency_ops_frame:
  "log_rel (snd (acquire_concurrency l tok)) lg T = log_rel l lg T"
  "same_limits l (snd (acquire_concurrency l tok))"
  "log_rel (release_concurrency l tok) lg T = log_rel l lg T"
  "same_limits l (release_concurrency l tok)"
  by (auto simp: acquire_concurrency_def release_concurrency_def log_rel_def same_limits_def)

lemma limiter_step_log [step_invs]:
  assumes "log_rel l lg T" "log_bound l lg" "clock_ok T x" "limiter_step l x = (new, l')"
  shows "log_rel l' (lg @ new) (clock_after T x) \<and> log_bound l' (lg @ new) \<and> same_limits l l'"
proof (cases x)
  case (Serve tok tool ip now now_ip r)
  obtain c l1 where chk: "check_rate_limits l tok tool ip now now_ip = (c, l1)" by fastforce
  have clock: "T \<le> now" "now \<le> now_ip" "now_ip \<le> r" using assms(3) Serve by auto
  show ?thesis
  proof (cases c)
    case None
    with serve_step [OF assms(1,2) clock] chk Serve assms(4) show ?thesis by auto
  next
    case (Some e)
    have pr: "pruned_by_check l l1 now"
      using check_rate_limits_pruned [of l tok tool ip now now_ip] chk by simp
    have "log_rel l1 lg now" by (rule log_rel_pruned [OF assms(1) clock(1) pr])
    then have "log_rel l1 lg r" by (rule log_rel_later) (use clock in linarith)
    moreover have "same_limits l l1" using pr by (simp add: pruned_by_check_def)
    ultimately show ?thesis
      using Serve Some chk assms log_bound_same by auto
  qed
next
  case (CheckOnly tok tool ip now now_ip)
  have clock: "T \<le> now" "now \<le> now_ip" using assms(3) CheckOnly by auto
  have pr: "pruned_by_check l l' now"
    using check_rate_limits_pruned [of l tok tool ip now now_ip] assms(4) CheckOnly by simp
  have "log_rel l' lg now" by (rule log_rel_pruned [OF assms(1) clock(1) pr])
  then have "log_rel l' lg now_ip" by (rule log_rel_later) (rule clock)
  moreover have "same_limits l l'" using pr by (simp add: pruned_by_check_def)
  ultimately show ?thesis using CheckOnly assms log_bound_same by auto
qed (use assms auth_failure_frame concurrency_ops_frame log_rel_later
    log_bound_same [OF auth_failure_frame(2)] log_bound_same [OF concurrency_ops_frame(2)]
    log_bound_same [OF concurrency_ops_frame(4)] in auto)

lemma limiter_run_log:
  assumes "log_rel l lg T" "log_bound l lg" "clocks_ok T xs" "limiter_run l xs = (new, l')"
  shows "log_bound l (lg @ new)"
  using assms
proof (induction xs arbitrary: l lg T new)
  case Nil
  then show ?case by simp
next
  case (Cons x xs)
  obtain n1 l1 where s: "limiter_step l x = (n1, l1)" by fastforce
  obtain n2 l2 where r: "limiter_run l1 xs = (n2, l2)" by fastforce
  have new: "new = n1 @ n2" "l' = l2" using Cons.prems(4) s r by simp_all
  have c: "clock_ok T x" "clocks_ok (clock_after T x) xs" using Cons.prems(3) by simp_all
  have st: "log_rel l1 (lg @ n1) (clock_after T x)" "log_bound l1 (lg @ n1)" "same_limits l l1"
    using limiter_step_log [OF Cons.prems(1,2) c(1) s] by auto
  have "log_bound l1 ((lg @ n1) @ n2)"
    by (rule Cons.IH [OF st(1,2) c(2)]) (use r new in simp)
  then show ?case using log_bound_same [OF st(3)] new by simp
qed

lemma log_rel_new: "log_rel (new_limiter a b c d e f) [] T" "log_bound l []"
  by (auto simp: log_rel_def new_limiter_def window_sees_def log_bound_def minute_bound_def in_minute_def)


section \<open>Blocked addresses and slots in flight\<close>

fun clock_end :: "real \<Rightarrow> limiter_op list \<Rightarrow> real" where
  "clock_end T [] = T"
| "clock_end T (x # xs) = clock_end (clock_after T x) xs"

lemma clock_after_mono: "clock_ok T x \<Longrightarrow> T \<le> clock_after T x"
  by (cases x) auto

lemma clock_end_mono: "clocks_ok T xs \<Longrightarrow> T \<le> clock_end T xs"
  by (induction xs arbitrary: T) (auto dest: clock_after_mono intro: order_trans)

definition blocked_until :: "limiter \<Rightarrow> string \<Rightarrow> real \<Rightarrow> bool" where
  "blocked_until l ip u \<longleftrightarrow> (\<exists>v. ip_blocks l ip = Some v \<and> u \<le> v)"

lemma check_ip_blocked_keeps:
  assumes "blocked_until l ip u" "t < u" "0 < u"
  shows "blocked_until (snd (check_ip_blocked l ip' t)) ip u"
    and "fst (check_ip_blocked l ip t) = Some IpBlocked"
  using assms by (auto simp: check_ip_blocked_def blocked_until_def split: option.splits)

lemma check_rate_limits_blocks:
  "ip_blocks (snd (check_rate_limits l tok tool ip now t)) = ip_blocks (snd (check_ip_blocked l ip t))"
  "fst (check_ip_blocked l ip t) = Some c \<Longrightarrow> fst (check_rate_limits l tok tool ip now t) = Some c"
  by (auto simp: check_rate_limits_def Let_def split: prod.splits)

lemma limiter_step_Serve:
  "limiter_step l (Serve tok tool ip now now_ip r) =
     (let c = check_rate_limits l tok tool ip now now_ip
      in if fst c = None then ([(tok, tool, r)], record_request (snd c) tok tool r)
         else ([], snd c))"
  by (simp add: Let_def split: prod.splits)

lemma check_rate_limits_frame:
  "same_limits l (snd (check_rate_limits l tok tool ip now t))"
  "concurrency (snd (check_rate_limits l tok tool ip now t)) = concurrency l"
  using check_rate_limits_pruned [of l tok tool ip now t] by (simp_all add: pruned_by_check_def)

lemma limiter_step_limits: "limiter_step l x = (new, l') \<Longrightarrow> same_limits l l'"
proof (cases x)
  case (Serve tok tool ip now now_ip r)
  assume "limiter_step l x = (new, l')"
  then have "l' \<in> {record_request (snd (check_rate_limits l tok tool ip now now_ip)) tok tool r,
      snd (check_rate_limits l tok tool ip now now_ip)}"
    using Serve by (auto simp only: limiter_step_Serve Let_def prod.inject split: if_splits)
  then show ?thesis
    using check_rate_limits_frame(1) record_request_windows(4) same_limits_trans by blast
qed (auto simp: check_rate_limits_frame auth_failure_frame concurrency_ops_frame)

lemma limiter_step_blocks:
  assumes "limiter_step l (Serve tok tool ip now now_ip r) = (new, l')"
  shows "ip_blocks l' = ip_blocks (snd (check_ip_blocked l ip now_ip))"
    and "concurrency l' = concurrency l"
  using assms
  by (auto simp only: limiter_step_Serve Let_def prod.inject check_rate_limits_blocks
      record_request_windows check_rate_limits_frame split: if_splits)

lemma limiter_step_keeps_block:
  assumes b: "blocked_until l ip u" and c: "clock_ok T x" "clock_after T x < u" and u: "0 < u"
    and d: "u \<le> T + real_of_int (ip_block_duration_s l)" and s: "limiter_step l x = (new, l')"
  shows "blocked_until l' ip u"
proof (cases x)
  case (Serve tok tool ip' now now_ip r)
  then show ?thesis
    using limiter_step_blocks(1) s check_ip_blocked_keeps(1) [OF b _ u, of now_ip ip'] c
    by (simp add: blocked_until_def del: limiter_step.simps)
next
  case (CheckOnly tok tool ip' now now_ip)
  then have "ip_blocks l' = ip_blocks (snd (check_ip_blocked l ip' now_ip))"
    using s by (auto simp: check_rate_limits_blocks)
  then show ?thesis
    using check_ip_blocked_keeps(1) [OF b _ u, of now_ip ip'] c CheckOnly
    by (simp add: blocked_until_def)
next
  case (AuthFailure ip' now)
  then show ?thesis
    using s b c d by (auto simp: blocked_until_def record_auth_failure_def Let_def
        split: prod.splits if_splits)
qed (use s b in \<open>auto simp: blocked_until_def acquire_concurrency_def release_concurrency_def\<close>)

lemma limiter_run_keeps_block:
  assumes "blocked_until l ip u" "clocks_ok T xs" "clock_end T xs < u" "0 < u"
    and "u \<le> T + real_of_int (ip_block_duration_s l)" "limiter_run l xs = (new, l')"
  shows "blocked_until l' ip u"
  using assms
proof (induction xs arbitrary: l T new)
  case Nil
  then show ?case by simp
next
  case (Cons x xs)
  obtain n1 l1 where s: "limiter_step l x = (n1, l1)" by fastforce
  obtain n2 l2 where r: "limiter_run l1 xs = (n2, l2)" by fastforce
  have l2: "l' = l2" using Cons.prems(6) s r by simp
  have c: "clock_ok T x" "clocks_ok (clock_after T x) xs" "clock_end (clock_after T x) xs < u"
    using Cons.prems(2,3) by simp_all
  have t: "clock_after T x < u" using clock_end_mono [OF c(2)] c(3) by linarith
  have l1: "blocked_until l1 ip u"
    by (rule limiter_step_keeps_block [OF Cons.prems(1) c(1) t Cons.prems(4,5) s])
  have d: "ip_block_duration_s l1 = ip_block_duration_s l"
    using limiter_step_limits [OF s] by (simp add: same_limits_def)
  have e: "u \<le> clock_after T x + real_of_int (ip_block_duration_s l1)"
    using Cons.prems(5) clock_after_mono [OF c(1)] d by linarith
  show ?case using Cons.IH [OF l1 c(2,3) Cons.prems(4) e] r l2 by blast
qed

definition slots_ok :: "limiter \<Rightarrow> bool" where
  "slots_ok l \<longleftrightarrow> (\<forall>t. 0 \<le> concurrency l t \<and> concurrency l t \<le> max_concurrent_per_token l)"

lemma limiter_step_slots [step_invs]:
  assumes ok: "slots_ok l" and s: "limiter_step l x = (new, l')"
  shows "slots_ok l'"
proof -
  have m: "max_concurrent_per_token l' = max_concurrent_per_token l"
    using limiter_step_limits [OF s] by (simp add: same_limits_def)
  show ?thesis
  proof (cases x)
    case (Serve tok tool ip now now_ip r)
    then show ?thesis using limiter_step_blocks(2) s ok m
      by (simp add: slots_ok_def del: limiter_step.simps)
  next
    case (Release tok)
    have "0 \<le> concurrency l t" "concurrency l t \<le> max_concurrent_per_token l" for t
      using ok by (auto simp: slots_ok_def)
    moreover from this have "0 \<le> max_concurrent_per_token l" by (meson order_trans)
    moreover have "concurrency l tok - 1 \<le> max_concurrent_per_token l"
      using calculation(2) [of tok] by linarith
    ultimately show ?thesis
      using s Release m by (auto simp: release_concurrency_def slots_ok_def max_def)
  next
    case (CheckOnly tok tool ip now now_ip)
    then have "concurrency l' = concurrency l" using s by (auto simp: check_rate_limits_frame)
    then show ?thesis using ok m by (simp add: slots_ok_def)
  next
    case (AuthFailure ip now)
    then have "concurrency l' = concurrency l" using s by (auto simp: auth_failure_frame)
    then show ?thesis using ok m by (simp add: slots_ok_def)
  next
    case (Acquire tok)
    then have "concurrency l' = (if concurrency l tok \<ge> max_concurrent_per_token l
        then concurrency l else (concurrency l)(tok := concurrency l tok + 1))"
      using s by (auto simp: acquire_concurrency_def)
    then show ?thesis using ok m by (simp add: slots_ok_def)
  qed
qed

lemma limiter_run_slots: "slots_ok l \<Longrightarrow> limiter_run l xs = (new, l') \<Longrightarrow> slots_ok l'"
  by (induction xs arbitrary: l new) (auto split: prod.splits dest: limiter_step_slots)

lemma limiter_run_limits: "limiter_run l xs = (new, l') \<Longrightarrow> same_limits l l'"
  by (induction xs arbitrary: l new)
    (auto split: prod.splits dest: limiter_step_limits intro: same_limits_trans)

section \<open>Properties\<close>

text \<open>
  C1. Rate limits are enforced: over any run of the limiter from its initial state, with a clock
  that does not go back, every window of 60 seconds contains at most \<open>global_rpm\<close> admitted
  requests, at most \<open>per_token_rpm\<close> of each token and at most \<open>per_tool_sql_rpm\<close> SQL requests
  of each token, whatever checks, failures and slot operations are interleaved.
\<close>

theorem rate_limits_enforced:
  assumes "clocks_ok T xs"
    and "limiter_run (new_limiter tok_rpm ip_lim ip_dur glob_rpm sql_rpm max_conc) xs = (lg, l')"
  shows "minute_bound (nat glob_rpm) (times any_entry lg)
    \<and> (\<forall>tok. minute_bound (nat tok_rpm) (times (of_token tok) lg))
    \<and> (\<forall>tok. minute_bound (nat sql_rpm) (times (sql_of_token tok) lg))"
  using limiter_run_log [OF log_rel_new assms] by (simp add: log_bound_def new_limiter_def)

theorem rate_limits_enforced_witness:
  "limiter_run (new_limiter 1 5 300 2 1 3)
     [Serve ''a'' ''sql'' ''ip'' 0 0 1, Serve ''a'' ''sql'' ''ip'' 50 50 50,
      Serve ''b'' ''sql'' ''ip'' 51 51 52, Serve ''c'' ''get'' ''ip'' 53 53 53]
     = ([(''a'', ''sql'', 1), (''b'', ''sql'', 52)],
        snd (limiter_run (new_limiter 1 5 300 2 1 3)
     [Serve ''a'' ''sql'' ''ip'' 0 0 1, Serve ''a'' ''sql'' ''ip'' 50 50 50,
      Serve ''b'' ''sql'' ''ip'' 51 51 52, Serve ''c'' ''get'' ''ip'' 53 53 53]))
   \<and> minute_bound 2 [1, 52]" (is "?run = (?lg, ?l) \<and> _")
proof -
  have run: "?run = (?lg, ?l)"
    by (simp add: new_limiter_def check_rate_limits_def check_ip_blocked_def count_in_window_def
        prune_def record_request_def record_event_def sql_tool_def Let_def)
  have "clocks_ok 0 [Serve ''a'' ''sql'' ''ip'' 0 0 1, Serve ''a'' ''sql'' ''ip'' 50 50 50,
      Serve ''b'' ''sql'' ''ip'' 51 51 52, Serve ''c'' ''get'' ''ip'' 53 53 53]"
    by simp
  from rate_limits_enforced [OF this run] run show ?thesis by (simp add: times_def)
qed

text \<open>
  An address with too many failed authentications stays blocked: once
  \<^verbatim>\<open>record_auth_failure\<close> reports the block, every check of a request from that address is
  refused until the block time is over, whatever operations run in between.
\<close>

theorem auth_failures_block_address:
  assumes "record_auth_failure l ip now = (Some IpBlocked, l1)"
    and "0 < now + real_of_int (ip_block_duration_s l)"
    and "clocks_ok now xs" and "limiter_run l1 xs = (lg, l2)"
    and "clock_end now xs \<le> t" and "t < now + real_of_int (ip_block_duration_s l)"
  shows "fst (check_rate_limits l2 tok tool ip t' t) = Some IpBlocked
    \<and> 0 < get_ip_block_remaining l2 ip t"
proof -
  let ?u = "now + real_of_int (ip_block_duration_s l)"
  have "blocked_until l1 ip ?u" "ip_block_duration_s l1 = ip_block_duration_s l"
    using assms(1) by (auto simp: record_auth_failure_def blocked_until_def Let_def
        split: prod.splits if_splits)
  then have b: "blocked_until l2 ip ?u"
    using limiter_run_keeps_block [OF _ assms(3) _ assms(2) _ assms(4)] assms(5,6) by simp
  have "fst (check_rate_limits l2 tok tool ip t' t) = Some IpBlocked"
    using check_rate_limits_blocks(2) check_ip_blocked_keeps(2) [OF b assms(6) assms(2)] by blast
  moreover have "0 < get_ip_block_remaining l2 ip t"
    using b assms(2,6) by (auto simp: blocked_until_def get_ip_block_remaining_def)
  ultimately show ?thesis ..
qed

theorem auth_failures_block_address_witness:
  "fst (check_rate_limits (snd (record_auth_failure (new_limiter 9 1 300 9 9 9) ''ip'' 7))
     ''tok'' ''sql'' ''ip'' 100 100) = Some IpBlocked"
proof -
  have "record_auth_failure (new_limiter 9 1 300 9 9 9) ''ip'' 7 =
      (Some IpBlocked, snd (record_auth_failure (new_limiter 9 1 300 9 9 9) ''ip'' 7))"
    by (simp add: record_auth_failure_def new_limiter_def count_and_record_def prune_def Let_def)
  from auth_failures_block_address [OF this, of "[]" "[]" _ 100]
  show ?thesis by (simp add: new_limiter_def)
qed

text \<open>
  Requests in flight: from the initial state no run brings a token's counter below 0 or above
  \<open>max_concurrent_per_token\<close>; a slot is granted exactly when the counter is below the limit, and
  releasing a granted slot restores the counter.
\<close>

theorem concurrency_slots:
  assumes "0 \<le> max_conc"
    and "limiter_run (new_limiter tok_rpm ip_lim ip_dur glob_rpm sql_rpm max_conc) xs = (lg, l)"
  shows "0 \<le> concurrency l tok \<and> concurrency l tok \<le> max_conc
    \<and> (fst (acquire_concurrency l tok) \<longleftrightarrow> concurrency l tok < max_conc)
    \<and> (fst (acquire_concurrency l tok) \<longrightarrow>
         concurrency (release_concurrency (snd (acquire_concurrency l tok)) tok) = concurrency l)"
proof -
  have "slots_ok (new_limiter tok_rpm ip_lim ip_dur glob_rpm sql_rpm max_conc)"
    using assms(1) by (simp add: slots_ok_def new_limiter_def)
  then have "slots_ok l" using assms(2) by (rule limiter_run_slots)
  moreover have "max_concurrent_per_token l = max_conc"
    using limiter_run_limits [OF assms(2)] by (simp add: same_limits_def new_limiter_def)
  ultimately show ?thesis
    by (auto simp: slots_ok_def acquire_concurrency_def release_concurrency_def fun_eq_iff)
qed

theorem concurrency_slots_witness:
  "fst (acquire_concurrency
     (snd (limiter_run (new_limiter 9 5 300 9 9 1) [Acquire ''t'', Release ''t''])) ''t'')"
proof -
  have run: "limiter_run (new_limiter 9 5 300 9 9 1) [Acquire ''t'', Release ''t''] =
    ([], snd (limiter_run (new_limiter 9 5 300 9 9 1) [Acquire ''t'', Release ''t'']))"
    by (simp add: split_beta)
  show ?thesis
    using concurrency_slots [OF _ run, of "''t''"]
    by (simp add: new_limiter_def acquire_concurrency_def release_concurrency_def)
qed

end
