(* ===== verification/DeductionQueue.thy ===== *)
theory DeductionQueue
  imports Prelude
begin

text \<open>
  The persistent queue of credit deductions (app/services/deduction_queue.py).  The table
  \<^verbatim>\<open>deductions\<close> is a list of rows in insertion order together with the id sequence; every
  \<^verbatim>\<open>with engine.begin()\<close> block of the source is one atomic function on it.  Time stamps are
  seconds as reals.  The HTTP reply of ai-market, the clock and the random jitter are arguments.
\<close>

definition MAX_ATTEMPTS :: int where "MAX_ATTEMPTS = 5"
definition MAX_BACKOFF :: real where "MAX_BACKOFF = 300"
definition LEASE_TTL :: real where "LEASE_TTL = 300"
definition CLAIM_BATCH_SIZE :: nat where "CLAIM_BATCH_SIZE = 10"

datatype dstatus = Pending | Processing | Completed | FailedTerminal | FailedRetryable | DeadLetter

text \<open>The payload dictionary: the keys the queue reads (a missing key is \<open>None\<close>).\<close>

record payload =
  pl_user_id :: "string option"
  pl_idempotency_key :: "string option"
  pl_amount_cents :: "int option"

record row =
  row_id :: int
  r_user_id :: string
  r_key :: string
  r_payload :: payload
  created_at :: real
  next_retry_at :: real
  attempt_count :: int
  last_error :: "string option"
  rstatus :: dstatus
  r_worker :: "string option"
  leased_at :: "real option"

record table =
  rows :: "row list"
  id_seq :: int

datatype qerror = KeyError string

text \<open>\<^verbatim>\<open>UPDATE ... WHERE p SET f\<close>.\<close>

definition update_where :: "(row \<Rightarrow> bool) \<Rightarrow> (row \<Rightarrow> row) \<Rightarrow> table \<Rightarrow> table" where
  "update_where p f t = t\<lparr>rows := map (\<lambda>r. if p r then f r else r) (rows t)\<rparr>"

text \<open>
  \<^verbatim>\<open>_calculate_backoff\<close>: the jitter is the value drawn by \<^verbatim>\<open>random.uniform(0, attempt_count * 2)\<close>.
\<close>

definition calculate_backoff :: "int \<Rightarrow> real \<Rightarrow> real" where
  "calculate_backoff attempt jitter = min MAX_BACKOFF (5 * 2 powi attempt) + jitter"

text \<open>A violated unique constraint is the \<open>False\<close> result; the id sequence advances anyway.\<close>

definition enqueue :: "payload \<Rightarrow> real \<Rightarrow> table \<Rightarrow> qerror + (bool \<times> table)" where
  "enqueue p now t =
     (case pl_user_id p of None \<Rightarrow> Inl (KeyError ''user_id'')
      | Some uid \<Rightarrow>
     (case pl_idempotency_key p of None \<Rightarrow> Inl (KeyError ''idempotency_key'')
      | Some key \<Rightarrow>
        (let t1 = t\<lparr>id_seq := id_seq t + 1\<rparr> in
         if key \<in> r_key ` set (rows t) then Inr (False, t1)
         else Inr (True, t1\<lparr>rows := rows t @
           [\<lparr>row_id = id_seq t, r_user_id = uid, r_key = key, r_payload = p, created_at = now,
             next_retry_at = now, attempt_count = 0, last_error = None, rstatus = Pending,
             r_worker = None, leased_at = None\<rparr>]\<rparr>))))"

record item =
  it_id :: int
  it_payload :: payload
  it_attempts :: int
  it_key :: string

definition item_of :: "row \<Rightarrow> item" where
  "item_of r = \<lparr>it_id = row_id r, it_payload = r_payload r, it_attempts = attempt_count r,
     it_key = r_key r\<rparr>"

text \<open>
  \<^verbatim>\<open>_claim_batch\<close>: \<open>locked\<close> are the row ids other open transactions hold (SKIP LOCKED).
\<close>

definition claimable :: "(int \<Rightarrow> bool) \<Rightarrow> real \<Rightarrow> row \<Rightarrow> bool" where
  "claimable locked now r \<longleftrightarrow> rstatus r = Pending \<and> next_retry_at r \<le> now \<and> \<not> locked (row_id r)"

definition claim_batch :: "(int \<Rightarrow> bool) \<Rightarrow> string \<Rightarrow> real \<Rightarrow> table \<Rightarrow> item list \<times> table" where
  "claim_batch locked worker now t =
     (let cand = take CLAIM_BATCH_SIZE (sort_key created_at (filter (claimable locked now) (rows t)));
          ids = row_id ` set cand
      in if cand = [] then ([], t)
         else let t1 = update_where (\<lambda>r. row_id r \<in> ids)
                (\<lambda>r. r\<lparr>rstatus := Processing, r_worker := Some worker, leased_at := Some now\<rparr>) t
              in (map item_of (sort_key created_at (filter (\<lambda>r. row_id r \<in> ids) (rows t1))), t1))"

text \<open>
  \<^verbatim>\<open>_attempt_send\<close>: the reply is a response with its status code and whether its body parses
  as JSON, a timeout, or any other exception of the client.  The result is
  \<open>(success, retryable, status_code)\<close>; the response data is not used by the caller.
\<close>

datatype http_reply = Response int bool | Timeout | NetworkError

fun attempt_send :: "http_reply \<Rightarrow> bool \<times> bool \<times> int" where
  "attempt_send (Response code json_ok) =
     (if \<not> json_ok then (if 500 \<le> code \<and> code < 600 then (False, True, code) else (False, False, code))
      else if code = 200 then (True, False, code)
      else if code = 402 then (False, False, code)
      else if code \<in> {400, 401, 403, 404} then (False, False, code)
      else if 500 \<le> code \<and> code < 600 then (False, True, code)
      else (False, False, code))"
| "attempt_send Timeout = (False, True, 0)"
| "attempt_send NetworkError = (False, True, 0)"

fun nat_digits :: "nat \<Rightarrow> string" where
  "nat_digits n =
     (if n < 10 then [char_of (48 + n)] else nat_digits (n div 10) @ [char_of (48 + n mod 10)])"

declare nat_digits.simps [simp del]

definition http_msg :: "int \<Rightarrow> string" where
  "http_msg code = ''HTTP '' @ (if code < 0 then ''-'' else []) @ nat_digits (nat \<bar>code\<bar>)"

text \<open>
  The transaction that records one reply (lines 222-287): \<open>now\<close> and \<open>jitter\<close> are read in the
  retry branch only.
\<close>

definition settle_item :: "item \<Rightarrow> http_reply \<Rightarrow> real \<Rightarrow> real \<Rightarrow> table \<Rightarrow> bool \<times> table" where
  "settle_item it reply now jitter t =
     (let (sent, retryable, code) = attempt_send reply; here = (\<lambda>r. row_id r = it_id it) in
      if sent then (True, update_where here (\<lambda>r. r\<lparr>rstatus := Completed\<rparr>) t)
      else if \<not> retryable then
        (let reason0 = (if code \<noteq> 0 then http_msg code else ''permanent_error'');
             reason = (if code = 402 then ''insufficient_funds'' else reason0)
         in (False, update_where here (\<lambda>r. r\<lparr>rstatus := FailedTerminal, last_error := Some reason\<rparr>) t))
      else
        (let new_attempt = it_attempts it + 1 in
         if new_attempt \<ge> MAX_ATTEMPTS then
           (False, update_where here (\<lambda>r. r\<lparr>rstatus := DeadLetter, attempt_count := new_attempt,
              last_error := Some ''max_attempts (5)''\<rparr>) t)
         else
           (let next_at = now + calculate_backoff new_attempt jitter;
                msg = (if code \<noteq> 0 then http_msg code else ''network_error'')
            in (False, update_where here (\<lambda>r. r\<lparr>rstatus := FailedRetryable,
                 attempt_count := new_attempt, next_retry_at := next_at, last_error := Some msg\<rparr>) t))))"

definition requeue_due :: "real \<Rightarrow> table \<Rightarrow> table" where
  "requeue_due now =
     update_where (\<lambda>r. rstatus r = FailedRetryable \<and> next_retry_at r \<le> now \<and> attempt_count r < MAX_ATTEMPTS)
       (\<lambda>r. r\<lparr>rstatus := Pending\<rparr>)"

text \<open>
  One undisturbed cycle of \<^verbatim>\<open>process_all_pending\<close>: \<open>env i\<close> is the reply, clock and jitter of the
  i-th item, \<open>t_claim\<close> and \<open>t_end\<close> the clock at the claim and at the final transaction.  With
  no claimed item the method returns before the final transaction.
\<close>

fun settle_items ::
  "(nat \<Rightarrow> http_reply \<times> real \<times> real) \<Rightarrow> nat \<Rightarrow> item list \<Rightarrow> table \<Rightarrow> int \<times> table" where
  "settle_items env i [] t = (0, t)"
| "settle_items env i (it # its) t =
     (let (reply, now, jitter) = env i;
          (ok, t1) = settle_item it reply now jitter t;
          (n, t2) = settle_items env (Suc i) its t1
      in ((if ok then 1 else 0) + n, t2))"

definition process_all_pending ::
  "(int \<Rightarrow> bool) \<Rightarrow> string \<Rightarrow> real \<Rightarrow> (nat \<Rightarrow> http_reply \<times> real \<times> real) \<Rightarrow> real \<Rightarrow> table \<Rightarrow> int \<times> table" where
  "process_all_pending locked worker t_claim env t_end t =
     (let (items, t1) = claim_batch locked worker t_claim t in
      if items = [] then (0, t1)
      else let (processed, t2) = settle_items env 0 items t1 in (processed, requeue_due t_end t2))"

definition expired :: "real \<Rightarrow> row \<Rightarrow> bool" where
  "expired now r \<longleftrightarrow> rstatus r = Processing \<and> (case leased_at r of None \<Rightarrow> False | Some l \<Rightarrow> l \<le> now - LEASE_TTL)"

definition monitor_expired_leases :: "real \<Rightarrow> table \<Rightarrow> int \<times> table" where
  "monitor_expired_leases now t =
     (let reset_count = int (length (filter (expired now) (rows t)));
          t1 = update_where (expired now)
            (\<lambda>r. r\<lparr>rstatus := Pending, r_worker := None, leased_at := None,
                  attempt_count := attempt_count r + 1, last_error := Some ''lease_expired''\<rparr>) t
      in if reset_count > 0
         then (reset_count,
               update_where (\<lambda>r. rstatus r = Pending \<and> attempt_count r \<ge> MAX_ATTEMPTS)
                 (\<lambda>r. r\<lparr>rstatus := DeadLetter, last_error := Some ''max_attempts after lease expiry''\<rparr>) t1)
         else (reset_count, t1))"

definition count_status :: "dstatus \<Rightarrow> table \<Rightarrow> int" where
  "count_status s t = int (length (filter (\<lambda>r. rstatus r = s) (rows t)))"

record qmetrics =
  queue_depth_pending :: int
  in_flight_processing :: int
  dead_letter_count :: int
  completed_count :: int
  failed_terminal_count :: int
  failed_retryable_count :: int

definition get_metrics :: "table \<Rightarrow> qmetrics" where
  "get_metrics t =
     \<lparr>queue_depth_pending = count_status Pending t, in_flight_processing = count_status Processing t,
      dead_letter_count = count_status DeadLetter t, completed_count = count_status Completed t,
      failed_terminal_count = count_status FailedTerminal t,
      failed_retryable_count = count_status FailedRetryable t\<rparr>"

text \<open>\<^verbatim>\<open>log_metrics\<close>: the critical alerts it writes.\<close>

datatype alert = DeadLetters int | QueueDepth int

definition log_metrics :: "table \<Rightarrow> alert list" where
  "log_metrics t =
     (let m = get_metrics t in
      (if dead_letter_count m > 0 then [DeadLetters (dead_letter_count m)] else []) @
      (if queue_depth_pending m > 100 then [QueueDepth (queue_depth_pending m)] else []))"

definition mark_completed :: "string \<Rightarrow> table \<Rightarrow> table" where
  "mark_completed key =
     update_where (\<lambda>r. r_key r = key \<and> rstatus r \<in> {Pending, Processing}) (\<lambda>r. r\<lparr>rstatus := Completed\<rparr>)"

definition mark_failed_terminal :: "string \<Rightarrow> string \<Rightarrow> table \<Rightarrow> table" where
  "mark_failed_terminal key err =
     update_where (\<lambda>r. r_key r = key \<and> rstatus r \<in> {Pending, Processing})
       (\<lambda>r. r\<lparr>rstatus := FailedTerminal, last_error := Some err\<rparr>)"

record completed_row =
  cr_id :: int
  cr_user_id :: string
  cr_key :: string
  cr_amount_cents :: int
  cr_created_at :: real

definition get_completed_last_24h :: "real \<Rightarrow> table \<Rightarrow> completed_row list" where
  "get_completed_last_24h now t =
     map (\<lambda>r. \<lparr>cr_id = row_id r, cr_user_id = r_user_id r, cr_key = r_key r,
              cr_amount_cents = (case pl_amount_cents (r_payload r) of None \<Rightarrow> 0 | Some a \<Rightarrow> a),
              cr_created_at = created_at r\<rparr>)
       (sort_key created_at
         (filter (\<lambda>r. rstatus r = Completed \<and> created_at r \<ge> now - 24 * 3600) (rows t)))"


section \<open>The queue with several workers\<close>

text \<open>
  Workers interleave between their transactions: \<open>q_flight w\<close> are the items worker \<open>w\<close> has
  claimed and not settled yet, \<open>q_sent\<close> the ids of the rows whose deduction ai-market accepted,
  in order.  A settled item is the worker's next one; a worker claims once (every call of
  \<^verbatim>\<open>process_all_pending\<close> draws a new worker id).  \<open>Monitor\<close> runs the two transactions of
  \<^verbatim>\<open>monitor_expired_leases\<close> one right after the other: a claim that commits between them is not
  a run of this system.
\<close>

record qsys =
  q_table :: table
  q_flight :: "string \<Rightarrow> item list"
  q_sent :: "int list"

datatype qop =
    Enqueue payload real
  | Claim string "int \<Rightarrow> bool" real
  | Settle string http_reply real real
  | Requeue real
  | Monitor real
  | MarkCompleted string
  | MarkFailed string string

fun qstep :: "qsys \<Rightarrow> qop \<Rightarrow> qsys" where
  "qstep s (Enqueue p now) =
     (case enqueue p now (q_table s) of Inl e \<Rightarrow> s | Inr (b, t) \<Rightarrow> s\<lparr>q_table := t\<rparr>)"
| "qstep s (Claim w locked now) =
     (if q_flight s w \<noteq> [] then s
      else let (its, t) = claim_batch locked w now (q_table s)
           in s\<lparr>q_table := t, q_flight := (q_flight s)(w := its)\<rparr>)"
| "qstep s (Settle w reply now jitter) =
     (case q_flight s w of [] \<Rightarrow> s
      | it # its \<Rightarrow>
          (let (ok, t) = settle_item it reply now jitter (q_table s)
           in s\<lparr>q_table := t, q_flight := (q_flight s)(w := its),
                q_sent := (if ok then q_sent s @ [it_id it] else q_sent s)\<rparr>))"
| "qstep s (Requeue now) = s\<lparr>q_table := requeue_due now (q_table s)\<rparr>"
| "qstep s (Monitor now) = s\<lparr>q_table := snd (monitor_expired_leases now (q_table s))\<rparr>"
| "qstep s (MarkCompleted key) = s\<lparr>q_table := mark_completed key (q_table s)\<rparr>"
| "qstep s (MarkFailed key err) = s\<lparr>q_table := mark_failed_terminal key err (q_table s)\<rparr>"

definition qrun :: "qsys \<Rightarrow> qop list \<Rightarrow> qsys" where
  "qrun = foldl qstep"

definition empty_queue :: qsys where
  "empty_queue = \<lparr>q_table = \<lparr>rows = [], id_seq = 1\<rparr>, q_flight = (\<lambda>_. []), q_sent = []\<rparr>"

lemma qrun_simps [simp]: "qrun s [] = s" "qrun s (x # xs) = qrun (qstep s x) xs"
  by (simp_all add: qrun_def)

lemma qrun_invariant:
  "(\<And>s x. P s \<Longrightarrow> P (qstep s x)) \<Longrightarrow> P s \<Longrightarrow> P (qrun s xs)"
  by (induction xs arbitrary: s) auto

subsection \<open>Facts about updates\<close>

lemma update_where_rows: "rows (update_where p f t) = map (\<lambda>r. if p r then f r else r) (rows t)"
  by (simp add: update_where_def)

lemma update_where_seq [simp]: "id_seq (update_where p f t) = id_seq t"
  by (simp add: update_where_def)

definition same_row :: "row \<Rightarrow> row \<Rightarrow> bool" where
  "same_row r r' \<longleftrightarrow> row_id r' = row_id r \<and> r_key r' = r_key r \<and> r_user_id r' = r_user_id r \<and>
     r_payload r' = r_payload r \<and> created_at r' = created_at r"

lemma same_row_trans: "same_row a b \<Longrightarrow> same_row b c \<Longrightarrow> same_row a c"
  by (simp add: same_row_def)

definition same_rows :: "table \<Rightarrow> table \<Rightarrow> bool" where
  "same_rows t t' \<longleftrightarrow> list_all2 same_row (rows t) (rows t') \<and> id_seq t' = id_seq t"

lemma same_rows_refl [simp]: "same_rows t t"
  by (simp add: same_rows_def list.rel_refl same_row_def)

lemma same_rows_trans:
  assumes "same_rows a b" "same_rows b c"
  shows "same_rows a c"
proof -
  have "list_all2 same_row (rows a) (rows b)" "list_all2 same_row (rows b) (rows c)"
    using assms by (simp_all add: same_rows_def)
  then have "list_all2 same_row (rows a) (rows c)"
    by (rule list_all2_trans [rotated]) (rule same_row_trans)
  then show ?thesis using assms by (simp add: same_rows_def)
qed

lemma update_where_same_rows: "(\<And>r. same_row r (f r)) \<Longrightarrow> same_rows t (update_where p f t)"
  by (auto simp: same_rows_def update_where_rows list_all2_conv_all_nth same_row_def)

lemma same_rows_map:
  "same_rows t t' \<Longrightarrow> map row_id (rows t') = map row_id (rows t) \<and> map r_key (rows t') = map r_key (rows t)"
  by (auto simp: same_rows_def list_all2_conv_all_nth same_row_def intro!: nth_equalityI)

text \<open>Every operation but \<^verbatim>\<open>enqueue\<close> only rewrites bookkeeping columns of existing rows.\<close>

lemma claim_same_rows: "same_rows t (snd (claim_batch locked w now t))"
  by (auto simp: claim_batch_def Let_def intro!: update_where_same_rows simp: same_row_def)

lemma settle_same_rows: "same_rows t (snd (settle_item it reply now jitter t))"
  by (auto simp: settle_item_def Let_def intro!: update_where_same_rows simp: same_row_def
      split: prod.splits)

lemma requeue_same_rows: "same_rows t (requeue_due now t)"
  by (auto simp: requeue_due_def intro!: update_where_same_rows simp: same_row_def)

lemma monitor_same_rows: "same_rows t (snd (monitor_expired_leases now t))"
  by (auto simp: monitor_expired_leases_def Let_def intro!: update_where_same_rows
      same_rows_trans [OF update_where_same_rows update_where_same_rows] simp: same_row_def)

lemma mark_same_rows: "same_rows t (mark_completed key t)" "same_rows t (mark_failed_terminal key err t)"
  by (auto simp: mark_completed_def mark_failed_terminal_def intro!: update_where_same_rows
      simp: same_row_def)

lemmas op_same_rows = claim_same_rows settle_same_rows requeue_same_rows monitor_same_rows mark_same_rows

lemma qstep_same_rows:
  "(\<forall>p now. x \<noteq> Enqueue p now) \<Longrightarrow> same_rows (q_table s) (q_table (qstep s x))"
  by (cases x) (auto simp: Let_def split_beta op_same_rows split: list.splits)

subsection \<open>Well-formed tables\<close>

definition live :: "row \<Rightarrow> bool" where
  "live r \<longleftrightarrow> rstatus r \<in> {Pending, Processing, FailedRetryable}"

definition ids_ok :: "table \<Rightarrow> bool" where
  "ids_ok t \<longleftrightarrow> distinct (map row_id (rows t)) \<and> distinct (map r_key (rows t)) \<and>
     (\<forall>i \<in> set (map row_id (rows t)). i < id_seq t)"

lemma ids_ok_same: "same_rows t t' \<Longrightarrow> ids_ok t \<Longrightarrow> ids_ok t'"
  using same_rows_map [of t t'] by (simp add: ids_ok_def same_rows_def)

lemma enqueue_ids: "enqueue p now t = Inr (b, t') \<Longrightarrow> ids_ok t \<Longrightarrow> ids_ok t'"
  by (fastforce simp: enqueue_def ids_ok_def Let_def split: option.splits if_splits)

lemma qstep_ids [step_invs]: "ids_ok (q_table s) \<Longrightarrow> ids_ok (q_table (qstep s x))"
proof (cases "\<exists>p now. x = Enqueue p now")
  case True
  assume "ids_ok (q_table s)"
  with True show ?thesis by (auto split: sum.splits dest: enqueue_ids)
next
  case False
  assume "ids_ok (q_table s)"
  moreover have "same_rows (q_table s) (q_table (qstep s x))" using False qstep_same_rows by blast
  ultimately show ?thesis using ids_ok_same by blast
qed


lemma row_id_inj: "ids_ok t \<Longrightarrow> r \<in> set (rows t) \<Longrightarrow> r' \<in> set (rows t) \<Longrightarrow> row_id r = row_id r' \<Longrightarrow> r = r'"
  by (auto simp: ids_ok_def distinct_map inj_on_def)

lemma row_key_inj: "ids_ok t \<Longrightarrow> r \<in> set (rows t) \<Longrightarrow> r' \<in> set (rows t) \<Longrightarrow> r_key r = r_key r' \<Longrightarrow> r = r'"
  by (auto simp: ids_ok_def distinct_map inj_on_def)

lemma distinct_rows: "ids_ok t \<Longrightarrow> distinct (rows t)"
  by (simp add: ids_ok_def distinct_map)

subsection \<open>What a claim takes\<close>

definition claim_cand :: "(int \<Rightarrow> bool) \<Rightarrow> real \<Rightarrow> table \<Rightarrow> row list" where
  "claim_cand locked now t =
     take CLAIM_BATCH_SIZE (sort_key created_at (filter (claimable locked now) (rows t)))"

definition claimed :: "string \<Rightarrow> real \<Rightarrow> row \<Rightarrow> row" where
  "claimed worker now r = r\<lparr>rstatus := Processing, r_worker := Some worker, leased_at := Some now\<rparr>"

lemma item_of_claimed [simp]: "item_of (claimed w now r) = item_of r"
  by (simp add: item_of_def claimed_def)

lemma claim_cand_set: "r \<in> set (claim_cand locked now t) \<Longrightarrow> r \<in> set (rows t) \<and> claimable locked now r"
  by (auto simp: claim_cand_def dest: in_set_takeD)

lemma claim_cand_oldest:
  assumes "r \<in> set (rows t)" "claimable locked now r" "r \<notin> set (claim_cand locked now t)"
  shows "length (claim_cand locked now t) = CLAIM_BATCH_SIZE
    \<and> (\<forall>c \<in> set (claim_cand locked now t). created_at c \<le> created_at r)"
proof -
  let ?S = "sort_key created_at (filter (claimable locked now) (rows t))"
  have S: "r \<in> set ?S" using assms by simp
  have split: "?S = claim_cand locked now t @ drop CLAIM_BATCH_SIZE ?S"
    by (simp add: claim_cand_def)
  then have r: "r \<in> set (drop CLAIM_BATCH_SIZE ?S)" using S assms(3) by (metis Un_iff set_append)
  then have "CLAIM_BATCH_SIZE < length ?S" by (cases "CLAIM_BATCH_SIZE < length ?S") auto
  moreover have "sorted (map created_at (claim_cand locked now t @ drop CLAIM_BATCH_SIZE ?S))"
    using split sorted_sort_key [of created_at] by metis
  then have "\<forall>c \<in> set (claim_cand locked now t). created_at c \<le> created_at r"
    using r by (auto simp only: map_append sorted_append set_map)
  ultimately show ?thesis by (simp add: claim_cand_def)
qed

lemma claim_batch_eq:
  assumes "ids_ok t"
  shows "claim_batch locked w now t =
    (map item_of (sort_key created_at (filter (\<lambda>r. r \<in> set (claim_cand locked now t)) (rows t))),
     t\<lparr>rows := map (\<lambda>r. if r \<in> set (claim_cand locked now t) then claimed w now r else r) (rows t)\<rparr>)"
proof -
  let ?c = "claim_cand locked now t"
  have mem: "r \<in> set (rows t) \<Longrightarrow> row_id r \<in> row_id ` set ?c \<longleftrightarrow> r \<in> set ?c" for r
    using claim_cand_set row_id_inj [OF assms] by (metis imageE imageI)
  have upd: "rows (update_where (\<lambda>r. row_id r \<in> row_id ` set ?c) (claimed w now) t) =
      map (\<lambda>r. if r \<in> set ?c then claimed w now r else r) (rows t)"
    using mem by (simp add: update_where_rows)
  have ids: "row_id (claimed w now r) = row_id r" "created_at (claimed w now r) = created_at r" for r
    by (simp_all add: claimed_def)
  have filt: "filter (\<lambda>r. row_id r \<in> row_id ` set ?c)
        (map (\<lambda>r. if r \<in> set ?c then claimed w now r else r) rs)
      = map (claimed w now) (filter (\<lambda>r. r \<in> set ?c) rs)" if "set rs \<subseteq> set (rows t)" for rs
    using that by (induction rs) (auto simp: ids mem)
  have sort_map: "sort_key created_at (map (claimed w now) xs) = map (claimed w now) (sort_key created_at xs)" for xs
  proof (induction xs)
    case (Cons x xs)
    have "insort_key created_at (claimed w now x) (map (claimed w now) ys)
        = map (claimed w now) (insort_key created_at x ys)" for ys
      by (induction ys) (auto simp: ids)
    with Cons show ?case by simp
  qed simp
  have tab: "update_where (\<lambda>r. row_id r \<in> row_id ` set ?c) (claimed w now) t =
      t\<lparr>rows := map (\<lambda>r. if r \<in> set ?c then claimed w now r else r) (rows t)\<rparr>"
    by (simp add: upd [symmetric] update_where_def)
  show ?thesis
  proof (cases "?c = []")
    case True
    then show ?thesis
      unfolding claim_batch_def Let_def claim_cand_def [symmetric] by simp
  next
    case False
    have "(\<lambda>r. r\<lparr>rstatus := Processing, r_worker := Some w, leased_at := Some now\<rparr>) = claimed w now"
      by (simp add: claimed_def fun_eq_iff)
    then show ?thesis
      using False unfolding claim_batch_def Let_def claim_cand_def [symmetric]
      by (simp add: tab filt sort_map comp_def)
  qed
qed

lemma claim_length:
  assumes "ids_ok t"
  shows "length (fst (claim_batch locked w now t)) = length (claim_cand locked now t)"
proof -
  let ?c = "claim_cand locked now t"
  have "distinct ?c" using distinct_rows [OF assms] by (simp add: claim_cand_def)
  moreover have "distinct (filter (\<lambda>r. r \<in> set ?c) (rows t))"
    using distinct_rows [OF assms] by simp
  moreover have "set (filter (\<lambda>r. r \<in> set ?c) (rows t)) = set ?c"
    using claim_cand_set by auto
  ultimately have "length (filter (\<lambda>r. r \<in> set ?c) (rows t)) = length ?c"
    by (metis distinct_card)
  then show ?thesis by (simp add: claim_batch_eq [OF assms])
qed

lemma claim_items:
  assumes "ids_ok t"
  shows "it \<in> set (fst (claim_batch locked w now t)) \<longleftrightarrow>
    (\<exists>r \<in> set (claim_cand locked now t). it = item_of r)"
  using claim_cand_set by (auto simp: claim_batch_eq [OF assms])

lemma claim_items_distinct:
  assumes "ids_ok t"
  shows "distinct (map it_id (fst (claim_batch locked w now t)))"
proof -
  have [simp]: "it_id (item_of r) = row_id r" for r by (simp add: item_of_def)
  then have "map it_id (fst (claim_batch locked w now t)) =
      map row_id (sort_key created_at (filter (\<lambda>r. r \<in> set (claim_cand locked now t)) (rows t)))"
    by (simp add: claim_batch_eq [OF assms])
  moreover have "inj_on row_id (set (rows t))" "distinct (rows t)"
    using assms by (auto simp: ids_ok_def distinct_map)
  ultimately show ?thesis by (auto simp: distinct_map inj_on_def)
qed


subsection \<open>Bounded attempts\<close>

definition attempts_ok :: "qsys \<Rightarrow> bool" where
  "attempts_ok s \<longleftrightarrow> ids_ok (q_table s) \<and>
     (\<forall>r \<in> set (rows (q_table s)). 0 \<le> attempt_count r \<and> attempt_count r \<le> MAX_ATTEMPTS \<and>
        (live r \<longrightarrow> attempt_count r < MAX_ATTEMPTS)) \<and>
     (\<forall>w. \<forall>it \<in> set (q_flight s w). 0 \<le> it_attempts it \<and> it_attempts it < MAX_ATTEMPTS)"

definition row_ok :: "row \<Rightarrow> bool" where
  "row_ok r \<longleftrightarrow> 0 \<le> attempt_count r \<and> attempt_count r \<le> MAX_ATTEMPTS \<and>
     (live r \<longrightarrow> attempt_count r < MAX_ATTEMPTS)"

lemma update_rows_ok:
  "\<forall>r \<in> set (rows t). row_ok r \<Longrightarrow> (\<And>r. row_ok r \<Longrightarrow> p r \<Longrightarrow> row_ok (f r)) \<Longrightarrow>
   \<forall>r \<in> set (rows (update_where p f t)). row_ok r"
  by (auto simp: update_where_rows)

lemma claim_rows_ok:
  assumes "ids_ok t" "\<forall>r \<in> set (rows t). row_ok r"
  shows "\<forall>r \<in> set (rows (snd (claim_batch locked w now t))). row_ok r"
    and "\<forall>it \<in> set (fst (claim_batch locked w now t)). 0 \<le> it_attempts it \<and> it_attempts it < MAX_ATTEMPTS"
proof -
  have c: "row_ok r \<and> live r" if "r \<in> set (claim_cand locked now t)" for r
    using claim_cand_set [OF that] assms(2) by (auto simp: claimable_def live_def)
  have "row_ok (claimed w now r)" if "r \<in> set (claim_cand locked now t)" for r
    using c [OF that] by (auto simp: claimed_def row_ok_def live_def)
  then show "\<forall>r \<in> set (rows (snd (claim_batch locked w now t))). row_ok r"
    using assms(2) by (auto simp: claim_batch_eq [OF assms(1)])
  show "\<forall>it \<in> set (fst (claim_batch locked w now t)). 0 \<le> it_attempts it \<and> it_attempts it < MAX_ATTEMPTS"
  proof
    fix it assume "it \<in> set (fst (claim_batch locked w now t))"
    then obtain r where "r \<in> set (claim_cand locked now t)" "it = item_of r"
      using claim_items [OF assms(1)] by blast
    with c show "0 \<le> it_attempts it \<and> it_attempts it < MAX_ATTEMPTS"
      by (fastforce simp: row_ok_def item_of_def)
  qed
qed

definition settle_effect :: "item \<Rightarrow> http_reply \<Rightarrow> real \<Rightarrow> real \<Rightarrow> row \<Rightarrow> row" where
  "settle_effect it reply now jitter r =
     (let (sent, retryable, code) = attempt_send reply; n = it_attempts it + 1 in
      if sent then r\<lparr>rstatus := Completed\<rparr>
      else if \<not> retryable then r\<lparr>rstatus := FailedTerminal, last_error := Some
        (if code = 402 then ''insufficient_funds'' else if code \<noteq> 0 then http_msg code
         else ''permanent_error'')\<rparr>
      else if n \<ge> MAX_ATTEMPTS
        then r\<lparr>rstatus := DeadLetter, attempt_count := n, last_error := Some ''max_attempts (5)''\<rparr>
      else r\<lparr>rstatus := FailedRetryable, attempt_count := n,
             next_retry_at := now + calculate_backoff n jitter,
             last_error := Some (if code \<noteq> 0 then http_msg code else ''network_error'')\<rparr>)"

lemma settle_item_eq:
  "settle_item it reply now jitter t =
     (fst (attempt_send reply),
      update_where (\<lambda>r. row_id r = it_id it) (settle_effect it reply now jitter) t)"
  by (cases "attempt_send reply")
    (auto simp: settle_item_def Let_def settle_effect_def update_where_def)

lemma settle_rows_ok:
  assumes "\<forall>r \<in> set (rows t). row_ok r" "0 \<le> it_attempts it" "it_attempts it < MAX_ATTEMPTS"
  shows "\<forall>r \<in> set (rows (snd (settle_item it reply now jitter t))). row_ok r"
proof -
  have "row_ok (settle_effect it reply now jitter r)" if "row_ok r" for r
    using that assms(2,3)
    by (cases "attempt_send reply") (simp add: settle_effect_def row_ok_def live_def Let_def)
  then show ?thesis unfolding settle_item_eq snd_conv by (rule update_rows_ok [OF assms(1)])
qed

lemma monitor_rows_ok:
  assumes "\<forall>r \<in> set (rows t). row_ok r"
  shows "\<forall>r \<in> set (rows (snd (monitor_expired_leases now t))). row_ok r"
proof (cases "\<exists>r \<in> set (rows t). expired now r")
  case True
  then have "filter (expired now) (rows t) \<noteq> []" by (auto simp: filter_empty_conv)
  then show ?thesis
    using assms by (auto simp: monitor_expired_leases_def Let_def update_where_rows row_ok_def
        live_def expired_def)
next
  case False
  then have "filter (expired now) (rows t) = []" by (simp add: filter_empty_conv)
  then show ?thesis
    using assms False by (auto simp: monitor_expired_leases_def Let_def update_where_rows)
qed

lemma requeue_rows_ok:
  "\<forall>r \<in> set (rows t). row_ok r \<Longrightarrow> \<forall>r \<in> set (rows (requeue_due now t)). row_ok r"
  unfolding requeue_due_def by (rule update_rows_ok) (auto simp: row_ok_def live_def)

lemma mark_rows_ok:
  "\<forall>r \<in> set (rows t). row_ok r \<Longrightarrow> \<forall>r \<in> set (rows (mark_completed key t)). row_ok r"
  "\<forall>r \<in> set (rows t). row_ok r \<Longrightarrow> \<forall>r \<in> set (rows (mark_failed_terminal key err t)). row_ok r"
  unfolding mark_completed_def mark_failed_terminal_def
  by (rule update_rows_ok; auto simp: row_ok_def live_def)+

lemma attempts_ok_alt:
  "attempts_ok s \<longleftrightarrow> ids_ok (q_table s) \<and> (\<forall>r \<in> set (rows (q_table s)). row_ok r) \<and>
     (\<forall>w. \<forall>it \<in> set (q_flight s w). 0 \<le> it_attempts it \<and> it_attempts it < MAX_ATTEMPTS)"
  by (simp add: attempts_ok_def row_ok_def)

lemma flight_step:
  "it \<in> set (q_flight (qstep s x) w) \<Longrightarrow> it \<in> set (q_flight s w) \<or>
     (\<exists>locked now. x = Claim w locked now \<and> it \<in> set (fst (claim_batch locked w now (q_table s))))"
  by (cases x) (auto simp: split_beta Let_def split: list.splits sum.splits if_splits)

lemma qstep_attempts [step_invs]:
  assumes ok: "attempts_ok s" shows "attempts_ok (qstep s x)"
proof -
  have ids: "ids_ok (q_table s)" and rows: "\<forall>r \<in> set (rows (q_table s)). row_ok r"
    and fl: "\<And>w it. it \<in> set (q_flight s w) \<Longrightarrow> 0 \<le> it_attempts it \<and> it_attempts it < MAX_ATTEMPTS"
    using ok by (auto simp: attempts_ok_alt)
  have "\<forall>r \<in> set (rows (q_table (qstep s x))). row_ok r"
  proof (cases x)
    case (Enqueue p now)
    then show ?thesis using rows
      by (auto simp: enqueue_def Let_def row_ok_def MAX_ATTEMPTS_def split: option.splits if_splits)
  next
    case (Claim w locked now)
    then show ?thesis using rows claim_rows_ok [OF ids rows] by (simp add: split_beta Let_def)
  next
    case (Settle w reply now jitter)
    show ?thesis
    proof (cases "q_flight s w")
      case Nil
      then show ?thesis using Settle rows by simp
    next
      case (Cons it its)
      have "0 \<le> it_attempts it" "it_attempts it < MAX_ATTEMPTS" using fl [of it w] Cons by simp_all
      from settle_rows_ok [OF rows this] Cons Settle show ?thesis by (simp add: split_beta Let_def)
    qed
  next
    case (Requeue now)
    then show ?thesis
      using requeue_rows_ok [OF rows] by simp
  next
    case (Monitor now)
    then show ?thesis using monitor_rows_ok [OF rows] by simp
  next
    case (MarkCompleted key)
    then show ?thesis
      using mark_rows_ok(1) [OF rows] by simp
  next
    case (MarkFailed key err)
    then show ?thesis
      using mark_rows_ok(2) [OF rows] by simp
  qed
  moreover have "\<forall>w. \<forall>it \<in> set (q_flight (qstep s x) w). 0 \<le> it_attempts it \<and> it_attempts it < MAX_ATTEMPTS"
    using fl claim_rows_ok(2) [OF ids rows] flight_step by blast
  ultimately show ?thesis using qstep_ids [OF ids] by (simp add: attempts_ok_alt)
qed


subsection \<open>Leases that do not expire under a worker\<close>

definition has_status :: "table \<Rightarrow> int \<Rightarrow> dstatus \<Rightarrow> bool" where
  "has_status t i st \<longleftrightarrow> (\<exists>r \<in> set (rows t). row_id r = i \<and> rstatus r = st)"

lemma has_status_unique: "ids_ok t \<Longrightarrow> has_status t i a \<Longrightarrow> has_status t i b \<Longrightarrow> a = b"
  by (auto simp: has_status_def dest: row_id_inj)

lemma has_status_update_iff:
  "has_status (update_where p f t) i st \<longleftrightarrow>
     (\<exists>r \<in> set (rows t). row_id (if p r then f r else r) = i \<and> rstatus (if p r then f r else r) = st)"
  by (simp only: has_status_def update_where_rows set_map bex_simps)

lemma has_status_update:
  assumes "has_status t i st"
    and "\<And>r. row_id r = i \<Longrightarrow> r \<in> set (rows t) \<Longrightarrow> rstatus r = st \<Longrightarrow> p r \<Longrightarrow> rstatus (f r) = st \<and> row_id (f r) = i"
  shows "has_status (update_where p f t) i st"
proof -
  obtain r where r: "r \<in> set (rows t)" "row_id r = i" "rstatus r = st"
    using assms(1) by (auto simp: has_status_def)
  then have "row_id (if p r then f r else r) = i \<and> rstatus (if p r then f r else r) = st"
    using assms(2) by simp
  with r(1) show ?thesis unfolding has_status_update_iff by blast
qed

text \<open>
  A step is quiet when it does not touch the row of an item in flight behind its worker's back:
  the monitor finds no such row expired, and the two legacy helpers are not called for its key.
\<close>

definition in_flight_rows :: "qsys \<Rightarrow> row \<Rightarrow> bool" where
  "in_flight_rows s r \<longleftrightarrow> r \<in> set (rows (q_table s)) \<and> (\<exists>w. \<exists>it \<in> set (q_flight s w). it_id it = row_id r)"

fun quiet :: "qsys \<Rightarrow> qop \<Rightarrow> bool" where
  "quiet s (Monitor now) = (\<forall>r. in_flight_rows s r \<longrightarrow> \<not> expired now r)"
| "quiet s (MarkCompleted key) = (\<forall>r. in_flight_rows s r \<longrightarrow> r_key r \<noteq> key)"
| "quiet s (MarkFailed key err) = (\<forall>r. in_flight_rows s r \<longrightarrow> r_key r \<noteq> key)"
| "quiet s x = True"

fun quiet_run :: "qsys \<Rightarrow> qop list \<Rightarrow> bool" where
  "quiet_run s [] = True"
| "quiet_run s (x # xs) = (quiet s x \<and> quiet_run (qstep s x) xs)"

definition lease_inv :: "qsys \<Rightarrow> bool" where
  "lease_inv s \<longleftrightarrow> ids_ok (q_table s) \<and>
     (\<forall>w. distinct (map it_id (q_flight s w))) \<and>
     (\<forall>w w' i j. i \<in> set (q_flight s w) \<longrightarrow> j \<in> set (q_flight s w') \<longrightarrow> it_id i = it_id j \<longrightarrow> w = w') \<and>
     (\<forall>w. \<forall>it \<in> set (q_flight s w). has_status (q_table s) (it_id it) Processing) \<and>
     distinct (q_sent s) \<and> (\<forall>i \<in> set (q_sent s). has_status (q_table s) i Completed)"

lemma claim_keeps_status:
  assumes "ids_ok t" "has_status t i st" "st \<noteq> Pending"
  shows "has_status (snd (claim_batch locked w now t)) i st"
proof -
  obtain r where r: "r \<in> set (rows t)" "row_id r = i" "rstatus r = st"
    using assms(2) by (auto simp: has_status_def)
  then have "r \<notin> set (claim_cand locked now t)"
    using claim_cand_set [of r locked now t] assms(3) by (auto simp: claimable_def)
  with r show ?thesis by (force simp: has_status_def claim_batch_eq [OF assms(1)])
qed

lemma claim_makes_processing:
  assumes "ids_ok t" "it \<in> set (fst (claim_batch locked w now t))"
  shows "has_status (snd (claim_batch locked w now t)) (it_id it) Processing"
    and "has_status t (it_id it) Pending"
proof -
  obtain r where r: "r \<in> set (claim_cand locked now t)" "it = item_of r"
    using claim_items [OF assms(1)] assms(2) by blast
  note r' = claim_cand_set [OF r(1)]
  show "has_status t (it_id it) Pending"
    using r r' by (auto simp: has_status_def item_of_def claimable_def)
  show "has_status (snd (claim_batch locked w now t)) (it_id it) Processing"
    using r r' unfolding has_status_def claim_batch_eq [OF assms(1)]
    by (intro bexI [of _ "claimed w now r"]) (auto simp: claimed_def item_of_def)
qed

lemma settle_status:
  assumes "has_status t i st" "i \<noteq> it_id it"
  shows "has_status (snd (settle_item it reply now jitter t)) i st"
  unfolding settle_item_eq snd_conv using assms by (intro has_status_update) auto

lemma settle_effect_id [simp]: "row_id (settle_effect it reply now jitter r) = row_id r"
  by (cases "attempt_send reply") (simp add: settle_effect_def Let_def)

lemma settle_completes:
  assumes "has_status t (it_id it) st" "fst (attempt_send reply)"
  shows "has_status (snd (settle_item it reply now jitter t)) (it_id it) Completed"
proof -
  have "rstatus (settle_effect it reply now jitter r) = Completed" for r
    using assms(2) by (cases "attempt_send reply") (simp add: settle_effect_def Let_def)
  with assms(1) show ?thesis
    unfolding settle_item_eq snd_conv has_status_update_iff by (auto simp: has_status_def)
qed

lemma requeue_status:
  "has_status t i st \<Longrightarrow> st \<noteq> FailedRetryable \<Longrightarrow> has_status (requeue_due now t) i st"
  unfolding requeue_due_def by (rule has_status_update) auto

lemma monitor_status:
  assumes "has_status t i st" "st \<notin> {Pending, Processing} \<or>
      (st = Processing \<and> (\<forall>r \<in> set (rows t). row_id r = i \<longrightarrow> \<not> expired now r))"
  shows "has_status (snd (monitor_expired_leases now t)) i st"
proof -
  let ?t1 = "update_where (expired now) (\<lambda>r. r\<lparr>rstatus := Pending, r_worker := None, leased_at := None,
                  attempt_count := attempt_count r + 1, last_error := Some ''lease_expired''\<rparr>) t"
  have 1: "has_status ?t1 i st"
    using assms(1) by (rule has_status_update) (use assms(2) in \<open>auto simp: expired_def\<close>)
  have "has_status (update_where (\<lambda>r. rstatus r = Pending \<and> attempt_count r \<ge> MAX_ATTEMPTS)
      (\<lambda>r. r\<lparr>rstatus := DeadLetter, last_error := Some ''max_attempts after lease expiry''\<rparr>) ?t1) i st"
    using 1 by (rule has_status_update) (use assms(2) in auto)
  with 1 show ?thesis by (simp add: monitor_expired_leases_def Let_def)
qed

lemma mark_status:
  assumes "has_status t i st" "st \<notin> {Pending, Processing} \<or> (\<forall>r \<in> set (rows t). row_id r = i \<longrightarrow> r_key r \<noteq> key)"
  shows "has_status (mark_completed key t) i st" "has_status (mark_failed_terminal key err t) i st"
  unfolding mark_completed_def mark_failed_terminal_def
  by (rule has_status_update [OF assms(1)], use assms(2) in auto)+

lemma enqueue_status: "enqueue p now t = Inr (b, t') \<Longrightarrow> has_status t i st \<Longrightarrow> has_status t' i st"
  by (auto simp: enqueue_def has_status_def Let_def split: option.splits if_splits)


lemma lease_invD:
  assumes "lease_inv s"
  shows "ids_ok (q_table s)" and "distinct (map it_id (q_flight s w))"
    and "i \<in> set (q_flight s w) \<Longrightarrow> j \<in> set (q_flight s w') \<Longrightarrow> it_id i = it_id j \<Longrightarrow> w = w'"
    and "i \<in> set (q_flight s w) \<Longrightarrow> has_status (q_table s) (it_id i) Processing"
    and "distinct (q_sent s)" and "k \<in> set (q_sent s) \<Longrightarrow> has_status (q_table s) k Completed"
  using assms unfolding lease_inv_def by blast+

lemma in_flight_not_sent:
  "lease_inv s \<Longrightarrow> i \<in> set (q_flight s w) \<Longrightarrow> it_id i \<notin> set (q_sent s)"
  using has_status_unique lease_invD(1,4,6) by blast

text \<open>A step by anyone but the worker itself leaves the row of an item in flight processing.\<close>

lemma quiet_keeps_processing:
  assumes inv: "lease_inv s" and q: "quiet s x" and i: "i \<in> set (q_flight s w)"
    and other: "\<And>w' reply now jitter it its. x = Settle w' reply now jitter \<Longrightarrow>
      q_flight s w' = it # its \<Longrightarrow> it_id it \<noteq> it_id i"
  shows "has_status (q_table (qstep s x)) (it_id i) Processing"
proof -
  note pr = lease_invD(4) [OF inv i] and ids = lease_invD(1) [OF inv]
  have fl: "in_flight_rows s r" if "r \<in> set (rows (q_table s))" "row_id r = it_id i" for r
    using that i by (auto simp: in_flight_rows_def intro: sym)
  show ?thesis
  proof (cases x)
    case (Enqueue p now)
    then show ?thesis using pr by (auto split: sum.splits dest: enqueue_status)
  next
    case (Claim w' locked now)
    then show ?thesis using pr claim_keeps_status [OF ids pr] by (simp add: split_beta Let_def)
  next
    case (Settle w' reply now jitter)
    show ?thesis
    proof (cases "q_flight s w'")
      case (Cons it its)
      then have "it_id i \<noteq> it_id it" using other [OF Settle Cons] by simp
      then show ?thesis using settle_status [OF pr] Settle Cons by (simp add: split_beta Let_def)
    qed (use Settle pr in simp)
  next
    case (Requeue now)
    then show ?thesis using requeue_status [OF pr] by simp
  next
    case (Monitor now)
    then show ?thesis using monitor_status [OF pr] q fl by simp
  next
    case (MarkCompleted key)
    then show ?thesis using mark_status(1) [OF pr] q fl by simp
  next
    case (MarkFailed key err)
    then show ?thesis using mark_status(2) [OF pr] q fl by simp
  qed
qed

lemma quiet_keeps_completed:
  assumes inv: "lease_inv s" and c: "has_status (q_table s) k Completed"
  shows "has_status (q_table (qstep s x)) k Completed"
proof -
  note ids = lease_invD(1) [OF inv]
  have ne: "it_id it \<noteq> k" if "it \<in> set (q_flight s w)" for it w
    using lease_invD(4) [OF inv that] c has_status_unique [OF ids] by blast
  show ?thesis
  proof (cases x)
    case (Enqueue p now)
    then show ?thesis using c by (auto split: sum.splits dest: enqueue_status)
  next
    case (Claim w' locked now)
    then show ?thesis using c claim_keeps_status [OF ids c] by (simp add: split_beta Let_def)
  next
    case (Settle w reply now jitter)
    show ?thesis
    proof (cases "q_flight s w")
      case (Cons it its)
      then have "k \<noteq> it_id it" using ne [of it w] by auto
      then show ?thesis using settle_status [OF c] Settle Cons by (simp add: split_beta Let_def)
    qed (use Settle c in simp)
  next
    case (Requeue now)
    then show ?thesis using requeue_status [OF c] by simp
  next
    case (Monitor now)
    then show ?thesis using monitor_status [OF c] by simp
  qed (use mark_status [OF c] in simp_all)
qed

lemma qstep_lease [step_invs]:
  assumes inv: "lease_inv s" and q: "quiet s x" shows "lease_inv (qstep s x)"
proof (cases "(\<exists>w reply now jitter. x = Settle w reply now jitter \<and> q_flight s w \<noteq> [])
    \<or> (\<exists>w locked now. x = Claim w locked now \<and> q_flight s w = [])")
  case False
  then have "q_flight (qstep s x) = q_flight s" "q_sent (qstep s x) = q_sent s"
    by (cases x; auto split: list.splits sum.splits)+
  moreover have "has_status (q_table (qstep s x)) (it_id i) Processing" if "i \<in> set (q_flight s w)" for i w
    by (rule quiet_keeps_processing [OF inv q that]) (use False in auto)
  ultimately show ?thesis
    using quiet_keeps_completed [OF inv] inv qstep_ids [OF lease_invD(1) [OF inv]]
    unfolding lease_inv_def by auto
next
  case True
  then show ?thesis
  proof (elim disjE exE conjE)
    fix w reply now jitter assume x: "x = Settle w reply now jitter" and ne: "q_flight s w \<noteq> []"
    obtain it its where fl: "q_flight s w = it # its" using ne by (cases "q_flight s w") auto
    let ?s = "qstep s x"
    have f': "q_flight ?s = (q_flight s)(w := its)"
      and sent: "q_sent ?s = (if fst (attempt_send reply) then q_sent s @ [it_id it] else q_sent s)"
      using x fl by (simp_all add: settle_item_eq)
    have sub: "set (q_flight ?s v) \<subseteq> set (q_flight s v)" for v using f' fl by auto
    have neq: "it_id i \<noteq> it_id it" if "i \<in> set (q_flight ?s v)" for i v
    proof (cases "v = w")
      case True
      then have "it_id i \<in> it_id ` set its" using that f' by simp
      then show ?thesis using lease_invD(2) [OF inv, of w] fl by (metis distinct.simps(2) list.set_map list.simps(9))
    next
      case False
      then show ?thesis using lease_invD(3) [OF inv, of it w i v] that f' fl by auto
    qed
    have "distinct (map it_id (q_flight ?s v))" for v
      using lease_invD(2) [OF inv, of v] f' fl by auto
    moreover have "has_status (q_table ?s) (it_id i) Processing" if "i \<in> set (q_flight ?s v)" for i v
      by (rule quiet_keeps_processing [OF inv q subsetD [OF sub that]])
        (use neq [OF that] x fl in auto)
    moreover have "v = v'" if "i \<in> set (q_flight ?s v)" "j \<in> set (q_flight ?s v')" "it_id i = it_id j" for i j v v'
      using lease_invD(3) [OF inv] sub that by blast
    moreover have "distinct (q_sent ?s)"
      using sent lease_invD(5) [OF inv] in_flight_not_sent [OF inv, of it w] fl by auto
    moreover have "has_status (q_table ?s) k Completed" if "k \<in> set (q_sent ?s)" for k
    proof (cases "k \<in> set (q_sent s)")
      case True
      then show ?thesis using quiet_keeps_completed [OF inv lease_invD(6) [OF inv]] by blast
    next
      case False
      then have k: "k = it_id it" "fst (attempt_send reply)" using that sent by (auto split: if_splits)
      have "has_status (q_table s) (it_id it) Processing" using lease_invD(4) [OF inv, of it w] fl by simp
      from settle_completes [OF this k(2)] k(1) x fl show ?thesis by (simp add: split_beta)
    qed
    ultimately show ?thesis
      using qstep_ids [OF lease_invD(1) [OF inv]] unfolding lease_inv_def by blast
  next
    fix w locked now assume x: "x = Claim w locked now" and e: "q_flight s w = []"
    let ?s = "qstep s x" and ?its = "fst (claim_batch locked w now (q_table s))"
    note ids = lease_invD(1) [OF inv]
    have f': "q_flight ?s = (q_flight s)(w := ?its)" and sent: "q_sent ?s = q_sent s"
      and tab: "q_table ?s = snd (claim_batch locked w now (q_table s))"
      using x e by (simp_all add: split_beta Let_def)
    have new: "it_id i \<noteq> it_id j" if "i \<in> set ?its" "j \<in> set (q_flight s v)" for i j v
      using claim_makes_processing(2) [OF ids that(1)] lease_invD(4) [OF inv that(2)]
        has_status_unique [OF ids] by fastforce
    have "distinct (map it_id (q_flight ?s v))" for v
      using lease_invD(2) [OF inv] claim_items_distinct [OF ids] f' by simp
    moreover have "has_status (q_table ?s) (it_id i) Processing" if "i \<in> set (q_flight ?s v)" for i v
    proof (cases "v = w")
      case True
      then show ?thesis using that f' tab claim_makes_processing(1) [OF ids] by simp
    next
      case False
      then show ?thesis using that f' quiet_keeps_processing [OF inv q] x by simp
    qed
    moreover have "v = v'" if "i \<in> set (q_flight ?s v)" "j \<in> set (q_flight ?s v')" "it_id i = it_id j" for i j v v'
      using that f' new lease_invD(3) [OF inv] by (auto split: if_splits) metis+
    ultimately show ?thesis
      using qstep_ids [OF ids] quiet_keeps_completed [OF inv] lease_invD(5,6) [OF inv] sent
      unfolding lease_inv_def by metis
  qed
qed

lemma quiet_run_lease: "lease_inv s \<Longrightarrow> quiet_run s xs \<Longrightarrow> lease_inv (qrun s xs)"
  by (induction xs arbitrary: s) (auto intro: qstep_lease)

lemma empty_queue_invs: "lease_inv empty_queue" "attempts_ok empty_queue" "ids_ok (q_table empty_queue)"
  by (simp_all add: empty_queue_def lease_inv_def attempts_ok_def ids_ok_def)


section \<open>Properties\<close>

lemma qrun_keeps_rows:
  "r \<in> set (rows (q_table s)) \<Longrightarrow> \<exists>r' \<in> set (rows (q_table (qrun s xs))). same_row r r'"
proof (induction xs arbitrary: s r)
  case Nil
  then show ?case by (auto simp: same_row_def)
next
  case (Cons x xs)
  have "\<exists>r1 \<in> set (rows (q_table (qstep s x))). same_row r r1"
  proof (cases "\<exists>p now. x = Enqueue p now")
    case True
    then show ?thesis using Cons.prems
      by (auto simp: enqueue_def Let_def same_row_def split: option.splits)
  next
    case False
    then have "list_all2 same_row (rows (q_table s)) (rows (q_table (qstep s x)))"
      using qstep_same_rows [of x s] by (simp add: same_rows_def)
    then show ?thesis using Cons.prems by (metis in_set_conv_nth list_all2_conv_all_nth)
  qed
  then obtain r1 where "r1 \<in> set (rows (q_table (qstep s x)))" "same_row r r1" by blast
  with Cons.IH [of r1 "qstep s x"] same_row_trans show ?case by fastforce
qed

text \<open>
  C2. No deduction is lost or duplicated by the queue: in every run from the empty queue ids and
  idempotency keys stay unique, every row that was ever in the table is still there with its
  key, user, payload and creation time, and \<^verbatim>\<open>enqueue\<close> accepts a key exactly when it is new.
\<close>

theorem queue_keeps_deductions:
  fixes xs ys :: "qop list"
  defines "t1 \<equiv> q_table (qrun empty_queue xs)"
    and "t2 \<equiv> q_table (qrun empty_queue (xs @ ys))"
  shows "distinct (map row_id (rows t1)) \<and> distinct (map r_key (rows t1))
    \<and> (\<forall>r \<in> set (rows t1). \<exists>r' \<in> set (rows t2). same_row r r')
    \<and> (\<forall>p now uid key. pl_user_id p = Some uid \<longrightarrow> pl_idempotency_key p = Some key \<longrightarrow>
         (\<exists>b t'. enqueue p now t1 = Inr (b, t') \<and> (b \<longleftrightarrow> key \<notin> r_key ` set (rows t1))
            \<and> key \<in> r_key ` set (rows t')))"
proof -
  have "ids_ok t1" unfolding t1_def using qrun_invariant [of "\<lambda>s. ids_ok (q_table s)"]
      qstep_ids empty_queue_invs(3) by blast
  moreover have "t2 = q_table (qrun (qrun empty_queue xs) ys)" by (simp add: t2_def qrun_def)
  ultimately show ?thesis
    using qrun_keeps_rows [of _ "qrun empty_queue xs" ys]
    by (auto simp: ids_ok_def t1_def enqueue_def Let_def)
qed

theorem queue_keeps_deductions_witness:
  "\<exists>b t'. enqueue \<lparr>pl_user_id = Some ''u'', pl_idempotency_key = Some ''k'', pl_amount_cents = None\<rparr> 0
      (q_table (qrun empty_queue [])) = Inr (b, t') \<and> b"
proof -
  let ?p = "\<lparr>pl_user_id = Some ''u'', pl_idempotency_key = Some ''k'', pl_amount_cents = None\<rparr>"
  have "pl_user_id ?p = Some ''u''" "pl_idempotency_key ?p = Some ''k''" by simp_all
  then obtain b t' where e: "enqueue ?p 0 (q_table (qrun empty_queue [])) = Inr (b, t')"
    and b: "b \<longleftrightarrow> ''k'' \<notin> r_key ` set (rows (q_table (qrun empty_queue [])))"
    using queue_keeps_deductions [of "[]" "[]"] by blast
  from b have b by (simp add: empty_queue_def)
  with e show ?thesis by blast
qed

text \<open>
  A claim is exclusive, bounded and oldest first: it takes at most \<open>CLAIM_BATCH_SIZE\<close> rows,
  each of them pending, due and not locked, marks exactly those as processing by this worker,
  leaves every other row alone, and passes over a claimable row only when the batch is full of
  rows created no later.  A second claim right after it shares no row with the first.
\<close>

theorem claim_batch_exclusive:
  assumes "ids_ok t" and "claim_batch locked w now t = (its, t')"
  shows "length its \<le> CLAIM_BATCH_SIZE \<and> distinct (map it_id its)
    \<and> (\<forall>it \<in> set its. \<exists>r \<in> set (rows t). it = item_of r \<and> claimable locked now r
         \<and> claimed w now r \<in> set (rows t'))
    \<and> (\<forall>r \<in> set (rows t). row_id r \<notin> it_id ` set its \<longrightarrow> r \<in> set (rows t') \<and>
         (claimable locked now r \<longrightarrow> length its = CLAIM_BATCH_SIZE \<and>
            (\<forall>c \<in> set (rows t). item_of c \<in> set its \<longrightarrow> created_at c \<le> created_at r)))
    \<and> it_id ` set its \<inter> it_id ` set (fst (claim_batch locked' w' now' t')) = {}"
proof -
  let ?c = "claim_cand locked now t"
  have its: "it \<in> set its \<longleftrightarrow> (\<exists>r \<in> set ?c. it = item_of r)" for it
    using claim_items [OF assms(1), of it locked w now] assms(2) by simp
  have t': "rows t' = map (\<lambda>r. if r \<in> set ?c then claimed w now r else r) (rows t)"
    using claim_batch_eq [OF assms(1), of locked w now] assms(2) by simp
  have len: "length its = length ?c" using claim_length [OF assms(1), of locked w now] assms(2) by simp
  have eq: "r = c" if "r \<in> set (rows t)" "c \<in> set (rows t)" "row_id r = row_id c" for r c
    using row_id_inj [OF assms(1)] that by blast
  have cand: "c \<in> set ?c" if c: "c \<in> set (rows t)" and i: "item_of c \<in> set its" for c
  proof -
    obtain r where r: "r \<in> set ?c" "item_of c = item_of r" using i its by blast
    then have "row_id c = row_id r" by (simp add: item_of_def)
    with eq [OF c] claim_cand_set [OF r(1)] r(1) show ?thesis by blast
  qed
  have ids': "ids_ok t'" using ids_ok_same [OF claim_same_rows [of t locked w now] assms(1)] assms(2) by simp
  have 1: "length its \<le> CLAIM_BATCH_SIZE" using len by (simp add: claim_cand_def)
  have 2: "distinct (map it_id its)" using claim_items_distinct [OF assms(1), of locked w now] assms(2) by simp
  have 3: "\<exists>r \<in> set (rows t). it = item_of r \<and> claimable locked now r \<and> claimed w now r \<in> set (rows t')"
    if "it \<in> set its" for it
    using that its claim_cand_set t' by fastforce
  have 4: "r \<in> set (rows t') \<and> (claimable locked now r \<longrightarrow> length its = CLAIM_BATCH_SIZE \<and>
            (\<forall>c \<in> set (rows t). item_of c \<in> set its \<longrightarrow> created_at c \<le> created_at r))"
    if "r \<in> set (rows t)" "row_id r \<notin> it_id ` set its" for r
  proof -
    have "r \<notin> set ?c" using that its by (force simp: item_of_def)
    then show ?thesis using that t' len cand claim_cand_oldest [OF that(1)] by auto
  qed
  have 5: "it_id i \<noteq> it_id j" if "i \<in> set its" "j \<in> set (fst (claim_batch locked' w' now' t'))" for i j
    using claim_makes_processing(1) [OF assms(1), of i locked w now] that assms(2)
      claim_makes_processing(2) [OF ids' that(2)] has_status_unique [OF ids'] by fastforce
  show ?thesis using 1 2 3 4 5 by blast
qed

theorem claim_batch_exclusive_witness:
  "\<exists>its t'. claim_batch (\<lambda>_. False) ''w'' 5 (q_table (qrun empty_queue [Enqueue
      \<lparr>pl_user_id = Some ''u'', pl_idempotency_key = Some ''k'', pl_amount_cents = None\<rparr> 0])) = (its, t')
    \<and> map it_id its = [1] \<and> length its \<le> CLAIM_BATCH_SIZE"
proof -
  let ?t = "q_table (qrun empty_queue [Enqueue
      \<lparr>pl_user_id = Some ''u'', pl_idempotency_key = Some ''k'', pl_amount_cents = None\<rparr> 0])"
  have ids: "ids_ok ?t" by (simp add: empty_queue_def enqueue_def ids_ok_def)
  obtain its t' where c: "claim_batch (\<lambda>_. False) ''w'' 5 ?t = (its, t')" by fastforce
  then have "map it_id its = [1]"
    by (simp add: empty_queue_def enqueue_def claim_batch_def claimable_def update_where_def
        item_of_def CLAIM_BATCH_SIZE_def take_Cons' Let_def) auto
  moreover have "length its \<le> CLAIM_BATCH_SIZE"
    by (rule conjunct1 [OF claim_batch_exclusive [OF ids c]])
  ultimately show ?thesis using c by (intro exI conjI)
qed




text \<open>
  Exactly once while leases hold: in every run in which no lease expires under a worker and
  the legacy helpers leave rows in flight alone, ai-market accepts each row's deduction at most
  once, an accepted row stays completed, and no accepted row is in flight again.
\<close>

theorem exactly_once_while_leases_hold:
  assumes "quiet_run empty_queue xs"
  shows "distinct (q_sent (qrun empty_queue xs))
    \<and> (\<forall>i \<in> set (q_sent (qrun empty_queue xs)). has_status (q_table (qrun empty_queue xs)) i Completed)
    \<and> (\<forall>w. \<forall>it \<in> set (q_flight (qrun empty_queue xs) w). it_id it \<notin> set (q_sent (qrun empty_queue xs)))"
proof -
  have inv: "lease_inv (qrun empty_queue xs)"
    by (rule quiet_run_lease [OF empty_queue_invs(1) assms])
  show ?thesis using lease_invD(5,6) [OF inv] in_flight_not_sent [OF inv] by blast
qed

text \<open>A run for the witness: enqueue, claim, accepted.\<close>

abbreviation sample_payload :: payload where
  "sample_payload \<equiv> \<lparr>pl_user_id = Some ''u'', pl_idempotency_key = Some ''k'', pl_amount_cents = Some 5\<rparr>"

abbreviation sample_row :: row where
  "sample_row \<equiv> \<lparr>row_id = 1, r_user_id = ''u'', r_key = ''k'', r_payload = sample_payload, created_at = 0,
     next_retry_at = 0, attempt_count = 0, last_error = None, rstatus = Pending, r_worker = None,
     leased_at = None\<rparr>"

lemmas queue_eval = empty_queue_def enqueue_def claim_batch_def claimable_def update_where_def
  item_of_def CLAIM_BATCH_SIZE_def take_Cons' Let_def settle_item_eq settle_effect_def
  requeue_due_def monitor_expired_leases_def expired_def MAX_ATTEMPTS_def LEASE_TTL_def

theorem exactly_once_while_leases_hold_witness:
  "quiet_run empty_queue [Enqueue sample_payload 0, Claim ''a'' (\<lambda>_. False) 1,
      Settle ''a'' (Response 200 True) 2 0]
   \<and> q_sent (qrun empty_queue [Enqueue sample_payload 0, Claim ''a'' (\<lambda>_. False) 1,
      Settle ''a'' (Response 200 True) 2 0]) = [1]
   \<and> has_status (q_table (qrun empty_queue [Enqueue sample_payload 0, Claim ''a'' (\<lambda>_. False) 1,
      Settle ''a'' (Response 200 True) 2 0])) 1 Completed"
proof -
  let ?xs = "[Enqueue sample_payload 0, Claim ''a'' (\<lambda>_. False) 1, Settle ''a'' (Response 200 True) 2 0]"
  have q: "quiet_run empty_queue ?xs" by simp
  moreover have "q_sent (qrun empty_queue ?xs) = [1]"
    by (simp add: queue_eval)
  ultimately show ?thesis using exactly_once_while_leases_hold [OF q] by simp
qed



type_synonym cycle = "(int \<Rightarrow> bool) \<times> string \<times> real \<times> (nat \<Rightarrow> http_reply \<times> real \<times> real) \<times> real"

fun run_cycles :: "table \<Rightarrow> cycle list \<Rightarrow> table" where
  "run_cycles t [] = t"
| "run_cycles t ((locked, worker, t_claim, env, t_end) # cs) =
     run_cycles (snd (process_all_pending locked worker t_claim env t_end t)) cs"

text \<open>
  A retry that is due can wait for ever: a cycle of \<^verbatim>\<open>process_all_pending\<close> that claims nothing
  returns before the transaction that moves due retries back to pending, so a table without
  pending rows is left as it is by any number of cycles, however far the clock has advanced.
\<close>

theorem due_retries_starve:
  assumes "\<forall>r \<in> set (rows t). rstatus r \<noteq> Pending"
  shows "run_cycles t cs = t"
  using assms
proof (induction t cs rule: run_cycles.induct)
  case (2 t locked worker t_claim env t_end cs)
  have "filter (claimable locked t_claim) (rows t) = []"
    using "2.prems" by (auto simp: filter_empty_conv claimable_def)
  then have "process_all_pending locked worker t_claim env t_end t = (0, t)"
    by (simp add: process_all_pending_def claim_batch_def)
  with "2.IH" "2.prems" show ?case by simp
qed simp

theorem due_retries_starve_witness:
  "run_cycles \<lparr>rows = [sample_row\<lparr>rstatus := FailedRetryable, attempt_count := 1, next_retry_at := 10\<rparr>], id_seq = 2\<rparr>
      [(\<lambda>_. False, ''a'', 1000, \<lambda>_. (Response 200 True, 0, 0), 1001),
       (\<lambda>_. False, ''b'', 2000, \<lambda>_. (Response 200 True, 0, 0), 2001)]
   = \<lparr>rows = [sample_row\<lparr>rstatus := FailedRetryable, attempt_count := 1, next_retry_at := 10\<rparr>], id_seq = 2\<rparr>
   \<and> requeue_due 1001
       \<lparr>rows = [sample_row\<lparr>rstatus := FailedRetryable, attempt_count := 1, next_retry_at := 10\<rparr>], id_seq = 2\<rparr>
     = \<lparr>rows = [sample_row\<lparr>attempt_count := 1, next_retry_at := 10\<rparr>], id_seq = 2\<rparr>"
  by (intro conjI due_retries_starve; simp add: queue_eval)

definition retryable_reply :: "http_reply \<Rightarrow> bool" where
  "retryable_reply reply \<longleftrightarrow>
     (case reply of Response code _ \<Rightarrow> 500 \<le> code \<and> code < 600 | _ \<Rightarrow> True)"

lemma attempt_send_cases:
  "attempt_send reply = (s, rt, code) \<Longrightarrow>
     (s \<longleftrightarrow> reply = Response 200 True) \<and> (\<not> s \<longrightarrow> (rt \<longleftrightarrow> retryable_reply reply)) \<and>
     (\<not> s \<longrightarrow> \<not> rt \<longrightarrow> (\<exists>j. reply = Response code j))"
  by (cases reply) (auto simp: retryable_reply_def split: if_splits)

lemma http_msg_not_funds [simp]: "http_msg c \<noteq> ''insufficient_funds''"
  by (simp add: http_msg_def)

text \<open>
  What a reply does: settling the item of a row changes that row only; a parsed 200 completes
  it, a retryable reply (timeout, network error, any 5xx) schedules a retry within the jittered
  exponential backoff or, at the last attempt, moves it to the dead letters, and every other
  reply is a terminal failure, recorded as insufficient_funds exactly for 402.
\<close>

theorem settle_records_reply:
  assumes "ids_ok t" and "r \<in> set (rows t)" and "0 \<le> (jitter :: real)" and "jitter \<le> 2 * real_of_int (attempt_count r + 1)"
    and "settle_item (item_of r) reply now jitter t = (ok, t')"
  shows "(ok \<longleftrightarrow> reply = Response 200 True)
    \<and> (\<exists>r'. rows t' = map (\<lambda>x. if x = r then r' else x) (rows t) \<and> same_row r r'
       \<and> (if ok then rstatus r' = Completed \<and> attempt_count r' = attempt_count r
          else if \<not> retryable_reply reply then
            rstatus r' = FailedTerminal \<and>
            (last_error r' = Some ''insufficient_funds'' \<longleftrightarrow> (\<exists>j. reply = Response 402 j))
          else if attempt_count r + 1 \<ge> MAX_ATTEMPTS then rstatus r' = DeadLetter
          else rstatus r' = FailedRetryable \<and> attempt_count r' = attempt_count r + 1
            \<and> now + min 300 (5 * 2 powi (attempt_count r + 1)) \<le> next_retry_at r'
            \<and> next_retry_at r' \<le> now + min 300 (5 * 2 powi (attempt_count r + 1)) + 2 * real_of_int (attempt_count r + 1)))"
    (is "?A \<and> ?B")
proof -
  obtain s rt code where snd: "attempt_send reply = (s, rt, code)" by (cases "attempt_send reply")
  note cs = attempt_send_cases [OF snd]
  let ?r' = "settle_effect (item_of r) reply now jitter r"
  have ok: "ok = s" and t': "rows t' = map (\<lambda>x. if row_id x = row_id r
      then settle_effect (item_of r) reply now jitter x else x) (rows t)"
    using assms(5) snd by (auto simp: settle_item_eq update_where_rows item_of_def)
  have "rows t' = map (\<lambda>x. if x = r then ?r' else x) (rows t)"
    unfolding t' using row_id_inj [OF assms(1) _ assms(2)] by (intro map_cong) auto
  moreover have "same_row r ?r'"
    using snd by (simp add: settle_effect_def same_row_def Let_def)
  ultimately show ?thesis
    using cs ok assms(3,4) snd
    by (intro conjI exI [of _ ?r'])
      (auto simp: settle_effect_def item_of_def Let_def calculate_backoff_def MAX_BACKOFF_def)
qed

theorem settle_records_reply_witness:
  "rows (snd (settle_item (item_of sample_row) (Response 402 True) 7 0 \<lparr>rows = [sample_row], id_seq = 2\<rparr>))
     = [sample_row\<lparr>rstatus := FailedTerminal, last_error := Some ''insufficient_funds''\<rparr>]"
proof -
  let ?t = "\<lparr>rows = [sample_row], id_seq = 2\<rparr>"
  obtain ok t' where s: "settle_item (item_of sample_row) (Response 402 True) 7 0 ?t = (ok, t')"
    by fastforce
  have "ids_ok ?t" "sample_row \<in> set (rows ?t)" by (simp_all add: ids_ok_def)
  from settle_records_reply [OF this _ _ s] have "\<not> ok" by simp
  with s show ?thesis by (auto simp: queue_eval)
qed

inductive status_edge :: "dstatus \<Rightarrow> dstatus \<Rightarrow> bool" where
  lease: "status_edge Pending Processing"
| success: "status_edge Processing Completed"
| decline: "status_edge Processing FailedTerminal"
| retry: "status_edge Processing FailedRetryable"
| give_up: "status_edge Processing DeadLetter"
| lease_expired: "status_edge Processing Pending"
| backoff_over: "status_edge FailedRetryable Pending"
| legacy_done: "status_edge Pending Completed"
| legacy_failed: "status_edge Pending FailedTerminal"

inductive_cases from_completed: "status_edge Completed b"
inductive_cases from_failed_terminal: "status_edge FailedTerminal b"
inductive_cases from_dead_letter: "status_edge DeadLetter b"

lemma status_after_update:
  assumes "ids_ok t" "has_status t i a" "has_status (update_where p f t) i b" "\<And>r. row_id (f r) = row_id r"
  shows "\<exists>r \<in> set (rows t). row_id r = i \<and> rstatus r = a \<and> rstatus (if p r then f r else r) = b"
proof -
  obtain r where r: "r \<in> set (rows t)" "row_id (if p r then f r else r) = i" "rstatus (if p r then f r else r) = b"
    using assms(3) unfolding has_status_update_iff by blast
  then have "row_id r = i" using assms(4) by (auto split: if_splits)
  moreover have "rstatus r = a" using assms(2) calculation r(1) row_id_inj [OF assms(1)]
    by (auto simp: has_status_def)
  ultimately show ?thesis using r by blast
qed


lemma claim_as_update:
  "ids_ok t \<Longrightarrow> snd (claim_batch locked w now t) =
     update_where (\<lambda>r. r \<in> set (claim_cand locked now t)) (claimed w now) t"
  by (simp add: claim_batch_eq update_where_def)

lemma update_where_twice:
  "update_where q g (update_where p f t) =
     update_where (\<lambda>_. True) (\<lambda>r. let r' = (if p r then f r else r) in if q r' then g r' else r') t"
  by (simp add: update_where_def Let_def)

lemma update_where_cong:
  "(\<And>r. r \<in> set (rows t) \<Longrightarrow> (if p r then f r else r) = (if q r then g r else r)) \<Longrightarrow>
   update_where p f t = update_where q g t"
  by (simp add: update_where_def)

definition monitored :: "real \<Rightarrow> row \<Rightarrow> row" where
  "monitored now r =
     (if expired now r
      then (let r1 = r\<lparr>rstatus := Pending, r_worker := None, leased_at := None,
              attempt_count := attempt_count r + 1, last_error := Some ''lease_expired''\<rparr>
            in if attempt_count r1 \<ge> MAX_ATTEMPTS
               then r1\<lparr>rstatus := DeadLetter, last_error := Some ''max_attempts after lease expiry''\<rparr>
               else r1)
      else r)"

lemma monitored_pointwise:
  assumes "row_ok r"
  shows "(let r1 = (if expired now r then r\<lparr>rstatus := Pending, r_worker := None, leased_at := None,
        attempt_count := attempt_count r + 1, last_error := Some ''lease_expired''\<rparr> else r)
    in if rstatus r1 = Pending \<and> MAX_ATTEMPTS \<le> attempt_count r1
       then r1\<lparr>rstatus := DeadLetter, last_error := Some ''max_attempts after lease expiry''\<rparr>
       else r1) = monitored now r"
proof -
  have "\<not> (rstatus r = Pending \<and> MAX_ATTEMPTS \<le> attempt_count r)"
    using assms by (auto simp: row_ok_def live_def)
  then show ?thesis
    by (cases "expired now r") (simp add: monitored_def Let_def, simp add: monitored_def Let_def, blast)
qed

text \<open>On a table whose pending rows have attempts left the two updates act row by row.\<close>

lemma monitor_as_update:
  assumes "\<forall>r \<in> set (rows t). row_ok r"
  shows "snd (monitor_expired_leases now t) = update_where (\<lambda>_. True) (monitored now) t"
proof (cases "\<exists>r \<in> set (rows t). expired now r")
  case True
  then have "filter (expired now) (rows t) \<noteq> []" by (auto simp: filter_empty_conv)
  then show ?thesis
    using monitored_pointwise assms
    by (simp add: monitor_expired_leases_def update_where_def Let_def)
next
  case False
  then have "filter (expired now) (rows t) = []" by (simp add: filter_empty_conv)
  with False show ?thesis
    unfolding monitor_expired_leases_def Let_def
    by (simp, intro update_where_cong) (auto simp: monitored_def)
qed

lemma settle_effect_edge: "status_edge Processing (rstatus (settle_effect it reply now jitter r))"
  by (cases "attempt_send reply") (auto simp: settle_effect_def Let_def intro: status_edge.intros)



end
