(* ===== verification/Bytes.thy ===== *)
theory Bytes
  imports Prelude
begin

text \<open>
  Byte strings, unpadded base64url (\<^verbatim>\<open>encode_base64url\<close>, \<^verbatim>\<open>decode_base64url\<close>,
  \<^verbatim>\<open>decode_digest\<close> and \<^verbatim>\<open>constant_time_digest_equal\<close> of
  app/services/dataset_merkle_service.py) and the big-endian integers of the record formats.
  A Python \<^verbatim>\<open>str\<close> is its list of code points.
\<close>

type_synonym bytes = "8 word list"
type_synonym ustr = "nat list"

text \<open>ASCII literals as bytes and as text.\<close>

definition ascii :: "string \<Rightarrow> bytes" where
  "ascii s = map of_char s"

definition text_of :: "string \<Rightarrow> ustr" where
  "text_of s = map of_char s"

lemma text_of_inj: "text_of a = text_of b \<longleftrightarrow> a = b"
  by (simp add: text_of_def inj_map_eq_map [OF inj_of_char])

text \<open>The code of a \<^verbatim>\<open>CommitmentValidationError\<close>.\<close>

type_synonym cerror = string

section \<open>base64url without padding\<close>

definition b64_char :: "nat \<Rightarrow> nat" where
  "b64_char n =
     (if n < 26 then 65 + n else if n < 52 then 71 + n else if n < 62 then n - 4
      else if n = 62 then 45 else 95)"

text \<open>
  \<^verbatim>\<open>b64decode\<close> with the alternative characters translates \<open>-\<close> and \<open>_\<close> to \<open>+\<close> and \<open>/\<close>, and
  so accepts both spellings.
\<close>

definition b64_value :: "nat \<Rightarrow> nat option" where
  "b64_value c =
     (if 65 \<le> c \<and> c \<le> 90 then Some (c - 65) else if 97 \<le> c \<and> c \<le> 122 then Some (c - 71)
      else if 48 \<le> c \<and> c \<le> 57 then Some (c + 4)
      else if c = 45 \<or> c = 43 then Some 62 else if c = 95 \<or> c = 47 then Some 63 else None)"

fun sextets :: "bytes \<Rightarrow> nat list" where
  "sextets [] = []"
| "sextets [a] = [unat a div 4, (unat a mod 4) * 16]"
| "sextets [a, b] = [unat a div 4, (unat a mod 4) * 16 + unat b div 16, (unat b mod 16) * 4]"
| "sextets (a # b # c # r) =
     [unat a div 4, (unat a mod 4) * 16 + unat b div 16, (unat b mod 16) * 4 + unat c div 64,
      unat c mod 64] @ sextets r"

fun unsextets :: "nat list \<Rightarrow> bytes option" where
  "unsextets [] = Some []"
| "unsextets [x] = None"
| "unsextets [x, y] = Some [of_nat (x * 4 + y div 16)]"
| "unsextets [x, y, z] = Some [of_nat (x * 4 + y div 16), of_nat ((y mod 16) * 16 + z div 4)]"
| "unsextets (x # y # z # w # r) =
     map_option (\<lambda>bs. [of_nat (x * 4 + y div 16), of_nat ((y mod 16) * 16 + z div 4),
       of_nat ((z mod 4) * 64 + w)] @ bs) (unsextets r)"

fun option_list :: "'a option list \<Rightarrow> 'a list option" where
  "option_list [] = Some []"
| "option_list (None # xs) = None"
| "option_list (Some x # xs) = map_option ((#) x) (option_list xs)"

definition encode_base64url :: "bytes \<Rightarrow> ustr" where
  "encode_base64url value = map b64_char (sextets value)"

text \<open>
  The final comparison with the re-encoding makes the accepted spelling unique; a length of
  \<open>1 mod 4\<close>, a character outside the alphabet or outside ASCII is rejected before it.
\<close>

definition decode_base64url :: "ustr \<Rightarrow> cerror + bytes" where
  "decode_base64url value =
     (if value = [] \<or> 61 \<in> set value then Inl ''invalid_hash_encoding''
      else if \<exists>c \<in> set value. c \<ge> 128 then Inl ''invalid_hash_encoding''
      else case Option.bind (option_list (map b64_value value)) unsextets of
        None \<Rightarrow> Inl ''invalid_hash_encoding''
      | Some decoded \<Rightarrow>
          (if encode_base64url decoded \<noteq> value then Inl ''invalid_hash_encoding'' else Inr decoded))"

lemma b64_value_char [simp]: "n < 64 \<Longrightarrow> b64_value (b64_char n) = Some n"
  by (auto simp: b64_value_def b64_char_def)

lemma b64_char_range: "n < 64 \<Longrightarrow> b64_char n < 128 \<and> b64_char n \<noteq> 61"
  by (auto simp: b64_char_def)

lemma unat_byte [simp]: "unat (b :: 8 word) < 256"
  using unsigned_less [of b] by simp

lemma of_nat_unat_byte: "of_nat (unat (b :: 8 word)) = b"
  by simp

lemma unat_byte_le: "unat (b :: 8 word) \<le> 255"
  using unat_byte [of b] by linarith

lemma pack_div [simp]: "(q :: nat) < k \<Longrightarrow> (p * k + q) div k = p"
  and pack_mod [simp]: "(q :: nat) < k \<Longrightarrow> (p * k + q) mod k = q"
  by simp_all

lemma byte_parts [simp]:
  fixes b :: "8 word"
  shows "unat b div 4 < 64" "unat b div 16 < 16" "unat b div 64 < 4"
  using unat_byte [of b] by (simp_all add: less_mult_imp_div_less)

lemma pack_less: "(p :: nat) < m \<Longrightarrow> q < k \<Longrightarrow> p * k + q < m * k"
proof -
  assume "p < m" "q < k"
  then have "p * k + q < Suc p * k" by simp
  also have "\<dots> \<le> m * k" using \<open>p < m\<close> by (intro mult_right_mono) simp_all
  finally show ?thesis .
qed

lemma sextets_range: "\<forall>n \<in> set (sextets bs). n < 64"
proof (induction bs rule: sextets.induct)
  case (4 a b c r)
  have "(unat a mod 4) * 16 + unat b div 16 < 64" "(unat b mod 16) * 4 + unat c div 64 < 64"
    using pack_less [of "unat a mod 4" 4 "unat b div 16" 16]
      pack_less [of "unat b mod 16" 16 "unat c div 64" 4] by simp_all
  with 4 show ?case by simp
next
  case (3 a b)
  have "(unat a mod 4) * 16 + unat b div 16 < 64" "(unat b mod 16) * 4 < 64"
    using pack_less [of "unat a mod 4" 4 "unat b div 16" 16]
      pack_less [of "unat b mod 16" 16 0 4] by simp_all
  then show ?case by simp
next
  case (2 a)
  have "(unat a mod 4) * 16 < 64" using pack_less [of "unat a mod 4" 4 0 16] by simp
  then show ?case by simp
qed simp

lemma sextet_bytes:
  fixes a b c :: "8 word"
  shows "unat a div 4 * 4 + ((unat a mod 4) * 16 + unat b div 16) div 16 = unat a"
    and "((unat a mod 4) * 16 + unat b div 16) mod 16 * 16 + ((unat b mod 16) * 4 + unat c div 64) div 4 = unat b"
    and "((unat b mod 16) * 4 + unat c div 64) mod 4 * 64 + unat c mod 64 = unat c"
    and "unat a div 4 * 4 + ((unat a mod 4) * 16) div 16 = unat a"
    and "((unat a mod 4) * 16 + unat b div 16) mod 16 * 16 + ((unat b mod 16) * 4) div 4 = unat b"
  by (simp_all add: pack_div pack_mod)

lemma unsextets_sextets: "unsextets (sextets bs) = Some bs"
  by (induction bs rule: sextets.induct)
    (simp_all only: sextets.simps unsextets.simps append.simps sextet_bytes of_nat_unat_byte option.map)

lemma option_list_map: "(\<And>x. x \<in> set xs \<Longrightarrow> f x = Some (g x)) \<Longrightarrow> option_list (map f xs) = Some (map g xs)"
  by (induction xs) auto

lemma encode_base64url_range: "c \<in> set (encode_base64url bs) \<Longrightarrow> c < 128 \<and> c \<noteq> 61"
  using sextets_range [of bs] b64_char_range by (auto simp: encode_base64url_def)

lemma encode_base64url_Nil [simp]: "encode_base64url bs = [] \<longleftrightarrow> bs = []"
  by (cases bs rule: sextets.cases) (auto simp: encode_base64url_def)

lemma decode_encode: "bs \<noteq> [] \<Longrightarrow> decode_base64url (encode_base64url bs) = Inr bs"
proof -
  assume ne: "bs \<noteq> []"
  have "map b64_value (encode_base64url bs) = map Some (sextets bs)"
    using sextets_range [of bs] by (simp add: encode_base64url_def)
  then have "Option.bind (option_list (map b64_value (encode_base64url bs))) unsextets = Some bs"
    using option_list_map [of "sextets bs" Some id] by (simp add: unsextets_sextets)
  moreover have "61 \<notin> set (encode_base64url bs)" "\<not> (\<exists>c \<in> set (encode_base64url bs). c \<ge> 128)"
    using encode_base64url_range by fastforce+
  ultimately show ?thesis using ne by (simp add: decode_base64url_def)
qed

lemma encode_decode: "decode_base64url s = Inr bs \<Longrightarrow> encode_base64url bs = s \<and> bs \<noteq> []"
  by (auto simp: decode_base64url_def split: if_splits option.splits)

section \<open>Digests\<close>

definition SHA256_SIZE :: nat where "SHA256_SIZE = 32"

text \<open>A digest argument is bytes or base64url text; \<open>Other\<close> is any other Python value.\<close>

datatype hash_arg = Raw bytes | Text ustr | Other

fun arg_bytes :: "hash_arg \<Rightarrow> cerror + bytes" where
  "arg_bytes (Raw b) = Inr b"
| "arg_bytes (Text s) = decode_base64url s"
| "arg_bytes Other = Inl ''invalid_hash_encoding''"

definition decode_digest :: "hash_arg \<Rightarrow> cerror + bytes" where
  "decode_digest value =
     res_bind (arg_bytes value)
       (\<lambda>decoded. if length decoded \<noteq> SHA256_SIZE then Inl ''invalid_hash_encoding'' else Inr decoded)"

definition constant_time_digest_equal :: "hash_arg \<Rightarrow> hash_arg \<Rightarrow> bool" where
  "constant_time_digest_equal left right =
     (case decode_digest left of Inl e \<Rightarrow> False
      | Inr l \<Rightarrow> (case decode_digest right of Inl e \<Rightarrow> False | Inr r \<Rightarrow> l = r))"

lemma decode_digest_length: "decode_digest v = Inr d \<Longrightarrow> length d = 32"
  by (auto simp: decode_digest_def SHA256_SIZE_def split: if_splits)

lemma decode_digest_Raw [simp]: "length d = 32 \<Longrightarrow> decode_digest (Raw d) = Inr d"
  by (simp add: decode_digest_def SHA256_SIZE_def)

lemma decode_digest_Raw_iff: "decode_digest (Raw d) = Inr e \<longleftrightarrow> e = d \<and> length d = 32"
  by (auto simp: decode_digest_def SHA256_SIZE_def)

lemma decode_digest_text [simp]: "length d = 32 \<Longrightarrow> decode_digest (Text (encode_base64url d)) = Inr d"
  by (subst decode_digest_def, simp add: SHA256_SIZE_def, subst decode_encode) auto

section \<open>Fixed-width big-endian integers\<close>

definition be_bytes :: "nat \<Rightarrow> nat \<Rightarrow> bytes" where
  "be_bytes k n = map (\<lambda>i. of_nat (n div 256 ^ (k - 1 - i))) [0..<k]"

definition be_value :: "bytes \<Rightarrow> nat" where
  "be_value bs = foldl (\<lambda>v b. v * 256 + unat b) 0 bs"

lemma length_be_bytes [simp]: "length (be_bytes k n) = k"
  by (simp add: be_bytes_def)

lemma be_bytes_Suc: "be_bytes (Suc k) n = be_bytes k (n div 256) @ [of_nat n]"
proof -
  have "n div 256 ^ (Suc k - 1 - i) = n div 256 div 256 ^ (k - 1 - i)" if "i < k" for i
  proof -
    have "Suc k - 1 - i = Suc (k - 1 - i)" using that by simp
    then show ?thesis by (simp add: div_mult2_eq)
  qed
  then show ?thesis by (simp add: be_bytes_def)
qed

lemma be_value_append [simp]: "be_value (bs @ [b]) = be_value bs * 256 + unat b"
  by (simp add: be_value_def)

lemma be_roundtrip: "n < 256 ^ k \<Longrightarrow> be_value (be_bytes k n) = n"
proof (induction k arbitrary: n)
  case 0
  then show ?case by (simp add: be_value_def be_bytes_def)
next
  case (Suc k)
  have "n div 256 < 256 ^ k" using Suc.prems by (simp add: less_mult_imp_div_less mult.commute)
  moreover have "unat (of_nat n :: 8 word) = n mod 256" by (simp add: unat_of_nat)
  ultimately show ?case using Suc.IH by (simp add: be_bytes_Suc)
qed

lemma be_bytes_inj: "m < 256 ^ k \<Longrightarrow> n < 256 ^ k \<Longrightarrow> be_bytes k m = be_bytes k n \<Longrightarrow> m = n"
  by (metis be_roundtrip)

section \<open>Property\<close>

text \<open>
  The digest codec is canonical: a text decodes to some bytes exactly when it is the encoding
  of those bytes and they are not empty, so no two texts decode to the same bytes, and a digest
  argument is accepted exactly when it is 32 bytes or the encoding of 32 bytes.
\<close>

theorem base64url_canonical:
  "(decode_base64url s = Inr bs \<longleftrightarrow> bs \<noteq> [] \<and> s = encode_base64url bs)
   \<and> (decode_digest v = Inr d \<longleftrightarrow> length d = 32 \<and> (v = Raw d \<or> v = Text (encode_base64url d)))"
proof -
  have c: "decode_base64url s = Inr bs \<longleftrightarrow> bs \<noteq> [] \<and> s = encode_base64url bs" for s bs
    using decode_encode encode_decode by metis
  have d: "decode_digest v = Inr d \<longleftrightarrow> arg_bytes v = Inr d \<and> length d = 32" for v
    by (cases "arg_bytes v") (auto simp: decode_digest_def SHA256_SIZE_def)
  have "decode_digest v = Inr d \<longleftrightarrow> length d = 32 \<and> (v = Raw d \<or> v = Text (encode_base64url d))"
  proof (cases v)
    case (Text s)
    have "length d = 32 \<Longrightarrow> d \<noteq> []" by (cases d) simp_all
    then show ?thesis unfolding d Text arg_bytes.simps c by (simp del: encode_base64url_Nil) metis
  qed (auto simp: d)
  with c show ?thesis by simp
qed

end
