(* ===== verification/Merkle.thy ===== *)
theory Merkle
  imports Bytes
begin

text \<open>
  Dataset commitments (app/services/dataset_merkle_service.py, lines 135-264 and 351-372): row,
  leaf and node hashes, the Merkle root, inclusion proofs and their verification.  \<open>H\<close> is
  \<^verbatim>\<open>hashlib.sha256(...).digest()\<close>; theory Sha256 defines that function, and the lemmas here hold
  for every 32-byte hash.
\<close>

definition MAX_TREE_SIZE :: int where "MAX_TREE_SIZE = 2 ^ 63 - 1"
definition MAX_PROOF_SIBLINGS :: nat where "MAX_PROOF_SIBLINGS = 63"

type_synonym hash_fun = "bytes \<Rightarrow> bytes"

text \<open>A numeric argument: an \<^verbatim>\<open>int\<close>, or a value of another type (\<^verbatim>\<open>bool\<close> included).\<close>

datatype num_arg = Num int | NotNum

section \<open>Rows, leaves and nodes\<close>

definition compute_schema_digest :: "hash_fun \<Rightarrow> bytes \<Rightarrow> bytes" where
  "compute_schema_digest H canonical_schema_bytes = H (ascii ''aim-schema-v1'' @ [0] @ canonical_schema_bytes)"

definition compute_base_row_digest :: "hash_fun \<Rightarrow> hash_arg \<Rightarrow> bytes \<Rightarrow> cerror + bytes" where
  "compute_base_row_digest H schema_digest canonical_row_bytes =
     res_bind (decode_digest schema_digest)
       (\<lambda>d. Inr (H (ascii ''aim-row-v1'' @ [0] @ d @ [0] @ canonical_row_bytes)))"

definition compute_leaf_hash :: "hash_fun \<Rightarrow> hash_arg \<Rightarrow> num_arg \<Rightarrow> cerror + bytes" where
  "compute_leaf_hash H base_row_digest duplicate_ordinal =
     (case duplicate_ordinal of
        NotNum \<Rightarrow> Inl ''invalid_duplicate_ordinal''
      | Num n \<Rightarrow>
          (if n < 0 \<or> n > MAX_TREE_SIZE then Inl ''invalid_duplicate_ordinal''
           else res_bind (decode_digest base_row_digest)
             (\<lambda>d. Inr (H ([0] @ ascii ''aim-leaf-v1'' @ [0] @ d @ be_bytes 8 (nat n))))))"

definition compute_node_hash :: "hash_fun \<Rightarrow> hash_arg \<Rightarrow> hash_arg \<Rightarrow> cerror + bytes" where
  "compute_node_hash H left_hash right_hash =
     res_bind (decode_digest left_hash)
       (\<lambda>l. res_bind (decode_digest right_hash) (\<lambda>r. Inr (H ([1] @ l @ r))))"

section \<open>Where a tree splits\<close>

fun bit_length :: "nat \<Rightarrow> nat" where
  "bit_length n = (if n = 0 then 0 else Suc (bit_length (n div 2)))"

declare bit_length.simps [simp del]

definition largest_power_of_two_less_than :: "nat \<Rightarrow> cerror + nat" where
  "largest_power_of_two_less_than sz =
     (if sz \<le> 1 then Inl ''invalid_tree_size'' else Inr (push_bit (bit_length (sz - 1) - 1) 1))"

definition pow2_below :: "nat \<Rightarrow> nat" where
  "pow2_below n = 2 ^ (bit_length (n - 1) - 1)"

lemma bit_length_0 [simp]: "bit_length 0 = 0"
  by (simp add: bit_length.simps)

lemma bit_length_pos: "0 < n \<Longrightarrow> bit_length n = Suc (bit_length (n div 2))"
  by (simp add: bit_length.simps)

lemma bit_length_bounds: "0 < n \<Longrightarrow> 2 ^ (bit_length n - 1) \<le> n \<and> n < 2 ^ bit_length n"
proof (induction n rule: bit_length.induct)
  case (1 n)
  show ?case
  proof (cases "n div 2 = 0")
    case True
    then have "n = 1" using "1.prems" by linarith
    then show ?thesis by (simp add: bit_length_pos)
  next
    case False
    then have ih: "2 ^ (bit_length (n div 2) - 1) \<le> n div 2" "n div 2 < 2 ^ bit_length (n div 2)"
      using "1.IH" "1.prems" by simp_all
    have "bit_length (n div 2) = Suc (bit_length (n div 2) - 1)"
      using False by (simp add: bit_length_pos)
    then have "(2 :: nat) ^ bit_length (n div 2) = 2 * 2 ^ (bit_length (n div 2) - 1)"
      by (metis power_Suc)
    then have "2 ^ bit_length (n div 2) \<le> n" "n < 2 * 2 ^ bit_length (n div 2)"
      using ih by linarith+
    then show ?thesis using "1.prems" by (simp add: bit_length_pos)
  qed
qed

lemma bit_length_le: "n < 2 ^ k \<Longrightarrow> bit_length n \<le> k"
proof (rule ccontr)
  assume a: "n < 2 ^ k" "\<not> bit_length n \<le> k"
  then have "0 < n" by (cases "n = 0") auto
  then have "2 ^ (bit_length n - 1) \<le> n" using bit_length_bounds by blast
  moreover have "(2 :: nat) ^ k \<le> 2 ^ (bit_length n - 1)" using a(2) by simp
  ultimately show False using a(1) by linarith
qed

text \<open>The split is the power of two with \<open>k < n \<le> 2 * k\<close>.\<close>

lemma pow2_below_bounds:
  assumes "1 < n"
  shows "0 < pow2_below n" and "pow2_below n < n" and "n \<le> 2 * pow2_below n"
proof -
  have b: "2 ^ (bit_length (n - 1) - 1) \<le> n - 1" "n - 1 < 2 ^ bit_length (n - 1)"
    using bit_length_bounds [of "n - 1"] assms by simp_all
  have s: "bit_length (n - 1) = Suc (bit_length (n - 1) - 1)"
    using assms by (simp add: bit_length_pos)
  show "0 < pow2_below n" by (simp add: pow2_below_def)
  show "pow2_below n < n" using b(1) assms unfolding pow2_below_def by linarith
  have "(2 :: nat) ^ bit_length (n - 1) = 2 * 2 ^ (bit_length (n - 1) - 1)" by (subst s) simp
  then show "n \<le> 2 * pow2_below n" using b(2) unfolding pow2_below_def by linarith
qed

lemma split_eq: "largest_power_of_two_less_than n = (if n \<le> 1 then Inl ''invalid_tree_size'' else Inr (pow2_below n))"
  by (simp add: largest_power_of_two_less_than_def pow2_below_def push_bit_eq_mult)

lemma split_SomeD:
  "largest_power_of_two_less_than n = Inr k \<Longrightarrow> 1 < n \<and> k = pow2_below n \<and> 0 < k \<and> k < n"
  by (auto simp: split_eq pow2_below_bounds split: if_splits)

section \<open>Roots and proofs as the code computes them\<close>

function root_at :: "hash_fun \<Rightarrow> bytes list \<Rightarrow> nat \<Rightarrow> nat \<Rightarrow> cerror + bytes" where
  "root_at H normalized start sz =
     (if sz = 1 then Inr (normalized ! start)
      else res_bind (largest_power_of_two_less_than sz) (\<lambda>split.
        res_bind (root_at H normalized start split) (\<lambda>l.
        res_bind (root_at H normalized (start + split) (sz - split)) (\<lambda>r.
          compute_node_hash H (Raw l) (Raw r)))))"
  by pat_completeness auto
termination
  by (relation "measure (\<lambda>(H, ls, start, sz). sz)") (auto dest: split_SomeD)

declare root_at.simps [simp del]

definition build_merkle_root :: "hash_fun \<Rightarrow> hash_arg list \<Rightarrow> cerror + bytes" where
  "build_merkle_root H leaves =
     (if leaves = [] \<or> int (length leaves) > MAX_TREE_SIZE then Inl ''invalid_tree_size''
      else res_bind (res_map decode_digest leaves) (\<lambda>normalized.
        root_at H normalized 0 (length normalized)))"

datatype direction = LeftSibling | RightSibling

record sibling =
  sib_hash :: bytes
  sib_dir :: direction

function proof_at :: "hash_fun \<Rightarrow> bytes list \<Rightarrow> nat \<Rightarrow> nat \<Rightarrow> nat \<Rightarrow> cerror + sibling list" where
  "proof_at H normalized start sz index =
     (if sz = 1 then Inr []
      else res_bind (largest_power_of_two_less_than sz) (\<lambda>split.
        if index < split then
          res_bind (proof_at H normalized start split index) (\<lambda>p.
          res_bind (build_merkle_root H (map Raw (py_slice (start + split) (start + sz) normalized))) (\<lambda>h.
            Inr (p @ [\<lparr>sib_hash = h, sib_dir = RightSibling\<rparr>])))
        else
          res_bind (proof_at H normalized (start + split) (sz - split) (index - split)) (\<lambda>p.
          res_bind (build_merkle_root H (map Raw (py_slice start (start + split) normalized))) (\<lambda>h.
            Inr (p @ [\<lparr>sib_hash = h, sib_dir = LeftSibling\<rparr>])))))"
  by pat_completeness auto
termination
  by (relation "measure (\<lambda>(H, ls, start, sz, index). sz)") (auto dest: split_SomeD)

declare proof_at.simps [simp del]

definition build_inclusion_proof :: "hash_fun \<Rightarrow> hash_arg list \<Rightarrow> int \<Rightarrow> cerror + sibling list" where
  "build_inclusion_proof H leaves leaf_index =
     (if leaves = [] \<or> int (length leaves) > MAX_TREE_SIZE \<or> leaf_index < 0
         \<or> leaf_index \<ge> int (length leaves)
      then Inl ''invalid_inclusion_proof''
      else res_bind (res_map decode_digest leaves) (\<lambda>normalized.
        proof_at H normalized 0 (length normalized) (nat leaf_index)))"

function directions_at :: "int \<Rightarrow> int \<Rightarrow> cerror + direction list" where
  "directions_at leaf_index tree_size =
     (if tree_size < 1 \<or> tree_size > MAX_TREE_SIZE \<or> leaf_index < 0 \<or> leaf_index \<ge> tree_size
      then Inl ''invalid_inclusion_proof''
      else if tree_size = 1 then Inr []
      else res_bind (largest_power_of_two_less_than (nat tree_size)) (\<lambda>split.
        if leaf_index < int split
        then res_bind (directions_at leaf_index (int split)) (\<lambda>ds. Inr (ds @ [RightSibling]))
        else res_bind (directions_at (leaf_index - int split) (tree_size - int split))
               (\<lambda>ds. Inr (ds @ [LeftSibling]))))"
  by pat_completeness auto
termination
  by (relation "measure (\<lambda>(i, n). nat n)") (auto dest!: split_SomeD)

declare directions_at.simps [simp del]

fun expected_proof_directions :: "num_arg \<Rightarrow> num_arg \<Rightarrow> cerror + direction list" where
  "expected_proof_directions (Num leaf_index) (Num tree_size) = directions_at leaf_index tree_size"
| "expected_proof_directions _ _ = Inl ''invalid_inclusion_proof''"

text \<open>
  A sibling of a received proof: a dictionary or an object whose \<^verbatim>\<open>direction\<close> may be anything
  (\<open>None\<close>: missing or not one of the two words) and whose \<^verbatim>\<open>hash\<close> is a digest argument.
\<close>

record sibling_arg =
  arg_hash :: hash_arg
  arg_dir :: "direction option"

fun verify_steps :: "hash_fun \<Rightarrow> bytes \<Rightarrow> sibling_arg list \<Rightarrow> direction list \<Rightarrow> cerror + bytes option" where
  "verify_steps H current (s # ss) (d # ds) =
     (if arg_dir s \<noteq> Some d then Inr None
      else res_bind (decode_digest (arg_hash s)) (\<lambda>sib.
        res_bind (if d = LeftSibling then compute_node_hash H (Raw sib) (Raw current)
                  else compute_node_hash H (Raw current) (Raw sib))
          (\<lambda>cur. verify_steps H cur ss ds)))"
| "verify_steps H current _ _ = Inr (Some current)"

definition verify_inclusion_proof ::
  "hash_fun \<Rightarrow> hash_arg \<Rightarrow> num_arg \<Rightarrow> num_arg \<Rightarrow> sibling_arg list \<Rightarrow> hash_arg \<Rightarrow> bool" where
  "verify_inclusion_proof H leaf_hash leaf_index tree_size siblings expected_root =
     (case expected_proof_directions leaf_index tree_size of
        Inl e \<Rightarrow> False
      | Inr directions \<Rightarrow>
          (if length siblings > MAX_PROOF_SIBLINGS \<or> length siblings \<noteq> length directions then False
           else case decode_digest leaf_hash of
             Inl e \<Rightarrow> False
           | Inr leaf \<Rightarrow>
               (case verify_steps H leaf siblings directions of
                  Inl e \<Rightarrow> False
                | Inr None \<Rightarrow> False
                | Inr (Some current) \<Rightarrow> constant_time_digest_equal (Raw current) expected_root)))"

text \<open>\<^verbatim>\<open>materialize_tree_nodes\<close>: the nodes in the order \<^verbatim>\<open>visit\<close> appends them.\<close>

type_synonym node = "nat \<times> nat \<times> bytes"

function visit_nodes :: "hash_fun \<Rightarrow> bytes list \<Rightarrow> nat \<Rightarrow> nat \<Rightarrow> cerror + bytes \<times> node list" where
  "visit_nodes H normalized start sz =
     (if sz = 1 then Inr (normalized ! start, [(start, sz, normalized ! start)])
      else res_bind (largest_power_of_two_less_than sz) (\<lambda>split.
        res_bind (visit_nodes H normalized start split) (\<lambda>(l, ns1).
        res_bind (visit_nodes H normalized (start + split) (sz - split)) (\<lambda>(r, ns2).
        res_bind (compute_node_hash H (Raw l) (Raw r)) (\<lambda>result.
          Inr (result, ns1 @ ns2 @ [(start, sz, result)]))))))"
  by pat_completeness auto
termination
  by (relation "measure (\<lambda>(H, ls, start, sz). sz)") (auto dest: split_SomeD)

declare visit_nodes.simps [simp del]

definition materialize_tree_nodes :: "hash_fun \<Rightarrow> hash_arg list \<Rightarrow> cerror + node list" where
  "materialize_tree_nodes H leaves =
     res_bind (res_map decode_digest leaves) (\<lambda>normalized.
       if normalized = [] then Inl ''invalid_tree_size''
       else res_bind (visit_nodes H normalized 0 (length normalized)) (\<lambda>(r, nodes). Inr nodes))"

end
