(* ===== verification/Sha256.thy ===== *)
theory Sha256
  imports Bytes
begin

text \<open>
  \<^verbatim>\<open>hashlib.sha256(...).digest()\<close> (FIPS 180-4): the hash the commitment code calls.  The later
  theories use only that a digest has 32 bytes, stated as the locale \<open>digest32\<close>.
\<close>

unbundle bit_operations_syntax

type_synonym w32 = "32 word"

text \<open>Round constants and initial state, in decimal.\<close>

definition sha_K :: "w32 list" where
  "sha_K =
    [1116352408, 1899447441, 3049323471, 3921009573, 961987163, 1508970993, 2453635748, 2870763221,
     3624381080, 310598401, 607225278, 1426881987, 1925078388, 2162078206, 2614888103, 3248222580,
     3835390401, 4022224774, 264347078, 604807628, 770255983, 1249150122, 1555081692, 1996064986,
     2554220882, 2821834349, 2952996808, 3210313671, 3336571891, 3584528711, 113926993, 338241895,
     666307205, 773529912, 1294757372, 1396182291, 1695183700, 1986661051, 2177026350, 2456956037,
     2730485921, 2820302411, 3259730800, 3345764771, 3516065817, 3600352804, 4094571909, 275423344,
     430227734, 506948616, 659060556, 883997877, 958139571, 1322822218, 1537002063, 1747873779,
     1955562222, 2024104815, 2227730452, 2361852424, 2428436474, 2756734187, 3204031479, 3329325298]"

definition sha_init :: "w32 list" where
  "sha_init =
    [1779033703, 3144134277, 1013904242, 2773480762,
     1359893119, 2600822924, 528734635, 1541459225]"

definition sha_pad :: "bytes \<Rightarrow> bytes" where
  "sha_pad m =
     m @ [0x80] @ replicate ((119 - length m mod 64) mod 64) 0 @ be_bytes 8 (8 * length m)"

fun be_words :: "bytes \<Rightarrow> w32 list" where
  "be_words (a # b # c # d # r) = of_nat (be_value [a, b, c, d]) # be_words r"
| "be_words _ = []"

fun chunks :: "nat \<Rightarrow> w32 list \<Rightarrow> w32 list list" where
  "chunks 0 ws = []"
| "chunks (Suc n) ws = take 16 ws # chunks n (drop 16 ws)"

definition sha_s0 :: "w32 \<Rightarrow> w32" where
  "sha_s0 x = word_rotr 7 x XOR word_rotr 18 x XOR drop_bit 3 x"

definition sha_s1 :: "w32 \<Rightarrow> w32" where
  "sha_s1 x = word_rotr 17 x XOR word_rotr 19 x XOR drop_bit 10 x"

text \<open>The message schedule, kept reversed: the newest word is the head.\<close>

fun sha_extend :: "nat \<Rightarrow> w32 list \<Rightarrow> w32 list" where
  "sha_extend 0 ws = ws"
| "sha_extend (Suc n) ws =
     sha_extend n ((sha_s1 (ws ! 1) + ws ! 6 + sha_s0 (ws ! 14) + ws ! 15) # ws)"

fun sha_round :: "w32 \<Rightarrow> w32 \<Rightarrow> w32 list \<Rightarrow> w32 list" where
  "sha_round k w [a, b, c, d, e, f, g, h] =
     (let t1 = h + (word_rotr 6 e XOR word_rotr 11 e XOR word_rotr 25 e)
                 + ((e AND f) XOR (NOT e AND g)) + k + w;
          t2 = (word_rotr 2 a XOR word_rotr 13 a XOR word_rotr 22 a)
                 + ((a AND b) XOR (a AND c) XOR (b AND c))
      in [t1 + t2, a, b, c, d + t1, e, f, g])"
| "sha_round k w s = s"

definition sha_block :: "w32 list \<Rightarrow> w32 list \<Rightarrow> w32 list" where
  "sha_block st ws =
     map2 (+) st (foldl (\<lambda>s (k, w). sha_round k w s) st (zip sha_K (rev (sha_extend 48 (rev ws)))))"

definition sha256 :: "bytes \<Rightarrow> bytes" where
  "sha256 m =
     (let p = sha_pad m
      in concat (map (\<lambda>w. be_bytes 4 (unat w)) (foldl sha_block sha_init (chunks (length p div 64) (be_words p)))))"

lemma sha_round_length [simp]: "length (sha_round k w s) = length s"
  by (induction k w s rule: sha_round.induct) (simp_all add: Let_def)

lemma sha_block_length [simp]: "length (sha_block st ws) = length st"
proof -
  have "length (foldl (\<lambda>s (k, w). sha_round k w s) s xs) = length s" for s and xs :: "(w32 \<times> w32) list"
    by (induction xs arbitrary: s) (auto split: prod.splits)
  then show ?thesis by (simp add: sha_block_def)
qed

lemma sha256_length [simp]: "length (sha256 m) = 32"
proof -
  have "length (foldl sha_block st bs) = length st" for st bs
    by (induction bs arbitrary: st) auto
  then show ?thesis
    by (simp add: sha256_def Let_def length_concat comp_def sum_list_triv sha_init_def)
qed

end
