(* ===== verification/MerkleTree.thy ===== *)
theory MerkleTree
  imports Merkle Sha256
begin

text \<open>
  The specification of the commitment trees: \<open>mth\<close> is the tree hash of RFC 6962 on a list of
  leaves, \<open>mpath\<close> its audit path.  The code's index arithmetic over \<open>(start, size)\<close> refines
  them; completeness and soundness of inclusion proofs follow.
\<close>

lemma split_measure [simp]:
  "Suc 0 < n \<Longrightarrow> pow2_below n < n" "Suc 0 < n \<Longrightarrow> n - pow2_below n < n"
  using pow2_below_bounds [of n] by simp_all

definition node_hash :: "hash_fun \<Rightarrow> bytes \<Rightarrow> bytes \<Rightarrow> bytes" where
  "node_hash H l r = H ([1] @ l @ r)"

function mth :: "hash_fun \<Rightarrow> bytes list \<Rightarrow> bytes" where
  "mth H xs =
     (if length xs \<le> 1 then concat xs
      else node_hash H (mth H (take (pow2_below (length xs)) xs)) (mth H (drop (pow2_below (length xs)) xs)))"
  by pat_completeness auto
termination
  by (relation "measure (\<lambda>(H, xs). length xs)") (auto simp: not_le)

function mpath :: "hash_fun \<Rightarrow> bytes list \<Rightarrow> nat \<Rightarrow> sibling list" where
  "mpath H xs i =
     (let k = pow2_below (length xs) in
      if length xs \<le> 1 then []
      else if i < k then mpath H (take k xs) i @ [\<lparr>sib_hash = mth H (drop k xs), sib_dir = RightSibling\<rparr>]
      else mpath H (drop k xs) (i - k) @ [\<lparr>sib_hash = mth H (take k xs), sib_dir = LeftSibling\<rparr>])"
  by pat_completeness auto
termination
  by (relation "measure (\<lambda>(H, xs, i). length xs)") (auto simp: not_le)

text \<open>From a leaf up a path, and the inputs hashed on the way.\<close>

fun node_input :: "bytes \<Rightarrow> sibling \<Rightarrow> bytes" where
  "node_input cur s =
     (if sib_dir s = LeftSibling then [1] @ sib_hash s @ cur else [1] @ cur @ sib_hash s)"

definition climb :: "hash_fun \<Rightarrow> bytes \<Rightarrow> sibling list \<Rightarrow> bytes" where
  "climb H leaf p = foldl (\<lambda>cur s. H (node_input cur s)) leaf p"

function tree_inputs :: "hash_fun \<Rightarrow> bytes list \<Rightarrow> bytes list" where
  "tree_inputs H xs =
     (let k = pow2_below (length xs) in
      if length xs \<le> 1 then []
      else ([1] @ mth H (take k xs) @ mth H (drop k xs)) # tree_inputs H (take k xs) @ tree_inputs H (drop k xs))"
  by pat_completeness auto
termination
  by (relation "measure (\<lambda>(H, xs). length xs)") (auto simp: not_le)

fun path_inputs :: "hash_fun \<Rightarrow> bytes \<Rightarrow> sibling list \<Rightarrow> bytes list" where
  "path_inputs H cur [] = []"
| "path_inputs H cur (s # p) = node_input cur s # path_inputs H (H (node_input cur s)) p"

declare mth.simps [simp del] mpath.simps [simp del] tree_inputs.simps [simp del]

lemma mth_single [simp]: "mth H [x] = x"
  by (simp add: mth.simps)

lemma mth_split: "1 < length xs \<Longrightarrow> mth H xs =
    node_hash H (mth H (take (pow2_below (length xs)) xs)) (mth H (drop (pow2_below (length xs)) xs))"
  by (simp add: mth.simps [of H xs])

lemma climb_snoc [simp]: "climb H leaf (p @ [s]) = H (node_input (climb H leaf p) s)"
  by (simp add: climb_def)

lemma climb_Nil [simp]: "climb H leaf [] = leaf"
  by (simp add: climb_def)

lemma climb_Cons: "climb H leaf (s # p) = climb H (H (node_input leaf s)) p"
  by (simp add: climb_def)

lemma path_inputs_snoc: "path_inputs H cur (p @ [s]) = path_inputs H cur p @ [node_input (climb H cur p) s]"
  by (induction p arbitrary: cur) (simp_all add: climb_Cons)

abbreviation digests :: "bytes list \<Rightarrow> bool" where
  "digests xs \<equiv> \<forall>x \<in> set xs. length x = 32"

lemma decode_list_Inr: "res_map decode_digest leaves = Inr xs \<Longrightarrow> length xs = length leaves \<and> digests xs"
proof -
  assume a: "res_map decode_digest leaves = Inr xs"
  then have "list_all2 (\<lambda>l x. decode_digest l = Inr x) leaves xs" by (rule res_map_list_all2)
  then show ?thesis by (auto simp: list_all2_conv_all_nth in_set_conv_nth dest!: decode_digest_length)
qed

lemma decode_map_Raw: "digests xs \<Longrightarrow> res_map decode_digest (map Raw xs) = Inr xs"
  by (induction xs) auto

section \<open>The directions of a path\<close>

lemma directions_at_cases:
  assumes "i < n" and "int n \<le> MAX_TREE_SIZE"
  shows "directions_at (int i) (int n) =
    (if n = 1 then Inr []
     else if i < pow2_below n
       then res_bind (directions_at (int i) (int (pow2_below n))) (\<lambda>ds. Inr (ds @ [RightSibling]))
       else res_bind (directions_at (int (i - pow2_below n)) (int (n - pow2_below n)))
              (\<lambda>ds. Inr (ds @ [LeftSibling])))"
proof (cases "n = 1")
  case True
  with assms show ?thesis by (subst directions_at.simps) simp
next
  case False
  then have "1 < n" using assms(1) by linarith
  with pow2_below_bounds [of n] assms show ?thesis
    by (subst directions_at.simps) (auto simp: split_eq of_nat_diff)
qed

lemma mpath_directions:
  assumes "i < length xs" and "int (length xs) \<le> MAX_TREE_SIZE"
  shows "directions_at (int i) (int (length xs)) = Inr (map sib_dir (mpath H xs i))"
  using assms
proof (induction H xs i rule: mpath.induct)
  case (1 H xs i)
  let ?k = "pow2_below (length xs)"
  note b = pow2_below_bounds [of "length xs"]
  show ?case
  proof (cases "length xs = 1")
    case True
    with "1.prems" show ?thesis using directions_at_cases [of i "length xs"] by (simp add: mpath.simps)
  next
    case False
    then have l: "1 < length xs" using "1.prems" by linarith
    show ?thesis
    proof (cases "i < ?k")
      case True
      have mk: "int ?k \<le> MAX_TREE_SIZE" using "1.prems" b(2) [OF l] by linarith
      with "1.IH"(1) [of ?k] "1.prems" l b True have
        "directions_at (int i) (int ?k) = Inr (map sib_dir (mpath H (take ?k xs) i))" by simp
      with True l "1.prems" show ?thesis
        by (simp add: directions_at_cases mpath.simps [of H xs] Let_def)
    next
      case F: False
      then have "i - ?k < length (drop ?k xs)" using "1.prems" by simp
      with "1.IH"(2) [of ?k] "1.prems" F l b have
        "directions_at (int (i - ?k)) (int (length xs - ?k)) = Inr (map sib_dir (mpath H (drop ?k xs) (i - ?k)))"
        by simp
      with F l "1.prems" show ?thesis
        by (simp add: directions_at_cases mpath.simps [of H xs] Let_def)
    qed
  qed
qed

lemma mpath_depth: "i < length xs \<Longrightarrow> length xs \<le> 2 ^ d \<Longrightarrow> length (mpath H xs i) \<le> d"
proof (induction H xs i arbitrary: d rule: mpath.induct)
  case (1 H xs i)
  let ?k = "pow2_below (length xs)"
  note b = pow2_below_bounds [of "length xs"]
  show ?case
  proof (cases "1 < length xs")
    case True
    obtain e where d: "d = Suc e" using "1.prems" True by (cases d) auto
    have "bit_length (length xs - 1) \<le> d"
      using "1.prems"(2) True by (intro bit_length_le) linarith
    then have k: "?k \<le> 2 ^ e" unfolding pow2_below_def d by (intro power_increasing) simp_all
    moreover have "length xs - ?k \<le> 2 ^ e" using b(3) [OF True] k by linarith
    ultimately show ?thesis
      using "1.IH"(1) [of ?k e] "1.IH"(2) [of ?k e] "1.prems"(1) True b
      by (subst mpath.simps) (auto simp: Let_def d min_def)
  next
    case False
    then show ?thesis by (simp add: mpath.simps)
  qed
qed

section \<open>The code computes the specification\<close>

text \<open>What the tree code relies on of its hash: digests have 32 bytes.\<close>

locale digest32 =
  fixes H :: hash_fun
  assumes digest_length: "length (H x) = 32"
begin

lemma mth_digest: "digests xs \<Longrightarrow> xs \<noteq> [] \<Longrightarrow> length (mth H xs) = 32"
proof -
  assume a: "digests xs" "xs \<noteq> []"
  show ?thesis
  proof (cases "1 < length xs")
    case True
    then show ?thesis by (simp add: mth_split node_hash_def digest_length)
  next
    case False
    with a obtain x where "xs = [x]" by (cases xs) auto
    with a show ?thesis by simp
  qed
qed

lemma mth_slice_digest:
  "digests xs \<Longrightarrow> 0 < n \<Longrightarrow> s + n \<le> length xs \<Longrightarrow> length (mth H (take n (drop s xs))) = 32"
  by (rule mth_digest) (auto dest!: in_set_takeD in_set_dropD)

lemma compute_node_hash_Inr:
  "length l = 32 \<Longrightarrow> length r = 32 \<Longrightarrow> compute_node_hash H (Raw l) (Raw r) = Inr (node_hash H l r)"
  by (simp add: compute_node_hash_def node_hash_def)

lemma slice_split:
  assumes "1 < n" and "s + n \<le> length xs"
  shows "mth H (take n (drop s xs)) =
    node_hash H (mth H (take (pow2_below n) (drop s xs)))
      (mth H (take (n - pow2_below n) (drop (s + pow2_below n) xs)))"
proof -
  note b = pow2_below_bounds [OF assms(1)]
  have l: "length (take n (drop s xs)) = n" using assms by simp
  have "take (pow2_below n) (take n (drop s xs)) = take (pow2_below n) (drop s xs)"
    using b by (simp add: min_def)
  moreover have "drop (pow2_below n) (take n (drop s xs)) = take (n - pow2_below n) (drop (s + pow2_below n) xs)"
    by (simp add: drop_take add.commute)
  ultimately show ?thesis using mth_split [of "take n (drop s xs)" H] assms(1) unfolding l by simp
qed

lemma take_one_drop: "s < length xs \<Longrightarrow> take (Suc 0) (drop s xs) = [xs ! s]"
  by (simp add: take_Suc hd_drop_conv_nth)

lemma root_at_mth:
  assumes "digests xs" and "0 < n" and "s + n \<le> length xs"
  shows "root_at H xs s n = Inr (mth H (take n (drop s xs)))"
  using assms(2,3)
proof (induction n arbitrary: s rule: less_induct)
  case (less n)
  show ?case
  proof (cases "n = 1")
    case True
    with less.prems show ?thesis by (simp add: root_at.simps take_one_drop)
  next
    case False
    then have n: "1 < n" using less.prems by linarith
    note b = pow2_below_bounds [OF n]
    have "root_at H xs s (pow2_below n) = Inr (mth H (take (pow2_below n) (drop s xs)))"
      using less.IH [of "pow2_below n" s] less.prems b by simp
    moreover have "root_at H xs (s + pow2_below n) (n - pow2_below n) =
        Inr (mth H (take (n - pow2_below n) (drop (s + pow2_below n) xs)))"
      using less.IH [of "n - pow2_below n" "s + pow2_below n"] less.prems b by simp
    moreover have "length (mth H (take (pow2_below n) (drop s xs))) = 32"
        "length (mth H (take (n - pow2_below n) (drop (s + pow2_below n) xs))) = 32"
      using mth_slice_digest [OF assms(1)] less.prems b by simp_all
    ultimately show ?thesis using n less.prems False
      by (simp add: root_at.simps [of H xs s n] split_eq compute_node_hash_Inr slice_split)
  qed
qed

lemma build_root_mth:
  assumes "res_map decode_digest leaves = Inr xs" and "leaves \<noteq> []"
    and "int (length leaves) \<le> MAX_TREE_SIZE"
  shows "build_merkle_root H leaves = Inr (mth H xs)"
proof -
  have d: "length xs = length leaves" "digests xs" using decode_list_Inr [OF assms(1)] by simp_all
  then have "root_at H xs 0 (length xs) = Inr (mth H xs)"
    using root_at_mth [of xs "length xs" 0] assms(2) by simp
  then show ?thesis using assms by (simp add: build_merkle_root_def)
qed

lemma build_root_slice:
  assumes "digests xs" and "0 < n" and "s + n \<le> length xs" and "int (length xs) \<le> MAX_TREE_SIZE"
  shows "build_merkle_root H (map Raw (py_slice s (s + n) xs)) = Inr (mth H (take n (drop s xs)))"
proof -
  have "digests (take n (drop s xs))" using assms(1) by (auto dest!: in_set_takeD in_set_dropD)
  then show ?thesis using assms
    by (simp add: py_slice_def build_root_mth decode_map_Raw)
qed

lemma mpath_slice:
  assumes "1 < n" and "s + n \<le> length xs"
  shows "mpath H (take n (drop s xs)) i =
    (if i < pow2_below n
     then mpath H (take (pow2_below n) (drop s xs)) i @
       [\<lparr>sib_hash = mth H (take (n - pow2_below n) (drop (s + pow2_below n) xs)), sib_dir = RightSibling\<rparr>]
     else mpath H (take (n - pow2_below n) (drop (s + pow2_below n) xs)) (i - pow2_below n) @
       [\<lparr>sib_hash = mth H (take (pow2_below n) (drop s xs)), sib_dir = LeftSibling\<rparr>])"
proof -
  note b = pow2_below_bounds [OF assms(1)]
  have l: "length (take n (drop s xs)) = n" using assms by simp
  have "take (pow2_below n) (take n (drop s xs)) = take (pow2_below n) (drop s xs)"
    using b by (simp add: min_def)
  moreover have "drop (pow2_below n) (take n (drop s xs)) = take (n - pow2_below n) (drop (s + pow2_below n) xs)"
    by (simp add: drop_take add.commute)
  ultimately show ?thesis using assms(1) mpath.simps [of H "take n (drop s xs)" i] unfolding l by (simp add: Let_def)
qed

lemma proof_at_mpath:
  assumes "digests xs" and "int (length xs) \<le> MAX_TREE_SIZE" and "0 < n" and "s + n \<le> length xs"
  shows "proof_at H xs s n i = Inr (mpath H (take n (drop s xs)) i)"
  using assms(3,4)
proof (induction n arbitrary: s i rule: less_induct)
  case (less n)
  show ?case
  proof (cases "n = 1")
    case True
    with less.prems show ?thesis by (simp add: proof_at.simps mpath.simps)
  next
    case False
    then have n: "1 < n" using less.prems by linarith
    let ?k = "pow2_below n"
    note b = pow2_below_bounds [OF n]
    have "proof_at H xs s ?k i = Inr (mpath H (take ?k (drop s xs)) i)" for i
      using less.IH [of ?k s i] less.prems b by simp
    moreover have "proof_at H xs (s + ?k) (n - ?k) i = Inr (mpath H (take (n - ?k) (drop (s + ?k) xs)) i)" for i
      using less.IH [of "n - ?k" "s + ?k" i] less.prems b by simp
    moreover have "build_merkle_root H (map Raw (py_slice s (s + ?k) xs)) = Inr (mth H (take ?k (drop s xs)))"
      using build_root_slice [of xs ?k s] less.prems assms b by simp
    moreover have "build_merkle_root H (map Raw (py_slice (s + ?k) (s + n) xs)) =
        Inr (mth H (take (n - ?k) (drop (s + ?k) xs)))"
      using build_root_slice [of xs "n - ?k" "s + ?k"] less.prems assms b by simp
    ultimately show ?thesis using n False less.prems
      by (simp add: proof_at.simps [of H xs s n] split_eq mpath_slice)
  qed
qed

lemma build_proof_mpath:
  assumes "res_map decode_digest leaves = Inr xs" and "int (length leaves) \<le> MAX_TREE_SIZE"
    and "0 \<le> i" and "i < int (length leaves)"
  shows "build_inclusion_proof H leaves i = Inr (mpath H xs (nat i))"
proof -
  have d: "length xs = length leaves" "digests xs" using decode_list_Inr [OF assms(1)] by simp_all
  moreover have ne: "leaves \<noteq> []" using assms by auto
  moreover from d ne assms have "proof_at H xs 0 (length xs) (nat i) = Inr (mpath H xs (nat i))"
    using proof_at_mpath [of xs "length xs" 0 "nat i"] by simp
  ultimately show ?thesis using assms by (simp add: build_inclusion_proof_def)
qed


section \<open>Inclusion proofs\<close>

lemma mpath_digests: "digests xs \<Longrightarrow> i < length xs \<Longrightarrow> \<forall>s \<in> set (mpath H xs i). length (sib_hash s) = 32"
proof (induction "length xs" arbitrary: xs i rule: less_induct)
  case less
  let ?k = "pow2_below (length xs)"
  show ?case
  proof (cases "1 < length xs")
    case True
    note b = pow2_below_bounds [OF True]
    have d: "digests (take ?k xs)" "digests (drop ?k xs)"
      using less.prems(1) by (auto dest: in_set_takeD in_set_dropD)
    have "take ?k xs \<noteq> []" using b True by auto
    moreover have "drop ?k xs \<noteq> []" by (metis b(2) drop_eq_Nil not_le)
    ultimately
    have "length (mth H (take ?k xs)) = 32" "length (mth H (drop ?k xs)) = 32"
      using d mth_digest by blast+
    with less.hyps [of "take ?k xs" i] less.hyps [of "drop ?k xs" "i - ?k"] d b True less.prems(2)
    show ?thesis by (subst mpath.simps) (simp add: Let_def)
  next
    case False
    then show ?thesis by (simp add: mpath.simps)
  qed
qed

lemma climb_mpath: "i < length xs \<Longrightarrow> climb H (xs ! i) (mpath H xs i) = mth H xs"
proof (induction "length xs" arbitrary: xs i rule: less_induct)
  case less
  let ?k = "pow2_below (length xs)"
  show ?case
  proof (cases "1 < length xs")
    case True
    note b = pow2_below_bounds [OF True]
    show ?thesis
    proof (cases "i < ?k")
      case T: True
      with less.hyps [of "take ?k xs" i] b have "climb H (xs ! i) (mpath H (take ?k xs) i) = mth H (take ?k xs)"
        by simp
      with T True show ?thesis
        by (simp add: mpath.simps [of H xs i] Let_def mth_split [OF True] node_hash_def)
    next
      case F: False
      with less.hyps [of "drop ?k xs" "i - ?k"] b less.prems
      have "climb H (xs ! i) (mpath H (drop ?k xs) (i - ?k)) = mth H (drop ?k xs)" by simp
      with F True show ?thesis
        by (simp add: mpath.simps [of H xs i] Let_def mth_split [OF True] node_hash_def)
    qed
  next
    case False
    with less.prems obtain x where "xs = [x]" by (cases xs) auto
    with less.prems show ?thesis by (simp add: mpath.simps)
  qed
qed

lemma climb_digest:
  "length leaf = 32 \<Longrightarrow> length (climb H leaf p) = 32"
  by (induction p rule: rev_induct) (simp_all add: digest_length)

end

text \<open>What the verifier reads of a received sibling, and a sibling as the prover sends it.\<close>

definition read_sibling :: "sibling_arg \<Rightarrow> sibling" where
  "read_sibling s =
     \<lparr>sib_hash = (case decode_digest (arg_hash s) of Inl e \<Rightarrow> [] | Inr h \<Rightarrow> h),
      sib_dir = (case arg_dir s of None \<Rightarrow> LeftSibling | Some d \<Rightarrow> d)\<rparr>"

definition send_sibling :: "sibling \<Rightarrow> sibling_arg" where
  "send_sibling s = \<lparr>arg_hash = Raw (sib_hash s), arg_dir = Some (sib_dir s)\<rparr>"

context digest32
begin

lemma verify_steps_iff:
  "length cur = 32 \<Longrightarrow> length ss = length ds \<Longrightarrow>
   verify_steps H cur ss ds = Inr (Some r) \<longleftrightarrow>
     map arg_dir ss = map Some ds \<and> (\<forall>s \<in> set ss. \<exists>h. decode_digest (arg_hash s) = Inr h)
     \<and> r = climb H cur (map read_sibling ss)"
proof (induction ss arbitrary: ds cur)
  case (Cons s ss)
  then obtain d ds' where ds: "ds = d # ds'" "length ss = length ds'" by (cases ds) auto
  show ?case
  proof (cases "arg_dir s = Some d \<and> (\<exists>h. decode_digest (arg_hash s) = Inr h)")
    case True
    then obtain h where h: "arg_dir s = Some d" "decode_digest (arg_hash s) = Inr h" by blast
    have "length h = 32" using h(2) by (rule decode_digest_length)
    then show ?thesis using Cons.IH [OF _ ds(2)] Cons.prems h ds(1)
      by (cases d) (auto simp: compute_node_hash_Inr node_hash_def digest_length climb_Cons read_sibling_def)
  next
    case False
    then show ?thesis using ds(1) by (cases "decode_digest (arg_hash s)") auto
  qed
qed (auto)

lemma arg_dirs_iff:
  "map arg_dir ss = map Some ds \<longleftrightarrow>
     (\<forall>s \<in> set ss. arg_dir s \<noteq> None) \<and> ds = map sib_dir (map read_sibling ss)"
proof (induction ss arbitrary: ds)
  case (Cons s ss)
  then show ?case by (cases ds) (auto simp: read_sibling_def)
qed auto

lemma digest_equal_iff:
  "length c = 32 \<Longrightarrow> constant_time_digest_equal (Raw c) v \<longleftrightarrow> decode_digest v = Inr c"
  by (auto simp: constant_time_digest_equal_def split: sum.split)

lemma verify_iff:
  "verify_inclusion_proof H leaf (Num i) (Num n) ss rt \<longleftrightarrow>
     directions_at i n = Inr (map sib_dir (map read_sibling ss)) \<and> length ss \<le> 63
        \<and> (\<forall>s \<in> set ss. arg_dir s \<noteq> None \<and> (\<exists>h. decode_digest (arg_hash s) = Inr h))
        \<and> (\<exists>d. decode_digest leaf = Inr d \<and> decode_digest rt = Inr (climb H d (map read_sibling ss)))"
    (is "?L \<longleftrightarrow> ?D \<and> ?S \<and> ?A \<and> ?R")
proof (cases "directions_at i n")
  case (Inr ds)
  show ?thesis
  proof (cases "length ss \<le> 63 \<and> length ss = length ds")
    case True
    show ?thesis
    proof (cases "decode_digest leaf")
      case leaf: (Inr d)
      have ld: "length d = 32" using leaf by (rule decode_digest_length)
      have sl: "length ss = length ds" using True by simp
      have len: "length r = 32" if "verify_steps H d ss ds = Inr (Some r)" for r
        using verify_steps_iff [OF ld, of ss ds r] that True climb_digest [OF ld] by auto
      have "?L \<longleftrightarrow> (\<exists>r. verify_steps H d ss ds = Inr (Some r) \<and> decode_digest rt = Inr r)"
      proof -
        have "?L \<longleftrightarrow> (case verify_steps H d ss ds of Inl e \<Rightarrow> False | Inr None \<Rightarrow> False
            | Inr (Some c) \<Rightarrow> constant_time_digest_equal (Raw c) rt)"
          using Inr True leaf by (simp add: verify_inclusion_proof_def MAX_PROOF_SIBLINGS_def)
        also have "\<dots> \<longleftrightarrow> (\<exists>r. verify_steps H d ss ds = Inr (Some r) \<and> decode_digest rt = Inr r)"
        proof (cases "verify_steps H d ss ds")
          case (Inr c)
          with digest_equal_iff len show ?thesis by (cases c) auto
        qed auto
        finally show ?thesis .
      qed
      also have "\<dots> \<longleftrightarrow> map arg_dir ss = map Some ds \<and> (\<forall>s \<in> set ss. \<exists>h. decode_digest (arg_hash s) = Inr h)
          \<and> decode_digest rt = Inr (climb H d (map read_sibling ss))"
        by (simp only: verify_steps_iff [OF ld sl]) blast
      also have "\<dots> \<longleftrightarrow> ?D \<and> ?S \<and> ?A \<and> ?R"
      proof -
        have "?D \<longleftrightarrow> ds = map sib_dir (map read_sibling ss)" using Inr by simp
        moreover have ?S using True by simp
        moreover have "?R \<longleftrightarrow> decode_digest rt = Inr (climb H d (map read_sibling ss))" using leaf by simp
        ultimately show ?thesis unfolding arg_dirs_iff by (simp only: ball_conj_distrib) blast
      qed
      finally show ?thesis .
    qed (use Inr True in \<open>simp add: verify_inclusion_proof_def\<close>)
  next
    case False
    then have "length ss > MAX_PROOF_SIBLINGS \<or> length ss \<noteq> length ds"
      by (auto simp: MAX_PROOF_SIBLINGS_def)
    then have "\<not> ?L" using Inr by (simp add: verify_inclusion_proof_def)
    moreover have "\<not> (?D \<and> ?S)"
    proof
      assume "?D \<and> ?S"
      then have "ds = map sib_dir (map read_sibling ss)" using Inr by simp
      with \<open>?D \<and> ?S\<close> False show False by simp
    qed
    ultimately show ?thesis by blast
  qed
next
  case (Inl e)
  then have "\<not> ?L" "\<not> ?D" by (simp_all add: verify_inclusion_proof_def)
  then show ?thesis by blast
qed

lemma read_send [simp]: "length (sib_hash s) = 32 \<Longrightarrow> read_sibling (send_sibling s) = s"
  by (simp add: read_sibling_def send_sibling_def)

lemma honest_proof_verifies:
  assumes "res_map decode_digest leaves = Inr xs" and "int (length leaves) \<le> MAX_TREE_SIZE"
    and "i < length leaves"
  shows "verify_inclusion_proof H (leaves ! i) (Num (int i)) (Num (int (length leaves)))
    (map send_sibling (mpath H xs i)) (Raw (mth H xs))"
proof -
  have d: "length xs = length leaves" "digests xs" using decode_list_Inr [OF assms(1)] by simp_all
  have md: "\<forall>s \<in> set (mpath H xs i). length (sib_hash s) = 32"
    using mpath_digests [OF d(2)] assms(3) d(1) by simp
  then have rd: "map read_sibling (map send_sibling (mpath H xs i)) = mpath H xs i"
    by (simp add: map_idI)
  have "directions_at (int i) (int (length leaves)) = Inr (map sib_dir (mpath H xs i))"
    using mpath_directions [of i xs H] assms(2,3) d(1) by simp
  moreover have "length (mpath H xs i) \<le> 63"
    using mpath_depth [of i xs 63 H] assms(2,3) d(1) by (simp add: MAX_TREE_SIZE_def)
  moreover have "decode_digest (leaves ! i) = Inr (xs ! i)"
    using res_map_list_all2 [OF assms(1)] assms(3) by (simp add: list_all2_conv_all_nth)
  moreover have "decode_digest (Raw (mth H xs)) = Inr (climb H (xs ! i) (mpath H xs i))"
    using climb_mpath [of i xs] mth_digest [OF d(2)] assms(3) d(1) by force
  ultimately show ?thesis using md unfolding verify_iff rd
    by (auto simp: send_sibling_def)
qed

lemma tree_inputs_split:
  "1 < length xs \<Longrightarrow> set (tree_inputs H xs) =
     insert ([1] @ mth H (take (pow2_below (length xs)) xs) @ mth H (drop (pow2_below (length xs)) xs))
       (set (tree_inputs H (take (pow2_below (length xs)) xs)) \<union> set (tree_inputs H (drop (pow2_below (length xs)) xs)))"
  by (simp add: tree_inputs.simps [of H xs] Let_def)

lemma climb_sound:
  assumes "digests xs" and "i < length xs" and "length leaf = 32" and "\<forall>s \<in> set p. length (sib_hash s) = 32"
    and "map sib_dir p = map sib_dir (mpath H xs i)"
    and "inj_on H (set (tree_inputs H xs) \<union> set (path_inputs H leaf p))"
    and "climb H leaf p = mth H xs"
  shows "leaf = xs ! i \<and> p = mpath H xs i"
  using assms
proof (induction "length xs" arbitrary: xs i p rule: less_induct)
  case less
  let ?k = "pow2_below (length xs)"
  show ?case
  proof (cases "1 < length xs")
    case False
    with less.prems(2) obtain x where "xs = [x]" by (cases xs) auto
    with less.prems show ?thesis by (simp add: mpath.simps)
  next
    case True
    note b = pow2_below_bounds [OF True]
    let ?L = "mth H (take ?k xs)" and ?R = "mth H (drop ?k xs)"
    have d: "digests (take ?k xs)" "digests (drop ?k xs)"
      using less.prems(1) by (auto dest: in_set_takeD in_set_dropD)
    have "take ?k xs \<noteq> []" using b True by auto
    moreover have "drop ?k xs \<noteq> []" by (metis b(2) drop_eq_Nil not_le)
    ultimately have lens: "length ?L = 32" "length ?R = 32" using d mth_digest by blast+
    have mp: "mpath H xs i = (if i < ?k then mpath H (take ?k xs) i @ [\<lparr>sib_hash = ?R, sib_dir = RightSibling\<rparr>]
       else mpath H (drop ?k xs) (i - ?k) @ [\<lparr>sib_hash = ?L, sib_dir = LeftSibling\<rparr>])"
      using True by (simp add: mpath.simps [of H xs i] Let_def)
    then have "mpath H xs i \<noteq> []" by simp
    then have "p \<noteq> []" using less.prems(5) by auto
    then obtain q s where p: "p = q @ [s]" by (metis append_butlast_last_id)
    have lq: "length (climb H leaf q) = 32" using less.prems(3) by (rule climb_digest)
    have inj: "inj_on H (set (tree_inputs H (take ?k xs)) \<union> set (path_inputs H leaf q))"
        "inj_on H (set (tree_inputs H (drop ?k xs)) \<union> set (path_inputs H leaf q))"
      using less.prems(6) unfolding p path_inputs_snoc tree_inputs_split [OF True]
      by (auto intro: inj_on_subset)
    have eq: "node_input (climb H leaf q) s = [1] @ ?L @ ?R"
    proof (rule inj_onD [OF less.prems(6)])
      show "H (node_input (climb H leaf q) s) = H ([1] @ ?L @ ?R)"
        using less.prems(7) mth_split [OF True] unfolding p by (simp add: node_hash_def)
    qed (simp_all add: p path_inputs_snoc tree_inputs_split [OF True])
    have ls: "length (sib_hash s) = 32" "\<forall>s \<in> set q. length (sib_hash s) = 32"
      using less.prems(4) p by auto
    show ?thesis
    proof (cases "i < ?k")
      case T: True
      then have dirs: "sib_dir s = RightSibling" "map sib_dir q = map sib_dir (mpath H (take ?k xs) i)"
        using less.prems(5) mp p by simp_all
      then have c: "climb H leaf q = ?L" "sib_hash s = ?R" using eq lq lens ls by simp_all
      then show ?thesis
        using less.hyps [OF _ d(1) _ less.prems(3) ls(2) dirs(2) inj(1) c(1)] b(2) T mp p dirs(1) c(2) by simp
    next
      case F: False
      then have dirs: "sib_dir s = LeftSibling" "map sib_dir q = map sib_dir (mpath H (drop ?k xs) (i - ?k))"
        using less.prems(5) mp p by simp_all
      then have c: "climb H leaf q = ?R" "sib_hash s = ?L" using eq lq lens ls by simp_all
      have "i - ?k < length (drop ?k xs)" using F less.prems(2) by simp
      then show ?thesis
        using less.hyps [OF _ d(2) _ less.prems(3) ls(2) dirs(2) inj(2) c(1)] b(1,2) F mp p dirs(1) True less.prems(2) c(2)
        by simp
    qed
  qed
qed

lemma accepted_proof_sound:
  assumes "digests xs" and "verify_inclusion_proof H leaf (Num i) (Num (int (length xs))) ss (Raw (mth H xs))"
    and "decode_digest leaf = Inr d"
    and "inj_on H (set (tree_inputs H xs) \<union> set (path_inputs H d (map read_sibling ss)))"
  shows "0 \<le> i \<and> i < int (length xs) \<and> d = xs ! nat i \<and> map read_sibling ss = mpath H xs (nat i)"
proof -
  note v = assms(2) [unfolded verify_iff]
  have r: "0 \<le> i" "i < int (length xs)" "int (length xs) \<le> MAX_TREE_SIZE"
    using v directions_at.simps [of i "int (length xs)"] by (auto split: if_splits)
  then have dirs: "map sib_dir (map read_sibling ss) = map sib_dir (mpath H xs (nat i))"
    using v mpath_directions [of "nat i" xs H] by simp
  have "\<forall>s \<in> set (map read_sibling ss). length (sib_hash s) = 32"
    using v by (fastforce simp: read_sibling_def dest: decode_digest_length split: sum.splits)
  moreover have "climb H d (map read_sibling ss) = mth H xs"
    using v assms(3) by (auto simp: decode_digest_Raw_iff)
  moreover have "length d = 32" using assms(3) by (rule decode_digest_length)
  ultimately show ?thesis
    using climb_sound [OF assms(1) _ _ _ dirs assms(4)] r by simp
qed

end

interpretation sha: digest32 sha256
  by unfold_locales simp

section \<open>Properties of the commitment code\<close>

text \<open>
  C7. Inclusion proofs are complete: for a non-empty sequence of valid digests within the tree
  size limit the code returns a root and, for every leaf, a proof of at most 63 siblings with the
  expected directions, and the verifier accepts that proof for that leaf, index and root.
\<close>

theorem inclusion_proofs_complete:
  assumes "res_map decode_digest leaves = Inr xs" and "int (length leaves) \<le> MAX_TREE_SIZE"
    and "i < length leaves"
  shows "\<exists>r p. build_merkle_root sha256 leaves = Inr r
    \<and> build_inclusion_proof sha256 leaves (int i) = Inr p \<and> length p \<le> MAX_PROOF_SIBLINGS
    \<and> expected_proof_directions (Num (int i)) (Num (int (length leaves))) = Inr (map sib_dir p)
    \<and> verify_inclusion_proof sha256 (leaves ! i) (Num (int i)) (Num (int (length leaves)))
        (map send_sibling p) (Raw r)"
proof (intro exI conjI)
  have l: "length xs = length leaves" using decode_list_Inr [OF assms(1)] by simp
  have ne: "leaves \<noteq> []" using assms(3) by auto
  show "build_merkle_root sha256 leaves = Inr (mth sha256 xs)"
    by (rule sha.build_root_mth [OF assms(1) ne assms(2)])
  show "build_inclusion_proof sha256 leaves (int i) = Inr (mpath sha256 xs i)"
    using sha.build_proof_mpath [OF assms(1,2), of "int i"] assms(3) by simp
  show "length (mpath sha256 xs i) \<le> MAX_PROOF_SIBLINGS"
    using mpath_depth [of i xs 63 sha256] assms(2,3) l by (simp add: MAX_TREE_SIZE_def MAX_PROOF_SIBLINGS_def)
  show "expected_proof_directions (Num (int i)) (Num (int (length leaves))) =
      Inr (map sib_dir (mpath sha256 xs i))"
    using mpath_directions [of i xs sha256] assms(2,3) l by simp
  show "verify_inclusion_proof sha256 (leaves ! i) (Num (int i)) (Num (int (length leaves)))
      (map send_sibling (mpath sha256 xs i)) (Raw (mth sha256 xs))"
    by (rule sha.honest_proof_verifies [OF assms])
qed

abbreviation fill :: "8 word \<Rightarrow> bytes" where "fill b \<equiv> replicate 32 b"

theorem inclusion_proofs_complete_witness:
  "\<exists>r p. build_inclusion_proof sha256 [Raw (fill 1), Text (encode_base64url (fill 2)), Raw (fill 3)] 1 = Inr p
    \<and> verify_inclusion_proof sha256 (Text (encode_base64url (fill 2))) (Num 1) (Num 3) (map send_sibling p) (Raw r)"
proof -
  have "res_map decode_digest [Raw (fill 1), Text (encode_base64url (fill 2)), Raw (fill 3)] = Inr [fill 1, fill 2, fill 3]"
    by simp
  from inclusion_proofs_complete [OF this, of 1] show ?thesis
    by (auto simp: MAX_TREE_SIZE_def)
qed

text \<open>
  C6. Inclusion proofs are sound: if SHA-256 does not collide on the inputs hashed for the tree and
  along the presented proof, a proof the verifier accepts against the tree's root and size has an
  index inside the tree, its leaf is the leaf at that index, and its siblings are exactly those of
  the proof the code builds, whatever spelling the digests arrived in.
\<close>

theorem inclusion_proofs_sound:
  assumes "res_map decode_digest leaves = Inr xs" and "build_merkle_root sha256 leaves = Inr r"
    and "verify_inclusion_proof sha256 leaf (Num i) (Num (int (length leaves))) ss (Raw r)"
    and "decode_digest leaf = Inr d"
    and "inj_on sha256 (set (tree_inputs sha256 xs) \<union> set (path_inputs sha256 d (map read_sibling ss)))"
  shows "0 \<le> i \<and> i < int (length leaves) \<and> d = xs ! nat i
    \<and> build_inclusion_proof sha256 leaves i = Inr (map read_sibling ss)"
proof -
  have l: "length xs = length leaves" "digests xs" using decode_list_Inr [OF assms(1)] by simp_all
  have m: "leaves \<noteq> []" "int (length leaves) \<le> MAX_TREE_SIZE"
    using assms(2) by (auto simp: build_merkle_root_def split: if_splits)
  have r: "r = mth sha256 xs" using sha.build_root_mth [OF assms(1) m] assms(2) by simp
  have "0 \<le> i \<and> i < int (length xs) \<and> d = xs ! nat i \<and> map read_sibling ss = mpath sha256 xs (nat i)"
    using sha.accepted_proof_sound [OF l(2) _ assms(4,5)] assms(3) l(1) r by simp
  then show ?thesis using sha.build_proof_mpath [OF assms(1) m(2)] l(1) by simp
qed

lemma two_leaf_tree:
  "mth H [a, b] = node_hash H a b" "mpath H [a, b] 0 = [\<lparr>sib_hash = b, sib_dir = RightSibling\<rparr>]"
  "tree_inputs H [a, b] = [[1] @ a @ b]"
  by (simp_all add: mth.simps [of H "[a, b]"] mpath.simps tree_inputs.simps pow2_below_def bit_length.simps
      node_hash_def Let_def)

theorem inclusion_proofs_sound_witness:
  "build_inclusion_proof sha256 [Raw (fill 1), Raw (fill 2)] 0 =
     Inr (map read_sibling [\<lparr>arg_hash = Text (encode_base64url (fill 2)), arg_dir = Some RightSibling\<rparr>])"
proof -
  let ?ls = "[Raw (fill 1), Raw (fill 2)]" and ?xs = "[fill 1, fill 2]"
  let ?ss = "[\<lparr>arg_hash = Text (encode_base64url (fill 2)), arg_dir = Some RightSibling\<rparr>]"
  have xs: "res_map decode_digest ?ls = Inr ?xs" by simp
  have rt: "build_merkle_root sha256 ?ls = Inr (mth sha256 ?xs)"
    by (rule sha.build_root_mth [OF xs]) (simp_all add: MAX_TREE_SIZE_def)
  have rd: "map read_sibling ?ss = [\<lparr>sib_hash = fill 2, sib_dir = RightSibling\<rparr>]"
    by (simp add: read_sibling_def)
  have "directions_at 0 (int (length ?ls)) = Inr [RightSibling]"
    using mpath_directions [of 0 ?xs sha256] by (simp add: two_leaf_tree MAX_TREE_SIZE_def)
  then have v: "verify_inclusion_proof sha256 (Raw (fill 1)) (Num 0) (Num (int (length ?ls))) ?ss (Raw (mth sha256 ?xs))"
    unfolding sha.verify_iff rd by (simp add: two_leaf_tree node_hash_def climb_def)
  have "inj_on sha256 (set (tree_inputs sha256 ?xs) \<union> set (path_inputs sha256 (fill 1) (map read_sibling ?ss)))"
    unfolding rd by (simp add: two_leaf_tree)
  from inclusion_proofs_sound [OF xs rt v _ this] show ?thesis by simp
qed

end
