(* ===== verification/RowCommitment.thy ===== *)
theory RowCommitment
  imports MerkleTree
begin

text \<open>
  From rows to the root (app/services/dataset_merkle_service.py): a row is hashed with the schema
  digest, the leaf binds that hash to the ordinal among equal rows, and the tree binds the leaf to
  its index.  The second part is the list of nodes \<^verbatim>\<open>materialize_tree_nodes\<close> returns.
\<close>

definition base_input :: "bytes \<Rightarrow> bytes \<Rightarrow> bytes" where
  "base_input schema row = ascii ''aim-row-v1'' @ [0] @ schema @ [0] @ row"

definition leaf_input :: "bytes \<Rightarrow> nat \<Rightarrow> bytes" where
  "leaf_input base n = [0] @ ascii ''aim-leaf-v1'' @ [0] @ base @ be_bytes 8 n"

text \<open>The leaf of a row: the two calls the builder makes.\<close>

definition row_leaf :: "hash_fun \<Rightarrow> hash_arg \<Rightarrow> bytes \<times> nat \<Rightarrow> cerror + bytes" where
  "row_leaf H schema_digest rn =
     res_bind (compute_base_row_digest H schema_digest (fst rn))
       (\<lambda>base. compute_leaf_hash H (Raw base) (Num (int (snd rn))))"

text \<open>The inputs hashed for the rows, per level.\<close>

definition base_inputs :: "bytes \<Rightarrow> (bytes \<times> nat) list \<Rightarrow> bytes list" where
  "base_inputs schema rns = map (\<lambda>rn. base_input schema (fst rn)) rns"

definition leaf_inputs :: "hash_fun \<Rightarrow> bytes \<Rightarrow> (bytes \<times> nat) list \<Rightarrow> bytes list" where
  "leaf_inputs H schema rns = map (\<lambda>rn. leaf_input (H (base_input schema (fst rn))) (snd rn)) rns"

lemma base_input_inj [simp]: "base_input d r = base_input d r' \<longleftrightarrow> r = r'"
  by (simp add: base_input_def)

lemma leaf_input_inj:
  assumes "length b = 32" and "length b' = 32" and "n < 2 ^ 64" and "n' < 2 ^ 64"
  shows "leaf_input b n = leaf_input b' n' \<longleftrightarrow> b = b' \<and> n = n'"
proof
  assume "leaf_input b n = leaf_input b' n'"
  then have "b = b'" "be_bytes 8 n = be_bytes 8 n'" using assms(1,2) by (simp_all add: leaf_input_def)
  then show "b = b' \<and> n = n'" using be_bytes_inj [of n 8 n'] assms(3,4) by simp
qed simp

context digest32
begin

lemma row_leaf_Inr:
  assumes "decode_digest sd = Inr d"
  shows "row_leaf H sd rn =
    (if int (snd rn) > MAX_TREE_SIZE then Inl ''invalid_duplicate_ordinal''
     else Inr (H (leaf_input (H (base_input d (fst rn))) (snd rn))))"
  using assms
  by (simp add: row_leaf_def compute_base_row_digest_def compute_leaf_hash_def leaf_input_def
      base_input_def digest_length)

lemma row_leaf_inj:
  assumes "decode_digest sd = Inr d" and "row_leaf H sd rn = Inr h" and "row_leaf H sd rn' = Inr h"
    and "inj_on H (set (base_inputs d [rn, rn']))" and "inj_on H (set (leaf_inputs H d [rn, rn']))"
  shows "rn = rn'"
proof -
  have n: "int (snd rn) \<le> MAX_TREE_SIZE" "int (snd rn') \<le> MAX_TREE_SIZE"
    and h: "H (leaf_input (H (base_input d (fst rn))) (snd rn)) = H (leaf_input (H (base_input d (fst rn'))) (snd rn'))"
    using assms(2,3) unfolding row_leaf_Inr [OF assms(1)] by (auto split: if_splits)
  have "leaf_input (H (base_input d (fst rn))) (snd rn) = leaf_input (H (base_input d (fst rn'))) (snd rn')"
    by (rule inj_onD [OF assms(5) h]) (simp_all add: leaf_inputs_def)
  then have e: "H (base_input d (fst rn)) = H (base_input d (fst rn'))" "snd rn = snd rn'"
    using n by (simp_all add: leaf_input_inj digest_length MAX_TREE_SIZE_def)
  have "base_input d (fst rn) = base_input d (fst rn')"
    by (rule inj_onD [OF assms(4) e(1)]) (simp_all add: base_inputs_def)
  with e(2) show ?thesis by (simp add: prod_eq_iff)
qed

lemma row_leaves_digests:
  "res_map (row_leaf H sd) rows = Inr hs \<Longrightarrow> length hs = length rows \<and> digests hs
    \<and> (\<forall>i < length rows. row_leaf H sd (rows ! i) = Inr (hs ! i))"
proof -
  assume "res_map (row_leaf H sd) rows = Inr hs"
  then have a: "list_all2 (\<lambda>rn h. row_leaf H sd rn = Inr h) rows hs" by (rule res_map_list_all2)
  have "length h = 32" if "row_leaf H sd rn = Inr h" for rn h
    using that by (auto simp: row_leaf_def compute_leaf_hash_def digest_length split: if_splits)
  with a show ?thesis by (auto simp: list_all2_conv_all_nth in_set_conv_nth) (metis prod.collapse)
qed

end

text \<open>
  An accepted proof names a committed row: if SHA-256 does not collide on the inputs hashed
  for the commitment, for the presented row and along the proof, then a proof accepted for the
  leaf of a row and duplicate ordinal at some index shows that the committed sequence has exactly
  this row and ordinal at that index.
\<close>

theorem accepted_proof_names_row:
  assumes "decode_digest sd = Inr d" and "res_map (row_leaf sha256 sd) rows = Inr hs"
    and "build_merkle_root sha256 (map Raw hs) = Inr r"
    and "row_leaf sha256 sd rn = Inr h"
    and "verify_inclusion_proof sha256 (Raw h) (Num i) (Num (int (length rows))) ss (Raw r)"
    and "inj_on sha256 (set (base_inputs d (rn # rows)))"
    and "inj_on sha256 (set (leaf_inputs sha256 d (rn # rows)))"
    and "inj_on sha256 (set (tree_inputs sha256 hs) \<union> set (path_inputs sha256 h (map read_sibling ss)))"
  shows "0 \<le> i \<and> i < int (length rows) \<and> rows ! nat i = rn"
proof -
  note hs = sha.row_leaves_digests [OF assms(2)]
  have lh: "length h = 32"
    using sha.row_leaves_digests [of sd "[rn]" "[h]"] assms(4) by simp
  have m: "map Raw hs \<noteq> []" "int (length (map Raw hs)) \<le> MAX_TREE_SIZE"
    using assms(3) by (auto simp: build_merkle_root_def split: if_splits)
  have r: "r = mth sha256 hs"
    using sha.build_root_mth [OF decode_map_Raw m] hs assms(3) by simp
  have i: "0 \<le> i" "i < int (length rows)" "h = hs ! nat i"
    using sha.accepted_proof_sound [of hs "Raw h" i ss h] assms(5,8) lh r hs by simp_all
  then have ni: "nat i < length rows" by linarith
  then have leaf: "row_leaf sha256 sd (rows ! nat i) = Inr h" using hs i(3) by simp
  have "rows ! nat i \<in> set rows" using ni by simp
  then have "set (base_inputs d [rows ! nat i, rn]) \<subseteq> set (base_inputs d (rn # rows))"
      "set (leaf_inputs sha256 d [rows ! nat i, rn]) \<subseteq> set (leaf_inputs sha256 d (rn # rows))"
    by (auto simp: base_inputs_def leaf_inputs_def)
  then have "rows ! nat i = rn"
    by (intro sha.row_leaf_inj [OF assms(1) leaf assms(4)] inj_on_subset [OF assms(6)] inj_on_subset [OF assms(7)])
  with i show ?thesis by simp
qed

theorem accepted_proof_names_row_witness:
  "row_leaf sha256 (Raw (fill 7)) ([123, 125], 0) =
     Inr (sha256 (leaf_input (sha256 (base_input (fill 7) [123, 125])) 0))
   \<and> [([123, 125], 0)] ! nat 0 = ([123 :: 8 word, 125], 0 :: nat)"
proof -
  let ?rn = "([123 :: 8 word, 125], 0 :: nat)" and ?sd = "Raw (fill 7)"
  let ?h = "sha256 (leaf_input (sha256 (base_input (fill 7) [123, 125])) 0)"
  have leaf: "row_leaf sha256 ?sd ?rn = Inr ?h"
    by (subst sha.row_leaf_Inr [of _ "fill 7"]) (simp_all add: MAX_TREE_SIZE_def)
  have hs: "res_map (row_leaf sha256 ?sd) [?rn] = Inr [?h]" using leaf by simp
  have rt: "build_merkle_root sha256 (map Raw [?h]) = Inr ?h"
    using sha.build_root_mth [of "[Raw ?h]" "[?h]"] by (simp add: MAX_TREE_SIZE_def)
  have v: "verify_inclusion_proof sha256 (Raw ?h) (Num 0) (Num (int (length [?rn]))) [] (Raw ?h)"
    unfolding sha.verify_iff using mpath_directions [of 0 "[?h]" sha256]
    by (simp add: mpath.simps MAX_TREE_SIZE_def)
  have inj: "inj_on sha256 (set (base_inputs (fill 7) (?rn # [?rn])))"
      "inj_on sha256 (set (leaf_inputs sha256 (fill 7) (?rn # [?rn])))"
      "inj_on sha256 (set (tree_inputs sha256 [?h]) \<union> set (path_inputs sha256 ?h (map read_sibling [])))"
    by (simp_all add: base_inputs_def leaf_inputs_def tree_inputs.simps)
  have "decode_digest ?sd = Inr (fill 7)" by simp
  from accepted_proof_names_row [OF this hs rt leaf v inj] leaf show ?thesis by blast
qed

section \<open>Materialised nodes\<close>

context digest32
begin

lemma visit_nodes_mth:
  assumes "digests xs" and "0 < n" and "s + n \<le> length xs"
  shows "\<exists>ns. visit_nodes H xs s n = Inr (mth H (take n (drop s xs)), ns)
    \<and> length ns = 2 * n - 1 \<and> last ns = (s, n, mth H (take n (drop s xs))) \<and> ns \<noteq> []
    \<and> (\<forall>(a, k, h) \<in> set ns. s \<le> a \<and> 0 < k \<and> a + k \<le> s + n \<and> h = mth H (take k (drop a xs)))
    \<and> (\<forall>i. s \<le> i \<longrightarrow> i < s + n \<longrightarrow> (i, 1, xs ! i) \<in> set ns)"
  using assms(2,3)
proof (induction n arbitrary: s rule: less_induct)
  case (less n)
  show ?case
  proof (cases "n = 1")
    case True
    with less.prems show ?thesis
      by (intro exI [of _ "[(s, 1, xs ! s)]"]) (auto simp: visit_nodes.simps take_one_drop less_Suc_eq)
  next
    case False
    then have n: "1 < n" using less.prems by linarith
    let ?k = "pow2_below n" and ?m = "mth H (take n (drop s xs))"
    note b = pow2_below_bounds [OF n]
    obtain ns1 where 1: "visit_nodes H xs s ?k = Inr (mth H (take ?k (drop s xs)), ns1)"
      "length ns1 = 2 * ?k - 1" "\<forall>(a, k, h) \<in> set ns1. s \<le> a \<and> 0 < k \<and> a + k \<le> s + ?k \<and> h = mth H (take k (drop a xs))"
      "\<forall>i. s \<le> i \<longrightarrow> i < s + ?k \<longrightarrow> (i, 1, xs ! i) \<in> set ns1"
      using less.IH [of ?k s] less.prems b by auto
    obtain ns2 where 2: "visit_nodes H xs (s + ?k) (n - ?k) = Inr (mth H (take (n - ?k) (drop (s + ?k) xs)), ns2)"
      "length ns2 = 2 * (n - ?k) - 1"
      "\<forall>(a, k, h) \<in> set ns2. s + ?k \<le> a \<and> 0 < k \<and> a + k \<le> s + ?k + (n - ?k) \<and> h = mth H (take k (drop a xs))"
      "\<forall>i. s + ?k \<le> i \<longrightarrow> i < s + ?k + (n - ?k) \<longrightarrow> (i, 1, xs ! i) \<in> set ns2"
      using less.IH [of "n - ?k" "s + ?k"] less.prems b by auto
    have "length (mth H (take ?k (drop s xs))) = 32" "length (mth H (take (n - ?k) (drop (s + ?k) xs))) = 32"
      using mth_slice_digest [OF assms(1)] less.prems b by simp_all
    then have "visit_nodes H xs s n = Inr (?m, ns1 @ ns2 @ [(s, n, ?m)])"
      using 1(1) 2(1) n less.prems False
      by (simp add: visit_nodes.simps [of H xs s n] split_eq compute_node_hash_Inr slice_split)
    moreover have "length (ns1 @ ns2 @ [(s, n, ?m)]) = 2 * n - 1" using 1(2) 2(2) b by simp
    moreover have "\<forall>(a, k, h) \<in> set (ns1 @ ns2 @ [(s, n, ?m)]). s \<le> a \<and> 0 < k \<and> a + k \<le> s + n \<and> h = mth H (take k (drop a xs))"
      using 1(3) 2(3) b less.prems by fastforce
    moreover have "(i, 1, xs ! i) \<in> set (ns1 @ ns2 @ [(s, n, ?m)])" if "s \<le> i" "i < s + n" for i
      using that 1(4) 2(4) b by (cases "i < s + ?k") auto
    ultimately show ?thesis by (intro exI [of _ "ns1 @ ns2 @ [(s, n, ?m)]"]) simp
  qed
qed

end

text \<open>
  Materialised nodes are the tree: for valid leaves \<^verbatim>\<open>materialize_tree_nodes\<close> returns
  2n - 1 nodes, the last one the root of the whole sequence; the hash of every node is the root
  \<^verbatim>\<open>build_merkle_root\<close> computes of the leaves it spans, and every leaf is a node of size 1.
\<close>

theorem materialized_nodes_are_subtree_roots:
  assumes "res_map decode_digest leaves = Inr xs" and "leaves \<noteq> []"
    and "int (length leaves) \<le> MAX_TREE_SIZE"
  shows "\<exists>ns r. materialize_tree_nodes sha256 leaves = Inr ns \<and> length ns = 2 * length leaves - 1
    \<and> build_merkle_root sha256 leaves = Inr r \<and> last ns = (0, length leaves, r)
    \<and> (\<forall>(a, k, h) \<in> set ns. 0 < k \<and> a + k \<le> length leaves
         \<and> build_merkle_root sha256 (py_slice a (a + k) leaves) = Inr h)
    \<and> (\<forall>i < length leaves. (i, 1, xs ! i) \<in> set ns)"
proof -
  have l: "length xs = length leaves" "digests xs" using decode_list_Inr [OF assms(1)] by simp_all
  obtain ns where ns: "visit_nodes sha256 xs 0 (length xs) = Inr (mth sha256 xs, ns)" "length ns = 2 * length xs - 1"
    "last ns = (0, length xs, mth sha256 xs)"
    "\<forall>(a, k, h) \<in> set ns. 0 < k \<and> a + k \<le> length xs \<and> h = mth sha256 (take k (drop a xs))"
    "\<forall>i < length xs. (i, 1, xs ! i) \<in> set ns"
    using sha.visit_nodes_mth [OF l(2), of "length xs" 0] assms(2) l(1) by auto
  have slice: "build_merkle_root sha256 (py_slice a (a + k) leaves) = Inr (mth sha256 (take k (drop a xs)))"
    if "0 < k" "a + k \<le> length leaves" for a k
    using that assms(3) res_map_slice [OF assms(1), of k a]
    by (intro sha.build_root_mth) (auto simp: py_slice_def)
  have "build_merkle_root sha256 leaves = Inr (mth sha256 xs)"
    by (rule sha.build_root_mth [OF assms])
  moreover have "materialize_tree_nodes sha256 leaves = Inr ns"
    using assms(1,2) ns(1) l(1) by (auto simp: materialize_tree_nodes_def)
  moreover have "\<forall>(a, k, h) \<in> set ns. 0 < k \<and> a + k \<le> length leaves
         \<and> build_merkle_root sha256 (py_slice a (a + k) leaves) = Inr h"
    using ns(4) slice l(1) by fastforce
  ultimately show ?thesis using ns(2,3,5) unfolding l(1) by blast
qed

theorem materialized_nodes_are_subtree_roots_witness:
  "\<exists>ns r. materialize_tree_nodes sha256 [Raw (fill 1), Raw (fill 2)] = Inr ns
    \<and> build_merkle_root sha256 [Raw (fill 1), Raw (fill 2)] = Inr r \<and> last ns = (0, 2, r) \<and> length ns = 3"
proof -
  have "res_map decode_digest [Raw (fill 1), Raw (fill 2)] = Inr [fill 1, fill 2]" by simp
  from materialized_nodes_are_subtree_roots [OF this]
  obtain ns r where "materialize_tree_nodes sha256 [Raw (fill 1), Raw (fill 2)] = Inr ns" "length ns = 3"
    "build_merkle_root sha256 [Raw (fill 1), Raw (fill 2)] = Inr r" "last ns = (0, 2, r)"
    unfolding MAX_TREE_SIZE_def by (force simp del: replicate.simps)
  then show ?thesis by blast
qed

end
