(* ===== verification/ApprovalTokens.thy ===== *)
theory ApprovalTokens
  imports Prelude
begin

text \<open>
  The approval gate for mutating tools (app/services/approval_token_service.py): tool
  classification, capabilities, and the tokens a user approves once.  A token object is found by
  its id (a fresh \<^verbatim>\<open>uuid4\<close>, an argument of \<^verbatim>\<open>create_token\<close>); \<open>a_pending\<close> are the keys of the
  dictionary \<^verbatim>\<open>_pending\<close>.  Token objects outlive their removal from it, with their last status.
  The digest of the tool input (\<^verbatim>\<open>sha256(json.dumps(...))\<close>) is the function \<open>args_digest\<close> of the
  input, whose type is left open.
\<close>

section \<open>Tool classification and capabilities\<close>

definition READ_ONLY_TOOLS :: "string list" where
  "READ_ONLY_TOOLS =
     [''list_datasets'', ''get_dataset_detail'', ''preview_rows'', ''run_sql_query'',
      ''get_system_status'', ''get_dataset_statistics'', ''connectivity_status'',
      ''get_notifications'', ''get_tunnel_status'', ''generate_diagnostic_bundle'',
      ''connectivity_test'', ''connectivity_generate_setup'']"

definition AUTO_APPROVE_TOOLS :: "string list" where
  "AUTO_APPROVE_TOOLS =
     [''log_feedback'', ''submit_feedback'', ''create_notification'', ''prepare_support_bundle'',
      ''create_artifact'', ''create_artifact_from_query'', ''update_listing_title'',
      ''update_listing_description'', ''set_listing_category'', ''regenerate_listing_metadata'']"

text \<open>Risk and description of each mutating tool.\<close>

definition MUTATION_TOOLS :: "(string \<times> string \<times> string) list" where
  "MUTATION_TOOLS =
     [(''delete_dataset'', ''high'', ''Delete dataset '' @ [char_of (39 :: nat)] @ ''{dataset_name}'' @ [char_of (39 :: nat)]),
      (''connectivity_enable'', ''medium'', ''Enable ai.market connectivity''),
      (''connectivity_disable'', ''medium'', ''Disable ai.market connectivity''),
      (''connectivity_create_token'', ''medium'', ''Create connectivity token''),
      (''connectivity_revoke_token'', ''medium'', ''Revoke connectivity token''),
      (''start_public_tunnel'', ''medium'', ''Start public tunnel''),
      (''stop_public_tunnel'', ''low'', ''Stop public tunnel'')]"

definition ALL_CLASSIFIED_TOOLS :: "string list" where
  "ALL_CLASSIFIED_TOOLS = READ_ONLY_TOOLS @ AUTO_APPROVE_TOOLS @ map fst MUTATION_TOOLS"

definition RISK_TTL :: "string \<rightharpoonup> real" where
  "RISK_TTL = map_of [(''low'', 120), (''medium'', 60), (''high'', 30), (''critical'', 15)]"

definition TOOL_CAPABILITIES :: "(string \<times> string list) list" where
  "TOOL_CAPABILITIES =
     [(''list_datasets'', [''data:read'']), (''get_dataset_detail'', [''data:read'']),
      (''preview_rows'', [''data:read'']), (''run_sql_query'', [''data:read'']),
      (''get_system_status'', [''system:read'']), (''get_dataset_statistics'', [''data:read'']),
      (''connectivity_status'', [''connectivity:read'']), (''get_notifications'', [''system:read'']),
      (''get_tunnel_status'', [''connectivity:read'']), (''generate_diagnostic_bundle'', [''system:read'']),
      (''connectivity_test'', [''connectivity:read'']), (''connectivity_generate_setup'', [''connectivity:read'']),
      (''log_feedback'', [''feedback:write'']), (''submit_feedback'', [''feedback:write'']),
      (''create_notification'', [''system:write'']), (''prepare_support_bundle'', [''system:read'']),
      (''create_artifact'', [''data:read'']), (''create_artifact_from_query'', [''data:read'']),
      (''update_listing_title'', [''data:write'']), (''update_listing_description'', [''data:write'']),
      (''set_listing_category'', [''data:write'']), (''regenerate_listing_metadata'', [''data:write'']),
      (''delete_dataset'', [''data:delete'']), (''connectivity_enable'', [''connectivity:write'']),
      (''connectivity_disable'', [''connectivity:write'']), (''connectivity_create_token'', [''connectivity:write'']),
      (''connectivity_revoke_token'', [''connectivity:write'']), (''start_public_tunnel'', [''connectivity:write'']),
      (''stop_public_tunnel'', [''connectivity:write''])]"

definition ALL_CAPABILITIES :: "string set" where
  "ALL_CAPABILITIES = (\<Union>e \<in> set TOOL_CAPABILITIES. set (snd e))"

definition get_user_capabilities :: "string \<Rightarrow> string set" where
  "get_user_capabilities user = ALL_CAPABILITIES"

datatype cap_error = NoMapping string | MissingCaps "string set"

definition check_capabilities :: "string \<Rightarrow> string \<Rightarrow> cap_error option" where
  "check_capabilities user tool_name =
     (case map_of TOOL_CAPABILITIES tool_name of
        None \<Rightarrow> Some (NoMapping tool_name)
      | Some required \<Rightarrow>
          (let missing = set required - get_user_capabilities user
           in if missing \<noteq> {} then Some (MissingCaps missing) else None))"

section \<open>Tokens\<close>

datatype astatus = APending | Claimed | Approved | Denied | AExpired | AError

record 'j atoken =
  a_user :: string
  a_session :: string
  a_tool :: string
  a_input :: 'j
  a_digest :: string
  a_nonce :: string
  a_desc :: string
  a_risk :: string
  a_status :: astatus
  a_created :: real
  a_expires :: real

record 'j aservice =
  a_tokens :: "string \<rightharpoonup> 'j atoken"
  a_pending :: "string set"

definition cleanup_expired :: "real \<Rightarrow> 'j aservice \<Rightarrow> 'j aservice" where
  "cleanup_expired now s =
     (let gone = (\<lambda>tid. tid \<in> a_pending s \<and> (case a_tokens s tid of None \<Rightarrow> False | Some t \<Rightarrow> now > a_expires t))
      in s\<lparr>a_tokens := (\<lambda>tid. if gone tid then map_option (\<lambda>t. t\<lparr>a_status := AExpired\<rparr>) (a_tokens s tid)
                              else a_tokens s tid),
           a_pending := {tid \<in> a_pending s. \<not> gone tid}\<rparr>)"

definition token_ttl :: "string \<Rightarrow> real" where
  "token_ttl tool_name =
     (let risk = (case map_of MUTATION_TOOLS tool_name of None \<Rightarrow> ''medium'' | Some (r, d) \<Rightarrow> r)
      in case RISK_TTL risk of None \<Rightarrow> 60 | Some n \<Rightarrow> n)"

definition create_token ::
  "('j \<Rightarrow> string) \<Rightarrow> string \<Rightarrow> string \<Rightarrow> string \<Rightarrow> 'j \<Rightarrow> string \<Rightarrow> string \<Rightarrow> string \<Rightarrow> real \<Rightarrow> real
    \<Rightarrow> 'j aservice \<Rightarrow> 'j atoken \<times> 'j aservice" where
  "create_token args_digest user_id session_id tool_name tool_input desc uid nonce now0 now s =
     (let s1 = cleanup_expired now0 s;
          info = map_of MUTATION_TOOLS tool_name;
          risk = (case info of None \<Rightarrow> ''medium'' | Some (r, d) \<Rightarrow> r);
          t = \<lparr>a_user = user_id, a_session = session_id, a_tool = tool_name, a_input = tool_input,
               a_digest = args_digest tool_input, a_nonce = nonce,
               a_desc = (if desc \<noteq> [] then desc
                         else case info of None \<Rightarrow> ''Execute '' @ tool_name | Some (r, d) \<Rightarrow> d),
               a_risk = risk, a_status = APending, a_created = now, a_expires = now + token_ttl tool_name\<rparr>
      in (t, s1\<lparr>a_tokens := (a_tokens s1)(uid \<mapsto> t), a_pending := insert uid (a_pending s1)\<rparr>))"

datatype refusal = NotFoundOrUsed | TokenExpired | WrongUser | WrongSession | ArgsTampered

definition set_status :: "string \<Rightarrow> astatus \<Rightarrow> 'j aservice \<Rightarrow> 'j aservice" where
  "set_status tid st s = s\<lparr>a_tokens := (a_tokens s)(tid := map_option (\<lambda>t. t\<lparr>a_status := st\<rparr>) (a_tokens s tid))\<rparr>"

definition drop_pending :: "string \<Rightarrow> 'j aservice \<Rightarrow> 'j aservice" where
  "drop_pending tid s = s\<lparr>a_pending := a_pending s - {tid}\<rparr>"

definition get_pending :: "'j aservice \<Rightarrow> string \<Rightarrow> 'j atoken option" where
  "get_pending s tid = (if tid \<in> a_pending s then a_tokens s tid else None)"

definition validate_and_consume ::
  "('j \<Rightarrow> string) \<Rightarrow> string \<Rightarrow> string \<Rightarrow> string \<Rightarrow> real \<Rightarrow> 'j aservice \<Rightarrow> (refusal + string \<times> 'j) \<times> 'j aservice" where
  "validate_and_consume args_digest tid user_id session_id now s =
     (case get_pending s tid of None \<Rightarrow> (Inl NotFoundOrUsed, s)
      | Some t \<Rightarrow>
          (if a_status t \<noteq> APending then (Inl NotFoundOrUsed, s) else
           let s1 = set_status tid Claimed s in
           if now > a_expires t then (Inl TokenExpired, drop_pending tid (set_status tid AExpired s1)) else
           if a_user t \<noteq> user_id then (Inl WrongUser, set_status tid APending s1) else
           if a_session t \<noteq> session_id then (Inl WrongSession, set_status tid APending s1) else
           if a_digest t \<noteq> args_digest (a_input t)
           then (Inl ArgsTampered, drop_pending tid (set_status tid Denied s1))
           else (Inr (a_tool t, a_input t), drop_pending tid (set_status tid Approved s1))))"

definition deny_token :: "string \<Rightarrow> 'j aservice \<Rightarrow> bool \<times> 'j aservice" where
  "deny_token tid s =
     (case get_pending s tid of None \<Rightarrow> (False, s)
      | Some t \<Rightarrow> (if a_status t \<noteq> APending then (False, s)
                   else (True, drop_pending tid (set_status tid Denied s))))"

section \<open>Runs of the service\<close>

text \<open>
  Besides the operations a run may change the input of a live token object (\<open>Tamper\<close>): the
  service keeps a reference to the caller's dictionary.
\<close>

datatype 'j aop =
    Create string string string 'j string string string real real
  | Consume string string string real
  | Deny string
  | Tamper string 'j

text \<open>What a run did: tokens created, and approvals given with the time and what was released.\<close>

datatype 'j aevent =
    Created string string string string 'j real
  | Approval string string string string 'j real

fun astep :: "('j \<Rightarrow> string) \<Rightarrow> 'j aservice \<Rightarrow> 'j aop \<Rightarrow> 'j aevent list \<times> 'j aservice" where
  "astep hf s (Create user sess tool inp desc uid nonce now0 now) =
     ([Created uid user sess tool inp now], snd (create_token hf user sess tool inp desc uid nonce now0 now s))"
| "astep hf s (Consume tid user sess now) =
     (case validate_and_consume hf tid user sess now s of
        (Inl e, s') \<Rightarrow> ([], s') | (Inr (tool, inp), s') \<Rightarrow> ([Approval tid user sess tool inp now], s'))"
| "astep hf s (Deny tid) = ([], snd (deny_token tid s))"
| "astep hf s (Tamper tid inp) =
     ([], s\<lparr>a_tokens := (a_tokens s)(tid := map_option (\<lambda>t. t\<lparr>a_input := inp\<rparr>) (a_tokens s tid))\<rparr>)"

fun arun :: "('j \<Rightarrow> string) \<Rightarrow> 'j aservice \<Rightarrow> 'j aop list \<Rightarrow> 'j aevent list \<times> 'j aservice" where
  "arun hf s [] = ([], s)"
| "arun hf s (x # xs) =
     (let (es, s1) = astep hf s x; (fs, s2) = arun hf s1 xs in (es @ fs, s2))"

definition no_tokens :: "'j aservice" where
  "no_tokens = \<lparr>a_tokens = Map.empty, a_pending = {}\<rparr>"

fun created_id :: "'j aevent \<Rightarrow> string option" where
  "created_id (Created uid _ _ _ _ _) = Some uid"
| "created_id (Approval _ _ _ _ _ _) = None"

fun approved_id :: "'j aevent \<Rightarrow> string option" where
  "approved_id (Created _ _ _ _ _ _) = None"
| "approved_id (Approval tid _ _ _ _ _) = Some tid"

definition created_ids :: "'j aevent list \<Rightarrow> string list" where
  "created_ids es = List.map_filter created_id es"

definition approved_ids :: "'j aevent list \<Rightarrow> string list" where
  "approved_ids es = List.map_filter approved_id es"

lemma event_ids [simp]:
  "created_ids [] = []" "approved_ids [] = []"
  "created_ids (Created uid u s t i n # es) = uid # created_ids es"
  "created_ids (Approval uid u s t i n # es) = created_ids es"
  "approved_ids (Created uid u s t i n # es) = approved_ids es"
  "approved_ids (Approval uid u s t i n # es) = uid # approved_ids es"
  by (simp_all add: created_ids_def approved_ids_def List.map_filter_simps)

lemma event_ids_append [simp]:
  "created_ids (es @ fs) = created_ids es @ created_ids fs"
  "approved_ids (es @ fs) = approved_ids es @ approved_ids fs"
  by (simp_all add: created_ids_def approved_ids_def List.map_filter_def)

text \<open>
  The invariant, on the events so far: a token in the dictionary is one that was created with this
  user, session, tool and life time, its digest is that of the input at creation, and it has not
  been approved.
\<close>

definition token_origin :: "('j \<Rightarrow> string) \<Rightarrow> 'j aevent list \<Rightarrow> string \<Rightarrow> 'j atoken \<Rightarrow> bool" where
  "token_origin hf es tid t \<longleftrightarrow>
     (\<exists>inp t0. Created tid (a_user t) (a_session t) (a_tool t) inp t0 \<in> set es
        \<and> a_digest t = hf inp \<and> a_expires t = t0 + token_ttl (a_tool t))"

definition approval_inv :: "('j \<Rightarrow> string) \<Rightarrow> 'j aevent list \<Rightarrow> 'j aservice \<Rightarrow> bool" where
  "approval_inv hf es s \<longleftrightarrow>
     (\<forall>tid t. a_tokens s tid = Some t \<longrightarrow> token_origin hf es tid t)
     \<and> (\<forall>tid \<in> a_pending s. a_tokens s tid \<noteq> None)
     \<and> a_pending s \<inter> set (approved_ids es) = {}
     \<and> set (approved_ids es) \<subseteq> set (created_ids es)
     \<and> distinct (approved_ids es)
     \<and> (\<forall>tid user sess tool inp now. Approval tid user sess tool inp now \<in> set es \<longrightarrow>
          (\<exists>inp0 t0. Created tid user sess tool inp0 t0 \<in> set es \<and> hf inp = hf inp0
             \<and> now \<le> t0 + token_ttl tool))"

lemma token_origin_mono: "token_origin hf es tid t \<Longrightarrow> token_origin hf (es @ fs) tid t"
  by (auto simp: token_origin_def)

lemma token_origin_status [simp]:
  "token_origin hf es tid (t\<lparr>a_status := st\<rparr>) = token_origin hf es tid t"
  "token_origin hf es tid (t\<lparr>a_input := inp\<rparr>) = token_origin hf es tid t"
  by (simp_all add: token_origin_def)

lemma created_in: "Created tid u s t i n \<in> set es \<Longrightarrow> tid \<in> set (created_ids es)"
proof (induction es)
  case (Cons e es)
  then show ?case by (cases e) auto
qed simp

text \<open>Steps that only change the status or input of tokens, or drop keys.\<close>

definition same_issue :: "'j atoken \<Rightarrow> 'j atoken \<Rightarrow> bool" where
  "same_issue t t' \<longleftrightarrow> a_user t' = a_user t \<and> a_session t' = a_session t \<and> a_tool t' = a_tool t
     \<and> a_digest t' = a_digest t \<and> a_expires t' = a_expires t"

definition weaker :: "'j aservice \<Rightarrow> 'j aservice \<Rightarrow> bool" where
  "weaker s s' \<longleftrightarrow> a_pending s' \<subseteq> a_pending s
     \<and> (\<forall>tid. rel_option same_issue (a_tokens s tid) (a_tokens s' tid))"

lemma same_issue_simps [simp]:
  "same_issue t t" "same_issue t (t\<lparr>a_status := st\<rparr>)" "same_issue t (t\<lparr>a_input := inp\<rparr>)"
  by (simp_all add: same_issue_def)

lemma weaker_inv: "weaker s s' \<Longrightarrow> approval_inv hf es s \<Longrightarrow> approval_inv hf es s'"
proof -
  assume w: "weaker s s'" and i: "approval_inv hf es s"
  have rel: "rel_option same_issue (a_tokens s tid) (a_tokens s' tid)" for tid
    using w by (simp add: weaker_def)
  have "token_origin hf es tid t'" if "a_tokens s' tid = Some t'" for tid t'
  proof -
    have "rel_option same_issue (a_tokens s tid) (Some t')" using rel [of tid] that by simp
    then obtain t where "a_tokens s tid = Some t" "same_issue t t'" by (auto simp: option_rel_Some2)
    moreover from this have "token_origin hf es tid t" using i by (simp add: approval_inv_def)
    ultimately show ?thesis by (simp add: token_origin_def same_issue_def)
  qed
  moreover have "a_tokens s' tid \<noteq> None" if "tid \<in> a_pending s'" for tid
  proof -
    have "a_tokens s tid \<noteq> None" using that w i by (auto simp: weaker_def approval_inv_def)
    then show ?thesis using rel [of tid] by (cases "a_tokens s' tid") auto
  qed
  moreover have "a_pending s' \<inter> set (approved_ids es) = {}"
    using w i by (auto simp: weaker_def approval_inv_def)
  ultimately show ?thesis using i unfolding approval_inv_def by blast
qed

lemma same_issue_trans: "same_issue t u \<Longrightarrow> same_issue u v \<Longrightarrow> same_issue t v"
  by (simp add: same_issue_def)

lemma weaker_trans [trans]: "weaker s s' \<Longrightarrow> weaker s' s'' \<Longrightarrow> weaker s s''"
  unfolding weaker_def
proof (intro conjI allI)
  fix tid
  assume a: "a_pending s' \<subseteq> a_pending s \<and> (\<forall>tid. rel_option same_issue (a_tokens s tid) (a_tokens s' tid))"
    "a_pending s'' \<subseteq> a_pending s' \<and> (\<forall>tid. rel_option same_issue (a_tokens s' tid) (a_tokens s'' tid))"
  then have "rel_option same_issue (a_tokens s tid) (a_tokens s' tid)"
    "rel_option same_issue (a_tokens s' tid) (a_tokens s'' tid)" by simp_all
  then show "rel_option same_issue (a_tokens s tid) (a_tokens s'' tid)"
    by (cases "a_tokens s tid"; cases "a_tokens s' tid"; cases "a_tokens s'' tid")
      (auto intro: same_issue_trans)
qed auto

lemma weaker_update:
  "\<forall>t. same_issue t (f t) \<Longrightarrow> weaker s (s\<lparr>a_tokens := (a_tokens s)(tid := map_option f (a_tokens s tid))\<rparr>)"
  by (auto simp: weaker_def option.rel_map intro!: option.rel_refl_strong)

lemma weaker_refl [simp]: "weaker s s"
  by (auto simp: weaker_def intro!: option.rel_refl_strong)

lemma weaker_set_status: "weaker s (set_status tid st s)"
  unfolding set_status_def by (rule weaker_update) simp

lemma weaker_drop: "weaker s (drop_pending tid s)"
  by (auto simp: weaker_def drop_pending_def intro!: option.rel_refl_strong)

lemma weaker_cleanup: "weaker s (cleanup_expired now s)"
  by (auto simp: weaker_def cleanup_expired_def Let_def option.rel_map intro!: option.rel_refl_strong)

lemma weaker_deny: "weaker s (snd (deny_token tid s))"
  using weaker_trans [OF weaker_set_status weaker_drop]
  by (auto simp: deny_token_def split: option.split)

lemma weaker_consume: "weaker s (snd (validate_and_consume hf tid user sess now s))"
proof -
  have 1: "weaker s (set_status tid b (set_status tid a s))" for a b
    by (rule weaker_trans [OF weaker_set_status weaker_set_status])
  have 2: "weaker s (drop_pending tid (set_status tid b (set_status tid a s)))" for a b
    by (rule weaker_trans [OF 1 weaker_drop])
  show ?thesis by (simp add: validate_and_consume_def Let_def 1 2 split: option.split)
qed

lemma consume_OkD:
  assumes "validate_and_consume hf tid user sess now s = (Inr (tool, inp), s')"
  shows "\<exists>t. tid \<in> a_pending s \<and> a_tokens s tid = Some t \<and> now \<le> a_expires t \<and> a_user t = user
    \<and> a_session t = sess \<and> a_tool t = tool \<and> a_input t = inp \<and> a_digest t = hf inp
    \<and> tid \<notin> a_pending s'"
proof (cases "get_pending s tid")
  case (Some t)
  then have "tid \<in> a_pending s" "a_tokens s tid = Some t" by (auto simp: get_pending_def split: if_splits)
  with Some assms show ?thesis
    by (auto simp: validate_and_consume_def Let_def drop_pending_def split: if_splits)
qed (use assms in \<open>simp add: validate_and_consume_def\<close>)

lemma approval_invI:
  assumes "\<And>tid t. a_tokens s tid = Some t \<Longrightarrow> token_origin hf es tid t"
    and "\<And>tid. tid \<in> a_pending s \<Longrightarrow> a_tokens s tid \<noteq> None"
    and "a_pending s \<inter> set (approved_ids es) = {}"
    and "set (approved_ids es) \<subseteq> set (created_ids es)" and "distinct (approved_ids es)"
    and "\<And>tid user sess tool inp now. Approval tid user sess tool inp now \<in> set es \<Longrightarrow>
          \<exists>inp0 t0. Created tid user sess tool inp0 t0 \<in> set es \<and> hf inp = hf inp0 \<and> now \<le> t0 + token_ttl tool"
  shows "approval_inv hf es s"
  using assms unfolding approval_inv_def by blast

lemma approval_invD:
  assumes "approval_inv hf es s"
  shows "a_tokens s tid = Some t \<Longrightarrow> token_origin hf es tid t"
    and "tid \<in> a_pending s \<Longrightarrow> a_tokens s tid \<noteq> None"
    and "a_pending s \<inter> set (approved_ids es) = {}"
    and "set (approved_ids es) \<subseteq> set (created_ids es)" and "distinct (approved_ids es)"
    and "Approval tid user sess tool inp now \<in> set es \<Longrightarrow>
          \<exists>inp0 t0. Created tid user sess tool inp0 t0 \<in> set es \<and> hf inp = hf inp0 \<and> now \<le> t0 + token_ttl tool"
  using assms unfolding approval_inv_def by blast+

lemma create_inv:
  assumes inv: "approval_inv hf es s" and new: "uid \<notin> set (created_ids es)"
  shows "approval_inv hf (es @ [Created uid user sess tool inp now])
    (snd (create_token hf user sess tool inp desc uid nonce now0 now s))"
proof -
  let ?e = "Created uid user sess tool inp now"
  let ?s1 = "cleanup_expired now0 s"
  have i1: "approval_inv hf es ?s1" by (rule weaker_inv [OF weaker_cleanup inv])
  have na: "uid \<notin> set (approved_ids es)" using inv new by (auto simp: approval_inv_def)
  obtain t where t: "snd (create_token hf user sess tool inp desc uid nonce now0 now s)
      = ?s1\<lparr>a_tokens := (a_tokens ?s1)(uid \<mapsto> t), a_pending := insert uid (a_pending ?s1)\<rparr>"
    "a_user t = user" "a_session t = sess" "a_tool t = tool" "a_digest t = hf inp"
    "a_expires t = now + token_ttl tool"
    by (simp add: create_token_def Let_def)
  then have ot: "token_origin hf (es @ [?e]) uid t" by (auto simp: token_origin_def)
  show ?thesis unfolding t(1)
  proof (rule approval_invI)
    fix tid u assume "a_tokens (?s1\<lparr>a_tokens := (a_tokens ?s1)(uid \<mapsto> t), a_pending := insert uid (a_pending ?s1)\<rparr>) tid = Some u"
    then show "token_origin hf (es @ [?e]) tid u"
      using ot approval_invD(1) [OF i1] by (cases "tid = uid") (simp_all add: token_origin_mono)
  next
    fix tid user' sess' tool' inp' now'
    assume "Approval tid user' sess' tool' inp' now' \<in> set (es @ [?e])"
    then have "Approval tid user' sess' tool' inp' now' \<in> set es" by simp
    from approval_invD(6) [OF i1 this]
    show "\<exists>inp0 t0. Created tid user' sess' tool' inp0 t0 \<in> set (es @ [?e]) \<and> hf inp' = hf inp0 \<and> now' \<le> t0 + token_ttl tool'"
      by (elim exE conjE) (intro exI conjI; simp)
  qed (use approval_invD(2-5) [OF i1] na in auto)
qed

lemma astep_inv:
  assumes inv: "approval_inv hf es s" and step: "astep hf s x = (fs, s')"
    and new: "distinct (created_ids (es @ fs))"
  shows "approval_inv hf (es @ fs) s'"
proof (cases x)
  case (Create user sess tool inp desc uid nonce now0 now)
  then show ?thesis using create_inv [OF inv, of uid] step new by auto
next
  case (Deny tid)
  then show ?thesis using weaker_inv [OF weaker_deny inv] step by auto
next
  case (Tamper tid inp)
  then have "weaker s s'" "fs = []" using step weaker_update [of "\<lambda>t. t\<lparr>a_input := inp\<rparr>"] by auto
  then show ?thesis using weaker_inv inv by auto
next
  case (Consume tid user sess now)
  have w: "approval_inv hf es (snd (validate_and_consume hf tid user sess now s))"
    by (rule weaker_inv [OF weaker_consume inv])
  show ?thesis
  proof (cases "validate_and_consume hf tid user sess now s")
    case (Pair r s1)
    show ?thesis
    proof (cases r)
      case (Inl e)
      with Pair w step Consume show ?thesis by auto
    next
      case (Inr ti)
      obtain tool inp where ti: "ti = (tool, inp)" by (cases ti)
      note ok = consume_OkD [OF Pair [unfolded Inr ti]]
      have fs: "fs = [Approval tid user sess tool inp now]" "s' = s1"
        using Pair Inr ti step Consume by auto
      obtain t where t: "tid \<in> a_pending s" "a_tokens s tid = Some t" "now \<le> a_expires t"
        "a_user t = user" "a_session t = sess" "a_tool t = tool" "a_digest t = hf inp" "tid \<notin> a_pending s1"
        using ok by auto
      then obtain inp0 t0 where o: "Created tid user sess tool inp0 t0 \<in> set es" "hf inp = hf inp0"
          "now \<le> t0 + token_ttl tool"
        using inv unfolding approval_inv_def token_origin_def by metis
      have "tid \<notin> set (approved_ids es)" using t(1) inv by (auto simp: approval_inv_def)
      moreover have "tid \<in> set (created_ids es)" using o(1) by (rule created_in)
      moreover have "approval_inv hf es s1" using w Pair by simp
      ultimately have "tid \<notin> set (approved_ids es)" "tid \<in> set (created_ids es)" and i1: "approval_inv hf es s1"
        by blast+
      then show ?thesis unfolding fs
      proof (intro approval_invI)
        fix tid' user' sess' tool' inp' now'
        assume "Approval tid' user' sess' tool' inp' now' \<in> set (es @ [Approval tid user sess tool inp now])"
        then have "Approval tid' user' sess' tool' inp' now' \<in> set es
          \<or> (tid' = tid \<and> user' = user \<and> sess' = sess \<and> tool' = tool \<and> inp' = inp \<and> now' = now)" by auto
        then have "\<exists>inp0 t0. Created tid' user' sess' tool' inp0 t0 \<in> set es \<and> hf inp' = hf inp0 \<and> now' \<le> t0 + token_ttl tool'"
          using approval_invD(6) [OF i1] o by blast
        then show "\<exists>inp0 t0. Created tid' user' sess' tool' inp0 t0 \<in> set (es @ [Approval tid user sess tool inp now])
            \<and> hf inp' = hf inp0 \<and> now' \<le> t0 + token_ttl tool'"
          by (elim exE conjE) (intro exI conjI; simp)
      qed (use approval_invD(1-5) [OF i1] t(8) in \<open>auto intro: token_origin_mono\<close>)
    qed
  qed
qed

lemma arun_inv:
  assumes "approval_inv hf es s" and "arun hf s xs = (fs, s')" and "distinct (created_ids (es @ fs))"
  shows "approval_inv hf (es @ fs) s'"
  using assms
proof (induction xs arbitrary: es s fs)
  case (Cons x xs)
  obtain e1 s1 where 1: "astep hf s x = (e1, s1)" by (cases "astep hf s x")
  obtain e2 where 2: "arun hf s1 xs = (e2, s')" "fs = e1 @ e2"
    using Cons.prems(2) 1 by (auto simp: Let_def split: prod.splits)
  have "approval_inv hf (es @ e1) s1"
    by (rule astep_inv [OF Cons.prems(1) 1]) (use Cons.prems(3) 2(2) in auto)
  from Cons.IH [OF this 2(1)] Cons.prems(3) 2(2) show ?case by simp
qed simp

lemma no_tokens_inv: "approval_inv hf [] no_tokens"
  by (simp add: approval_inv_def no_tokens_def)

section \<open>Properties\<close>

text \<open>
  C33. An approval is used once and for what was approved: in every run from the empty service in
  which created ids are fresh, each token is approved at most once, and every approval names a
  token created before for this very user, session and tool, with an input of the same digest,
  no later than the life time of the tool's risk after its creation, even when callers change
  the input of live tokens.
\<close>

theorem approvals_single_use:
  assumes "arun hf no_tokens xs = (es, s)" and "distinct (created_ids es)"
  shows "distinct (approved_ids es)
    \<and> (\<forall>tid user sess tool inp now. Approval tid user sess tool inp now \<in> set es \<longrightarrow>
         (\<exists>inp0 t0. Created tid user sess tool inp0 t0 \<in> set es \<and> hf inp = hf inp0 \<and> now \<le> t0 + token_ttl tool))"
proof -
  have "approval_inv hf es s" using arun_inv [OF no_tokens_inv assms(1)] assms(2) by simp
  note i = approval_invD [OF this]
  then show ?thesis by blast
qed

theorem approvals_single_use_witness:
  "arun id no_tokens
     [Create ''u'' ''s'' ''delete_dataset'' ''x'' [] ''t1'' ''n'' 0 0, Consume ''t1'' ''v'' ''s'' 1,
      Consume ''t1'' ''u'' ''s'' 2, Consume ''t1'' ''u'' ''s'' 3] =
   ([Created ''t1'' ''u'' ''s'' ''delete_dataset'' ''x'' 0, Approval ''t1'' ''u'' ''s'' ''delete_dataset'' ''x'' 2],
    snd (arun id no_tokens
     [Create ''u'' ''s'' ''delete_dataset'' ''x'' [] ''t1'' ''n'' 0 0, Consume ''t1'' ''v'' ''s'' 1,
      Consume ''t1'' ''u'' ''s'' 2, Consume ''t1'' ''u'' ''s'' 3]))
   \<and> distinct (approved_ids [Created ''t1'' ''u'' ''s'' ''delete_dataset'' ''x'' 0,
        Approval ''t1'' ''u'' ''s'' ''delete_dataset'' ''x'' 2])"
    (is "?run = (?es, ?s) \<and> _")
proof -
  have run: "?run = (?es, ?s)"
    by (simp add: no_tokens_def create_token_def cleanup_expired_def validate_and_consume_def get_pending_def
        set_status_def drop_pending_def token_ttl_def MUTATION_TOOLS_def RISK_TTL_def Let_def)
  moreover have "distinct (created_ids ?es)" by simp
  ultimately show ?thesis using approvals_single_use [of id _ ?es ?s] by blast
qed

text \<open>
  C32. What an attempt to consume a token does: an unknown or used token changes nothing; the wrong
  user or session is refused and leaves the service exactly as it was, so that the right user can
  still approve; an expired token and one whose input no longer has its digest are removed; and
  the right user and session in time obtain the tool and input, after which every further attempt
  is refused.
\<close>

theorem consume_outcomes:
  assumes "validate_and_consume hf tid user sess now s = (r, s')"
  shows "case get_pending s tid of
      None \<Rightarrow> r = Inl NotFoundOrUsed \<and> s' = s
    | Some t \<Rightarrow>
       if a_status t \<noteq> APending then r = Inl NotFoundOrUsed \<and> s' = s
       else if now > a_expires t then r = Inl TokenExpired \<and> tid \<notin> a_pending s'
       else if a_user t \<noteq> user then r = Inl WrongUser \<and> s' = s
       else if a_session t \<noteq> sess then r = Inl WrongSession \<and> s' = s
       else if a_digest t \<noteq> hf (a_input t) then r = Inl ArgsTampered \<and> tid \<notin> a_pending s'
       else r = Inr (a_tool t, a_input t) \<and> tid \<notin> a_pending s'
         \<and> fst (validate_and_consume hf tid user' sess' now' s') = Inl NotFoundOrUsed"
proof (cases "get_pending s tid")
  case (Some t)
  then have t: "a_tokens s tid = Some t" by (simp add: get_pending_def split: if_splits)
  have "s\<lparr>a_tokens := (a_tokens s)(tid \<mapsto> t\<lparr>a_status := APending\<rparr>)\<rparr> = s" if "a_status t = APending"
  proof -
    have "t\<lparr>a_status := APending\<rparr> = t" using that [symmetric] by simp
    then show ?thesis using t by (simp add: map_upd_triv)
  qed
  then have restore: "set_status tid APending (set_status tid Claimed s) = s" if "a_status t = APending"
    using that t by (simp add: set_status_def)
  show ?thesis
  proof (cases "a_status t = APending")
    case True
    then show ?thesis using Some assms restore [OF True]
      by (auto simp: validate_and_consume_def Let_def drop_pending_def get_pending_def split: if_splits)
  qed (use Some assms in \<open>simp add: validate_and_consume_def\<close>)
qed (use assms in \<open>simp add: validate_and_consume_def\<close>)

theorem consume_outcomes_witness:
  "fst (validate_and_consume id ''t1'' ''v'' ''s'' 1
     (snd (create_token id ''u'' ''s'' ''stop_public_tunnel'' ''x'' [] ''t1'' ''n'' 0 0 no_tokens))) = Inl WrongUser
   \<and> snd (validate_and_consume id ''t1'' ''v'' ''s'' 1
     (snd (create_token id ''u'' ''s'' ''stop_public_tunnel'' ''x'' [] ''t1'' ''n'' 0 0 no_tokens)))
     = snd (create_token id ''u'' ''s'' ''stop_public_tunnel'' ''x'' [] ''t1'' ''n'' 0 0 no_tokens)"
  (is "fst (?v ?s) = _ \<and> snd (?v ?s) = ?s")
proof -
  obtain t where "get_pending ?s ''t1'' = Some t" "a_status t = APending" "a_expires t = 120" "a_user t = ''u''"
    by (simp add: no_tokens_def create_token_def cleanup_expired_def get_pending_def token_ttl_def
        MUTATION_TOOLS_def RISK_TTL_def Let_def)
  moreover have "?v ?s = (fst (?v ?s), snd (?v ?s))" by simp
  note consume_outcomes [OF this]
  ultimately show ?thesis by simp
qed

text \<open>
  Tools are denied by default: a tool passes the capability check exactly when it is classified,
  every tool has exactly one of the three classes, and a mutating tool's approval lives at most
  120 seconds.
\<close>

theorem tools_denied_by_default:
  "(check_capabilities user tool = None \<longleftrightarrow> tool \<in> set ALL_CLASSIFIED_TOOLS)
   \<and> distinct ALL_CLASSIFIED_TOOLS
   \<and> (tool \<notin> set ALL_CLASSIFIED_TOOLS \<longrightarrow> check_capabilities user tool = Some (NoMapping tool))
   \<and> 15 \<le> token_ttl tool \<and> token_ttl tool \<le> 120"
proof -
  have dom: "dom (map_of TOOL_CAPABILITIES) = set ALL_CLASSIFIED_TOOLS"
    unfolding dom_map_of_conv_image_fst
    by (simp add: TOOL_CAPABILITIES_def ALL_CLASSIFIED_TOOLS_def READ_ONLY_TOOLS_def AUTO_APPROVE_TOOLS_def
        MUTATION_TOOLS_def insert_commute)
  have "check_capabilities user tool = (if tool \<in> dom (map_of TOOL_CAPABILITIES) then None else Some (NoMapping tool))"
  proof (cases "map_of TOOL_CAPABILITIES tool")
    case (Some caps)
    then have "set caps \<subseteq> ALL_CAPABILITIES" by (force simp: ALL_CAPABILITIES_def dest: map_of_SomeD)
    with Some show ?thesis by (simp add: check_capabilities_def get_user_capabilities_def Let_def domI)
  qed (simp add: check_capabilities_def domIff)
  moreover have "distinct ALL_CLASSIFIED_TOOLS"
    by (simp add: ALL_CLASSIFIED_TOOLS_def READ_ONLY_TOOLS_def AUTO_APPROVE_TOOLS_def MUTATION_TOOLS_def)
  moreover have "15 \<le> token_ttl tool \<and> token_ttl tool \<le> 120"
    by (simp add: token_ttl_def RISK_TTL_def Let_def split: option.split)
  ultimately show ?thesis unfolding dom by simp
qed

theorem tools_denied_by_default_witness:
  "check_capabilities ''u'' ''drop_everything'' = Some (NoMapping ''drop_everything'')"
  using tools_denied_by_default [of "''u''" "''drop_everything''"]
  by (simp add: ALL_CLASSIFIED_TOOLS_def READ_ONLY_TOOLS_def AUTO_APPROVE_TOOLS_def MUTATION_TOOLS_def)

end
