(* ===== verification/Serial.thy ===== *)
theory Serial
  imports Prelude
begin

text \<open>
  The serial of an installation: its persistent state (app/services/serial_store.py), the HTTP
  client of ai.market's serial endpoints (app/services/serial_client.py) and the activation
  manager (app/services/activation_manager.py).  Replies of ai.market are arguments; a JSON object
  in a reply is the record of the fields the code reads, each absent or present.
\<close>

datatype serial_state = Unprovisioned | Provisioned | Active | Degraded | Migrated

record reply_body =
  rb_install_token :: "string option"
  rb_serial_id :: "string option"
  rb_allowed :: "bool option"
  rb_reason :: "string option"
  rb_remaining :: "string option"
  rb_payment :: "bool option"
  rb_migrated :: "bool option"
  rb_gateway :: "string option"
  rb_setup_remaining :: "string option"

definition get_or :: "'a \<Rightarrow> 'a option \<Rightarrow> 'a" where
  "get_or d v = (case v of None \<Rightarrow> d | Some x \<Rightarrow> x)"

section \<open>The HTTP client\<close>

text \<open>
  \<^verbatim>\<open>_request\<close>: attempt \<open>i\<close> is answered with a status and a JSON object (\<open>None\<close>: the body is not
  JSON, or empty), or fails in the transport.  The result comes with the waits between attempts.
\<close>

type_synonym answer = "int \<times> reply_body option"

definition RETRY_DELAYS :: "real list" where "RETRY_DELAYS = [1, 3]"

definition retry_delay :: "nat \<Rightarrow> real" where
  "retry_delay attempt = (if attempt < length RETRY_DELAYS then RETRY_DELAYS ! attempt else last RETRY_DELAYS)"

fun request_from :: "(nat \<Rightarrow> answer option) \<Rightarrow> nat \<Rightarrow> nat \<Rightarrow> answer \<times> real list" where
  "request_from env attempt left =
     (case env attempt of
        Some a \<Rightarrow> (a, [])
      | None \<Rightarrow>
          (case left of
             0 \<Rightarrow> ((0, None), [])
           | Suc k \<Rightarrow> (let (a, ws) = request_from env (Suc attempt) k in (a, retry_delay attempt # ws))))"

declare request_from.simps [simp del]

definition request :: "(nat \<Rightarrow> answer option) \<Rightarrow> answer \<times> real list" where
  "request env = request_from env 0 2"

record token_result =
  tr_success :: bool
  tr_install_token :: "string option"
  tr_serial_id :: "string option"
  tr_status :: int

fun activate :: "answer \<Rightarrow> token_result" where
  "activate (code, Some b) =
     (if code = 200
      then \<lparr>tr_success = True, tr_install_token = rb_install_token b, tr_serial_id = rb_serial_id b, tr_status = code\<rparr>
      else \<lparr>tr_success = False, tr_install_token = None, tr_serial_id = None, tr_status = code\<rparr>)"
| "activate (code, None) =
     \<lparr>tr_success = False, tr_install_token = None, tr_serial_id = None, tr_status = code\<rparr>"

fun refresh :: "answer \<Rightarrow> token_result" where
  "refresh (code, Some b) =
     (if code = 200
      then \<lparr>tr_success = True, tr_install_token = rb_install_token b, tr_serial_id = None, tr_status = code\<rparr>
      else \<lparr>tr_success = False, tr_install_token = None, tr_serial_id = None, tr_status = code\<rparr>)"
| "refresh (code, None) =
     \<lparr>tr_success = False, tr_install_token = None, tr_serial_id = None, tr_status = code\<rparr>"

record meter_result =
  mr_allowed :: bool
  mr_remaining :: string
  mr_reason :: "string option"
  mr_payment :: bool
  mr_migrated :: bool
  mr_status :: int

fun meter :: "answer \<Rightarrow> meter_result" where
  "meter (code, Some b) =
     (if code \<in> {200, 402}
      then \<lparr>mr_allowed = get_or False (rb_allowed b), mr_remaining = get_or ''0.00'' (rb_remaining b),
            mr_reason = rb_reason b, mr_payment = get_or False (rb_payment b),
            mr_migrated = get_or False (rb_migrated b), mr_status = code\<rparr>
      else \<lparr>mr_allowed = False, mr_remaining = ''0.00'', mr_reason = None, mr_payment = False,
            mr_migrated = False, mr_status = code\<rparr>)"
| "meter (code, None) =
     \<lparr>mr_allowed = False, mr_remaining = ''0.00'', mr_reason = None, mr_payment = False,
      mr_migrated = False, mr_status = code\<rparr>"

record status_result =
  sr_success :: bool
  sr_data :: "reply_body option"
  sr_serial_id :: "string option"
  sr_migrated :: bool
  sr_status :: int

fun status :: "answer \<Rightarrow> status_result" where
  "status (code, Some b) =
     (if code = 200
      then \<lparr>sr_success = True, sr_data = Some b, sr_serial_id = rb_serial_id b,
            sr_migrated = get_or False (rb_migrated b), sr_status = code\<rparr>
      else \<lparr>sr_success = False, sr_data = None, sr_serial_id = None, sr_migrated = False, sr_status = code\<rparr>)"
| "status (code, None) =
     \<lparr>sr_success = False, sr_data = None, sr_serial_id = None, sr_migrated = False, sr_status = code\<rparr>"

section \<open>The store\<close>

record sstate =
  serial :: string
  serial_id :: "string option"
  install_token :: "string option"
  bootstrap_token :: "string option"
  vz_install_id :: "string option"
  vz_install_token :: "string option"
  vz_serial_bound :: bool
  market_token :: "string option"
  market_seller :: "string option"
  sstate_of :: serial_state
  last_version :: "string option"
  status_cache :: "reply_body option"
  status_at :: "string option"
  failures :: int

definition new_state :: sstate where
  "new_state =
     \<lparr>serial = [], serial_id = None, install_token = None, bootstrap_token = None, vz_install_id = None,
      vz_install_token = None, vz_serial_bound = False, market_token = None, market_seller = None,
      sstate_of = Unprovisioned, last_version = None, status_cache = None, status_at = None, failures = 0\<rparr>"

definition FAILURE_THRESHOLD :: int where "FAILURE_THRESHOLD = 3"

text \<open>
  \<^verbatim>\<open>serial.json\<close>: absent, unreadable, or an object whose fields may be missing.  The state is a
  string there; an unknown one is read as unprovisioned.
\<close>

record raw_state =
  raw_serial :: "string option"
  raw_serial_id :: "string option"
  raw_install_token :: "string option"
  raw_bootstrap_token :: "string option"
  raw_vz_install_id :: "string option"
  raw_vz_install_token :: "string option"
  raw_vz_serial_bound :: "bool option"
  raw_market_token :: "string option"
  raw_market_seller :: "string option"
  raw_sstate :: "string option"
  raw_last_version :: "string option"
  raw_status_cache :: "reply_body option"
  raw_status_at :: "string option"
  raw_failures :: "int option"

datatype sfile = NoFile | BadFile | Fields raw_state

fun state_name :: "serial_state \<Rightarrow> string" where
  "state_name Unprovisioned = ''unprovisioned''"
| "state_name Provisioned = ''provisioned''"
| "state_name Active = ''active''"
| "state_name Degraded = ''degraded''"
| "state_name Migrated = ''migrated''"

definition read_state :: "string \<Rightarrow> serial_state" where
  "read_state s =
     (if s = ''provisioned'' then Provisioned else if s = ''active'' then Active
      else if s = ''degraded'' then Degraded else if s = ''migrated'' then Migrated else Unprovisioned)"

definition asdict :: "sstate \<Rightarrow> raw_state" where
  "asdict s =
     \<lparr>raw_serial = Some (serial s), raw_serial_id = serial_id s, raw_install_token = install_token s,
      raw_bootstrap_token = bootstrap_token s, raw_vz_install_id = vz_install_id s,
      raw_vz_install_token = vz_install_token s, raw_vz_serial_bound = Some (vz_serial_bound s),
      raw_market_token = market_token s, raw_market_seller = market_seller s,
      raw_sstate = Some (state_name (sstate_of s)), raw_last_version = last_version s,
      raw_status_cache = status_cache s, raw_status_at = status_at s, raw_failures = Some (failures s)\<rparr>"

definition from_raw :: "raw_state \<Rightarrow> sstate" where
  "from_raw r =
     \<lparr>serial = get_or [] (raw_serial r), serial_id = raw_serial_id r, install_token = raw_install_token r,
      bootstrap_token = raw_bootstrap_token r, vz_install_id = raw_vz_install_id r,
      vz_install_token = raw_vz_install_token r, vz_serial_bound = get_or False (raw_vz_serial_bound r),
      market_token = raw_market_token r, market_seller = raw_market_seller r,
      sstate_of = read_state (get_or ''unprovisioned'' (raw_sstate r)), last_version = raw_last_version r,
      status_cache = raw_status_cache r, status_at = raw_status_at r, failures = get_or 0 (raw_failures r)\<rparr>"

record store =
  mem :: sstate
  disk :: sfile

text \<open>\<^verbatim>\<open>save\<close> replaces the file as a whole (temporary file, fsync, rename).\<close>

definition save :: "store \<Rightarrow> store" where
  "save st = st\<lparr>disk := Fields (asdict (mem st))\<rparr>"

definition upd :: "(sstate \<Rightarrow> sstate) \<Rightarrow> store \<Rightarrow> store" where
  "upd f st = save (st\<lparr>mem := f (mem st)\<rparr>)"

definition load_store :: "string \<Rightarrow> string \<Rightarrow> sfile \<Rightarrow> store" where
  "load_store env_serial env_bootstrap file =
     (case file of
        NoFile \<Rightarrow>
          (if env_serial \<noteq> [] \<and> env_bootstrap \<noteq> []
           then save \<lparr>mem = new_state\<lparr>serial := env_serial, bootstrap_token := Some env_bootstrap,
                        sstate_of := Provisioned\<rparr>, disk = NoFile\<rparr>
           else \<lparr>mem = new_state, disk = NoFile\<rparr>)
      | BadFile \<Rightarrow> \<lparr>mem = new_state, disk = BadFile\<rparr>
      | Fields r \<Rightarrow> \<lparr>mem = from_raw r, disk = Fields r\<rparr>)"

definition record_success :: "store \<Rightarrow> store" where
  "record_success =
     upd (\<lambda>s. let s1 = s\<lparr>failures := 0\<rparr> in
            if sstate_of s1 = Degraded then s1\<lparr>sstate_of := Active\<rparr> else s1)"

definition record_failure :: "store \<Rightarrow> store" where
  "record_failure =
     upd (\<lambda>s. let s1 = s\<lparr>failures := failures s + 1\<rparr> in
            if sstate_of s1 = Active \<and> failures s1 \<ge> FAILURE_THRESHOLD then s1\<lparr>sstate_of := Degraded\<rparr> else s1)"

definition transition_to_active :: "string \<Rightarrow> store \<Rightarrow> store" where
  "transition_to_active tok =
     upd (\<lambda>s. s\<lparr>install_token := Some tok, bootstrap_token := None, sstate_of := Active, failures := 0\<rparr>)"

definition transition_to_migrated :: "string option \<Rightarrow> store \<Rightarrow> store" where
  "transition_to_migrated gateway =
     upd (\<lambda>s. let s1 = s\<lparr>sstate_of := Migrated\<rparr> in
            (case status_cache s1 of
               Some c \<Rightarrow> if truthy gateway then s1\<lparr>status_cache := Some (c\<lparr>rb_gateway := gateway\<rparr>)\<rparr> else s1
             | None \<Rightarrow> s1))"

definition transition_to_unprovisioned :: "store \<Rightarrow> store" where
  "transition_to_unprovisioned =
     upd (\<lambda>s. s\<lparr>install_token := None, bootstrap_token := None, sstate_of := Unprovisioned, failures := 0\<rparr>)"

definition update_status_cache :: "reply_body \<Rightarrow> string \<Rightarrow> store \<Rightarrow> store" where
  "update_status_cache d ts = upd (\<lambda>s. s\<lparr>status_cache := Some d, status_at := Some ts\<rparr>)"

definition update_app_version :: "string \<Rightarrow> store \<Rightarrow> store" where
  "update_app_version v = upd (\<lambda>s. s\<lparr>last_version := Some v\<rparr>)"

definition persist_ai_market_session :: "string \<Rightarrow> string option \<Rightarrow> store \<Rightarrow> store" where
  "persist_ai_market_session tok seller =
     upd (\<lambda>s. let s1 = s\<lparr>market_token := Some tok\<rparr> in
            if truthy seller then s1\<lparr>market_seller := seller\<rparr> else s1)"

definition persist_serial_id :: "string option \<Rightarrow> store \<Rightarrow> store" where
  "persist_serial_id sid st = (if truthy sid then upd (\<lambda>s. s\<lparr>serial_id := sid\<rparr>) st else st)"

definition persist_vz_install :: "string \<Rightarrow> string option \<Rightarrow> bool \<Rightarrow> store \<Rightarrow> store" where
  "persist_vz_install iid tok bound =
     upd (\<lambda>s. let s1 = s\<lparr>vz_install_id := Some iid, vz_serial_bound := bound\<rparr> in
            if truthy tok then s1\<lparr>vz_install_token := tok\<rparr> else s1)"

section \<open>The activation manager\<close>

definition attempt_activation :: "string \<Rightarrow> answer \<Rightarrow> store \<Rightarrow> store" where
  "attempt_activation version ans st =
     (if serial (mem st) = [] \<or> \<not> truthy (bootstrap_token (mem st)) then st
      else let res = activate ans in
        if tr_success res \<and> truthy (tr_install_token res)
        then update_app_version version (persist_serial_id (tr_serial_id res)
               (transition_to_active (the (tr_install_token res)) st))
        else if tr_status res = 401 then transition_to_unprovisioned st
        else st)"

text \<open>
  The reply to the request for a new serial: an answer that is not 201, one without the two
  fields, or a serial and a bootstrap token.
\<close>

datatype generate_reply = NotCreated | NoFields | NewSerial string string

definition auto_provision :: "string \<Rightarrow> generate_reply \<Rightarrow> answer \<Rightarrow> store \<Rightarrow> store" where
  "auto_provision version gen ans st =
     (case gen of
        NewSerial sn boot \<Rightarrow>
          attempt_activation version ans
            (upd (\<lambda>s. s\<lparr>serial := sn, bootstrap_token := Some boot, sstate_of := Provisioned\<rparr>) st)
      | _ \<Rightarrow> st)"

definition attempt_refresh :: "answer \<Rightarrow> store \<Rightarrow> store" where
  "attempt_refresh ans st =
     (if \<not> truthy (install_token (mem st)) then st
      else let res = refresh ans in
        if tr_success res \<and> truthy (tr_install_token res)
        then upd (\<lambda>s. s\<lparr>install_token := tr_install_token res\<rparr>) st
        else if tr_status res = 401
        then upd (\<lambda>s. s\<lparr>sstate_of := Provisioned, install_token := None\<rparr>) st
        else st)"

text \<open>
  \<^verbatim>\<open>_poll_status\<close>: \<open>keystore\<close> tells whether a keystore passphrase is configured; \<open>reg\<close> is what the
  registration of the installation persists (\<open>None\<close>: nothing, or an exception, which is caught).
\<close>

definition poll_status ::
  "answer \<Rightarrow> string \<Rightarrow> bool \<Rightarrow> (string \<times> string option \<times> bool) option \<Rightarrow> store \<Rightarrow> store" where
  "poll_status ans now keystore reg st =
     (if sstate_of (mem st) \<notin> {Active, Degraded} \<or> \<not> truthy (install_token (mem st)) then st
      else let res = status ans in
        (case (sr_success res, sr_data res) of
           (True, Some d) \<Rightarrow>
             (let st1 = update_status_cache d now (persist_serial_id (sr_serial_id res) (record_success st));
                  st2 = (if \<not> truthy (vz_install_id (mem st1)) \<and> truthy (market_token (mem st1))
                            \<and> keystore \<and> truthy (rb_gateway d)
                         then (case reg of None \<Rightarrow> st1 | Some (iid, tok, bound) \<Rightarrow> persist_vz_install iid tok bound st1)
                         else st1)
              in if sr_migrated res then transition_to_migrated (rb_gateway d) st2 else st2)
         | _ \<Rightarrow> (if sr_status res = 401 then transition_to_unprovisioned st else record_failure st)))"

text \<open>The replies one call of \<^verbatim>\<open>startup\<close> or one round of the background loop may consume.\<close>

record world =
  w_version :: string
  w_generate :: generate_reply
  w_activate :: answer
  w_activate2 :: answer
  w_refresh :: answer
  w_status :: answer
  w_now :: string
  w_keystore :: bool
  w_reg :: "(string \<times> string option \<times> bool) option"

definition startup :: "world \<Rightarrow> store \<Rightarrow> store" where
  "startup w st =
     (let st1 = (if sstate_of (mem st) = Unprovisioned
                 then if serial (mem st) \<noteq> [] \<and> truthy (bootstrap_token (mem st))
                      then upd (\<lambda>s. s\<lparr>sstate_of := Provisioned\<rparr>) st
                      else auto_provision (w_version w) (w_generate w) (w_activate w) st
                 else st)
      in if sstate_of (mem st1) = Migrated then st1
         else let st2 = (if sstate_of (mem st1) = Provisioned
                         then attempt_activation (w_version w) (w_activate2 w) st1 else st1)
              in if sstate_of (mem st2) = Active
                 then update_app_version (w_version w)
                        (if truthy (last_version (mem st2)) \<and> last_version (mem st2) \<noteq> Some (w_version w)
                         then attempt_refresh (w_refresh w) st2 else st2)
                 else st2)"

definition background_round :: "world \<Rightarrow> store \<Rightarrow> store" where
  "background_round w st =
     (case sstate_of (mem st) of
        Provisioned \<Rightarrow> attempt_activation (w_version w) (w_activate w) st
      | Active \<Rightarrow> poll_status (w_status w) (w_now w) (w_keystore w) (w_reg w) st
      | Degraded \<Rightarrow> poll_status (w_status w) (w_now w) (w_keystore w) (w_reg w) st
      | Migrated \<Rightarrow> st
      | Unprovisioned \<Rightarrow> auto_provision (w_version w) (w_generate w) (w_activate w) st)"

section \<open>The invariant of the store\<close>

text \<open>
  An active or degraded installation holds an install token and no bootstrap token; it is degraded
  from the third failure in a row on.
\<close>

definition serial_inv :: "sstate \<Rightarrow> bool" where
  "serial_inv s \<longleftrightarrow> 0 \<le> failures s
     \<and> (sstate_of s \<in> {Active, Degraded} \<longrightarrow> truthy (install_token s) \<and> \<not> truthy (bootstrap_token s))
     \<and> (sstate_of s = Active \<longrightarrow> failures s < FAILURE_THRESHOLD)
     \<and> (sstate_of s = Degraded \<longrightarrow> FAILURE_THRESHOLD \<le> failures s)"

lemma mem_save [simp]: "mem (save st) = mem st"
  by (simp add: save_def)

lemma mem_upd [simp]: "mem (upd f st) = f (mem st)"
  by (simp add: upd_def)

lemma store_mem_simps [simp]:
  "mem (record_success st) = (mem st)\<lparr>failures := 0, sstate_of := (if sstate_of (mem st) = Degraded then Active else sstate_of (mem st))\<rparr>"
  "mem (update_app_version v st) = (mem st)\<lparr>last_version := Some v\<rparr>"
  "mem (update_status_cache d ts st) = (mem st)\<lparr>status_cache := Some d, status_at := Some ts\<rparr>"
  "mem (transition_to_unprovisioned st) = (mem st)\<lparr>install_token := None, bootstrap_token := None, sstate_of := Unprovisioned, failures := 0\<rparr>"
  "mem (transition_to_active tok st) = (mem st)\<lparr>install_token := Some tok, bootstrap_token := None, sstate_of := Active, failures := 0\<rparr>"
  by (simp_all add: record_success_def update_app_version_def update_status_cache_def
      transition_to_unprovisioned_def transition_to_active_def Let_def)

lemma serial_inv_ops [step_invs]:
  "serial_inv (mem st) \<Longrightarrow> serial_inv (mem (record_success st))"
  "serial_inv (mem st) \<Longrightarrow> serial_inv (mem (record_failure st))"
  "serial_inv (mem st) \<Longrightarrow> serial_inv (mem (transition_to_migrated g st))"
  "serial_inv (mem (transition_to_unprovisioned st))"
  "truthy (Some tok) \<Longrightarrow> serial_inv (mem (transition_to_active tok st))"
  "serial_inv (mem st) \<Longrightarrow> serial_inv (mem (update_app_version v st))"
  "serial_inv (mem st) \<Longrightarrow> serial_inv (mem (update_status_cache d ts st))"
  "serial_inv (mem st) \<Longrightarrow> serial_inv (mem (persist_serial_id sid st))"
  "serial_inv (mem st) \<Longrightarrow> serial_inv (mem (persist_vz_install iid tk b st))"
  "serial_inv (mem st) \<Longrightarrow> serial_inv (mem (persist_ai_market_session t sl st))"
  by (auto simp: serial_inv_def record_failure_def transition_to_migrated_def FAILURE_THRESHOLD_def
      persist_serial_id_def persist_vz_install_def persist_ai_market_session_def Let_def split: option.split)

lemma attempt_activation_inv [step_invs]:
  "serial_inv (mem st) \<Longrightarrow> serial_inv (mem (attempt_activation v ans st))"
proof -
  assume i: "serial_inv (mem st)"
  show ?thesis
  proof (cases "tr_install_token (activate ans)")
    case (Some tok)
    then show ?thesis using i
      by (auto simp: attempt_activation_def Let_def simp del: store_mem_simps intro!: step_invs)
  qed (use i in \<open>auto simp: attempt_activation_def Let_def simp del: store_mem_simps intro: step_invs\<close>)
qed

lemma auto_provision_inv [step_invs]:
  "serial_inv (mem st) \<Longrightarrow> serial_inv (mem (auto_provision v g ans st))"
  by (auto simp: auto_provision_def serial_inv_def [of "_\<lparr>serial := _, bootstrap_token := _, sstate_of := _\<rparr>"]
      split: generate_reply.split intro!: attempt_activation_inv) (simp add: serial_inv_def)

lemma attempt_refresh_inv [step_invs]:
  "serial_inv (mem st) \<Longrightarrow> serial_inv (mem (attempt_refresh ans st))"
  by (auto simp: attempt_refresh_def serial_inv_def Let_def)

lemma poll_status_inv [step_invs]:
  "serial_inv (mem st) \<Longrightarrow> serial_inv (mem (poll_status ans now ks reg st))"
  by (auto simp: poll_status_def Let_def split: option.split bool.split prod.split simp del: store_mem_simps
      intro!: step_invs)

lemma startup_inv [step_invs]: "serial_inv (mem st) \<Longrightarrow> serial_inv (mem (startup w st))"
proof -
  assume i: "serial_inv (mem st)"
  have p: "serial_inv (mem (upd (\<lambda>s. s\<lparr>sstate_of := Provisioned\<rparr>) st))"
    using i by (simp add: serial_inv_def)
  then show ?thesis using i unfolding startup_def Let_def
    by (auto simp del: store_mem_simps mem_upd intro!: step_invs)
qed

lemma background_round_inv [step_invs]:
  "serial_inv (mem st) \<Longrightarrow> serial_inv (mem (background_round w st))"
  by (auto simp: background_round_def split: serial_state.split intro: step_invs)

end
