(* ===== verification/Metering.thy ===== *)
theory Metering
  imports Serial
begin

text \<open>
  Metering before registration: the queue of offline usage (app/services/offline_queue.py) and the
  strategies that decide and meter a call (app/services/serial_metering.py) on top of the serial
  store.
\<close>

section \<open>The offline queue\<close>

text \<open>An entry as written to the file; a line of the file may also be blank or malformed.\<close>

record qentry =
  qe_category :: "string option"
  qe_cost :: "string option"
  qe_request_id :: "string option"
  qe_description :: "string option"

datatype qline = BlankLine | MalformedLine | EntryLine qentry

definition MAX_QUEUE_ENTRIES :: nat where "MAX_QUEUE_ENTRIES = 50"

type_synonym qfile = "qline list option"

definition queue_count :: "qfile \<Rightarrow> nat" where
  "queue_count f = (case f of None \<Rightarrow> 0 | Some ls \<Rightarrow> length (filter (\<lambda>l. l \<noteq> BlankLine) ls))"

definition queue_append :: "qentry \<Rightarrow> qfile \<Rightarrow> bool \<times> qfile" where
  "queue_append e f =
     (if queue_count f \<ge> MAX_QUEUE_ENTRIES then (False, f)
      else (True, Some ((case f of None \<Rightarrow> [] | Some ls \<Rightarrow> ls) @ [EntryLine e])))"

fun line_entries :: "qline list \<Rightarrow> qentry list" where
  "line_entries [] = []"
| "line_entries (EntryLine e # ls) = e # line_entries ls"
| "line_entries (_ # ls) = line_entries ls"

definition read_all :: "qfile \<Rightarrow> qentry list" where
  "read_all f = (case f of None \<Rightarrow> [] | Some ls \<Rightarrow> line_entries ls)"

definition queue_clear :: "qfile \<Rightarrow> qfile" where
  "queue_clear f = None"

record meter_call =
  mc_category :: string
  mc_cost :: string
  mc_request_id :: string
  mc_description :: string

text \<open>
  The sending loop of \<^verbatim>\<open>flush\<close>: \<open>env i\<close> is the status of the i-th call.  The result is the list of
  calls made and the number of entries sent, or the \<^verbatim>\<open>KeyError\<close> of an entry without request id.
\<close>

fun send_entries :: "(nat \<Rightarrow> int) \<Rightarrow> nat \<Rightarrow> qentry list \<Rightarrow> meter_call list \<times> (string + nat)" where
  "send_entries env sent [] = ([], Inr sent)"
| "send_entries env sent (e # es) =
     (case qe_request_id e of
        None \<Rightarrow> ([], Inl ''request_id'')
      | Some rid \<Rightarrow>
          (let call = \<lparr>mc_category = get_or ''setup'' (qe_category e), mc_cost = get_or ''0.00'' (qe_cost e),
                       mc_request_id = rid, mc_description = get_or ''offline-queued'' (qe_description e)\<rparr>
           in if env sent \<in> {200, 409}
              then (let (cs, r) = send_entries env (Suc sent) es in (call # cs, r))
              else ([call], Inr sent)))"

fun append_entries :: "qentry list \<Rightarrow> qfile \<Rightarrow> qfile" where
  "append_entries [] f = f"
| "append_entries (e # es) f = append_entries es (snd (queue_append e f))"

text \<open>
  After the loop the file is cleared and the entries not sent are appended again.  The loop awaits
  the network, so the file \<open>now\<close> found here may differ from the one that was read.
\<close>

definition flush_finish :: "qentry list \<Rightarrow> nat \<Rightarrow> qfile \<Rightarrow> qfile" where
  "flush_finish entries sent now =
     (if sent = length entries then queue_clear now
      else append_entries (drop sent entries) (queue_clear now))"

definition flush :: "(nat \<Rightarrow> int) \<Rightarrow> qfile \<Rightarrow> meter_call list \<times> (string + nat) \<times> qfile" where
  "flush env f =
     (let entries = read_all f in
      if entries = [] then ([], Inr 0, f)
      else let (calls, r) = send_entries env 0 entries in
        (case r of Inl e \<Rightarrow> (calls, Inl e, f)
         | Inr sent \<Rightarrow> (calls, Inr sent, flush_finish entries sent f)))"

section \<open>Metering strategies\<close>

definition SETUP_VIEWS :: "string set" where
  "SETUP_VIEWS = {''onboarding'', ''setup'', ''connectivity'', ''metadata_builder'', ''publish''}"

definition classify_copilot_category :: "string option \<Rightarrow> string" where
  "classify_copilot_category active_view =
     (if truthy active_view \<and> the active_view \<in> SETUP_VIEWS then ''setup'' else ''data'')"

datatype meter_error =
    UnprovisionedError
  | ActivationRequired
  | CreditExhausted string string string string bool

record meter_decision =
  md_allowed :: bool
  md_category :: string
  md_offline :: bool
  md_reason :: "string option"

text \<open>
  What a call of \<^verbatim>\<open>check_and_meter\<close> does outside: the entry it queues is \<open>offline_entry\<close>; \<open>ans\<close> is
  the answer of the serial authority if it is asked.
\<close>

definition offline_entry :: "string \<Rightarrow> string \<Rightarrow> string \<Rightarrow> string \<Rightarrow> qentry" where
  "offline_entry category cost rid desc =
     \<lparr>qe_category = Some category, qe_cost = Some cost, qe_request_id = Some rid, qe_description = Some desc\<rparr>"

definition allowed_offline :: "string \<Rightarrow> meter_decision" where
  "allowed_offline category = \<lparr>md_allowed = True, md_category = category, md_offline = True, md_reason = None\<rparr>"

definition allowed_online :: "string \<Rightarrow> meter_decision" where
  "allowed_online category = \<lparr>md_allowed = True, md_category = category, md_offline = False, md_reason = None\<rparr>"

definition check_and_meter ::
  "string \<Rightarrow> string \<Rightarrow> string \<Rightarrow> answer \<Rightarrow> store \<Rightarrow> qfile \<Rightarrow> (meter_error + meter_decision) \<times> store \<times> qfile" where
  "check_and_meter category cost rid ans st q =
     (let s = mem st;
          queued = (\<lambda>desc. snd (queue_append (offline_entry category cost rid desc) q))
      in
      if sstate_of s = Unprovisioned then
        (if category = ''setup'' then (Inr (allowed_offline category), st, queued ''unprovisioned-offline'')
         else (Inl UnprovisionedError, st, q))
      else if sstate_of s = Provisioned then
        (if category = ''setup'' then (Inr (allowed_offline category), st, queued ''provisioned-offline'')
         else (Inl ActivationRequired, st, q))
      else if sstate_of s = Degraded then
        (if category = ''setup'' then (Inr (allowed_offline category), st, queued ''degraded-offline'')
         else (Inl (CreditExhausted category ''offline_data_blocked'' ''0.00'' ''0.00'' False), st, q))
      else if \<not> truthy (install_token s) then (Inl ActivationRequired, st, q)
      else let res = meter ans in
        if mr_migrated res then (Inr (allowed_online category), transition_to_migrated None st, q)
        else if mr_allowed res then (Inr (allowed_online category), record_success st, q)
        else if mr_status res \<in> {200, 402} then
          (let st1 = record_success st in
           (Inl (CreditExhausted category
              (if truthy (mr_reason res) then the (mr_reason res) else ''insufficient_'' @ category @ ''_credits'')
              (mr_remaining res)
              (case status_cache (mem st1) of None \<Rightarrow> ''0.00'' | Some c \<Rightarrow> get_or ''0.00'' (rb_setup_remaining c))
              (mr_payment res)), st1, q))
        else if mr_status res = 401 then (Inl ActivationRequired, transition_to_unprovisioned st, q)
        else let st1 = record_failure st in
          (if category = ''setup'' then (Inr (allowed_offline category), st1, queued ''network-failure-offline'')
           else if failures (mem st1) < 3
           then (Inr (allowed_offline category\<lparr>md_reason := Some ''transient_offline''\<rparr>), st1, q)
           else (Inl (CreditExhausted category ''offline_data_blocked'' ''0.00'' ''0.00'' False), st1, q)))"

definition ledger_check_and_meter :: "string \<Rightarrow> meter_error + meter_decision" where
  "ledger_check_and_meter category = Inr (allowed_online category)"

text \<open>\<^verbatim>\<open>metered(category)\<close>: the request id is the idempotency key of the call.\<close>

definition metered ::
  "string \<Rightarrow> string \<Rightarrow> answer \<Rightarrow> store \<Rightarrow> qfile \<Rightarrow> (meter_error + meter_decision) \<times> store \<times> qfile" where
  "metered category rid ans st q =
     (if sstate_of (mem st) = Migrated then (ledger_check_and_meter category, st, q)
      else check_and_meter category (if category = ''data'' then ''0.03'' else ''0.01'') rid ans st q)"

section \<open>The running installation\<close>

record installation =
  i_store :: store
  i_queue :: qfile

datatype iop =
    Start world
  | Round world
  | Meter string string answer
  | Session string "string option"
  | Flush "nat \<Rightarrow> int"
  | Restart

text \<open>A step, and the decision it gives if it meters.\<close>

fun istep :: "installation \<Rightarrow> iop \<Rightarrow> (meter_error + meter_decision) option \<times> installation" where
  "istep x (Start w) = (None, x\<lparr>i_store := startup w (i_store x)\<rparr>)"
| "istep x (Round w) = (None, x\<lparr>i_store := background_round w (i_store x)\<rparr>)"
| "istep x (Meter category rid ans) =
     (let (d, st, q) = metered category rid ans (i_store x) (i_queue x)
      in (Some d, x\<lparr>i_store := st, i_queue := q\<rparr>))"
| "istep x (Session tok seller) = (None, x\<lparr>i_store := persist_ai_market_session tok seller (i_store x)\<rparr>)"
| "istep x (Flush env) = (None, x\<lparr>i_queue := snd (snd (flush env (i_queue x)))\<rparr>)"
| "istep x Restart = (None, x\<lparr>i_store := load_store [] [] (disk (i_store x))\<rparr>)"

fun irun :: "installation \<Rightarrow> iop list \<Rightarrow> installation" where
  "irun x [] = x"
| "irun x (p # ps) = irun (snd (istep x p)) ps"

section \<open>Lemmas\<close>

definition synced :: "store \<Rightarrow> bool" where
  "synced st \<longleftrightarrow> disk st = Fields (asdict (mem st)) \<or> (mem st = new_state \<and> (disk st = NoFile \<or> disk st = BadFile))"

lemma from_raw_asdict [simp]: "from_raw (asdict s) = s"
  by (cases "sstate_of s") (simp_all add: from_raw_def asdict_def get_or_def read_state_def)

lemma synced_upd [simp]: "synced (upd f st)"
  by (simp add: synced_def upd_def save_def)

lemma synced_ops [simp]:
  "synced (record_success st)" "synced (record_failure st)" "synced (transition_to_active tok st)"
  "synced (transition_to_migrated g st)" "synced (transition_to_unprovisioned st)"
  "synced (update_status_cache d ts st)" "synced (update_app_version v st)"
  "synced (persist_ai_market_session tok sel st)" "synced (persist_vz_install iid vt b st)"
  "synced st \<Longrightarrow> synced (persist_serial_id sid st)"
  by (simp_all add: record_success_def record_failure_def transition_to_active_def transition_to_migrated_def
      transition_to_unprovisioned_def update_status_cache_def update_app_version_def
      persist_ai_market_session_def persist_vz_install_def persist_serial_id_def)

lemma synced_manager [simp]:
  "synced st \<Longrightarrow> synced (attempt_activation v ans st)"
  "synced st \<Longrightarrow> synced (auto_provision v g ans st)"
  "synced st \<Longrightarrow> synced (attempt_refresh ans st)"
  "synced st \<Longrightarrow> synced (poll_status ans now ks reg st)"
  by (simp_all add: attempt_activation_def auto_provision_def attempt_refresh_def poll_status_def Let_def
      split: generate_reply.split option.split bool.split prod.split)

lemma synced_startup [simp]: "synced st \<Longrightarrow> synced (startup w st)"
  by (simp add: startup_def Let_def)

lemma synced_round [simp]: "synced st \<Longrightarrow> synced (background_round w st)"
  by (simp add: background_round_def split: serial_state.split)

lemma restart_same: "synced st \<Longrightarrow> mem (load_store [] [] (disk st)) = mem st \<and> synced (load_store [] [] (disk st))"
  by (auto simp: synced_def load_store_def)

text \<open>The result of a call by what the authority answered.\<close>

lemma check_and_meter_offline:
  "sstate_of (mem st) \<in> {Unprovisioned, Provisioned, Degraded} \<Longrightarrow>
     fst (snd (check_and_meter c cost rid ans st q)) = st"
  unfolding check_and_meter_def Let_def by (elim insertE emptyE) simp_all

lemma check_and_meter_online:
  assumes "sstate_of (mem st) \<in> {Active, Migrated}"
  shows "check_and_meter c cost rid ans st q =
    (let res = meter ans; st1 = record_failure st in
      if \<not> truthy (install_token (mem st)) then (Inl ActivationRequired, st, q)
      else if mr_migrated res then (Inr (allowed_online c), transition_to_migrated None st, q)
      else if mr_allowed res then (Inr (allowed_online c), record_success st, q)
      else if mr_status res \<in> {200, 402} then
        (Inl (CreditExhausted c
              (if truthy (mr_reason res) then the (mr_reason res) else ''insufficient_'' @ c @ ''_credits'')
              (mr_remaining res)
              (case status_cache (mem (record_success st)) of None \<Rightarrow> ''0.00'' | Some d \<Rightarrow> get_or ''0.00'' (rb_setup_remaining d))
              (mr_payment res)), record_success st, q)
      else if mr_status res = 401 then (Inl ActivationRequired, transition_to_unprovisioned st, q)
      else if c = ''setup'' then (Inr (allowed_offline c), st1, snd (queue_append (offline_entry c cost rid ''network-failure-offline'') q))
      else if failures (mem st1) < 3 then (Inr (allowed_offline c\<lparr>md_reason := Some ''transient_offline''\<rparr>), st1, q)
      else (Inl (CreditExhausted c ''offline_data_blocked'' ''0.00'' ''0.00'' False), st1, q))"
  using assms unfolding check_and_meter_def Let_def by (elim insertE emptyE) simp_all

lemma if_in: "x \<in> S \<Longrightarrow> y \<in> S \<Longrightarrow> (if b then x else y) \<in> S"
  by simp

lemma check_and_meter_store:
  assumes "sstate_of (mem st) \<in> {Active, Migrated}"
  shows "fst (snd (check_and_meter c cost rid ans st q)) \<in>
     {st, transition_to_migrated None st, record_success st, transition_to_unprovisioned st, record_failure st}"
  unfolding check_and_meter_online [OF assms] Let_def 
  by (simp only: if_distrib [of snd] if_distrib [of fst] fst_conv snd_conv) (intro if_in insertCI; blast)

lemma metered_store:
  "fst (snd (metered c rid ans st q)) \<in>
     {st, transition_to_migrated None st, record_success st, transition_to_unprovisioned st, record_failure st}"
proof (cases "sstate_of (mem st) = Migrated")
  case True
  then have "fst (snd (metered c rid ans st q)) = st" by (simp add: metered_def)
  then show ?thesis by (simp only: insert_iff simp_thms)
next
  case False
  let ?cost = "if c = ''data'' then ''0.03'' else ''0.01''"
  have m: "metered c rid ans st q = check_and_meter c ?cost rid ans st q" using False by (simp only: metered_def if_False)
  show ?thesis
  proof (cases "sstate_of (mem st) = Active")
    case True
    then show ?thesis unfolding m by (intro check_and_meter_store) (simp only: insertI1)
  next
    case F: False
    then have "sstate_of (mem st) \<in> {Unprovisioned, Provisioned, Degraded}"
      using False by (cases "sstate_of (mem st)") simp_all
    from check_and_meter_offline [OF this] show ?thesis unfolding m by (simp only: insert_iff simp_thms)
  qed
qed

lemma metered_inv:
  assumes "serial_inv (mem st)" and "synced st"
  shows "serial_inv (mem (fst (snd (metered c rid ans st q)))) \<and> synced (fst (snd (metered c rid ans st q)))"
  using metered_store [of c rid ans st q] assms by (auto simp del: store_mem_simps intro: step_invs)

lemma queue_append_count: "queue_count f \<le> MAX_QUEUE_ENTRIES \<Longrightarrow> queue_count (snd (queue_append e f)) \<le> MAX_QUEUE_ENTRIES"
  by (cases f) (auto simp: queue_append_def queue_count_def)

lemma append_entries_count:
  "queue_count f \<le> MAX_QUEUE_ENTRIES \<Longrightarrow> queue_count (append_entries es f) \<le> MAX_QUEUE_ENTRIES"
  by (induction es arbitrary: f) (simp_all add: queue_append_count)

lemma flush_count:
  "queue_count f \<le> MAX_QUEUE_ENTRIES \<Longrightarrow> queue_count (snd (snd (flush env f))) \<le> MAX_QUEUE_ENTRIES"
  by (auto simp: flush_def flush_finish_def queue_clear_def Let_def append_entries_count queue_count_def [of None]
      split: sum.split prod.split)

lemma metered_queue:
  "queue_count q \<le> MAX_QUEUE_ENTRIES \<Longrightarrow> queue_count (snd (snd (metered c rid ans st q))) \<le> MAX_QUEUE_ENTRIES"
  using queue_append_count by (auto simp: metered_def check_and_meter_def Let_def)

definition inst_inv :: "installation \<Rightarrow> bool" where
  "inst_inv x \<longleftrightarrow> serial_inv (mem (i_store x)) \<and> synced (i_store x) \<and> queue_count (i_queue x) \<le> MAX_QUEUE_ENTRIES"

lemma istep_inv: "inst_inv x \<Longrightarrow> inst_inv (snd (istep x p))"
proof (cases p)
  case (Meter c rid ans)
  then show "inst_inv x \<Longrightarrow> ?thesis"
    using metered_inv [of "i_store x" c rid ans "i_queue x"] metered_queue [of "i_queue x" c rid ans "i_store x"]
    by (simp add: inst_inv_def split_beta)
next
  case Restart
  then show "inst_inv x \<Longrightarrow> ?thesis" using restart_same [of "i_store x"] by (simp add: inst_inv_def)
qed (auto simp: inst_inv_def flush_count intro: step_invs)

lemma irun_inv: "inst_inv x \<Longrightarrow> inst_inv (irun x ps)"
  by (induction ps arbitrary: x) (simp_all add: istep_inv)

lemma first_boot_inv: "inst_inv \<lparr>i_store = load_store sn boot NoFile, i_queue = None\<rparr>"
  by (simp add: inst_inv_def load_store_def synced_def save_def serial_inv_def new_state_def queue_count_def)

section \<open>Properties\<close>

text \<open>
  C34. The stored serial state is consistent and survives restarts: in every run from a first boot
  an active or degraded installation holds an install token and no bootstrap token, it is degraded
  from the third failure in a row on and not before, a restart at any moment loads exactly the
  state in memory, and the offline queue never exceeds its 50 entries.
\<close>

theorem installation_survives_restarts:
  "let x = irun \<lparr>i_store = load_store sn boot NoFile, i_queue = None\<rparr> ps
   in serial_inv (mem (i_store x)) \<and> mem (load_store [] [] (disk (i_store x))) = mem (i_store x)
    \<and> queue_count (i_queue x) \<le> MAX_QUEUE_ENTRIES"
proof -
  have "inst_inv (irun \<lparr>i_store = load_store sn boot NoFile, i_queue = None\<rparr> ps)"
    by (rule irun_inv [OF first_boot_inv])
  then show ?thesis using restart_same by (simp add: inst_inv_def Let_def)
qed

text \<open>
  A step without an answer of the serial authority: a metered call whose request ends without a
  status the strategy acts on, a status poll likewise, and the steps that do not ask at all.
\<close>

fun unanswered :: "iop \<Rightarrow> bool" where
  "unanswered (Meter c rid ans) \<longleftrightarrow> fst ans \<notin> {200, 401, 402}"
| "unanswered (Round w) \<longleftrightarrow> fst (w_status w) \<notin> {200, 401}"
| "unanswered (Start w) \<longleftrightarrow> False"
| "unanswered _ \<longleftrightarrow> True"

fun data_passes :: "installation \<Rightarrow> iop list \<Rightarrow> nat" where
  "data_passes x [] = 0"
| "data_passes x (p # ps) =
     (case fst (istep x p) of Some (Inr d) \<Rightarrow> (if md_category d \<noteq> ''setup'' then 1 else 0) | _ \<Rightarrow> 0)
     + data_passes (snd (istep x p)) ps"

definition offline_state :: "installation \<Rightarrow> bool" where
  "offline_state x \<longleftrightarrow> inst_inv x \<and> sstate_of (mem (i_store x)) \<in> {Active, Degraded}"

lemma meter_unanswered [simp]:
  "fst ans \<notin> {200, 402} \<Longrightarrow> \<not> mr_migrated (meter ans) \<and> \<not> mr_allowed (meter ans)"
  "mr_status (meter ans) = fst ans"
  by (cases ans rule: meter.cases; simp)+

lemma status_unanswered [simp]:
  "fst ans \<noteq> 200 \<Longrightarrow> \<not> sr_success (status ans)" "sr_status (status ans) = fst ans"
  by (cases ans rule: status.cases; simp)+

lemma mem_record_failure:
  "mem (record_failure st) = (mem st)\<lparr>failures := failures (mem st) + 1, sstate_of :=
     (if sstate_of (mem st) = Active \<and> failures (mem st) + 1 \<ge> 3 then Degraded else sstate_of (mem st))\<rparr>"
  by (simp add: record_failure_def Let_def FAILURE_THRESHOLD_def)

text \<open>One unanswered step: how the failure count moves, and what it costs to pass a data call.\<close>

lemma unanswered_step:
  assumes "offline_state x" and "unanswered p"
  shows "sstate_of (mem (i_store (snd (istep x p)))) \<in> {Active, Degraded}
    \<and> failures (mem (i_store x)) \<le> failures (mem (i_store (snd (istep x p))))
    \<and> (\<forall>d. fst (istep x p) = Some (Inr d) \<longrightarrow> md_category d \<noteq> ''setup'' \<longrightarrow>
         failures (mem (i_store (snd (istep x p)))) = failures (mem (i_store x)) + 1
         \<and> failures (mem (i_store x)) < 2)"
proof -
  let ?st = "i_store x"
  have i: "inst_inv x" "sstate_of (mem ?st) = Active \<or> sstate_of (mem ?st) = Degraded" and tok: "truthy (install_token (mem ?st))"
    using assms(1) by (auto simp: offline_state_def inst_inv_def serial_inv_def)
  show ?thesis
  proof (cases p)
    case (Meter c rid ans)
    then have u: "fst ans \<notin> {200, 401, 402}" using assms(2) by simp
    show ?thesis
    proof (cases "sstate_of (mem ?st) = Active")
      case True
      have "metered c rid ans ?st (i_queue x) = check_and_meter c (if c = ''data'' then ''0.03'' else ''0.01'') rid ans ?st (i_queue x)"
        using True by (simp add: metered_def)
      moreover have "sstate_of (mem ?st) \<in> {Active, Migrated}" using True by simp
      ultimately show ?thesis using u tok True Meter
        by (simp add: check_and_meter_online Let_def mem_record_failure allowed_offline_def)
    next
      case False
      then have "sstate_of (mem ?st) = Degraded" using i(2) by simp
      then show ?thesis using Meter by (simp add: metered_def check_and_meter_def allowed_offline_def Let_def)
    qed
  next
    case (Round w)
    then have "background_round w ?st = poll_status (w_status w) (w_now w) (w_keystore w) (w_reg w) ?st"
      using i(2) by (auto simp: background_round_def)
    moreover have "poll_status (w_status w) (w_now w) (w_keystore w) (w_reg w) ?st = record_failure ?st"
      using i(2) tok assms(2) Round by (auto simp: poll_status_def Let_def)
    ultimately show ?thesis using Round i(2) by (auto simp: mem_record_failure)
  next
    case (Session t s)
    then show ?thesis using i(2) by (auto simp: persist_ai_market_session_def Let_def)
  next
    case Restart
    then show ?thesis using i restart_same [of ?st] by (auto simp: inst_inv_def)
  qed (use assms(2) i(2) in auto)
qed

text \<open>
  Unmetered data calls are bounded: while the serial authority does not answer, an active or
  degraded installation passes at most two data calls altogether, fewer if failures were already
  counted and none when degraded, whatever polls, setup calls, flushes and restarts run in between.
\<close>

theorem offline_data_bounded:
  assumes "inst_inv x" and "sstate_of (mem (i_store x)) \<in> {Active, Degraded}" and "\<forall>p \<in> set ps. unanswered p"
  shows "data_passes x ps \<le> nat (2 - failures (mem (i_store x)))"
  using assms
proof (induction ps arbitrary: x)
  case (Cons p ps)
  let ?y = "snd (istep x p)"
  have u: "offline_state x" "unanswered p" using Cons.prems by (simp_all add: offline_state_def)
  note step = unanswered_step [OF u]
  have IH: "data_passes ?y ps \<le> nat (2 - failures (mem (i_store ?y)))"
    using Cons.IH [of ?y] istep_inv [OF Cons.prems(1)] step Cons.prems(3) by simp
  show ?case
  proof (cases "\<exists>d. fst (istep x p) = Some (Inr d) \<and> md_category d \<noteq> ''setup''")
    case True
    then obtain d where d: "fst (istep x p) = Some (Inr d)" "md_category d \<noteq> ''setup''" by blast
    then have "failures (mem (i_store ?y)) = failures (mem (i_store x)) + 1" "failures (mem (i_store x)) < 2"
      using step by auto
    with IH d show ?thesis by simp
  next
    case False
    then have "data_passes x (p # ps) = data_passes ?y ps"
      by (simp split: option.split sum.split)
    moreover have "failures (mem (i_store x)) \<le> failures (mem (i_store ?y))" using step by blast
    ultimately show ?thesis using IH by linarith
  qed
qed simp

definition active_sample :: installation where
  "active_sample =
     \<lparr>i_store = save \<lparr>mem = new_state\<lparr>serial := ''VZ-1'', install_token := Some ''t'', sstate_of := Active,
         last_version := Some ''1''\<rparr>, disk = NoFile\<rparr>, i_queue = None\<rparr>"

lemma active_sample_inv: "inst_inv active_sample" "sstate_of (mem (i_store active_sample)) = Active"
  "failures (mem (i_store active_sample)) = 0" "last_version (mem (i_store active_sample)) = Some ''1''"
  by (simp_all add: active_sample_def inst_inv_def serial_inv_def synced_def save_def new_state_def
      queue_count_def FAILURE_THRESHOLD_def)

theorem offline_data_bounded_witness:
  "data_passes active_sample
     [Meter ''data'' ''r1'' (0, None), Meter ''data'' ''r2'' (500, None), Meter ''data'' ''r3'' (0, None),
      Restart, Meter ''data'' ''r4'' (0, None)] \<le> 2"
  using offline_data_bounded [OF active_sample_inv(1),
      of "[Meter ''data'' ''r1'' (0, None), Meter ''data'' ''r2'' (500, None), Meter ''data'' ''r3'' (0, None),
        Restart, Meter ''data'' ''r4'' (0, None)]"]
  by (simp add: active_sample_inv)

text \<open>An installation that is provisioned but has no bootstrap token is stuck.\<close>

definition stranded :: "installation \<Rightarrow> bool" where
  "stranded x \<longleftrightarrow> inst_inv x \<and> sstate_of (mem (i_store x)) = Provisioned \<and> \<not> truthy (bootstrap_token (mem (i_store x)))"

lemma stranded_step:
  assumes "stranded x"
  shows "stranded (snd (istep x p)) \<and> (\<forall>c rid ans. p = Meter c rid ans \<longrightarrow> c \<noteq> ''setup'' \<longrightarrow>
    fst (istep x p) = Some (Inl ActivationRequired))"
proof -
  have s: "sstate_of (mem (i_store x)) = Provisioned" "\<not> truthy (bootstrap_token (mem (i_store x)))"
    and i: "inst_inv (snd (istep x p))" "synced (i_store x)"
    using assms istep_inv by (auto simp: stranded_def inst_inv_def)
  have a: "attempt_activation v ans (i_store x) = i_store x" for v ans
    using s(2) by (simp add: attempt_activation_def)
  show ?thesis
  proof (cases p)
    case (Start w)
    then show ?thesis using i(1) s a by (simp add: stranded_def startup_def Let_def)
  next
    case (Round w)
    then show ?thesis using i(1) s a by (simp add: stranded_def background_round_def)
  next
    case (Meter c rid ans)
    then show ?thesis using i(1) s by (simp add: stranded_def metered_def check_and_meter_def Let_def)
  next
    case Restart
    then show ?thesis using i s restart_same [OF i(2)] by (simp add: stranded_def)
  qed (use i(1) s in \<open>simp_all add: stranded_def persist_ai_market_session_def Let_def\<close>)
qed

lemma stranded_run: "stranded x \<Longrightarrow> stranded (irun x ps)"
  by (induction ps arbitrary: x) (simp_all add: stranded_step)

text \<open>
  A refused refresh strands the installation: when an active installation starts with a new
  version and its refresh is answered 401, it falls back to provisioned without a bootstrap token,
  and no sequence of starts, background rounds, metered calls, sessions, flushes and restarts ever
  brings it out of that state again: every data call after it is refused.
\<close>

theorem refused_refresh_strands:
  assumes "inst_inv x" and "sstate_of (mem (i_store x)) = Active"
    and "last_version (mem (i_store x)) = Some v" and "v \<noteq> []" and "v \<noteq> w_version w"
    and "fst (w_refresh w) = 401" and "c \<noteq> ''setup''"
  shows "sstate_of (mem (i_store (irun (snd (istep x (Start w))) ps))) = Provisioned
    \<and> fst (istep (irun (snd (istep x (Start w))) ps) (Meter c rid ans)) = Some (Inl ActivationRequired)"
proof -
  have b: "truthy (install_token (mem (i_store x)))" "\<not> truthy (bootstrap_token (mem (i_store x)))"
    using assms(1,2) by (simp_all add: inst_inv_def serial_inv_def)
  have "\<not> tr_success (refresh (w_refresh w))" "tr_status (refresh (w_refresh w)) = 401"
    using assms(6) by (cases "w_refresh w" rule: refresh.cases; simp)+
  then have "mem (startup w (i_store x)) =
      (mem (i_store x))\<lparr>sstate_of := Provisioned, install_token := None, last_version := Some (w_version w)\<rparr>"
    using assms(2-5) b by (simp add: startup_def attempt_refresh_def Let_def)
  then have "stranded (snd (istep x (Start w)))"
    using b istep_inv [OF assms(1), of "Start w"] by (simp add: stranded_def)
  then have st: "stranded (irun (snd (istep x (Start w))) ps)" by (rule stranded_run)
  from stranded_step [OF st] assms(7)
  have "fst (istep (irun (snd (istep x (Start w))) ps) (Meter c rid ans)) = Some (Inl ActivationRequired)" by blast
  with st show ?thesis unfolding stranded_def by blast
qed

definition sample_world :: world where
  "sample_world =
     \<lparr>w_version = ''2'', w_generate = NotCreated, w_activate = (0, None), w_activate2 = (0, None),
      w_refresh = (401, None), w_status = (0, None), w_now = ''t'', w_keystore = False, w_reg = None\<rparr>"

theorem refused_refresh_strands_witness:
  "sstate_of (mem (i_store (irun (snd (istep active_sample (Start sample_world))) [Round sample_world, Restart]))) = Provisioned"
  using refused_refresh_strands [OF active_sample_inv(1,2,4), of sample_world "''data''" "[Round sample_world, Restart]"]
  by (simp add: sample_world_def)

text \<open>
  A full queue lets usage pass unmetered: with 50 entries waiting, a setup call of an
  installation that is offline by state is still allowed, and nothing is queued for it.
\<close>

theorem full_queue_allows_unmetered:
  assumes "MAX_QUEUE_ENTRIES \<le> queue_count q" and "sstate_of (mem st) \<in> {Unprovisioned, Provisioned, Degraded}"
  shows "metered ''setup'' rid ans st q = (Inr (allowed_offline ''setup''), st, q)"
proof -
  have "snd (queue_append e q) = q" for e using assms(1) by (simp add: queue_append_def)
  then show ?thesis using assms(2) by (elim insertE emptyE; simp add: metered_def check_and_meter_def Let_def)
qed

theorem full_queue_allows_unmetered_witness:
  "metered ''setup'' ''r'' (0, None) \<lparr>mem = new_state, disk = NoFile\<rparr> (Some (replicate 50 MalformedLine)) =
     (Inr (allowed_offline ''setup''), \<lparr>mem = new_state, disk = NoFile\<rparr>, Some (replicate 50 MalformedLine))"
  by (rule full_queue_allows_unmetered) (simp_all add: queue_count_def MAX_QUEUE_ENTRIES_def new_state_def filter_replicate)

definition call_of :: "qentry \<Rightarrow> meter_call" where
  "call_of e = \<lparr>mc_category = get_or ''setup'' (qe_category e), mc_cost = get_or ''0.00'' (qe_cost e),
     mc_request_id = the (qe_request_id e), mc_description = get_or ''offline-queued'' (qe_description e)\<rparr>"

lemma send_entries_spec:
  assumes "\<forall>e \<in> set es. qe_request_id e \<noteq> None"
  shows "\<exists>k \<le> length es. send_entries env n es = (map call_of (take (if k = length es then k else Suc k) es), Inr (n + k))
    \<and> (\<forall>i < k. env (n + i) \<in> {200, 409}) \<and> (k < length es \<longrightarrow> env (n + k) \<notin> {200, 409})"
  using assms
proof (induction es arbitrary: n)
  case (Cons e es)
  then obtain rid where rid: "qe_request_id e = Some rid" by auto
  show ?case
  proof (cases "env n \<in> {200, 409}")
    case True
    obtain k where k: "k \<le> length es"
      "send_entries env (Suc n) es = (map call_of (take (if k = length es then k else Suc k) es), Inr (Suc n + k))"
      "\<forall>i < k. env (Suc n + i) \<in> {200, 409}" "k < length es \<longrightarrow> env (Suc n + k) \<notin> {200, 409}"
      using Cons.IH [of "Suc n"] Cons.prems by auto
    have "send_entries env n (e # es) = (map call_of (take (if Suc k = length (e # es) then Suc k else Suc (Suc k)) (e # es)), Inr (n + Suc k))"
      using True rid k(2) by (simp add: Let_def call_of_def)
    moreover have "\<forall>i < Suc k. env (n + i) \<in> {200, 409}" using True k(3) by (auto simp: less_Suc_eq_0_disj)
    ultimately show ?thesis using k(1,4) by (intro exI [of _ "Suc k"]) simp
  next
    case False
    then show ?thesis using rid by (intro exI [of _ 0]) (simp add: Let_def call_of_def)
  qed
qed simp

lemma line_entries_le: "length (line_entries ls) \<le> length (filter (\<lambda>l. l \<noteq> BlankLine) ls)"
  by (induction ls rule: line_entries.induct) auto

lemma line_entries_append [simp]: "line_entries (xs @ ys) = line_entries xs @ line_entries ys"
  by (induction xs rule: line_entries.induct) auto

lemma read_append: "queue_count f < MAX_QUEUE_ENTRIES \<Longrightarrow>
    read_all (snd (queue_append e f)) = read_all f @ [e] \<and> queue_count (snd (queue_append e f)) = Suc (queue_count f)"
  by (cases f) (simp_all add: queue_append_def read_all_def queue_count_def)

lemma read_append_entries:
  "queue_count f + length es \<le> MAX_QUEUE_ENTRIES \<Longrightarrow> read_all (append_entries es f) = read_all f @ es"
proof (induction es arbitrary: f)
  case (Cons e es)
  then show ?case using read_append [of f e] by simp
qed simp

text \<open>
  A flush sends in order and keeps what it did not send: when every entry has its request id,
  the flush returns, calls the authority for a prefix of the entries in file order, counts those
  answered 200 or 409, stops at the first other answer, and leaves exactly the entries not counted
  in the queue, in their order.
\<close>

theorem flush_sends_in_order:
  assumes "queue_count f \<le> MAX_QUEUE_ENTRIES" and "\<forall>e \<in> set (read_all f). qe_request_id e \<noteq> None"
  shows "\<exists>sent f'. flush env f = (map call_of (take (if sent = length (read_all f) then sent else Suc sent) (read_all f)), Inr sent, f')
    \<and> sent \<le> length (read_all f) \<and> (\<forall>i < sent. env i \<in> {200, 409})
    \<and> (sent < length (read_all f) \<longrightarrow> env sent \<notin> {200, 409})
    \<and> read_all f' = drop sent (read_all f)"
proof (cases "read_all f = []")
  case True
  then show ?thesis by (intro exI [of _ 0] exI [of _ f]) (simp add: flush_def)
next
  case False
  obtain k where k: "k \<le> length (read_all f)"
    "send_entries env 0 (read_all f) = (map call_of (take (if k = length (read_all f) then k else Suc k) (read_all f)), Inr (0 + k))"
    "\<forall>i < k. env (0 + i) \<in> {200, 409}" "k < length (read_all f) \<longrightarrow> env (0 + k) \<notin> {200, 409}"
    using send_entries_spec [OF assms(2), of env 0] by blast
  have "length (read_all f) \<le> MAX_QUEUE_ENTRIES"
    using assms(1) line_entries_le by (cases f) (auto simp: read_all_def queue_count_def intro: order_trans)
  then have "read_all (flush_finish (read_all f) k f) = drop k (read_all f)"
    using read_append_entries [of None "drop k (read_all f)"] k(1)
    by (auto simp: flush_finish_def queue_clear_def read_all_def queue_count_def)
  moreover have "flush env f = (map call_of (take (if k = length (read_all f) then k else Suc k) (read_all f)), Inr k, flush_finish (read_all f) k f)"
    using False k(2) by (simp add: flush_def Let_def)
  ultimately show ?thesis using k(1,3,4) by (intro exI [of _ k] exI [of _ "flush_finish (read_all f) k f"]) simp
qed

theorem flush_sends_in_order_witness:
  "\<exists>sent f'. flush (\<lambda>i. if i = 0 then 409 else 503)
      (snd (queue_append (offline_entry ''setup'' ''0.01'' ''r2'' ''d'') (snd (queue_append (offline_entry ''setup'' ''0.01'' ''r1'' ''d'') None))))
      = (map call_of [offline_entry ''setup'' ''0.01'' ''r1'' ''d'', offline_entry ''setup'' ''0.01'' ''r2'' ''d''], Inr sent, f')
    \<and> read_all f' = [offline_entry ''setup'' ''0.01'' ''r2'' ''d'']"
proof -
  let ?e1 = "offline_entry ''setup'' ''0.01'' ''r1'' ''d''" and ?e2 = "offline_entry ''setup'' ''0.01'' ''r2'' ''d''"
  let ?f = "Some [EntryLine ?e1, EntryLine ?e2]" and ?env = "\<lambda>i. if i = 0 then 409 else 503 :: int"
  have f: "snd (queue_append ?e2 (snd (queue_append ?e1 None))) = ?f"
    by (simp add: queue_append_def queue_count_def MAX_QUEUE_ENTRIES_def)
  have c: "queue_count ?f \<le> MAX_QUEUE_ENTRIES" "\<forall>e \<in> set (read_all ?f). qe_request_id e \<noteq> None"
    by (simp_all add: queue_count_def MAX_QUEUE_ENTRIES_def read_all_def offline_entry_def)
  obtain sent f' where r: "flush ?env ?f = (map call_of (take (if sent = length (read_all ?f) then sent else Suc sent) (read_all ?f)), Inr sent, f')"
    "sent \<le> length (read_all ?f)" "\<forall>i < sent. ?env i \<in> {200, 409}"
    "sent < length (read_all ?f) \<longrightarrow> ?env sent \<notin> {200, 409}" "read_all f' = drop sent (read_all ?f)"
    using flush_sends_in_order [OF c, of ?env] by blast
  have "sent = 1"
  proof -
    have "sent \<noteq> 0"
    proof
      assume "sent = 0"
      with r(4) show False by (simp add: read_all_def)
    qed
    moreover have "\<not> 1 < sent"
    proof
      assume "1 < sent"
      from r(3) [rule_format, OF this] show False by simp
    qed
    ultimately show ?thesis by linarith
  qed
  with r f show ?thesis by (simp add: read_all_def)
qed

lemma send_entries_ids:
  "mc_request_id ` set (fst (send_entries env n es)) \<subseteq> {r. Some r \<in> qe_request_id ` set es}"
proof (induction es arbitrary: n)
  case (Cons e es)
  show ?case
  proof (cases "qe_request_id e")
    case (Some rid)
    then show ?thesis using Cons.IH [of "Suc n"] by (cases "env n \<in> {200, 409}") (auto simp: Let_def split_beta)
  qed simp
qed simp

text \<open>
  A flush loses usage recorded while it waits: if an entry is queued while the flush awaits its
  calls and all the entries it had read are accepted, the file is removed with the new entry in it,
  although no call was made for it.
\<close>

theorem flush_loses_concurrent_usage:
  assumes "flush env f = (calls, Inr (length (read_all f)), f')" and "read_all f \<noteq> []"
    and "queue_append e f = (True, f1)" and "\<forall>x \<in> set (read_all f). qe_request_id x \<noteq> qe_request_id e"
    and "qe_request_id e = Some rid"
  shows "e \<in> set (read_all f1) \<and> flush_finish (read_all f) (length (read_all f)) f1 = None
    \<and> rid \<notin> mc_request_id ` set calls"
proof -
  have "queue_count f < MAX_QUEUE_ENTRIES" using assms(3) by (simp add: queue_append_def split: if_splits)
  then have new: "e \<in> set (read_all f1)" using read_append [of f e] assms(3) by simp
  have "calls = fst (send_entries env 0 (read_all f))"
  proof (cases "send_entries env 0 (read_all f)")
    case (Pair cs r)
    then have "fst (flush env f) = cs" using assms(2) unfolding flush_def Let_def
      by (cases r) simp_all
    then show ?thesis using assms(1) Pair by simp
  qed
  then have sub: "mc_request_id ` set calls \<subseteq> {r. Some r \<in> qe_request_id ` set (read_all f)}"
    using send_entries_ids by blast
  have "rid \<notin> mc_request_id ` set calls"
  proof
    assume "rid \<in> mc_request_id ` set calls"
    from subsetD [OF sub this] obtain x where "x \<in> set (read_all f)" "qe_request_id x = Some rid"
      unfolding mem_Collect_eq by (elim imageE) (rule that, simp_all)
    with assms(4,5) show False by simp
  qed
  with new show ?thesis unfolding flush_finish_def queue_clear_def if_P [OF refl] by blast
qed

theorem flush_loses_concurrent_usage_witness:
  "offline_entry ''setup'' ''0.01'' ''r2'' ''d'' \<in> set (read_all (Some
      [EntryLine (offline_entry ''setup'' ''0.01'' ''r1'' ''d''), EntryLine (offline_entry ''setup'' ''0.01'' ''r2'' ''d'')]))
    \<and> flush_finish [offline_entry ''setup'' ''0.01'' ''r1'' ''d''] 1 (Some
      [EntryLine (offline_entry ''setup'' ''0.01'' ''r1'' ''d''), EntryLine (offline_entry ''setup'' ''0.01'' ''r2'' ''d'')]) = None"
proof -
  let ?e1 = "offline_entry ''setup'' ''0.01'' ''r1'' ''d''" and ?e2 = "offline_entry ''setup'' ''0.01'' ''r2'' ''d''"
  let ?f = "Some [EntryLine ?e1]"
  have r: "read_all ?f = [?e1]" by (simp add: read_all_def)
  have fl: "flush (\<lambda>_. 200) ?f = ([call_of ?e1], Inr (length (read_all ?f)), None)"
    by (simp add: flush_def read_all_def flush_finish_def queue_clear_def Let_def offline_entry_def call_of_def)
  have ap: "queue_append ?e2 ?f = (True, Some [EntryLine ?e1, EntryLine ?e2])"
    by (simp add: queue_append_def queue_count_def MAX_QUEUE_ENTRIES_def)
  have ne: "read_all ?f \<noteq> []" and id: "qe_request_id ?e2 = Some ''r2''"
    and d: "\<forall>x \<in> set (read_all ?f). qe_request_id x \<noteq> qe_request_id ?e2"
    by (simp_all add: r) (simp_all add: offline_entry_def)
  have "length (read_all ?f) = 1" by (simp add: r)
  with flush_loses_concurrent_usage [OF fl ne ap d id] show ?thesis unfolding r by simp
qed

end
