(* ===== verification/Lifecycle.thy ===== *)
theory Lifecycle
  imports Prelude
begin

text \<open>
  The life cycle of a preview on the seller's machine (app/services/preview_lifecycle.py): rights
  and freshness, the candidates derived from a prior disclosure, the receipts that prove a
  retirement, and the journal whose SQLite transactions are atomic functions on its two tables.
\<close>

section \<open>States\<close>

datatype lstate =
    Building | Selected | Scanned | Hosted | ReadyToSign | SignedCandidate | SubmissionUnknown
  | Submitted | WithdrawalPending | RetirementPending | Invalidated | Retired

fun TRANSITIONS :: "lstate \<Rightarrow> lstate list" where
  "TRANSITIONS Building = [Selected, Invalidated]"
| "TRANSITIONS Selected = [Scanned, Invalidated]"
| "TRANSITIONS Scanned = [Hosted, Invalidated]"
| "TRANSITIONS Hosted = [ReadyToSign, RetirementPending, Invalidated]"
| "TRANSITIONS ReadyToSign = [SignedCandidate, Invalidated, RetirementPending]"
| "TRANSITIONS SignedCandidate =
     [Submitted, SubmissionUnknown, WithdrawalPending, Invalidated, RetirementPending]"
| "TRANSITIONS SubmissionUnknown = [Submitted, WithdrawalPending, RetirementPending]"
| "TRANSITIONS Submitted = [WithdrawalPending, RetirementPending, Invalidated]"
| "TRANSITIONS WithdrawalPending = [SubmissionUnknown, RetirementPending]"
| "TRANSITIONS RetirementPending = [Retired]"
| "TRANSITIONS Invalidated = [RetirementPending]"
| "TRANSITIONS Retired = []"

datatype lerror =
    RightsRequired | InvalidCadence | RefreshRequiresApproval | RefreshTimeNotNew | SupersessionMismatch
  | RetirementEvidenceMissing | InvalidRetirementReceipt | RequestIdConflict | InvalidTransition
  | RequestMissing | EvidenceRequired | RequestIdentityMismatch | CandidateChanged | CandidateMissing
  | RetirementUrlMismatch | RetirementSampleMismatch | OriginFailure string | ValidationFailure | StoreFailure

section \<open>Rights and freshness\<close>

text \<open>
  \<^verbatim>\<open>str.strip\<close> removes the characters of \<open>py_space\<close>.  The digest of the normalised text
  (\<^verbatim>\<open>unicodedata\<close>, UTF-8, SHA-256) is the argument \<open>rights_digest\<close>; \<open>permission\<close> is whether the
  argument is \<^verbatim>\<open>True\<close> itself.
\<close>

definition py_space :: "nat \<Rightarrow> bool" where
  "py_space c \<longleftrightarrow> (9 \<le> c \<and> c \<le> 13) \<or> (28 \<le> c \<and> c \<le> 32) \<or> c \<in> {133, 160, 5760, 8232, 8233, 8239, 8287, 12288}
     \<or> (8192 \<le> c \<and> c \<le> 8202)"

record rights =
  rights_basis_digest :: string
  rights_basis_code :: string
  public_preview_permission :: bool

definition capture_rights :: "(nat list \<Rightarrow> string) \<Rightarrow> nat list option \<Rightarrow> string \<Rightarrow> bool \<Rightarrow> lerror + rights" where
  "capture_rights rights_digest txt code permission =
     (case txt of None \<Rightarrow> Inl RightsRequired
      | Some t \<Rightarrow>
          (if list_all py_space t \<or> length t > 4096
              \<or> code \<notin> {''owner'', ''licensed'', ''public_domain'', ''other_authorized''} \<or> \<not> permission
           then Inl RightsRequired
           else Inr \<lparr>rights_basis_digest = rights_digest t, rights_basis_code = code,
                      public_preview_permission = True\<rparr>))"

text \<open>
  Time stamps are microseconds as integers.  A cadence is absent, an integer, or a value of
  another type.
\<close>

datatype cadence = NoCadence | Days int | BadCadence

definition day :: int where "day = 86400000000"

definition stale_at :: "int \<Rightarrow> cadence \<Rightarrow> lerror + int" where
  "stale_at attested_at cad =
     (case cad of
        NoCadence \<Rightarrow> Inr (attested_at + 90 * day)
      | BadCadence \<Rightarrow> Inl InvalidCadence
      | Days d \<Rightarrow> (if d \<le> 0 then Inl InvalidCadence else Inr (attested_at + min 90 (max 7 (2 * d)) * day)))"

record fresh =
  f_stale :: bool
  f_stale_at :: int
  f_expires_at :: "int option"
  f_eligible :: bool

definition freshness ::
  "int \<Rightarrow> cadence \<Rightarrow> int \<Rightarrow> int option \<Rightarrow> int option \<Rightarrow> int option \<Rightarrow> lerror + fresh" where
  "freshness attested_at cad now approval_exp policy_exp summary_exp =
     res_bind (stale_at attested_at cad) (\<lambda>threshold.
       Inr \<lparr>f_stale = (now \<ge> threshold), f_stale_at = threshold, f_expires_at = policy_exp,
            f_eligible = list_all (\<lambda>v. case v of None \<Rightarrow> True | Some e \<Rightarrow> now < e) [approval_exp, policy_exp, summary_exp]\<rparr>)"

section \<open>Candidates derived from a prior disclosure\<close>

text \<open>
  A disclosure binding: the fields these functions read or set.  \<open>b_grants\<close> are the eleven
  fields of \<^verbatim>\<open>GRANT_NULLS\<close> in that order (the first is the sample hash); \<open>b_rest\<close> stands for
  the fields they carry over.  The schema check (\<^verbatim>\<open>closed\<close>, \<^verbatim>\<open>LocalCandidate.validate\<close>) is the
  predicate \<open>valid\<close>.
\<close>

record 'r binding =
  b_seller :: string
  b_listing :: string
  b_request_id :: string
  b_decision :: string
  b_sample_decision :: string
  b_version :: string
  b_approved_at :: int
  b_attested_at :: int
  b_cadence :: cadence
  b_supersedes :: "string option"
  b_expected_current :: "string option"
  b_hash_profile :: "string option option"
  b_grants :: "string option list"
  b_proof_ids :: "string list"
  b_descriptors :: "string list"
  b_fields :: "string list"
  b_rest :: 'r

definition check_binding :: "('r binding \<Rightarrow> bool) \<Rightarrow> 'r binding \<Rightarrow> lerror + 'r binding" where
  "check_binding valid b = (if valid b then Inr b else Inl ValidationFailure)"

definition withdrawal_candidate ::
  "('r binding \<Rightarrow> bool) \<Rightarrow> 'r binding \<Rightarrow> string \<Rightarrow> string \<Rightarrow> int \<Rightarrow> lerror + 'r binding" where
  "withdrawal_candidate valid prior version request_id approved_at =
     res_bind (check_binding valid prior) (\<lambda>old.
       check_binding valid
         (old\<lparr>b_decision := ''withdraw'', b_sample_decision := ''none'', b_version := version,
              b_request_id := request_id, b_approved_at := approved_at,
              b_supersedes := Some (b_version old), b_expected_current := Some (b_version old),
              b_hash_profile := b_hash_profile old,
              b_grants := map (\<lambda>_. None) (b_grants old),
              b_proof_ids := [], b_descriptors := [], b_fields := []\<rparr>))"

definition refresh_candidate ::
  "('r binding \<Rightarrow> bool) \<Rightarrow> 'r binding \<Rightarrow> string \<Rightarrow> string \<Rightarrow> int \<Rightarrow> cadence \<Rightarrow> lerror + 'r binding" where
  "refresh_candidate valid prior version request_id attested_at cad =
     res_bind (check_binding valid prior) (\<lambda>old.
       if b_sample_decision old \<noteq> ''approved'' then Inl RefreshRequiresApproval
       else let b = old\<lparr>b_decision := ''approve'', b_version := version, b_request_id := request_id,
              b_approved_at := attested_at, b_attested_at := attested_at, b_cadence := cad,
              b_supersedes := Some (b_version old), b_expected_current := Some (b_version old)\<rparr>
         in if b_attested_at b \<le> b_attested_at old then Inl RefreshTimeNotNew else check_binding valid b)"

definition supersession_candidate ::
  "('r binding \<Rightarrow> bool) \<Rightarrow> 'r binding \<Rightarrow> 'r binding \<Rightarrow> lerror + 'r binding" where
  "supersession_candidate valid prior replacement =
     res_bind (check_binding valid prior) (\<lambda>old.
     res_bind (check_binding valid replacement) (\<lambda>b.
       if b_seller b \<noteq> b_seller old \<or> b_listing b \<noteq> b_listing old \<or> b_request_id b = b_request_id old
          \<or> b_sample_decision b \<noteq> ''approved''
       then Inl SupersessionMismatch
       else check_binding valid
         (b\<lparr>b_supersedes := Some (b_version old), b_expected_current := Some (b_version old),
            b_hash_profile := b_hash_profile old\<rparr>)))"

section \<open>Retirement receipts\<close>

definition HEADER_KEYS :: "string list" where
  "HEADER_KEYS =
     [''content-type'', ''cache-control'', ''access-control-allow-origin'', ''access-control-allow-methods'',
      ''access-control-allow-headers'', ''access-control-allow-credentials'']"

datatype header_value = HNone | HStr string | HOther

text \<open>
  A receipt: a dictionary with exactly its six keys, whose status may be no integer, or something
  else (\<open>OtherReceipt\<close>).
\<close>

record receipt =
  rc_url :: string
  rc_method :: string
  rc_status :: "int option"
  rc_captured :: string
  rc_headers :: "(string \<times> header_value) list"
  rc_no_cookie :: bool

datatype receipt_arg = Receipt receipt | OtherReceipt

text \<open>
  \<^verbatim>\<open>capture_receipt\<close> of app/services/preview_origin_service.py.  \<open>url_error\<close> is the verdict of
  \<^verbatim>\<open>validate_url\<close>, \<open>canon_time\<close> the canonical form of a time stamp, \<open>receipt_size\<close> the length of the
  receipt's canonical JSON; \<open>headers\<close> gives the values received for a key.
\<close>

record receipt_env =
  url_error :: "string \<Rightarrow> string option"
  canon_time :: "string \<Rightarrow> string option"
  receipt_size :: "receipt \<Rightarrow> nat"

fun join_values :: "string list \<Rightarrow> string" where
  "join_values [] = []"
| "join_values [v] = v"
| "join_values (v # vs) = v @ '', '' @ join_values vs"

definition header_of :: "string list option \<Rightarrow> header_value" where
  "header_of items = (case items of None \<Rightarrow> HNone | Some [] \<Rightarrow> HNone | Some vs \<Rightarrow> HStr (join_values vs))"

definition capture_receipt ::
  "receipt_env \<Rightarrow> string \<Rightarrow> string \<Rightarrow> int option \<Rightarrow> (string \<Rightarrow> string list option) \<Rightarrow> string \<Rightarrow> string \<Rightarrow> bool
    \<Rightarrow> lerror + receipt" where
  "capture_receipt env url method status headers captured_at origin retired =
     (case status of None \<Rightarrow> Inl (OriginFailure ''invalid_response'')
      | Some code \<Rightarrow>
     (if method \<notin> {''GET'', ''OPTIONS''} then Inl (OriginFailure ''invalid_response'')
      else case url_error env url of Some e \<Rightarrow> Inl (OriginFailure e)
      | None \<Rightarrow>
     (if 300 \<le> code \<and> code \<le> 399 then Inl (OriginFailure ''redirect'')
      else if method = ''GET'' \<and> code \<notin> (if retired then {404, 410} else {200}) then Inl (OriginFailure ''http_status'')
      else if (case headers ''access-control-allow-origin'' of None \<Rightarrow> False | Some vs \<Rightarrow> length vs \<noteq> 1)
      then Inl (OriginFailure ''cors_origin'')
      else case canon_time env captured_at of None \<Rightarrow> Inl ValidationFailure
      | Some ts \<Rightarrow>
         (let r = \<lparr>rc_url = url, rc_method = method, rc_status = status, rc_captured = ts,
                   rc_headers = map (\<lambda>k. (k, header_of (headers k))) HEADER_KEYS, rc_no_cookie = True\<rparr>;
              acao = header_of (headers ''access-control-allow-origin'')
          in if receipt_size env r > 8192 then Inl (OriginFailure ''receipt_limit'')
             else if method = ''GET'' \<and> \<not> retired \<and> acao \<noteq> HStr ''*'' \<and> acao \<noteq> HStr origin
             then Inl (OriginFailure ''cors_origin'')
             else Inr r))))"

text \<open>
  One receipt of a retirement: the received dictionary is rebuilt from its own values and must be
  equal to the result (as a dictionary: the order of the headers does not matter).
\<close>

definition same_receipt :: "receipt \<Rightarrow> receipt \<Rightarrow> bool" where
  "same_receipt r r' \<longleftrightarrow> rc_url r = rc_url r' \<and> rc_method r = rc_method r' \<and> rc_status r = rc_status r'
     \<and> rc_captured r = rc_captured r' \<and> map_of (rc_headers r) = map_of (rc_headers r') \<and> rc_no_cookie r = rc_no_cookie r'"

definition validate_receipt :: "receipt_env \<Rightarrow> string \<Rightarrow> string \<Rightarrow> receipt_arg \<Rightarrow> string \<Rightarrow> lerror + receipt" where
  "validate_receipt env url origin arg method =
     (case arg of OtherReceipt \<Rightarrow> Inl InvalidRetirementReceipt
      | Receipt r \<Rightarrow>
          (if rc_url r \<noteq> url \<or> rc_method r \<noteq> method \<or> \<not> rc_no_cookie r
              \<or> set (map fst (rc_headers r)) \<noteq> set HEADER_KEYS
              \<or> HOther \<in> snd ` set (rc_headers r)
           then Inl InvalidRetirementReceipt
           else res_bind (capture_receipt env url method (rc_status r)
                  (\<lambda>k. case map_of (rc_headers r) k of Some (HStr v) \<Rightarrow> Some [v] | _ \<Rightarrow> None)
                  (rc_captured r) origin True)
             (\<lambda>res. if \<not> same_receipt res r then Inl InvalidRetirementReceipt else Inr res)))"

definition validate_retirement_receipts ::
  "receipt_env \<Rightarrow> receipt_arg list \<Rightarrow> string \<Rightarrow> string \<Rightarrow> lerror + receipt list" where
  "validate_retirement_receipts env receipts url origin =
     (if length receipts \<noteq> 2 then Inl RetirementEvidenceMissing
      else res_map (\<lambda>(r, m). validate_receipt env url origin r m) (zip receipts [''GET'', ''OPTIONS'']))"

section \<open>The journal\<close>

text \<open>
  A candidate as validated: its key (seller, listing, request id), the two fields retirement
  reads, its kind, and its exact bytes.  A row keeps the candidate; a request is what
  \<^verbatim>\<open>request_bytes\<close> and \<^verbatim>\<open>request_digest\<close> make of it, with the candidate its binding validates to.
\<close>

type_synonym jkey = "string \<times> string \<times> string"

record candidate =
  cd_key :: jkey
  cd_kind :: string
  cd_decision :: string
  cd_sample :: string
  cd_bytes :: "nat list"

record frozen_request =
  rq_raw :: "nat list"
  rq_digest :: string
  rq_candidate :: "lerror + candidate"
  rq_key :: jkey

record jrow =
  j_kind :: string
  j_state :: lstate
  j_candidate :: candidate
  j_request :: "(nat list \<times> string) option"
  j_receipts :: "receipt list option"
  j_origin :: "string option"

record journal =
  candidates :: "jkey \<rightharpoonup> jrow"
  transition_log :: "(jkey \<times> lstate \<times> lstate) list"

definition start_candidate :: "candidate \<Rightarrow> journal \<Rightarrow> (lerror + jkey) \<times> journal" where
  "start_candidate c j =
     (case candidates j (cd_key c) of
        Some old \<Rightarrow>
          (if cd_bytes (j_candidate old) \<noteq> cd_bytes c then (Inl RequestIdConflict, j) else (Inr (cd_key c), j))
      | None \<Rightarrow>
          (Inr (cd_key c),
           j\<lparr>candidates := (candidates j)(cd_key c \<mapsto>
               \<lparr>j_kind = cd_kind c, j_state = Building, j_candidate = c, j_request = None,
                j_receipts = None, j_origin = None\<rparr>)\<rparr>))"

text \<open>\<^verbatim>\<open>_transition\<close> inside a transaction: an error rolls the transaction back.\<close>

definition transition_row :: "jkey \<Rightarrow> lstate \<Rightarrow> journal \<Rightarrow> lerror + journal" where
  "transition_row key new j =
     (case candidates j key of None \<Rightarrow> Inl InvalidTransition
      | Some row \<Rightarrow>
          (if new \<notin> set (TRANSITIONS (j_state row)) then Inl InvalidTransition
           else if new = SignedCandidate \<and> j_request row = None then Inl RequestMissing
           else Inr (j\<lparr>candidates := (candidates j)(key \<mapsto> row\<lparr>j_state := new\<rparr>),
                       transition_log := transition_log j @ [(key, j_state row, new)]\<rparr>)))"

definition transition :: "jkey \<Rightarrow> lstate \<Rightarrow> journal \<Rightarrow> (lerror + unit) \<times> journal" where
  "transition key new j =
     (if new \<in> {SignedCandidate, Retired} then (Inl EvidenceRequired, j)
      else case transition_row key new j of Inl e \<Rightarrow> (Inl e, j) | Inr j' \<Rightarrow> (Inr (), j'))"

definition freeze :: "jkey \<Rightarrow> frozen_request \<Rightarrow> journal \<Rightarrow> (lerror + nat list \<times> string) \<times> journal" where
  "freeze key rq j =
     (if key \<noteq> rq_key rq then (Inl RequestIdentityMismatch, j)
      else case candidates j key of None \<Rightarrow> (Inl CandidateChanged, j)
      | Some old \<Rightarrow>
      (case rq_candidate rq of Inl e \<Rightarrow> (Inl e, j)
       | Inr c \<Rightarrow>
        (if cd_bytes (j_candidate old) \<noteq> cd_bytes c then (Inl CandidateChanged, j)
         else case j_request old of
           Some (raw, dg) \<Rightarrow>
             (if raw \<noteq> rq_raw rq \<or> dg \<noteq> rq_digest rq then (Inl RequestIdConflict, j) else (Inr (raw, dg), j))
         | None \<Rightarrow>
             (case transition_row key SignedCandidate
                (j\<lparr>candidates := (candidates j)(key \<mapsto> old\<lparr>j_request := Some (rq_raw rq, rq_digest rq)\<rparr>)\<rparr>) of
                Inl e \<Rightarrow> (Inl e, j)
              | Inr j' \<Rightarrow> (Inr (rq_raw rq, rq_digest rq), j')))))"

definition read_row :: "jkey \<Rightarrow> journal \<Rightarrow> lerror + jrow" where
  "read_row key j = (case candidates j key of None \<Rightarrow> Inl CandidateMissing | Some row \<Rightarrow> Inr row)"

text \<open>
  \<^verbatim>\<open>retire\<close> up to the change of the origin: the checks, the answer when it is retired already, and
  the transition to \<^verbatim>\<open>retirement_pending\<close>, which persists.  \<open>url_matches\<close> is the comparison of the
  URL's path with the store's path for the version and sample.
\<close>

definition retire_begin ::
  "receipt_env \<Rightarrow> jkey \<Rightarrow> bool \<Rightarrow> string \<Rightarrow> string \<Rightarrow> string \<Rightarrow> journal \<Rightarrow> (lerror + receipt list option) \<times> journal" where
  "retire_begin env key url_matches sample_hash url origin j =
     (case read_row key j of Inl e \<Rightarrow> (Inl e, j)
      | Inr row \<Rightarrow>
          (if \<not> url_matches then (Inl RetirementUrlMismatch, j)
           else if cd_decision (j_candidate row) \<noteq> ''approve'' \<or> sample_hash \<noteq> cd_sample (j_candidate row)
           then (Inl RetirementSampleMismatch, j)
           else if j_state row = Retired then
             (if j_origin row \<noteq> Some origin then (Inl InvalidRetirementReceipt, j)
              else case j_receipts row of None \<Rightarrow> (Inl InvalidRetirementReceipt, j)
              | Some rs \<Rightarrow>
                 (case validate_retirement_receipts env (map Receipt rs) url origin of
                    Inl e \<Rightarrow> (Inl e, j) | Inr out \<Rightarrow> (Inr (Some out), j)))
           else if j_state row \<noteq> RetirementPending then
             (case transition key RetirementPending j of (Inl e, j') \<Rightarrow> (Inl e, j') | (Inr u, j') \<Rightarrow> (Inr None, j'))
           else (Inr None, j)))"

definition retire_finish ::
  "receipt_env \<Rightarrow> jkey \<Rightarrow> string \<Rightarrow> string \<Rightarrow> receipt_arg list \<Rightarrow> journal \<Rightarrow> (lerror + receipt list) \<times> journal" where
  "retire_finish env key url origin reader j =
     (case validate_retirement_receipts env reader url origin of Inl e \<Rightarrow> (Inl e, j)
      | Inr rs \<Rightarrow>
          (case transition_row key Retired
             (j\<lparr>candidates := (candidates j)(key := map_option (\<lambda>r. r\<lparr>j_receipts := Some rs, j_origin := Some origin\<rparr>)
                                (candidates j key))\<rparr>) of
             Inl e \<Rightarrow> (Inl e, j) | Inr j' \<Rightarrow> (Inr rs, j')))"

text \<open>The whole call: \<open>store_ok\<close> tells whether the publication store retired the package.\<close>

definition retire ::
  "receipt_env \<Rightarrow> jkey \<Rightarrow> bool \<Rightarrow> string \<Rightarrow> string \<Rightarrow> string \<Rightarrow> bool \<Rightarrow> receipt_arg list \<Rightarrow> journal
    \<Rightarrow> (lerror + receipt list) \<times> journal" where
  "retire env key url_matches sample_hash url origin store_ok reader j =
     (case retire_begin env key url_matches sample_hash url origin j of
        (Inl e, j') \<Rightarrow> (Inl e, j')
      | (Inr (Some rs), j') \<Rightarrow> (Inr rs, j')
      | (Inr None, j') \<Rightarrow>
          (if \<not> store_ok then (Inl StoreFailure, j') else retire_finish env key url origin reader j'))"

section \<open>Runs of the journal\<close>

datatype jop =
    StartOp candidate
  | TransitionOp jkey lstate
  | FreezeOp jkey frozen_request
  | RetireBeginOp receipt_env jkey bool string string string
  | RetireFinishOp receipt_env jkey string string "receipt_arg list"

fun jstep :: "journal \<Rightarrow> jop \<Rightarrow> journal" where
  "jstep j (StartOp c) = snd (start_candidate c j)"
| "jstep j (TransitionOp key new) = snd (transition key new j)"
| "jstep j (FreezeOp key rq) = snd (freeze key rq j)"
| "jstep j (RetireBeginOp env key m sh url origin) = snd (retire_begin env key m sh url origin j)"
| "jstep j (RetireFinishOp env key url origin reader) = snd (retire_finish env key url origin reader j)"

definition jrun :: "journal \<Rightarrow> jop list \<Rightarrow> journal" where
  "jrun = foldl jstep"

definition empty_journal :: journal where
  "empty_journal = \<lparr>candidates = Map.empty, transition_log = []\<rparr>"

text \<open>
  What a row must hold: the states after signing have a frozen request, a retired row has its two
  receipts and the origin, and its transitions are a path of \<^verbatim>\<open>TRANSITIONS\<close> from the first state.
\<close>

fun path_from :: "lstate \<Rightarrow> (lstate \<times> lstate) list \<Rightarrow> lstate \<Rightarrow> bool" where
  "path_from a [] b \<longleftrightarrow> a = b"
| "path_from a ((x, y) # es) b \<longleftrightarrow> x = a \<and> y \<in> set (TRANSITIONS a) \<and> path_from y es b"

definition log_of :: "journal \<Rightarrow> jkey \<Rightarrow> (lstate \<times> lstate) list" where
  "log_of j key = map snd (filter (\<lambda>e. fst e = key) (transition_log j))"

definition row_evidence :: "jrow \<Rightarrow> bool" where
  "row_evidence r \<longleftrightarrow>
     (j_state r \<in> {SignedCandidate, Submitted, SubmissionUnknown, WithdrawalPending} \<longrightarrow> j_request r \<noteq> None)
     \<and> (j_state r = Retired \<longrightarrow> j_receipts r \<noteq> None \<and> j_origin r \<noteq> None)
     \<and> (j_state r \<in> {Building, Selected, Scanned, Hosted, ReadyToSign} \<longrightarrow> j_request r = None)"

definition journal_inv :: "journal \<Rightarrow> bool" where
  "journal_inv j \<longleftrightarrow>
     (\<forall>key. case candidates j key of None \<Rightarrow> log_of j key = []
        | Some r \<Rightarrow> cd_key (j_candidate r) = key \<and> row_evidence r \<and> path_from Building (log_of j key) (j_state r))"

lemma path_from_snoc: "path_from a (es @ [(x, y)]) b \<longleftrightarrow> path_from a es x \<and> b = y \<and> y \<in> set (TRANSITIONS x)"
  by (induction es arbitrary: a) auto

lemma log_of_simps [simp]:
  "log_of (j\<lparr>candidates := cs, transition_log := l @ [(k, x, y)]\<rparr>) key =
     log_of (j\<lparr>transition_log := l\<rparr>) key @ (if key = k then [(x, y)] else [])"
  "log_of (j\<lparr>candidates := cs\<rparr>) key = log_of j key"
  "log_of (j\<lparr>transition_log := transition_log j\<rparr>) key = log_of j key"
  by (simp_all add: log_of_def)

text \<open>How an operation may change a row.\<close>

definition row_step :: "jrow \<Rightarrow> jrow \<Rightarrow> bool" where
  "row_step r r' \<longleftrightarrow> j_candidate r' = j_candidate r \<and> j_kind r' = j_kind r
     \<and> (j_request r \<noteq> None \<longrightarrow> j_request r' = j_request r)
     \<and> (j_state r = Retired \<longrightarrow> r' = r)
     \<and> (j_state r' = j_state r \<or> j_state r' \<in> set (TRANSITIONS (j_state r)))"

lemma journal_invD:
  "journal_inv j \<Longrightarrow> candidates j key = Some r \<Longrightarrow>
     cd_key (j_candidate r) = key \<and> row_evidence r \<and> path_from Building (log_of j key) (j_state r)"
  "journal_inv j \<Longrightarrow> candidates j key = None \<Longrightarrow> log_of j key = []"
  unfolding journal_inv_def by (drule spec [of _ key], simp)+

lemma journal_inv_row:
  assumes "journal_inv j" and "\<And>k. k \<noteq> key \<Longrightarrow> candidates j' k = candidates j k \<and> log_of j' k = log_of j k"
    and "candidates j' key = Some r" and "cd_key (j_candidate r) = key" and "row_evidence r"
    and "path_from Building (log_of j' key) (j_state r)"
  shows "journal_inv j'"
  unfolding journal_inv_def
proof
  fix k
  show "case candidates j' k of None \<Rightarrow> log_of j' k = []
    | Some r \<Rightarrow> cd_key (j_candidate r) = k \<and> row_evidence r \<and> path_from Building (log_of j' k) (j_state r)"
    using assms journal_invD [OF assms(1), of k] by (cases "k = key") (simp_all split: option.split)
qed

lemma transition_row_inv:
  assumes inv: "journal_inv j" and c: "candidates j key = Some r"
    and r1: "j_candidate r1 = j_candidate r" "j_state r1 = j_state r"
    and t: "transition_row key new (j\<lparr>candidates := (candidates j)(key \<mapsto> r1)\<rparr>) = Inr j'"
    and ev: "row_evidence (r1\<lparr>j_state := new\<rparr>)"
  shows "journal_inv j' \<and> candidates j' = (candidates j)(key \<mapsto> r1\<lparr>j_state := new\<rparr>)
    \<and> new \<in> set (TRANSITIONS (j_state r))"
proof -
  have j': "j' = j\<lparr>candidates := (candidates j)(key \<mapsto> r1\<lparr>j_state := new\<rparr>),
      transition_log := transition_log j @ [(key, j_state r, new)]\<rparr>" and new: "new \<in> set (TRANSITIONS (j_state r))"
    using t r1 by (auto simp: transition_row_def split: if_splits)
  have log: "log_of j' k = log_of j k @ (if k = key then [(j_state r, new)] else [])" for k
    unfolding j' by simp
  have "journal_inv j'"
  proof (rule journal_inv_row [OF inv])
    show "candidates j' key = Some (r1\<lparr>j_state := new\<rparr>)" by (simp add: j')
    show "path_from Building (log_of j' key) (j_state (r1\<lparr>j_state := new\<rparr>))"
      using journal_invD(1) [OF inv c] new by (simp add: log path_from_snoc)
  qed (use journal_invD(1) [OF inv c] r1 ev log in \<open>simp_all add: j'\<close>)
  with new show ?thesis by (simp add: j')
qed

text \<open>Every operation: the invariant, and how the rows move.\<close>

definition rows_step :: "journal \<Rightarrow> journal \<Rightarrow> bool" where
  "rows_step j j' \<longleftrightarrow> (\<forall>key r. candidates j key = Some r \<longrightarrow> (\<exists>r'. candidates j' key = Some r' \<and> row_step r r'))"

lemma row_step_refl [simp]: "row_step r r"
  by (simp add: row_step_def)

lemma rows_step_refl [simp]: "rows_step j j"
  by (simp add: rows_step_def)

lemma rows_step_upd:
  "candidates j key = Some r \<Longrightarrow> row_step r r' \<Longrightarrow> candidates j' = (candidates j)(key \<mapsto> r') \<Longrightarrow> rows_step j j'"
  by (auto simp: rows_step_def)

lemma not_retired: "new \<in> set (TRANSITIONS s) \<Longrightarrow> s \<noteq> Retired"
  by (cases s) auto

lemma start_inv: "journal_inv j \<Longrightarrow> journal_inv (snd (start_candidate c j)) \<and> rows_step j (snd (start_candidate c j))"
proof (cases "candidates j (cd_key c)")
  case None
  assume inv: "journal_inv j"
  note l = journal_invD(2) [OF inv None]
  have "journal_inv (snd (start_candidate c j))"
    by (rule journal_inv_row [OF inv, of "cd_key c" _ "\<lparr>j_kind = cd_kind c, j_state = Building, j_candidate = c,
        j_request = None, j_receipts = None, j_origin = None\<rparr>"]) (use None l in \<open>simp_all add: start_candidate_def row_evidence_def\<close>)
  then show ?thesis using None by (simp add: start_candidate_def rows_step_def)
qed (simp add: start_candidate_def)

lemma transition_inv: "journal_inv j \<Longrightarrow> journal_inv (snd (transition key new j)) \<and> rows_step j (snd (transition key new j))"
proof -
  assume inv: "journal_inv j"
  show ?thesis
  proof (cases "new \<in> {SignedCandidate, Retired} \<or> (\<forall>j'. transition_row key new j \<noteq> Inr j')")
    case True
    then show ?thesis using inv by (cases "transition_row key new j") (auto simp: transition_def)
  next
    case False
    then obtain j' where t: "transition_row key new j = Inr j'" and n: "new \<noteq> SignedCandidate" "new \<noteq> Retired" by auto
    obtain r where r: "candidates j key = Some r" using t by (auto simp: transition_row_def split: option.splits)
    have same: "j\<lparr>candidates := (candidates j)(key \<mapsto> r)\<rparr> = j" using r by (simp add: map_upd_triv)
    have new: "new \<in> set (TRANSITIONS (j_state r))" using t r by (auto simp: transition_row_def split: if_splits)
    have "row_evidence (r\<lparr>j_state := new\<rparr>)"
      using journal_invD(1) [OF inv r] new n
      by (cases "j_state r") (auto simp: row_evidence_def)
    then have "journal_inv j' \<and> candidates j' = (candidates j)(key \<mapsto> r\<lparr>j_state := new\<rparr>)"
      using transition_row_inv [OF inv r refl refl, of new j'] t same by simp
    moreover have "row_step r (r\<lparr>j_state := new\<rparr>)" using new not_retired by (auto simp: row_step_def)
    ultimately show ?thesis using rows_step_upd [OF r] t n by (simp add: transition_def)
  qed
qed

lemma freeze_inv: "journal_inv j \<Longrightarrow> journal_inv (snd (freeze key rq j)) \<and> rows_step j (snd (freeze key rq j))"
proof -
  assume inv: "journal_inv j"
  show ?thesis
  proof (cases "\<exists>old j'. candidates j key = Some old \<and> j_request old = None \<and>
      transition_row key SignedCandidate
        (j\<lparr>candidates := (candidates j)(key \<mapsto> old\<lparr>j_request := Some (rq_raw rq, rq_digest rq)\<rparr>)\<rparr>) = Inr j'")
    case True
    then obtain old j' where r: "candidates j key = Some old" "j_request old = None"
      and t: "transition_row key SignedCandidate
        (j\<lparr>candidates := (candidates j)(key \<mapsto> old\<lparr>j_request := Some (rq_raw rq, rq_digest rq)\<rparr>)\<rparr>) = Inr j'" by blast
    let ?r = "old\<lparr>j_request := Some (rq_raw rq, rq_digest rq), j_state := SignedCandidate\<rparr>"
    have "journal_inv j' \<and> candidates j' = (candidates j)(key \<mapsto> ?r) \<and> SignedCandidate \<in> set (TRANSITIONS (j_state old))"
      using transition_row_inv [OF inv r(1) _ _ t] by (simp add: row_evidence_def)
    moreover from this have "row_step old ?r" using r(2) not_retired by (auto simp: row_step_def)
    ultimately have "journal_inv j' \<and> rows_step j j'" using rows_step_upd [OF r(1)] by blast
    then show ?thesis using inv r t
      by (auto simp: freeze_def split: sum.split)
  next
    case False
    then show ?thesis using inv by (auto simp: freeze_def split: option.split sum.split prod.split)
  qed
qed

lemma retire_begin_inv:
  "journal_inv j \<Longrightarrow> journal_inv (snd (retire_begin env key m sh url origin j))
     \<and> rows_step j (snd (retire_begin env key m sh url origin j))"
  using transition_inv [of j key RetirementPending]
  by (auto simp: retire_begin_def split: sum.split option.split prod.split)

lemma retire_finish_inv:
  "journal_inv j \<Longrightarrow> journal_inv (snd (retire_finish env key url origin reader j))
     \<and> rows_step j (snd (retire_finish env key url origin reader j))"
proof -
  assume inv: "journal_inv j"
  show ?thesis
  proof (cases "validate_retirement_receipts env reader url origin")
    case (Inr rs)
    let ?j = "j\<lparr>candidates := (candidates j)(key := map_option (\<lambda>r. r\<lparr>j_receipts := Some rs, j_origin := Some origin\<rparr>) (candidates j key))\<rparr>"
    show ?thesis
    proof (cases "transition_row key Retired ?j")
      case t: (Inr j')
      obtain r where r: "candidates j key = Some r"
        using t by (cases "candidates j key") (auto simp: transition_row_def)
      let ?r = "r\<lparr>j_receipts := Some rs, j_origin := Some origin, j_state := Retired\<rparr>"
      have "journal_inv j' \<and> candidates j' = (candidates j)(key \<mapsto> ?r) \<and> Retired \<in> set (TRANSITIONS (j_state r))"
        using transition_row_inv [OF inv r, of "r\<lparr>j_receipts := Some rs, j_origin := Some origin\<rparr>" Retired j'] t r
        by (simp add: row_evidence_def)
      moreover from this have "row_step r ?r" using not_retired by (auto simp: row_step_def)
      ultimately show ?thesis using rows_step_upd [OF r] Inr t by (simp add: retire_finish_def)
    qed (use inv Inr in \<open>simp add: retire_finish_def\<close>)
  qed (use inv in \<open>simp add: retire_finish_def\<close>)
qed

lemma jstep_inv: "journal_inv j \<Longrightarrow> journal_inv (jstep j x) \<and> rows_step j (jstep j x)"
  using start_inv transition_inv freeze_inv retire_begin_inv retire_finish_inv by (cases x) simp_all

lemma jrun_simps [simp]: "jrun j [] = j" "jrun j (x # xs) = jrun (jstep j x) xs"
  by (simp_all add: jrun_def)

lemma jrun_inv: "journal_inv j \<Longrightarrow> journal_inv (jrun j xs)"
  by (induction xs arbitrary: j) (simp_all add: jstep_inv)

lemma empty_journal_inv: "journal_inv empty_journal"
  by (simp add: journal_inv_def empty_journal_def log_of_def)

definition row_later :: "jrow \<Rightarrow> jrow \<Rightarrow> bool" where
  "row_later r r' \<longleftrightarrow> j_candidate r' = j_candidate r \<and> j_kind r' = j_kind r
     \<and> (j_request r \<noteq> None \<longrightarrow> j_request r' = j_request r) \<and> (j_state r = Retired \<longrightarrow> r' = r)"

lemma jrun_rows:
  "journal_inv j \<Longrightarrow> candidates j key = Some r \<Longrightarrow> \<exists>r'. candidates (jrun j xs) key = Some r' \<and> row_later r r'"
proof (induction xs arbitrary: j r)
  case Nil
  then show ?case by (simp add: row_later_def)
next
  case (Cons x xs)
  obtain r1 where r1: "candidates (jstep j x) key = Some r1" "row_step r r1"
    using jstep_inv [OF Cons.prems(1), of x] Cons.prems(2) unfolding rows_step_def by blast
  obtain r2 where r2: "candidates (jrun (jstep j x) xs) key = Some r2" "row_later r1 r2"
    using Cons.IH [OF _ r1(1)] jstep_inv [OF Cons.prems(1)] by blast
  have "row_later r r2" using r1(2) r2(2) unfolding row_step_def row_later_def by metis
  with r2(1) show ?case by simp
qed

section \<open>Properties\<close>

text \<open>
  C35. The journal carries the evidence of its states: in every run from the empty journal the
  transitions recorded for a candidate are a path of the transition table from the first state to
  its present state; the states after signing hold the exact frozen request and those before it
  none; a retired candidate holds its receipts and origin.
\<close>

theorem journal_evidence:
  assumes "candidates (jrun empty_journal xs) key = Some r"
  shows "cd_key (j_candidate r) = key
    \<and> path_from Building (log_of (jrun empty_journal xs) key) (j_state r)
    \<and> (j_state r \<in> {SignedCandidate, Submitted, SubmissionUnknown, WithdrawalPending} \<longrightarrow> j_request r \<noteq> None)
    \<and> (j_state r \<in> {Building, Selected, Scanned, Hosted, ReadyToSign} \<longrightarrow> j_request r = None)
    \<and> (j_state r = Retired \<longrightarrow> j_receipts r \<noteq> None \<and> j_origin r \<noteq> None)"
  using journal_invD(1) [OF jrun_inv [OF empty_journal_inv] assms] by (simp add: row_evidence_def)

definition sample_candidate :: candidate where
  "sample_candidate = \<lparr>cd_key = (''s'', ''l'', ''r''), cd_kind = ''k'', cd_decision = ''approve'', cd_sample = ''h'', cd_bytes = [1]\<rparr>"

definition sample_request :: frozen_request where
  "sample_request = \<lparr>rq_raw = [7], rq_digest = ''d'', rq_candidate = Inr sample_candidate, rq_key = (''s'', ''l'', ''r'')\<rparr>"

definition signing_ops :: "jop list" where
  "signing_ops = [StartOp sample_candidate, TransitionOp (''s'', ''l'', ''r'') Selected,
     TransitionOp (''s'', ''l'', ''r'') Scanned, TransitionOp (''s'', ''l'', ''r'') Hosted,
     TransitionOp (''s'', ''l'', ''r'') ReadyToSign, FreezeOp (''s'', ''l'', ''r'') sample_request]"

lemma signing_run:
  "candidates (jrun empty_journal signing_ops) (''s'', ''l'', ''r'') =
     Some \<lparr>j_kind = ''k'', j_state = SignedCandidate, j_candidate = sample_candidate,
           j_request = Some ([7], ''d''), j_receipts = None, j_origin = None\<rparr>"
  by (simp add: signing_ops_def empty_journal_def start_candidate_def transition_def transition_row_def
      freeze_def sample_candidate_def sample_request_def)

theorem journal_evidence_witness:
  "path_from Building (log_of (jrun empty_journal signing_ops) (''s'', ''l'', ''r'')) SignedCandidate"
  using journal_evidence [OF signing_run] by simp

text \<open>
  C36. The journal never rewrites what it holds: whatever operations follow, a candidate keeps its
  exact bytes, a frozen request is never replaced, and a retired row does not change at all.
\<close>

theorem journal_never_rewrites:
  assumes "candidates (jrun empty_journal xs) key = Some r"
  shows "\<exists>r'. candidates (jrun empty_journal (xs @ ys)) key = Some r' \<and> j_candidate r' = j_candidate r
    \<and> (j_request r \<noteq> None \<longrightarrow> j_request r' = j_request r) \<and> (j_state r = Retired \<longrightarrow> r' = r)"
proof -
  have "jrun empty_journal (xs @ ys) = jrun (jrun empty_journal xs) ys" by (simp add: jrun_def)
  then show ?thesis using jrun_rows [OF jrun_inv [OF empty_journal_inv] assms, of ys]
    by (auto simp: row_later_def)
qed

theorem journal_never_rewrites_witness:
  "\<exists>r'. candidates (jrun empty_journal (signing_ops @ [TransitionOp (''s'', ''l'', ''r'') Submitted,
      FreezeOp (''s'', ''l'', ''r'') (sample_request\<lparr>rq_raw := [8]\<rparr>)])) (''s'', ''l'', ''r'') = Some r'
     \<and> j_request r' = Some ([7], ''d'')"
  using journal_never_rewrites [OF signing_run] by fastforce

lemma validate_receipt_again:
  assumes "validate_receipt env url origin arg m = Inr res"
  shows "validate_receipt env url origin (Receipt res) m = Inr res"
proof -
  obtain r where arg: "arg = Receipt r" using assms by (cases arg) (auto simp: validate_receipt_def)
  let ?hs = "\<lambda>hs k. case map_of hs k of Some (HStr v) \<Rightarrow> Some [v] | _ \<Rightarrow> None"
  have ok: "rc_url r = url" "rc_method r = m" "rc_no_cookie r" "HOther \<notin> snd ` set (rc_headers r)"
    and c: "capture_receipt env url m (rc_status r) (?hs (rc_headers r)) (rc_captured r) origin True = Inr res"
    and same: "same_receipt res r"
    using assms unfolding arg validate_receipt_def by (auto split: if_splits)
  have eq: "map_of (rc_headers res) = map_of (rc_headers r)" "rc_status res = rc_status r" "rc_captured res = rc_captured r"
      "rc_url res = url" "rc_method res = m" "rc_no_cookie res"
    using same ok by (simp_all add: same_receipt_def)
  have hs: "rc_headers res = map (\<lambda>k. (k, header_of (?hs (rc_headers r) k))) HEADER_KEYS"
    using c by (auto simp: capture_receipt_def Let_def split: option.splits if_splits)
  have "set (map fst (rc_headers res)) = set HEADER_KEYS" by (simp add: hs comp_def)
  moreover have "HOther \<notin> snd ` set (rc_headers res)"
    by (auto simp: hs header_of_def split: option.splits list.splits)
  moreover have "same_receipt res res" by (simp add: same_receipt_def)
  ultimately show ?thesis using c eq unfolding validate_receipt_def by simp
qed

lemma validate_receipts_again:
  "validate_retirement_receipts env args url origin = Inr rs \<Longrightarrow>
     validate_retirement_receipts env (map Receipt rs) url origin = Inr rs"
proof -
  assume a: "validate_retirement_receipts env args url origin = Inr rs"
  then have "length args = 2" by (simp add: validate_retirement_receipts_def split: if_splits)
  then obtain x y where args: "args = [x, y]" by (auto simp: numeral_2_eq_2 length_Suc_conv)
  with a obtain r1 r2 where "rs = [r1, r2]" "validate_receipt env url origin x ''GET'' = Inr r1"
    "validate_receipt env url origin y ''OPTIONS'' = Inr r2"
    by (auto simp: validate_retirement_receipts_def)
  then show ?thesis using validate_receipt_again
    by (auto simp: validate_retirement_receipts_def)
qed

lemma capture_receipt_shape:
  assumes "capture_receipt env url mt st hs cap origin True = Inr res"
  shows "rc_url res = url \<and> rc_method res = mt \<and> (mt = ''GET'' \<longrightarrow> rc_status res \<in> {Some 404, Some 410})"
proof (cases st)
  case (Some code)
  show ?thesis
  proof (cases "url_error env url"; cases "canon_time env cap")
    fix ts assume c: "url_error env url = None" "canon_time env cap = Some ts"
    have g: "mt = ''GET'' \<longrightarrow> code \<in> {404, 410}"
      using assms c unfolding Some capture_receipt_def by (simp split: if_split_asm)
    have "rc_url res = url \<and> rc_method res = mt \<and> rc_status res = Some code"
      using assms c unfolding Some capture_receipt_def Let_def by (simp split: if_split_asm) auto
    with g show ?thesis by auto
  qed (use assms Some in \<open>simp_all add: capture_receipt_def split: if_split_asm\<close>)
qed (use assms in \<open>simp add: capture_receipt_def\<close>)

lemma validate_receipt_shape:
  assumes "validate_receipt env url origin arg mt = Inr res"
  shows "rc_url res = url \<and> rc_method res = mt \<and> (mt = ''GET'' \<longrightarrow> rc_status res \<in> {Some 404, Some 410})"
proof -
  obtain r where "arg = Receipt r" using assms by (cases arg) (auto simp: validate_receipt_def)
  then have "\<exists>hs. capture_receipt env url mt (rc_status r) hs (rc_captured r) origin True = Inr res"
    using assms by (auto simp: validate_receipt_def split: if_splits)
  then show ?thesis using capture_receipt_shape by blast
qed

lemma retirement_receipts_shape:
  assumes "validate_retirement_receipts env args url origin = Inr rs"
  shows "map rc_method rs = [''GET'', ''OPTIONS''] \<and> list_all (\<lambda>r. rc_url r = url) rs
    \<and> rc_status (hd rs) \<in> {Some 404, Some 410}"
proof -
  have "length args = 2" using assms by (simp add: validate_retirement_receipts_def split: if_splits)
  then obtain x y where args: "args = [x, y]" by (auto simp: numeral_2_eq_2 length_Suc_conv)
  with assms obtain r1 r2 where rs: "rs = [r1, r2]" and v: "validate_receipt env url origin x ''GET'' = Inr r1"
    "validate_receipt env url origin y ''OPTIONS'' = Inr r2"
    by (auto simp: validate_retirement_receipts_def)
  then show ?thesis using validate_receipt_shape [OF v(1)] validate_receipt_shape [OF v(2)] by simp
qed

text \<open>
  Retirement is recorded on evidence and can be repeated: a call that reports success leaves the
  candidate retired with exactly the receipts it returns, one for GET with status 404 or 410 and
  one for OPTIONS, both for this URL; and calling it again with the same arguments, whatever the
  origin now answers, returns the same receipts and changes nothing.
\<close>

theorem retire_records_evidence:
  assumes "journal_inv j" and "retire env key m sh url origin store_ok reader j = (Inr rs, j')"
  shows "(\<exists>r. candidates j' key = Some r \<and> j_state r = Retired \<and> j_origin r = Some origin)
    \<and> map rc_method rs = [''GET'', ''OPTIONS''] \<and> list_all (\<lambda>r. rc_url r = url) rs
    \<and> rc_status (hd rs) \<in> {Some 404, Some 410}
    \<and> retire env key m sh url origin store_ok' reader' j' = (Inr rs, j')"
proof (cases "retire_begin env key m sh url origin j")
  case (Pair out j1)
  have out: "out = Inr (Some rs) \<and> j' = j1 \<or>
      out = Inr None \<and> store_ok \<and> retire_finish env key url origin reader j1 = (Inr rs, j')"
    using assms(2) Pair by (auto simp: retire_def split: sum.splits option.splits if_splits)
  obtain row where row: "candidates j key = Some row" "m" "cd_decision (j_candidate row) = ''approve''"
      "sh = cd_sample (j_candidate row)"
    using Pair out by (auto simp: retire_begin_def read_row_def split: option.splits if_splits)
  show ?thesis
  proof (cases "out = Inr None")
    case False
    then have out1: "out = Inr (Some rs)" "j' = j1" using out by auto
    have dn: "j1 = j" "j_state row = Retired" "j_origin row = Some origin"
      and v: "\<exists>rs0. j_receipts row = Some rs0 \<and> validate_retirement_receipts env (map Receipt rs0) url origin = Inr rs"
      using Pair row unfolding out1
      by (auto simp: retire_begin_def read_row_def split: if_splits option.splits sum.splits prod.splits)
    have again: "retire env key m sh url origin store_ok' reader' j' = (Inr rs, j')"
      using Pair unfolding out1 dn(1) by (simp add: retire_def)
    obtain rs0 where "validate_retirement_receipts env (map Receipt rs0) url origin = Inr rs" using v by blast
    from retirement_receipts_shape [OF this] show ?thesis using dn row(1) again out1(2) by simp
  next
    case True
    then have fin: "retire_finish env key url origin reader j1 = (Inr rs, j')" using out by auto
    obtain row1 where row1: "candidates j1 key = Some row1" "j_candidate row1 = j_candidate row"
      using retire_begin_inv [OF assms(1), of env key m sh url origin] Pair row(1)
      unfolding rows_step_def row_step_def by fastforce
    let ?r = "row1\<lparr>j_receipts := Some rs, j_origin := Some origin\<rparr>"
    have v: "validate_retirement_receipts env reader url origin = Inr rs"
      and t: "transition_row key Retired (j1\<lparr>candidates := (candidates j1)(key \<mapsto> ?r)\<rparr>) = Inr j'"
      using fin row1(1) by (auto simp: retire_finish_def split: sum.splits)
    have j': "candidates j' key = Some (?r\<lparr>j_state := Retired\<rparr>)"
      using t by (auto simp: transition_row_def split: if_splits)
    have "retire_begin env key m sh url origin j' = (Inr (Some rs), j')"
      using row(2-4) row1(2) validate_receipts_again [OF v]
      by (simp add: retire_begin_def read_row_def j')
    then have "retire env key m sh url origin store_ok' reader' j' = (Inr rs, j')" by (simp add: retire_def)
    with retirement_receipts_shape [OF v] j' show ?thesis by simp
  qed
qed

definition sample_receipt :: "string \<Rightarrow> int \<Rightarrow> receipt" where
  "sample_receipt mt code = \<lparr>rc_url = ''u'', rc_method = mt, rc_status = Some code, rc_captured = ''t'',
     rc_headers = map (\<lambda>k. (k, HNone)) HEADER_KEYS, rc_no_cookie = True\<rparr>"

definition sample_env :: receipt_env where
  "sample_env = \<lparr>url_error = (\<lambda>_. None), canon_time = Some, receipt_size = (\<lambda>_. 100)\<rparr>"

definition hosted_ops :: "jop list" where
  "hosted_ops = [StartOp sample_candidate, TransitionOp (''s'', ''l'', ''r'') Selected,
     TransitionOp (''s'', ''l'', ''r'') Scanned, TransitionOp (''s'', ''l'', ''r'') Hosted]"

lemma sample_validates:
  "validate_retirement_receipts sample_env [Receipt (sample_receipt ''GET'' 410), Receipt (sample_receipt ''OPTIONS'' 0)] ''u'' ''o''
     = Inr [sample_receipt ''GET'' 410, sample_receipt ''OPTIONS'' 0]"
  by (simp add: validate_retirement_receipts_def validate_receipt_def capture_receipt_def sample_receipt_def
      sample_env_def HEADER_KEYS_def header_of_def same_receipt_def Let_def image_iff)

theorem retire_records_evidence_witness:
  "\<exists>rs j'. retire sample_env (''s'', ''l'', ''r'') True ''h'' ''u'' ''o'' True
      [Receipt (sample_receipt ''GET'' 410), Receipt (sample_receipt ''OPTIONS'' 0)] (jrun empty_journal hosted_ops) = (Inr rs, j')
    \<and> retire sample_env (''s'', ''l'', ''r'') True ''h'' ''u'' ''o'' False [] j' = (Inr rs, j')"
proof -
  let ?j = "jrun empty_journal hosted_ops" and ?k = "(''s'', ''l'', ''r'')"
  let ?args = "[Receipt (sample_receipt ''GET'' 410), Receipt (sample_receipt ''OPTIONS'' 0)]"
  have row: "candidates ?j ?k = Some \<lparr>j_kind = ''k'', j_state = Hosted, j_candidate = sample_candidate,
           j_request = None, j_receipts = None, j_origin = None\<rparr>"
    by (simp add: hosted_ops_def empty_journal_def start_candidate_def transition_def transition_row_def sample_candidate_def)
  obtain rs j' where r: "retire sample_env ?k True ''h'' ''u'' ''o'' True ?args ?j = (Inr rs, j')"
    using row sample_validates
    by (simp add: retire_def retire_begin_def read_row_def transition_def transition_row_def retire_finish_def
        sample_candidate_def)
  from retire_records_evidence [OF jrun_inv [OF empty_journal_inv] r] r show ?thesis by blast
qed

text \<open>
  The life cycle ends in retirement: from every state but the last a path of transitions leads
  to it, only a pending retirement leads there, no transition leaves it or comes back to the first
  state, and a candidate is signed only from ready to sign.
\<close>

theorem every_state_can_retire:
  "(\<exists>es. path_from s es Retired)
   \<and> (Retired \<in> set (TRANSITIONS s) \<longleftrightarrow> s = RetirementPending) \<and> TRANSITIONS Retired = []
   \<and> Building \<notin> set (TRANSITIONS s)
   \<and> (SignedCandidate \<in> set (TRANSITIONS s) \<longleftrightarrow> s = ReadyToSign)"
proof -
  have tail: "path_from RetirementPending [(RetirementPending, Retired)] Retired" by simp
  have step: "\<exists>es. path_from x es Retired" if "y \<in> set (TRANSITIONS x)" "\<exists>es. path_from y es Retired" for x y
  proof -
    from that(2) obtain es where "path_from y es Retired" ..
    with that(1) have "path_from x ((x, y) # es) Retired" by simp
    then show ?thesis ..
  qed
  have rp: "\<exists>es. path_from RetirementPending es Retired" using tail ..
  have inv: "\<exists>es. path_from Invalidated es Retired" by (rule step [OF _ rp]) simp
  have "\<exists>es. path_from s es Retired"
  proof (cases s)
    case Retired
    have "path_from Retired [] Retired" by simp
    then show ?thesis unfolding Retired ..
  next
    case RetirementPending
    then show ?thesis using rp by simp
  next
    case Invalidated
    then show ?thesis using inv by simp
  next
    case SubmissionUnknown
    show ?thesis by (rule step [OF _ rp]) (simp add: SubmissionUnknown)
  next
    case WithdrawalPending
    show ?thesis by (rule step [OF _ rp]) (simp add: WithdrawalPending)
  qed (rule step [OF _ inv], simp)+
  moreover have "(Retired \<in> set (TRANSITIONS s) \<longleftrightarrow> s = RetirementPending) \<and> Building \<notin> set (TRANSITIONS s)
      \<and> (SignedCandidate \<in> set (TRANSITIONS s) \<longleftrightarrow> s = ReadyToSign)"
    by (cases s) simp_all
  ultimately show ?thesis by simp
qed

text \<open>
  What a derived candidate is: a withdrawal keeps seller and listing, supersedes the prior
  version, and grants nothing; a refresh needs an approved prior and a later attestation and keeps
  the grants; a supersession stays on the seller's listing under a new request id; each result
  passes the schema check.
\<close>

theorem derived_candidates:
  assumes "d = withdrawal_candidate valid prior v q t \<or> d = refresh_candidate valid prior v q t cad
    \<or> d = supersession_candidate valid prior repl" and "d = Inr b"
  shows "valid b \<and> valid prior \<and> b_seller b = b_seller prior \<and> b_listing b = b_listing prior
    \<and> b_supersedes b = Some (b_version prior) \<and> b_expected_current b = Some (b_version prior)
    \<and> b_hash_profile b = b_hash_profile prior
    \<and> (d = withdrawal_candidate valid prior v q t \<longrightarrow>
         b_decision b = ''withdraw'' \<and> set (b_grants b) \<subseteq> {None} \<and> b_proof_ids b = [] \<and> b_fields b = [])
    \<and> (d = refresh_candidate valid prior v q t cad \<longrightarrow>
         b_sample_decision prior = ''approved'' \<and> b_attested_at prior < b_attested_at b \<and> b_grants b = b_grants prior)
    \<and> (d = supersession_candidate valid prior repl \<longrightarrow>
         b_request_id b \<noteq> b_request_id prior \<and> b_sample_decision b = ''approved'')"
proof -
  have w: "withdrawal_candidate valid prior v q t = Inr b \<Longrightarrow> valid b \<and> valid prior \<and> b_seller b = b_seller prior
      \<and> b_listing b = b_listing prior \<and> b_supersedes b = Some (b_version prior) \<and> b_expected_current b = Some (b_version prior)
      \<and> b_hash_profile b = b_hash_profile prior \<and> b_decision b = ''withdraw'' \<and> set (b_grants b) \<subseteq> {None}
      \<and> b_proof_ids b = [] \<and> b_fields b = []"
    by (auto simp: withdrawal_candidate_def check_binding_def split: if_splits)
  have r: "refresh_candidate valid prior v q t cad = Inr b \<Longrightarrow> valid b \<and> valid prior \<and> b_seller b = b_seller prior
      \<and> b_listing b = b_listing prior \<and> b_supersedes b = Some (b_version prior) \<and> b_expected_current b = Some (b_version prior)
      \<and> b_hash_profile b = b_hash_profile prior \<and> b_sample_decision prior = ''approved''
      \<and> b_attested_at prior < b_attested_at b \<and> b_grants b = b_grants prior"
    by (auto simp: refresh_candidate_def check_binding_def Let_def split: if_splits)
  have s: "supersession_candidate valid prior repl = Inr b \<Longrightarrow> valid b \<and> valid prior \<and> b_seller b = b_seller prior
      \<and> b_listing b = b_listing prior \<and> b_supersedes b = Some (b_version prior) \<and> b_expected_current b = Some (b_version prior)
      \<and> b_hash_profile b = b_hash_profile prior \<and> b_request_id b \<noteq> b_request_id prior \<and> b_sample_decision b = ''approved''"
    by (auto simp: supersession_candidate_def check_binding_def split: if_splits)
  show ?thesis using assms w r s by metis
qed

definition sample_binding :: "unit binding" where
  "sample_binding = \<lparr>b_seller = ''s'', b_listing = ''l'', b_request_id = ''r'', b_decision = ''approve'',
     b_sample_decision = ''approved'', b_version = ''v1'', b_approved_at = 1, b_attested_at = 1, b_cadence = NoCadence,
     b_supersedes = None, b_expected_current = None, b_hash_profile = None, b_grants = [Some ''h''],
     b_proof_ids = [''p''], b_descriptors = [], b_fields = [''f''], b_rest = ()\<rparr>"

theorem derived_candidates_witness:
  "\<exists>b. withdrawal_candidate (\<lambda>_. True) sample_binding ''v2'' ''r2'' 5 = Inr b \<and> b_supersedes b = Some ''v1''
     \<and> b_grants b = [None]"
proof -
  obtain b where b: "withdrawal_candidate (\<lambda>_. True) sample_binding ''v2'' ''r2'' 5 = Inr b" "b_grants b = [None]"
    by (simp add: withdrawal_candidate_def check_binding_def sample_binding_def)
  from derived_candidates [OF disjI1 [OF refl], OF b(1)] b show ?thesis by (simp add: sample_binding_def)
qed

text \<open>
  Freshness is bounded: a disclosure becomes stale no earlier than 7 and no later than 90 days
  after its attestation, exactly twice the cadence in between; once stale it stays stale; and it
  is eligible only before every expiry that is set.
\<close>

theorem freshness_bounded:
  assumes "freshness attested cad now a p s = Inr f"
  shows "attested + 7 * day \<le> f_stale_at f \<and> f_stale_at f \<le> attested + 90 * day
    \<and> (\<forall>d. cad = Days d \<longrightarrow> 0 < d \<and> (4 \<le> d \<longrightarrow> d \<le> 45 \<longrightarrow> f_stale_at f = attested + 2 * d * day))
    \<and> (f_stale f \<longleftrightarrow> f_stale_at f \<le> now)
    \<and> (\<forall>later f'. now \<le> later \<longrightarrow> f_stale f \<longrightarrow> freshness attested cad later a p s = Inr f' \<longrightarrow> f_stale f')
    \<and> (f_eligible f \<longleftrightarrow> (\<forall>e. Some e \<in> {a, p, s} \<longrightarrow> now < e))"
proof -
  obtain th where th: "stale_at attested cad = Inr th" using assms by (auto simp: freshness_def)
  then have b: "attested + 7 * day \<le> th \<and> th \<le> attested + 90 * day
      \<and> (\<forall>d. cad = Days d \<longrightarrow> 0 < d \<and> (4 \<le> d \<longrightarrow> d \<le> 45 \<longrightarrow> th = attested + 2 * d * day))"
    by (auto simp: stale_at_def day_def split: cadence.splits if_splits)
  have f: "f = \<lparr>f_stale = (now \<ge> th), f_stale_at = th, f_expires_at = p,
            f_eligible = list_all (\<lambda>v. case v of None \<Rightarrow> True | Some e \<Rightarrow> now < e) [a, p, s]\<rparr>"
    using assms th by (simp add: freshness_def)
  show ?thesis using b unfolding f
    by (auto simp: freshness_def th split: option.splits)
qed

theorem freshness_bounded_witness:
  "\<exists>f. freshness 0 (Days 30) (60 * day) None (Some 5) None = Inr f \<and> f_stale f"
proof -
  obtain f where f: "freshness 0 (Days 30) (60 * day) None (Some 5) None = Inr f"
    by (simp add: freshness_def stale_at_def)
  have "f_stale_at f = 60 * day" using freshness_bounded [OF f] by simp
  then have "f_stale f" using freshness_bounded [OF f] by simp
  with f show ?thesis by blast
qed

end
