(* ===== verification/DiskTree.thy ===== *)
theory DiskTree
  imports RowCommitment "HOL-Library.Multiset" "HOL-Library.List_Lexorder" "HOL-Library.Product_Lexorder"
begin

text \<open>
  The production path of app/services/dataset_merkle_service.py: rows are hashed, sorted in
  bounded runs, merged from files, and indexed by a tree on disk.  Files of rows are their bytes;
  the \<^verbatim>\<open>leaves\<close> and \<^verbatim>\<open>nodes\<close> files are the 32-byte slots they hold, the \<^verbatim>\<open>index\<close> file its entries.
  The object sizes of \<^verbatim>\<open>sys.getsizeof\<close> are the argument \<open>cost\<close>; what the disk and the cancel event
  answer at each check is the argument \<open>denv\<close>.  Progress reports are left out.
\<close>

section \<open>Budgets\<close>

text \<open>A field is \<open>None\<close> when it is no integer.\<close>

record worker_budget =
  rss_bytes :: "int option"
  run_bytes :: "int option"
  batch_bytes :: "int option"
  record_limit :: "int option"
  disk_bytes :: "int option"
  reserve_bytes :: "int option"

definition WorkerBudget :: worker_budget where
  "WorkerBudget = \<lparr>rss_bytes = Some (512 * 1024 * 1024), run_bytes = Some (64 * 1024 * 1024),
     batch_bytes = Some (16 * 1024 * 1024), record_limit = Some (8 * 1024 * 1024),
     disk_bytes = Some (20 * 1024 ^ 3), reserve_bytes = Some (1024 ^ 3)\<rparr>"

definition validate_budget :: "worker_budget \<Rightarrow> cerror + unit" where
  "validate_budget b =
     (if list_ex (\<lambda>v. case v of None \<Rightarrow> True | Some n \<Rightarrow> n < 1)
           [rss_bytes b, run_bytes b, batch_bytes b, record_limit b, disk_bytes b, reserve_bytes b]
      then Inl ''invalid_budget''
      else if the (run_bytes b) > 64 * 1024 ^ 2 \<or> the (batch_bytes b) > 16 * 1024 ^ 2
              \<or> the (record_limit b) > 8 * 1024 ^ 2
      then Inl ''invalid_budget'' else Inr ())"

text \<open>The answers at the \<open>n\<close>-th question: whether the job is cancelled, and the free bytes.\<close>

type_synonym denv = "nat \<Rightarrow> bool \<times> int"

record disk =
  d_used :: int
  d_free :: int
  d_probe :: int
  d_tick :: nat

definition new_disk :: "worker_budget \<Rightarrow> denv \<Rightarrow> disk" where
  "new_disk b env = \<lparr>d_used = 0, d_free = snd (env 0) - the (reserve_bytes b), d_probe = 0, d_tick = 1\<rparr>"

definition disk_check :: "worker_budget \<Rightarrow> denv \<Rightarrow> int \<Rightarrow> disk \<Rightarrow> cerror + disk" where
  "disk_check b env amount d =
     (if fst (env (d_tick d)) then Inl ''cancelled''
      else let d1 = (if d_used d \<ge> d_probe d
                     then d\<lparr>d_free := snd (env (d_tick d)) - the (reserve_bytes b), d_probe := d_used d + 1024 * 1024\<rparr>
                     else d)
        in if d_used d1 + amount > the (disk_bytes b) \<or> amount > d_free d1 then Inl ''disk_resource_limit''
           else Inr (d1\<lparr>d_free := d_free d1 - amount, d_used := d_used d1 + amount, d_tick := d_tick d1 + 1\<rparr>))"

definition disk_remove :: "nat \<Rightarrow> disk \<Rightarrow> disk" where
  "disk_remove sz d = d\<lparr>d_used := d_used d - int sz, d_probe := 0\<rparr>"

section \<open>Files of records\<close>

type_synonym pair = "bytes \<times> bytes"

definition record_bytes :: "pair \<Rightarrow> bytes" where
  "record_bytes p = fst p @ be_bytes 4 (length (snd p)) @ snd p"

function run_records :: "nat \<Rightarrow> bytes \<Rightarrow> cerror + pair list" where
  "run_records limit s =
     (if s = [] then Inr []
      else let header = take 36 s; sz = be_value (drop 32 header); row = take sz (drop 36 s) in
        if length header \<noteq> 36 then Inl ''invalid_spill''
        else if sz > limit then Inl ''record_resource_limit''
        else if length row \<noteq> sz then Inl ''invalid_spill''
        else res_bind (run_records limit (drop (36 + sz) s)) (\<lambda>rs. Inr ((take 32 header, row) # rs)))"
  by pat_completeness auto
termination
  by (relation "measure (\<lambda>(l, s). length s)") auto

declare run_records.simps [simp del]

fun write_records :: "worker_budget \<Rightarrow> denv \<Rightarrow> pair list \<Rightarrow> bytes \<Rightarrow> disk \<Rightarrow> cerror + bytes \<times> disk" where
  "write_records b env [] out d = Inr (out, d)"
| "write_records b env (p # ps) out d =
     res_bind (disk_check b env (int (36 + length (snd p))) d) (\<lambda>d1.
       write_records b env ps (out @ record_bytes p) d1)"

section \<open>Reading and spilling\<close>

record reader =
  rd_runs :: "bytes list"
  rd_batch :: "pair list"
  rd_used :: nat
  rd_count :: nat
  rd_bytes :: nat
  rd_disk :: disk

definition spill :: "worker_budget \<Rightarrow> denv \<Rightarrow> reader \<Rightarrow> cerror + reader" where
  "spill b env st =
     (if rd_batch st = [] then Inr st
      else res_bind (disk_check b env 0 (rd_disk st)) (\<lambda>d.
        res_bind (write_records b env (sort (rd_batch st)) [] d) (\<lambda>(out, d1).
          Inr (st\<lparr>rd_runs := rd_runs st @ [out], rd_batch := [], rd_used := 0, rd_disk := d1\<rparr>))))"

text \<open>A row that is no \<^verbatim>\<open>bytes\<close> object is \<open>None\<close>.\<close>

fun read_rows ::
  "hash_fun \<Rightarrow> worker_budget \<Rightarrow> denv \<Rightarrow> (bytes \<Rightarrow> nat) \<Rightarrow> hash_arg \<Rightarrow> bytes option list \<Rightarrow> reader \<Rightarrow> cerror + reader" where
  "read_rows H b env cost sd [] st = Inr st"
| "read_rows H b env cost sd (row # rows) st =
     res_bind (disk_check b env 0 (rd_disk st)) (\<lambda>d.
     (case row of None \<Rightarrow> Inl ''record_resource_limit''
      | Some r \<Rightarrow>
          (if int (length r) > the (record_limit b) then Inl ''record_resource_limit''
           else res_bind (compute_base_row_digest H sd r) (\<lambda>base.
           res_bind (if int (rd_used st + cost r) > the (run_bytes b) then spill b env (st\<lparr>rd_disk := d\<rparr>)
                     else Inr (st\<lparr>rd_disk := d\<rparr>)) (\<lambda>st1.
             let st2 = st1\<lparr>rd_batch := rd_batch st1 @ [(base, r)], rd_used := rd_used st1 + cost r,
                           rd_count := rd_count st1 + 1, rd_bytes := rd_bytes st1 + length r\<rparr>
             in if int (rd_count st2) > MAX_TREE_SIZE then Inl ''invalid_tree_size''
                else read_rows H b env cost sd rows st2)))))"

section \<open>Merging\<close>

text \<open>\<^verbatim>\<open>heapq.merge\<close> of sorted streams.\<close>

fun merge2 :: "pair list \<Rightarrow> pair list \<Rightarrow> pair list" where
  "merge2 [] ys = ys"
| "merge2 xs [] = xs"
| "merge2 (x # xs) (y # ys) = (if x \<le> y then x # merge2 xs (y # ys) else y # merge2 (x # xs) ys)"

definition heap_merge :: "pair list list \<Rightarrow> pair list" where
  "heap_merge xss = foldr merge2 xss []"

fun groups_of_4 :: "'a list \<Rightarrow> 'a list list" where
  "groups_of_4 [] = []"
| "groups_of_4 (x # xs) = take 4 (x # xs) # groups_of_4 (drop 3 xs)"

definition merge_group :: "worker_budget \<Rightarrow> denv \<Rightarrow> bytes list \<Rightarrow> disk \<Rightarrow> cerror + bytes \<times> disk" where
  "merge_group b env grp d =
     res_bind (res_map (run_records (nat (the (record_limit b)))) grp) (\<lambda>streams.
     res_bind (write_records b env (heap_merge streams) [] d) (\<lambda>(out, d1).
       Inr (out, fold (\<lambda>f. disk_remove (length f)) grp d1)))"

fun merge_round :: "worker_budget \<Rightarrow> denv \<Rightarrow> bytes list list \<Rightarrow> disk \<Rightarrow> cerror + bytes list \<times> disk" where
  "merge_round b env [] d = Inr ([], d)"
| "merge_round b env (g # gs) d =
     res_bind (merge_group b env g d) (\<lambda>(out, d1).
     res_bind (merge_round b env gs d1) (\<lambda>(outs, d2). Inr (out # outs, d2)))"

lemma groups_of_4_length: "length (groups_of_4 xs) \<le> length xs \<and> (2 \<le> length xs \<longrightarrow> length (groups_of_4 xs) < length xs)"
proof (induction xs rule: groups_of_4.induct)
  case (2 x xs)
  have "length (groups_of_4 (drop 3 xs)) \<le> length xs - 3" using 2 by simp
  then show ?case by (cases xs) auto
qed simp

lemma merge_round_length: "merge_round b env gs d = Inr (outs, d') \<Longrightarrow> length outs = length gs"
  by (induction gs arbitrary: d outs d') auto

function merge_runs :: "worker_budget \<Rightarrow> denv \<Rightarrow> bytes list \<Rightarrow> disk \<Rightarrow> cerror + bytes list \<times> disk" where
  "merge_runs b env runs d =
     (if length runs \<le> 1 then Inr (runs, d)
      else res_bind (merge_round b env (groups_of_4 runs) d) (\<lambda>(merged, d1). merge_runs b env merged d1))"
  by pat_completeness auto
termination
proof (relation "measure (\<lambda>(b, env, runs, d). length runs)", simp)
  fix b env runs d x merged d1
  assume "\<not> length (runs :: bytes list) \<le> 1" "merge_round b env (groups_of_4 runs) d = Inr x" "(merged, d1) = x"
  then show "((b, env, merged, d1), b, env, runs, d) \<in> measure (\<lambda>(b, env, runs, d). length runs)"
    using merge_round_length [of b env "groups_of_4 runs" d merged d1] groups_of_4_length [of runs] by auto
qed

declare merge_runs.simps [simp del]

section \<open>Leaves, index and nodes\<close>

record index_entry =
  ix_offset :: nat
  ix_length :: nat
  ix_ordinal :: nat
  ix_base :: bytes

fun write_leaves ::
  "hash_fun \<Rightarrow> worker_budget \<Rightarrow> denv \<Rightarrow> pair list \<Rightarrow> pair option \<Rightarrow> nat \<Rightarrow> nat \<Rightarrow> disk
    \<Rightarrow> cerror + bytes list \<times> index_entry list \<times> disk" where
  "write_leaves H b env [] prev ordinal offset d = Inr ([], [], d)"
| "write_leaves H b env (p # ps) prev ordinal offset d =
     (let ordinal' = (if Some p = prev then ordinal + 1 else 0) in
      res_bind (disk_check b env (32 + 56) d) (\<lambda>d1.
      res_bind (compute_leaf_hash H (Raw (fst p)) (Num (int ordinal'))) (\<lambda>leaf.
      res_bind (write_leaves H b env ps (Some p) ordinal' (offset + 36 + length (snd p)) d1) (\<lambda>(leaves, entries, d2).
        Inr (leaf # leaves,
             \<lparr>ix_offset = offset, ix_length = length (snd p), ix_ordinal = ordinal', ix_base = fst p\<rparr> # entries, d2)))))"

type_synonym slots = "nat \<rightharpoonup> bytes"

text \<open>Reading a slot past the end of a file gives no bytes.\<close>

definition slot :: "slots \<Rightarrow> nat \<Rightarrow> bytes" where
  "slot f i = (case f i of None \<Rightarrow> [] | Some x \<Rightarrow> x)"

function build_nodes ::
  "hash_fun \<Rightarrow> worker_budget \<Rightarrow> denv \<Rightarrow> bytes list \<Rightarrow> nat \<Rightarrow> nat \<Rightarrow> nat \<Rightarrow> slots \<Rightarrow> disk \<Rightarrow> cerror + bytes \<times> slots \<times> disk" where
  "build_nodes H b env leaves start sz position nodes d =
     res_bind (disk_check b env 0 d) (\<lambda>d1.
     res_bind
       (if sz = 1 then Inr (leaves ! start, nodes, d1)
        else res_bind (largest_power_of_two_less_than sz) (\<lambda>split.
          res_bind (build_nodes H b env leaves start split (position + 1) nodes d1) (\<lambda>(l, n1, d2).
          res_bind (build_nodes H b env leaves (start + split) (sz - split) (position + 2 * split) n1 d2) (\<lambda>(r, n2, d3).
          res_bind (compute_node_hash H (Raw l) (Raw r)) (\<lambda>h. Inr (h, n2, d3))))))
       (\<lambda>(result, n, d4). Inr (result, n(position \<mapsto> result), d4)))"
  by pat_completeness auto
termination
  by (relation "measure (\<lambda>(H, b, env, ls, start, sz, rest). sz)") (auto dest: split_SomeD)

declare build_nodes.simps [simp del]

record disk_tree =
  dt_rows :: bytes
  dt_index :: "index_entry list"
  dt_nodes :: slots
  dt_count :: nat
  dt_root :: bytes
  dt_schema :: hash_arg
  dt_canonical_bytes :: nat

definition build_disk_tree ::
  "hash_fun \<Rightarrow> worker_budget \<Rightarrow> denv \<Rightarrow> (bytes \<Rightarrow> nat) \<Rightarrow> hash_arg \<Rightarrow> bytes option list \<Rightarrow> cerror + disk_tree" where
  "build_disk_tree H b env cost sd rows =
     res_bind (validate_budget b) (\<lambda>_.
     res_bind (read_rows H b env cost sd rows
        \<lparr>rd_runs = [], rd_batch = [], rd_used = 0, rd_count = 0, rd_bytes = 0, rd_disk = new_disk b env\<rparr>) (\<lambda>st0.
     res_bind (spill b env st0) (\<lambda>st.
       if rd_count st = 0 then Inl ''invalid_tree_size''
       else res_bind (merge_runs b env (rd_runs st) (rd_disk st)) (\<lambda>(runs, d).
         res_bind (run_records (nat (the (record_limit b))) (hd runs)) (\<lambda>pairs.
         res_bind (write_leaves H b env pairs None 0 0 d) (\<lambda>(leaves, entries, d1).
         res_bind (disk_check b env ((2 * int (rd_count st) - 1) * 32) d1) (\<lambda>d2.
         res_bind (build_nodes H b env leaves 0 (rd_count st) 0 Map.empty d2) (\<lambda>(rt, nodes, d3).
           Inr \<lparr>dt_rows = hd runs, dt_index = entries, dt_nodes = nodes, dt_count = rd_count st,
                dt_root = rt, dt_schema = sd, dt_canonical_bytes = rd_bytes st\<rparr>))))))))"

section \<open>Proofs from the index\<close>

function walk_siblings :: "slots \<Rightarrow> nat \<Rightarrow> nat \<Rightarrow> nat \<Rightarrow> nat \<Rightarrow> cerror + sibling list" where
  "walk_siblings nodes index position start sz =
     (if sz \<le> 1 then Inr []
      else res_bind (largest_power_of_two_less_than sz) (\<lambda>split.
        if index < start + split
        then res_bind (walk_siblings nodes index (position + 1) start split) (\<lambda>ss.
          Inr (\<lparr>sib_hash = slot nodes (position + 2 * split), sib_dir = RightSibling\<rparr> # ss))
        else res_bind (walk_siblings nodes index (position + 2 * split) (start + split) (sz - split)) (\<lambda>ss.
          Inr (\<lparr>sib_hash = slot nodes (position + 1), sib_dir = LeftSibling\<rparr> # ss))))"
  by pat_completeness auto
termination
  by (relation "measure (\<lambda>(n, i, p, s, sz). sz)") (auto dest: split_SomeD)

declare walk_siblings.simps [simp del]

record disk_proof =
  dp_base :: bytes
  dp_ordinal :: nat
  dp_index :: nat
  dp_size :: nat
  dp_siblings :: "sibling list"

definition tree_proof :: "disk_tree \<Rightarrow> num_arg \<Rightarrow> cerror + disk_proof" where
  "tree_proof t index =
     (case index of NotNum \<Rightarrow> Inl ''invalid_inclusion_proof''
      | Num i \<Rightarrow>
          (if i < 0 \<or> i \<ge> int (dt_count t) then Inl ''invalid_inclusion_proof''
           else res_bind (walk_siblings (dt_nodes t) (nat i) 0 0 (dt_count t)) (\<lambda>siblings.
             let e = dt_index t ! nat i
             in Inr \<lparr>dp_base = ix_base e, dp_ordinal = ix_ordinal e, dp_index = nat i, dp_size = dt_count t,
                     dp_siblings = rev siblings\<rparr>)))"

section \<open>Files of records are read back\<close>

definition pair_ok :: "nat \<Rightarrow> pair \<Rightarrow> bool" where
  "pair_ok limit p \<longleftrightarrow> length (fst p) = 32 \<and> length (snd p) \<le> limit"

lemma write_records_out:
  "write_records b env ps out d = Inr (out', d') \<Longrightarrow> out' = out @ concat (map record_bytes ps)"
  by (induction ps arbitrary: out d) fastforce+

lemma run_records_step:
  assumes "length base = 32" and "length lb = 4" and "be_value lb = length row" and "length row \<le> limit"
  shows "run_records limit (base @ lb @ row @ rest) = res_bind (run_records limit rest) (\<lambda>rs. Inr ((base, row) # rs))"
proof -
  have ne: "base @ lb @ row @ rest \<noteq> []" using assms(1) by auto
  have h: "take 36 (base @ lb @ row @ rest) = base @ lb" "drop 36 (base @ lb @ row @ rest) = row @ rest"
    using assms(1,2) by simp_all
  have t: "take 32 (base @ lb) = base" "drop 32 (base @ lb) = lb" "length (base @ lb) = 36" using assms(1,2) by simp_all
  have d: "drop (36 + length row) (base @ lb @ row @ rest) = rest"
    by (simp only: add.commute [of 36] drop_drop [symmetric] h append_eq_conv_conj) simp
  have r: "take (length row) (row @ rest) = row" by simp
  have l: "\<not> length row > limit" using assms(4) by simp
  show ?thesis
    by (subst run_records.simps) (simp only: ne if_False Let_def h t assms(3) d r l simp_thms not_True_eq_False)
qed

lemma run_records_write:
  assumes "limit < 2 ^ 32" and "list_all (pair_ok limit) ps"
  shows "run_records limit (concat (map record_bytes ps)) = Inr ps"
  using assms(2)
proof (induction ps)
  case Nil
  show ?case by (simp add: run_records.simps)
next
  case (Cons p ps)
  obtain base row where p: "p = (base, row)" by (cases p)
  have l: "length base = 32" "length row \<le> limit" using Cons.prems by (simp_all add: p pair_ok_def)
  have "be_value (be_bytes 4 (length row)) = length row" using l assms(1) by (intro be_roundtrip) simp
  from run_records_step [OF l(1) length_be_bytes this l(2)]
  have "run_records limit (concat (map record_bytes (p # ps)))
      = res_bind (run_records limit (concat (map record_bytes ps))) (\<lambda>rs. Inr ((base, row) # rs))"
    by (simp add: p record_bytes_def)
  then show ?case using Cons by (simp add: p)
qed

text \<open>A run: the file of sorted pairs that are within the limit.\<close>

definition run_of :: "nat \<Rightarrow> bytes \<Rightarrow> pair list \<Rightarrow> bool" where
  "run_of limit s ps \<longleftrightarrow> s = concat (map record_bytes ps) \<and> sorted ps \<and> list_all (pair_ok limit) ps"

lemma run_of_records: "limit < 2 ^ 32 \<Longrightarrow> run_of limit s ps \<Longrightarrow> run_records limit s = Inr ps"
  using run_records_write by (simp add: run_of_def)

definition runs_hold :: "nat \<Rightarrow> bytes list \<Rightarrow> pair multiset \<Rightarrow> bool" where
  "runs_hold limit runs M \<longleftrightarrow> (\<exists>pss. list_all2 (run_of limit) runs pss \<and> mset (concat pss) = M)"

lemma runs_hold_snoc: "runs_hold limit runs M \<Longrightarrow> run_of limit s ps \<Longrightarrow> runs_hold limit (runs @ [s]) (M + mset ps)"
proof -
  assume "runs_hold limit runs M" and r: "run_of limit s ps"
  then obtain pss where "list_all2 (run_of limit) runs pss" "mset (concat pss) = M" by (auto simp: runs_hold_def)
  then have "list_all2 (run_of limit) (runs @ [s]) (pss @ [ps])" "mset (concat (pss @ [ps])) = M + mset ps"
    using r by (simp_all add: list_all2_appendI)
  then show ?thesis unfolding runs_hold_def by blast
qed

lemma runs_hold_append:
  "runs_hold limit (xs @ ys) M \<longleftrightarrow> (\<exists>A B. runs_hold limit xs A \<and> runs_hold limit ys B \<and> M = A + B)"
proof
  assume "runs_hold limit (xs @ ys) M"
  then obtain pss where p: "list_all2 (run_of limit) (xs @ ys) pss" "mset (concat pss) = M" by (auto simp: runs_hold_def)
  then obtain us vs where "pss = us @ vs" "list_all2 (run_of limit) xs us" "list_all2 (run_of limit) ys vs"
    by (auto simp: list_all2_append1)
  with p(2) show "\<exists>A B. runs_hold limit xs A \<and> runs_hold limit ys B \<and> M = A + B"
    unfolding runs_hold_def by auto
next
  assume "\<exists>A B. runs_hold limit xs A \<and> runs_hold limit ys B \<and> M = A + B"
  then obtain us vs where "list_all2 (run_of limit) xs us" "list_all2 (run_of limit) ys vs" "M = mset (concat us) + mset (concat vs)"
    unfolding runs_hold_def by auto
  then have "list_all2 (run_of limit) (xs @ ys) (us @ vs)" "mset (concat (us @ vs)) = M"
    by (simp_all add: list_all2_appendI)
  then show "runs_hold limit (xs @ ys) M" unfolding runs_hold_def by blast
qed

lemma runs_hold_Nil [simp]: "runs_hold limit [] M \<longleftrightarrow> M = {#}"
  by (auto simp: runs_hold_def)

lemma runs_hold_single: "runs_hold limit [s] M \<longleftrightarrow> (\<exists>ps. run_of limit s ps \<and> mset ps = M)"
  by (auto simp: runs_hold_def list_all2_Cons1)

section \<open>Reading\<close>

definition reader_inv :: "nat \<Rightarrow> reader \<Rightarrow> pair multiset \<Rightarrow> bool" where
  "reader_inv limit st M \<longleftrightarrow> (\<exists>R. runs_hold limit (rd_runs st) R \<and> M = R + mset (rd_batch st))
     \<and> list_all (pair_ok limit) (rd_batch st) \<and> rd_count st = size M"

lemma spill_inv:
  assumes "spill b env st = Inr st'" and "reader_inv limit st M"
  shows "reader_inv limit st' M \<and> rd_batch st' = [] \<and> rd_count st' = rd_count st \<and> rd_bytes st' = rd_bytes st"
proof (cases "rd_batch st = []")
  case True
  then show ?thesis using assms by (simp add: spill_def)
next
  case False
  then obtain d out d1 where w: "write_records b env (sort (rd_batch st)) [] d = Inr (out, d1)"
      "st' = st\<lparr>rd_runs := rd_runs st @ [out], rd_batch := [], rd_used := 0, rd_disk := d1\<rparr>"
    using assms(1) by (auto simp: spill_def)
  obtain R where R: "runs_hold limit (rd_runs st) R" "M = R + mset (rd_batch st)"
    using assms(2) by (auto simp: reader_inv_def)
  have "run_of limit out (sort (rd_batch st))"
    using write_records_out [OF w(1)] assms(2) by (simp add: run_of_def reader_inv_def list_all_iff)
  from runs_hold_snoc [OF R(1) this] show ?thesis
    using R(2) w(2) assms(2) by (simp add: reader_inv_def)
qed

lemma reader_inv_empty:
  assumes "reader_inv limit st M" and "rd_batch st = []"
  shows "runs_hold limit (rd_runs st) M" and "rd_count st = size M"
  using assms by (auto simp: reader_inv_def)

lemma disk_of_reader [simp]: "reader_inv limit (st\<lparr>rd_disk := d\<rparr>) M = reader_inv limit st M"
  by (simp add: reader_inv_def)

lemma read_rows_step:
  assumes "read_rows H b env cost sd (row # rows) st = Inr st'"
  obtains r dk base st1 where "row = Some r" and "compute_base_row_digest H sd r = Inr base"
    and "\<not> int (length r) > the (record_limit b)"
    and "st1 = st\<lparr>rd_disk := dk\<rparr> \<or> spill b env (st\<lparr>rd_disk := dk\<rparr>) = Inr st1"
    and "int (rd_count st1 + 1) \<le> MAX_TREE_SIZE"
    and "read_rows H b env cost sd rows (st1\<lparr>rd_batch := rd_batch st1 @ [(base, r)], rd_used := rd_used st1 + cost r,
                           rd_count := rd_count st1 + 1, rd_bytes := rd_bytes st1 + length r\<rparr>) = Inr st'"
proof -
  obtain r where r: "row = Some r" using assms by (cases row) auto
  let ?next = "\<lambda>base st1. st1\<lparr>rd_batch := rd_batch st1 @ [(base, r)], rd_used := rd_used st1 + cost r,
                           rd_count := rd_count st1 + 1, rd_bytes := rd_bytes st1 + length r\<rparr>"
  obtain dk base st1 where c: "\<not> int (length r) > the (record_limit b)" "compute_base_row_digest H sd r = Inr base"
      "(if int (rd_used st + cost r) > the (run_bytes b) then spill b env (st\<lparr>rd_disk := dk\<rparr>)
                     else Inr (st\<lparr>rd_disk := dk\<rparr>)) = Inr st1"
      "(if int (rd_count (?next base st1)) > MAX_TREE_SIZE then Inl ''invalid_tree_size''
        else read_rows H b env cost sd rows (?next base st1)) = Inr st'"
    using assms unfolding read_rows.simps r option.case res_bind_eq_Inr if_Inr_iff Let_def by blast
  show ?thesis
    by (rule that [OF r c(2,1), of st1 dk]) (use c(3,4) in \<open>auto split: if_split_asm\<close>)
qed

context digest32
begin

lemma base_digest_length: "compute_base_row_digest H sd r = Inr base \<Longrightarrow> length base = 32"
  by (auto simp: compute_base_row_digest_def digest_length)

lemma base_digest_known: "compute_base_row_digest H sd r = Inr base \<Longrightarrow>
    \<exists>d. decode_digest sd = Inr d \<and> base = H (base_input d r)"
  by (auto simp: compute_base_row_digest_def base_input_def)

lemma read_rows_inv:
  assumes "read_rows H b env cost sd rows st = Inr st'" and "reader_inv (nat (the (record_limit b))) st M"
    and "0 \<le> the (record_limit b)" and "decode_digest sd = Inr d"
  shows "list_all (\<lambda>r. r \<noteq> None) rows
    \<and> reader_inv (nat (the (record_limit b))) st' (M + mset (map (\<lambda>r. (H (base_input d (the r)), the r)) rows))"
  using assms(1,2)
proof (induction rows arbitrary: st M)
  case (Cons row rows)
  let ?l = "nat (the (record_limit b))"
  from Cons.prems(1) show ?case
  proof (rule read_rows_step)
    fix r dk base st1
    assume r: "row = Some r" and c: "compute_base_row_digest H sd r = Inr base" and n: "\<not> int (length r) > the (record_limit b)"
      and s: "st1 = st\<lparr>rd_disk := dk\<rparr> \<or> spill b env (st\<lparr>rd_disk := dk\<rparr>) = Inr st1"
      and rest: "read_rows H b env cost sd rows (st1\<lparr>rd_batch := rd_batch st1 @ [(base, r)], rd_used := rd_used st1 + cost r,
                           rd_count := rd_count st1 + 1, rd_bytes := rd_bytes st1 + length r\<rparr>) = Inr st'"
    have "reader_inv ?l st1 M"
      using s spill_inv [of b env "st\<lparr>rd_disk := dk\<rparr>" st1 ?l M] Cons.prems(2) by auto
    moreover have "pair_ok ?l (base, r)" using base_digest_length [OF c] n by (simp add: pair_ok_def)
    ultimately have "reader_inv ?l (st1\<lparr>rd_batch := rd_batch st1 @ [(base, r)], rd_used := rd_used st1 + cost r,
                           rd_count := rd_count st1 + 1, rd_bytes := rd_bytes st1 + length r\<rparr>) (M + {#(base, r)#})"
      by (auto simp: reader_inv_def)
    from Cons.IH [OF rest this] base_digest_known [OF c] show ?thesis using assms(4) by (simp add: r)
  qed
qed (simp add: assms)

end

section \<open>Merging sorts\<close>

lemma merge2_mset: "mset (merge2 xs ys) = mset xs + mset ys"
  by (induction xs ys rule: merge2.induct) simp_all

lemma merge2_sorted: "sorted xs \<Longrightarrow> sorted ys \<Longrightarrow> sorted (merge2 xs ys)"
proof (induction xs ys rule: merge2.induct)
  case (3 x xs y ys)
  have s: "set (merge2 us vs) = set us \<union> set vs" for us vs
    using merge2_mset [of us vs] by (metis set_mset_mset set_mset_union)
  show ?case using 3 by (auto simp: s)
qed simp_all

lemma heap_merge_mset: "mset (heap_merge pss) = mset (concat pss)"
  unfolding heap_merge_def by (induction pss) (simp_all add: merge2_mset)

lemma heap_merge_sorted: "list_all sorted pss \<Longrightarrow> sorted (heap_merge pss)"
  unfolding heap_merge_def by (induction pss) (simp_all add: merge2_sorted)

lemma groups_of_4_concat: "concat (groups_of_4 xs) = xs"
proof (induction xs rule: groups_of_4.induct)
  case (2 x xs)
  have "take 3 xs @ drop 3 xs = xs" by simp
  with 2 show ?case by simp
qed simp

lemma merge_group_holds:
  assumes "merge_group b env grp d = Inr (out, d')" and "runs_hold limit grp M"
    and "limit = nat (the (record_limit b))" and "limit < 2 ^ 32"
  shows "runs_hold limit [out] M"
proof -
  obtain pss where p: "list_all2 (run_of limit) grp pss" "mset (concat pss) = M"
    using assms(2) by (auto simp: runs_hold_def)
  have "res_map (run_records limit) grp = Inr pss"
    unfolding res_map_iff using p(1) run_of_records [OF assms(4)] by (rule list_all2_mono)
  then obtain d1 where w: "write_records b env (heap_merge pss) [] d = Inr (out, d1)"
    using assms(1,3) by (auto simp: merge_group_def)
  have ok: "list_all sorted pss" "\<forall>ps\<in>set pss. list_all (pair_ok limit) ps"
    using p(1) by (induction grp pss rule: list_all2_induct) (simp_all add: run_of_def)
  have "set (heap_merge pss) = set (concat pss)" using heap_merge_mset by (metis set_mset_mset)
  then have "list_all (pair_ok limit) (heap_merge pss)" using ok(2) by (auto simp: list_all_iff)
  then have "run_of limit out (heap_merge pss)"
    using write_records_out [OF w] heap_merge_sorted [OF ok(1)] by (simp add: run_of_def)
  then show ?thesis unfolding runs_hold_single using heap_merge_mset p(2) by metis
qed

lemma merge_round_holds:
  assumes "merge_round b env gs d = Inr (outs, d')" and "runs_hold limit (concat gs) M"
    and "limit = nat (the (record_limit b))" and "limit < 2 ^ 32"
  shows "runs_hold limit outs M"
  using assms(1,2)
proof (induction gs arbitrary: d outs d' M)
  case (Cons g gs)
  obtain A B where ab: "runs_hold limit g A" "runs_hold limit (concat gs) B" "M = A + B"
    using Cons.prems(2) by (auto simp: runs_hold_append)
  obtain out d1 rest where r: "merge_group b env g d = Inr (out, d1)" "merge_round b env gs d1 = Inr (rest, d')" "outs = out # rest"
    using Cons.prems(1) by auto
  have "runs_hold limit [out] A" by (rule merge_group_holds [OF r(1) ab(1) assms(3,4)])
  moreover have "runs_hold limit rest B" by (rule Cons.IH [OF r(2) ab(2)])
  ultimately have "runs_hold limit ([out] @ rest) M" unfolding runs_hold_append ab(3) by blast
  then show ?case by (simp add: r(3))
qed simp

lemma merge_runs_holds:
  "merge_runs b env runs d = Inr (runs', d') \<Longrightarrow> runs_hold limit runs M \<Longrightarrow>
    limit = nat (the (record_limit b)) \<Longrightarrow> limit < 2 ^ 32 \<Longrightarrow> runs_hold limit runs' M \<and> length runs' \<le> 1"
proof (induction b env runs d rule: merge_runs.induct)
  case (1 b env runs d)
  show ?case
  proof (cases "length runs \<le> 1")
    case True
    then show ?thesis using "1.prems" by (simp add: merge_runs.simps)
  next
    case False
    then obtain merged d1 where m: "merge_round b env (groups_of_4 runs) d = Inr (merged, d1)"
        "merge_runs b env merged d1 = Inr (runs', d')"
      using "1.prems"(1) by (subst (asm) merge_runs.simps) auto
    have "runs_hold limit merged M"
      by (rule merge_round_holds [OF m(1) _ "1.prems"(3,4)]) (simp add: groups_of_4_concat "1.prems"(2))
    then show ?thesis using "1.IH" [OF False m(1) refl m(2)] "1.prems"(3,4) by simp
  qed
qed

section \<open>Ordinals of equal rows\<close>

text \<open>In a sorted list the ordinal of an entry is the number of equal entries before it.\<close>

definition dup_ordinal :: "'a list \<Rightarrow> nat \<Rightarrow> nat" where
  "dup_ordinal ps i = count_list (take i ps) (ps ! i)"

lemma write_leaves_spec:
  assumes "write_leaves H b env ps prev n off d = Inr (ls, es, d')" and "sorted (pre @ ps)"
    and "prev = (if pre = [] then None else Some (last pre))"
    and "pre \<noteq> [] \<Longrightarrow> count_list pre (last pre) = Suc n"
  shows "length ls = length ps \<and> length es = length ps \<and>
    (\<forall>i < length ps. compute_leaf_hash H (Raw (fst (ps ! i))) (Num (int (dup_ordinal (pre @ ps) (length pre + i)))) = Inr (ls ! i)
       \<and> ix_ordinal (es ! i) = dup_ordinal (pre @ ps) (length pre + i) \<and> ix_base (es ! i) = fst (ps ! i)
       \<and> ix_length (es ! i) = length (snd (ps ! i))
       \<and> ix_offset (es ! i) = off + length (concat (map (\<lambda>p. replicate (36 + length (snd p)) ()) (take i ps))))"
  using assms
proof (induction ps arbitrary: prev n off d ls es pre)
  case (Cons p ps)
  let ?n = "if Some p = prev then n + 1 else 0"
  obtain d1 leaf ls' es' where w: "compute_leaf_hash H (Raw (fst p)) (Num (int ?n)) = Inr leaf"
      "write_leaves H b env ps (Some p) ?n (off + 36 + length (snd p)) d1 = Inr (ls', es', d')"
      "ls = leaf # ls'" "es = \<lparr>ix_offset = off, ix_length = length (snd p), ix_ordinal = ?n, ix_base = fst p\<rparr> # es'"
    using Cons.prems(1) by (auto simp: Let_def)
  have n: "count_list pre p = ?n"
  proof (cases "Some p = prev")
    case True
    then show ?thesis using Cons.prems(3,4) by (auto split: if_split_asm)
  next
    case False
    have "p \<notin> set pre"
    proof
      assume p: "p \<in> set pre"
      then obtain us z where us: "pre = us @ [z]" by (cases pre rule: rev_cases) auto
      have "z \<le> p" using Cons.prems(2) by (simp add: us sorted_append)
      moreover have "p \<le> z" using Cons.prems(2) p by (auto simp: us sorted_append)
      ultimately show False using False Cons.prems(3) us by simp
    qed
    then show ?thesis using False by (simp add: count_notin)
  qed
  have IH: "length ls' = length ps \<and> length es' = length ps \<and>
    (\<forall>i < length ps. compute_leaf_hash H (Raw (fst (ps ! i))) (Num (int (dup_ordinal ((pre @ [p]) @ ps) (length (pre @ [p]) + i)))) = Inr (ls' ! i)
       \<and> ix_ordinal (es' ! i) = dup_ordinal ((pre @ [p]) @ ps) (length (pre @ [p]) + i) \<and> ix_base (es' ! i) = fst (ps ! i)
       \<and> ix_length (es' ! i) = length (snd (ps ! i))
       \<and> ix_offset (es' ! i) = off + 36 + length (snd p) + length (concat (map (\<lambda>p. replicate (36 + length (snd p)) ()) (take i ps))))"
    by (rule Cons.IH [OF w(2)]) (use Cons.prems(2) n in simp_all)
  have o: "dup_ordinal (pre @ p # ps) (length pre) = ?n" using n by (simp add: dup_ordinal_def)
  show ?case
  proof (intro conjI allI impI)
    show "length ls = length (p # ps)" "length es = length (p # ps)" using IH w(3,4) by simp_all
  next
    fix i assume i: "i < length (p # ps)"
    show "compute_leaf_hash H (Raw (fst ((p # ps) ! i))) (Num (int (dup_ordinal (pre @ p # ps) (length pre + i)))) = Inr (ls ! i)"
      using IH i w(1,3) o by (cases i) simp_all
    show "ix_ordinal (es ! i) = dup_ordinal (pre @ p # ps) (length pre + i)" using IH i w(4) o by (cases i) simp_all
    show "ix_base (es ! i) = fst ((p # ps) ! i)" using IH i w(4) by (cases i) simp_all
    show "ix_length (es ! i) = length (snd ((p # ps) ! i))" using IH i w(4) by (cases i) simp_all
    show "ix_offset (es ! i) = off + length (concat (map (\<lambda>p. replicate (36 + length (snd p)) ()) (take i (p # ps))))"
      using IH i w(4) by (cases i) simp_all
  qed
qed simp

section \<open>The nodes on disk\<close>

function holds_tree :: "hash_fun \<Rightarrow> slots \<Rightarrow> nat \<Rightarrow> bytes list \<Rightarrow> bool" where
  "holds_tree H n pos xs \<longleftrightarrow> n pos = Some (mth H xs) \<and>
     (1 < length xs \<longrightarrow> holds_tree H n (pos + 1) (take (pow2_below (length xs)) xs)
        \<and> holds_tree H n (pos + 2 * pow2_below (length xs)) (drop (pow2_below (length xs)) xs))"
  by pat_completeness auto
termination
  by (relation "measure (\<lambda>(H, n, pos, xs). length xs)") (auto simp: pow2_below_bounds)

declare holds_tree.simps [simp del]

lemma holds_treeD:
  assumes "holds_tree H n pos xs"
  shows "n pos = Some (mth H xs)"
    and "1 < length xs \<Longrightarrow> holds_tree H n (pos + 1) (take (pow2_below (length xs)) xs)"
    and "1 < length xs \<Longrightarrow> holds_tree H n (pos + 2 * pow2_below (length xs)) (drop (pow2_below (length xs)) xs)"
  using assms by (simp_all add: holds_tree.simps [of H n pos xs])

lemma holds_tree_cong:
  "(\<And>q. pos \<le> q \<Longrightarrow> q < pos + 2 * length xs - 1 \<Longrightarrow> n q = n' q) \<Longrightarrow> 0 < length xs
     \<Longrightarrow> holds_tree H n pos xs \<Longrightarrow> holds_tree H n' pos xs"
proof (induction "length xs" arbitrary: pos xs rule: less_induct)
  case less
  let ?k = "pow2_below (length xs)"
  have "pos < pos + 2 * length xs - 1" using less.prems(2) by linarith
  then have "n pos = n' pos" using less.prems(1) by blast
  show ?case
  proof (cases "1 < length xs")
    case True
    note k = pow2_below_bounds [OF True]
    have h: "holds_tree H n (pos + 1) (take ?k xs)" "holds_tree H n (pos + 2 * ?k) (drop ?k xs)" "n pos = Some (mth H xs)"
      using holds_treeD [OF less.prems(3)] True by simp_all
    have "holds_tree H n' (pos + 1) (take ?k xs)"
      by (rule less.hyps [OF _ _ _ h(1)]) (use k less.prems(1) in \<open>simp_all add: min_def\<close>)
    moreover have "holds_tree H n' (pos + 2 * ?k) (drop ?k xs)"
      by (rule less.hyps [OF _ _ _ h(2)]) (use k less.prems(1) in simp_all)
    ultimately show ?thesis using h(3) \<open>n pos = n' pos\<close> by (subst holds_tree.simps) simp
  next
    case False
    then show ?thesis using less.prems(3) \<open>n pos = n' pos\<close>
      by (subst holds_tree.simps, subst (asm) holds_tree.simps) simp
  qed
qed

lemma walk_siblings_mpath:
  "holds_tree H n pos xs \<Longrightarrow> start \<le> i \<Longrightarrow> i < start + length xs \<Longrightarrow>
     walk_siblings n i pos start (length xs) = Inr (rev (mpath H xs (i - start)))"
proof (induction "length xs" arbitrary: pos start xs rule: less_induct)
  case less
  let ?k = "pow2_below (length xs)"
  show ?case
  proof (cases "1 < length xs")
    case False
    then show ?thesis by (simp add: walk_siblings.simps [of n i pos start] mpath.simps [of H xs])
  next
    case True
    note k = pow2_below_bounds [OF True]
    note h = holds_treeD(2,3) [OF less.prems(1) True]
    show ?thesis
    proof (cases "i < start + ?k")
      case F: True
      have "walk_siblings n i (pos + 1) start (length (take ?k xs)) = Inr (rev (mpath H (take ?k xs) (i - start)))"
        by (rule less.hyps [OF _ h(1)]) (use k less.prems F in simp_all)
      moreover have "slot n (pos + 2 * ?k) = mth H (drop ?k xs)" using holds_treeD(1) [OF h(2)] by (simp add: slot_def)
      ultimately show ?thesis using True F k less.prems
        by (subst walk_siblings.simps) (simp add: split_eq mpath.simps [of H xs] Let_def min_def less_diff_conv2)
    next
      case F: False
      have "walk_siblings n i (pos + 2 * ?k) (start + ?k) (length (drop ?k xs)) = Inr (rev (mpath H (drop ?k xs) (i - (start + ?k))))"
        by (rule less.hyps [OF _ h(2)]) (use k less.prems F in simp_all)
      moreover have "slot n (pos + 1) = mth H (take ?k xs)" using holds_treeD(1) [OF h(1)] by (simp add: slot_def)
      ultimately show ?thesis using True F k less.prems
        by (subst walk_siblings.simps) (simp add: split_eq mpath.simps [of H xs] Let_def less_diff_conv2)
    qed
  qed
qed

context digest32
begin

lemma build_nodes_one:
  "build_nodes H b env leaves start 1 pos n d =
     res_bind (disk_check b env 0 d) (\<lambda>d1. Inr (leaves ! start, n(pos \<mapsto> leaves ! start), d1))"
  by (subst build_nodes.simps) simp

lemma build_nodes_spec:
  "build_nodes H b env leaves start sz pos n d = Inr (h, n', d') \<Longrightarrow> digests leaves \<Longrightarrow> 0 < sz
     \<Longrightarrow> start + sz \<le> length leaves \<Longrightarrow>
     h = mth H (take sz (drop start leaves)) \<and> holds_tree H n' pos (take sz (drop start leaves))
     \<and> (\<forall>q. q < pos \<or> pos + 2 * sz - 1 \<le> q \<longrightarrow> n' q = n q)"
proof (induction sz arbitrary: start pos n d h n' d' rule: less_induct)
  case (less sz)
  let ?xs = "take sz (drop start leaves)" and ?k = "pow2_below sz"
  have len: "length ?xs = sz" using less.prems by simp
  show ?case
  proof (cases "sz = 1")
    case True
    then have "h = leaves ! start \<and> n' = n(pos \<mapsto> h)"
      using less.prems(1) [unfolded True build_nodes_one res_bind_eq_Inr] by auto
    then have "h = leaves ! start" "n' = n(pos \<mapsto> h)" by blast+
    moreover have "?xs = [leaves ! start]" using True less.prems by (simp add: take_one_drop)
    ultimately show ?thesis using True by (subst holds_tree.simps) auto
  next
    case False
    then have sz: "1 < sz" using less.prems by linarith
    note k = pow2_below_bounds [OF sz]
    obtain d1 l n1 d2 r n2 where b: "build_nodes H b env leaves start ?k (pos + 1) n d1 = Inr (l, n1, d2)"
        "build_nodes H b env leaves (start + ?k) (sz - ?k) (pos + 2 * ?k) n1 d2 = Inr (r, n2, d')"
        "compute_node_hash H (Raw l) (Raw r) = Inr h" "n' = n2(pos \<mapsto> h)"
      using less.prems(1) False sz by (auto simp: split_eq build_nodes.simps [of H b env leaves start sz])
    have L: "l = mth H (take ?k (drop start leaves))" "holds_tree H n1 (pos + 1) (take ?k (drop start leaves))"
        "\<forall>q. q < pos + 1 \<or> pos + 1 + 2 * ?k - 1 \<le> q \<longrightarrow> n1 q = n q"
      using less.IH [OF k(2) b(1)] less.prems k by simp_all
    have R: "r = mth H (take (sz - ?k) (drop (start + ?k) leaves))" "holds_tree H n2 (pos + 2 * ?k) (take (sz - ?k) (drop (start + ?k) leaves))"
        "\<forall>q. q < pos + 2 * ?k \<or> pos + 2 * ?k + 2 * (sz - ?k) - 1 \<le> q \<longrightarrow> n2 q = n1 q"
      using less.IH [OF _ b(2)] less.prems k by simp_all
    have tk: "take ?k ?xs = take ?k (drop start leaves)" "drop ?k ?xs = take (sz - ?k) (drop (start + ?k) leaves)"
      using k by (simp_all add: min_def drop_take add.commute)
    have dl: "length l = 32" "length r = 32"
      unfolding L(1) R(1) using mth_slice_digest [OF less.prems(2)] less.prems(4) k by simp_all
    have h: "h = mth H ?xs"
      using b(3) compute_node_hash_Inr [OF dl] slice_split [OF sz less.prems(4)] L(1) R(1) by simp
    have lt: "length (take ?k (drop start leaves)) = ?k" using less.prems(4) k by simp
    have rt: "length (take (sz - ?k) (drop (start + ?k) leaves)) = sz - ?k" using less.prems(4) k by simp
    have "holds_tree H n' (pos + 1) (take ?k (drop start leaves))"
      by (rule holds_tree_cong [OF _ _ L(2)]) (use R(3) b(4) k in \<open>simp_all only: lt fun_upd_apply, auto\<close>)
    moreover have "holds_tree H n' (pos + 2 * ?k) (take (sz - ?k) (drop (start + ?k) leaves))"
      by (rule holds_tree_cong [OF _ _ R(2)]) (use b(4) k in \<open>simp_all only: rt fun_upd_apply, auto\<close>)
    ultimately have "holds_tree H n' pos ?xs"
      by (subst holds_tree.simps) (use b(4) h len tk sz in simp)
    moreover have "n' q = n q" if "q < pos \<or> pos + 2 * sz - 1 \<le> q" for q
    proof -
      have "pos + 2 * ?k + 2 * (sz - ?k) = pos + 2 * sz" using k by simp
      with that have q: "q < pos + 1 \<or> pos + 1 + 2 * ?k - 1 \<le> q" "q < pos + 2 * ?k \<or> pos + 2 * ?k + 2 * (sz - ?k) - 1 \<le> q"
          "q \<noteq> pos"
        using k sz by linarith+
      show ?thesis using L(3) [rule_format, OF q(1)] R(3) [rule_format, OF q(2)] b(4) q(3) by simp
    qed
    ultimately show ?thesis using h by blast
  qed
qed

lemma spill_count: "spill b env st = Inr st' \<Longrightarrow> rd_count st' = rd_count st"
  by (auto simp: spill_def split: if_split_asm)

lemma read_rows_count:
  "read_rows H b env cost sd rows st = Inr st' \<Longrightarrow> int (rd_count st) \<le> MAX_TREE_SIZE
     \<Longrightarrow> int (rd_count st') \<le> MAX_TREE_SIZE \<and> (rows \<noteq> [] \<longrightarrow> (\<exists>d. decode_digest sd = Inr d))"
proof (induction rows arbitrary: st)
  case (Cons row rows)
  from Cons.prems(1) show ?case
  proof (rule read_rows_step)
    fix r dk base st1
    assume b: "compute_base_row_digest H sd r = Inr base" and n: "int (rd_count st1 + 1) \<le> MAX_TREE_SIZE"
      and rest: "read_rows H b env cost sd rows (st1\<lparr>rd_batch := rd_batch st1 @ [(base, r)], rd_used := rd_used st1 + cost r,
                           rd_count := rd_count st1 + 1, rd_bytes := rd_bytes st1 + length r\<rparr>) = Inr st'"
    show ?thesis using Cons.IH [OF rest] n base_digest_known [OF b] by auto
  qed
qed simp

lemma budget_limit: "validate_budget b = Inr u \<Longrightarrow> 0 \<le> the (record_limit b) \<and> nat (the (record_limit b)) < 2 ^ 32"
  by (auto simp: validate_budget_def split: if_split_asm option.splits)

text \<open>What a finished build holds.\<close>

definition tree_of :: "hash_arg \<Rightarrow> bytes list \<Rightarrow> disk_tree \<Rightarrow> pair list \<Rightarrow> bytes list \<Rightarrow> bool" where
  "tree_of sd rows t ps hs \<longleftrightarrow>
     (\<exists>d. decode_digest sd = Inr d \<and> mset ps = mset (map (\<lambda>r. (H (base_input d r), r)) rows))
     \<and> sorted ps \<and> dt_count t = length ps \<and> ps \<noteq> [] \<and> int (length ps) \<le> MAX_TREE_SIZE
     \<and> res_map (row_leaf H sd) (map (\<lambda>i. (snd (ps ! i), dup_ordinal ps i)) [0..<length ps]) = Inr hs
     \<and> dt_root t = mth H hs \<and> holds_tree H (dt_nodes t) 0 hs
     \<and> (\<forall>i < length ps. ix_ordinal (dt_index t ! i) = dup_ordinal ps i \<and> ix_base (dt_index t ! i) = fst (ps ! i))"

lemma build_disk_tree_holds:
  assumes "build_disk_tree H b env cost sd rows = Inr t"
  shows "list_all (\<lambda>r. r \<noteq> None) rows \<and> (\<exists>ps hs. tree_of sd (map the rows) t ps hs)"
proof -
  let ?l = "nat (the (record_limit b))"
  let ?s0 = "\<lparr>rd_runs = [], rd_batch = [], rd_used = 0, rd_count = 0, rd_bytes = 0, rd_disk = new_disk b env\<rparr>"
  obtain u st0 st runs d pairs leaves entries d1 d2 rt nodes d3 where
    v: "validate_budget b = Inr u" and r: "read_rows H b env cost sd rows ?s0 = Inr st0"
    and sp: "spill b env st0 = Inr st" and c0: "rd_count st \<noteq> 0"
    and m: "merge_runs b env (rd_runs st) (rd_disk st) = Inr (runs, d)"
    and rr: "run_records ?l (hd runs) = Inr pairs"
    and w: "write_leaves H b env pairs None 0 0 d = Inr (leaves, entries, d1)"
    and ck: "disk_check b env ((2 * int (rd_count st) - 1) * 32) d1 = Inr d2"
    and bn: "build_nodes H b env leaves 0 (rd_count st) 0 Map.empty d2 = Inr (rt, nodes, d3)"
    and t': "Inr \<lparr>dt_rows = hd runs, dt_index = entries, dt_nodes = nodes, dt_count = rd_count st,
                dt_root = rt, dt_schema = sd, dt_canonical_bytes = rd_bytes st\<rparr> = (Inr t :: cerror + disk_tree)"
    using assms unfolding build_disk_tree_def
    by (elim res_bind3E res_bind2E res_bindE if_InrE) (rule that)
  have t: "t = \<lparr>dt_rows = hd runs, dt_index = entries, dt_nodes = nodes, dt_count = rd_count st,
                dt_root = rt, dt_schema = sd, dt_canonical_bytes = rd_bytes st\<rparr>"
    using t' by simp
  note l = budget_limit [OF v]
  have i0: "reader_inv ?l ?s0 {#}" by (simp add: reader_inv_def)
  have ne: "rows \<noteq> []" using r c0 sp spill_count by fastforce
  obtain dg where dg: "decode_digest sd = Inr dg"
    using read_rows_count [OF r] ne by (auto simp: MAX_TREE_SIZE_def)
  let ?M = "mset (map (\<lambda>r. (H (base_input dg (the r)), the r)) rows)"
  have rows: "list_all (\<lambda>r. r \<noteq> None) rows" and i1: "reader_inv ?l st0 ?M"
    using read_rows_inv [OF r i0 conjunct1 [OF l] dg] by simp_all
  have i2: "reader_inv ?l st ?M" "rd_batch st = []" using spill_inv [OF sp i1] by simp_all
  note hold = reader_inv_empty(1) [OF i2] and cnt = reader_inv_empty(2) [OF i2]
  have mr: "runs_hold ?l runs ?M" "length runs \<le> 1"
    using merge_runs_holds [OF m hold refl conjunct2 [OF l]] by simp_all
  have "runs \<noteq> []" using mr(1) c0 cnt by auto
  then obtain s where one: "runs = [s]" using mr(2) by (cases runs) auto
  obtain ps where ps: "run_of ?l (hd runs) ps" "mset ps = ?M" using mr(1) unfolding one runs_hold_single list.sel by blast
  then have pp: "pairs = ps" using run_of_records [OF conjunct2 [OF l] ps(1)] rr by simp
  have srt: "sorted ps" and ok: "list_all (pair_ok ?l) ps" using ps(1) by (simp_all add: run_of_def)
  have len: "rd_count st = length ps" unfolding cnt ps(2) [symmetric] by (rule size_mset)
  have mx: "int (length ps) \<le> MAX_TREE_SIZE"
    using read_rows_count [OF r] spill_count [OF sp] len by (simp add: MAX_TREE_SIZE_def)
  have W: "length leaves = length ps" "\<forall>i < length ps. compute_leaf_hash H (Raw (fst (ps ! i))) (Num (int (dup_ordinal ps i))) = Inr (leaves ! i)
       \<and> ix_ordinal (entries ! i) = dup_ordinal ps i \<and> ix_base (entries ! i) = fst (ps ! i)"
    using write_leaves_spec [OF w [unfolded pp], of "[]"] srt by simp_all
  have base: "compute_base_row_digest H sd (snd (ps ! i)) = Inr (fst (ps ! i))" if "i < length ps" for i
  proof -
    have "set ps = set (map (\<lambda>r. (H (base_input dg (the r)), the r)) rows)"
      unfolding set_mset_mset [symmetric] ps(2) ..
    with nth_mem [OF that] have "ps ! i \<in> set (map (\<lambda>r. (H (base_input dg (the r)), the r)) rows)" by (simp only:)
    then obtain x where "ps ! i = (H (base_input dg x), x)" by auto
    then show ?thesis using dg by (simp add: compute_base_row_digest_def base_input_def)
  qed
  have leaf: "row_leaf H sd (snd (ps ! i), dup_ordinal ps i) = Inr (leaves ! i)" if "i < length ps" for i
    using W(2) base that by (simp add: row_leaf_def)
  have res: "res_map (row_leaf H sd) (map (\<lambda>i. (snd (ps ! i), dup_ordinal ps i)) [0..<length ps]) = Inr leaves"
    unfolding res_map_iff list_all2_conv_all_nth using W(1) leaf by simp
  have dl: "digests leaves" using row_leaves_digests [OF res] by blast
  have tr: "rt = mth H leaves" "holds_tree H nodes 0 leaves"
    using build_nodes_spec [OF bn dl] c0 len W(1) by simp_all
  have "tree_of sd (map the rows) t ps leaves"
    unfolding tree_of_def
  proof (intro conjI)
    show "\<exists>d. decode_digest sd = Inr d \<and> mset ps = mset (map (\<lambda>r. (H (base_input d r), r)) (map the rows))"
      using dg ps(2) by (intro exI [of _ dg]) (simp add: comp_def)
    show "sorted ps" "int (length ps) \<le> MAX_TREE_SIZE" by (fact srt, fact mx)
    show "dt_count t = length ps" "ps \<noteq> []" using len c0 t by auto
    show "dt_root t = mth H leaves" "holds_tree H (dt_nodes t) 0 leaves" using tr t by simp_all
    show "\<forall>i < length ps. ix_ordinal (dt_index t ! i) = dup_ordinal ps i \<and> ix_base (dt_index t ! i) = fst (ps ! i)"
      using W(2) t by simp
  qed (fact res)
  then show ?thesis by (intro conjI rows exI)
qed

text \<open>The pairs are determined by the rows, whatever their order.\<close>

lemma tree_of_unique:
  assumes "tree_of sd rows t ps hs" and "tree_of sd rows' t' ps' hs'" and "mset rows = mset rows'"
  shows "ps = ps' \<and> hs = hs'"
proof -
  note a = assms(1) [unfolded tree_of_def] and a' = assms(2) [unfolded tree_of_def]
  obtain d where d: "decode_digest sd = Inr d" "mset ps = mset (map (\<lambda>r. (H (base_input d r), r)) rows)" using a by blast
  obtain d' where d': "decode_digest sd = Inr d'" "mset ps' = mset (map (\<lambda>r. (H (base_input d' r), r)) rows')" using a' by blast
  have "d' = d" using d(1) d'(1) by simp
  then have "mset ps = mset ps'" using d(2) d'(2) assms(3) by (simp only: mset_map)
  moreover have "sorted ps" "sorted ps'" using a a' by blast+
  ultimately have "ps = ps'" using properties_for_sort sorted_sort_id by metis
  then show ?thesis using assms(1,2) by (simp add: tree_of_def)
qed

lemma tree_of_proof:
  assumes "tree_of sd rows t ps hs" and "i < length ps"
  shows "build_inclusion_proof H (map Raw hs) (int i) = Inr (mpath H hs i)"
    and "tree_proof t (Num (int i)) = Inr \<lparr>dp_base = fst (ps ! i), dp_ordinal = dup_ordinal ps i, dp_index = i,
         dp_size = dt_count t, dp_siblings = mpath H hs i\<rparr>"
proof -
  note a = assms(1) [unfolded tree_of_def]
  note hs = row_leaves_digests [of sd _ hs]
  have h: "length hs = length ps" "digests hs" using hs a by fastforce+
  show "build_inclusion_proof H (map Raw hs) (int i) = Inr (mpath H hs i)"
    using build_proof_mpath [OF decode_map_Raw [OF h(2)], of "int i"] a assms(2) h by simp
  have "walk_siblings (dt_nodes t) i 0 0 (length hs) = Inr (rev (mpath H hs (i - 0)))"
    by (rule walk_siblings_mpath) (use a assms(2) h in simp_all)
  then show "tree_proof t (Num (int i)) = Inr \<lparr>dp_base = fst (ps ! i), dp_ordinal = dup_ordinal ps i, dp_index = i,
         dp_size = dt_count t, dp_siblings = mpath H hs i\<rparr>"
    using a assms(2) h(1) by (simp add: tree_proof_def Let_def)
qed

lemma tree_of_root: "tree_of sd rows t ps hs \<Longrightarrow> build_merkle_root H (map Raw hs) = Inr (dt_root t)"
proof -
  assume "tree_of sd rows t ps hs"
  note a = this [unfolded tree_of_def]
  have d: "length hs = length ps" "digests hs" using a row_leaves_digests [of sd _ hs] by fastforce+
  then have "build_merkle_root H (map Raw hs) = Inr (mth H hs)"
    using build_root_mth [OF decode_map_Raw [OF d(2)]] a by fastforce
  then show ?thesis using a by simp
qed

end

section \<open>Builds that finish\<close>

text \<open>The job is never cancelled and the disk never has less than \<open>F\<close> bytes beyond the reserve.\<close>

definition roomy :: "worker_budget \<Rightarrow> denv \<Rightarrow> int \<Rightarrow> bool" where
  "roomy b env F \<longleftrightarrow> (\<forall>n. \<not> fst (env n) \<and> F \<le> snd (env n) - the (reserve_bytes b)) \<and> F \<le> the (disk_bytes b)"

text \<open>The space the budget still knows of is never less than what the files leave of \<open>F\<close>.\<close>

definition room :: "int \<Rightarrow> disk \<Rightarrow> bool" where
  "room F d \<longleftrightarrow> 0 \<le> d_used d \<and> (d_probe d \<le> d_used d \<or> F \<le> d_free d + d_used d)"

definition pairs_size :: "pair multiset \<Rightarrow> int" where
  "pairs_size M = (\<Sum>p\<in>#M. 36 + int (length (snd p)))"

lemma pairs_size_simps [simp]:
  "pairs_size {#} = 0" "pairs_size (A + B) = pairs_size A + pairs_size B"
  "pairs_size (add_mset p M) = 36 + int (length (snd p)) + pairs_size M"
  by (simp_all add: pairs_size_def)

lemma pairs_size_nonneg [simp]: "0 \<le> pairs_size M"
  by (induction M) simp_all

lemma disk_check_ok:
  assumes "roomy b env F" and "room F d" and "0 \<le> a" and "d_used d + a \<le> F"
  shows "\<exists>d'. disk_check b env a d = Inr d' \<and> room F d' \<and> d_used d' = d_used d + a"
proof -
  have e: "\<not> fst (env (d_tick d))" "F \<le> snd (env (d_tick d)) - the (reserve_bytes b)" "F \<le> the (disk_bytes b)"
    using assms(1) by (simp_all add: roomy_def)
  show ?thesis
    using e assms(2-4) by (auto simp: disk_check_def Let_def room_def)
qed

lemma write_records_ok:
  assumes "roomy b env F"
  shows "room F d \<Longrightarrow> d_used d + pairs_size (mset ps) \<le> F \<Longrightarrow>
    \<exists>out' d'. write_records b env ps out d = Inr (out', d') \<and> room F d' \<and> d_used d' = d_used d + pairs_size (mset ps)"
proof (induction ps arbitrary: out d)
  case (Cons p ps)
  have "d_used d + int (36 + length (snd p)) \<le> F" using Cons.prems(2) pairs_size_nonneg [of "mset ps"] by (simp del: pairs_size_nonneg)
  from disk_check_ok [OF assms Cons.prems(1) _ this] obtain d1 where
    d1: "disk_check b env (int (36 + length (snd p))) d = Inr d1" "room F d1" "d_used d1 = d_used d + int (36 + length (snd p))"
    by auto
  have "d_used d1 + pairs_size (mset ps) \<le> F" using Cons.prems(2) d1(3) by simp
  from Cons.IH [OF d1(2) this, of "out @ record_bytes p"] d1 show ?case by auto
qed simp

lemma run_of_size: "run_of limit s ps \<Longrightarrow> int (length s) = pairs_size (mset ps)"
proof -
  have "list_all (pair_ok limit) qs \<Longrightarrow> int (length (concat (map record_bytes qs))) = pairs_size (mset qs)" for qs
    by (induction qs) (simp_all add: pair_ok_def record_bytes_def)
  then show "run_of limit s ps \<Longrightarrow> int (length s) = pairs_size (mset ps)" by (simp add: run_of_def)
qed

lemma runs_hold_size: "runs_hold limit runs M \<Longrightarrow> (\<Sum>f\<leftarrow>runs. int (length f)) = pairs_size M"
proof -
  assume "runs_hold limit runs M"
  then obtain pss where p: "list_all2 (run_of limit) runs pss" "mset (concat pss) = M" by (auto simp: runs_hold_def)
  from p(1) have "(\<Sum>f\<leftarrow>runs. int (length f)) = pairs_size (mset (concat pss))"
    by (induction rule: list_all2_induct) (simp_all add: run_of_size)
  then show ?thesis using p(2) by simp
qed

lemma disk_removes:
  "room F d \<Longrightarrow> (\<Sum>f\<leftarrow>fs. int (length f)) \<le> d_used d \<Longrightarrow>
     room F (fold (\<lambda>f. disk_remove (length f)) fs d)
     \<and> d_used (fold (\<lambda>f. disk_remove (length f)) fs d) = d_used d - (\<Sum>f\<leftarrow>fs. int (length f))"
proof (induction fs arbitrary: d)
  case (Cons f fs)
  have nn: "0 \<le> (\<Sum>f\<leftarrow>fs. int (length f))" by (rule sum_list_nonneg) auto
  have "room F (disk_remove (length f) d)" "(\<Sum>f\<leftarrow>fs. int (length f)) \<le> d_used (disk_remove (length f) d)"
    using Cons.prems nn by (simp_all add: room_def disk_remove_def)
  from Cons.IH [OF this] show ?case by (simp add: disk_remove_def)
qed simp

lemma merge_group_ok:
  assumes "roomy b env F" and "room F d" and "runs_hold limit grp M" and "pairs_size M \<le> d_used d"
    and "d_used d + pairs_size M \<le> F" and "limit = nat (the (record_limit b))" and "limit < 2 ^ 32"
  shows "\<exists>out d'. merge_group b env grp d = Inr (out, d') \<and> room F d' \<and> d_used d' = d_used d"
proof -
  obtain pss where p: "list_all2 (run_of limit) grp pss" "mset (concat pss) = M"
    using assms(3) by (auto simp: runs_hold_def)
  have s: "res_map (run_records limit) grp = Inr pss"
    unfolding res_map_iff using p(1) run_of_records [OF assms(7)] by (rule list_all2_mono)
  have m: "mset (heap_merge pss) = M" using p(2) heap_merge_mset by simp
  obtain out d1 where w: "write_records b env (heap_merge pss) [] d = Inr (out, d1)" "room F d1" "d_used d1 = d_used d + pairs_size M"
    using write_records_ok [OF assms(1,2), of "heap_merge pss" "[]"] assms(5) m by auto
  have "(\<Sum>f\<leftarrow>grp. int (length f)) \<le> d_used d1" unfolding runs_hold_size [OF assms(3)] using w(3) assms(4) pairs_size_nonneg [of M] by linarith
  from disk_removes [OF w(2) this] show ?thesis
    using s w assms(6) by (simp add: merge_group_def runs_hold_size [OF assms(3)])
qed

lemma merge_round_ok:
  assumes "roomy b env F" and "limit = nat (the (record_limit b))" and "limit < 2 ^ 32"
  shows "room F d \<Longrightarrow> runs_hold limit (concat gs) M \<Longrightarrow> pairs_size M \<le> d_used d \<Longrightarrow> d_used d + pairs_size M \<le> F
    \<Longrightarrow> \<exists>outs d'. merge_round b env gs d = Inr (outs, d') \<and> room F d' \<and> d_used d' = d_used d"
proof (induction gs arbitrary: d M)
  case (Cons g gs)
  obtain A B where ab: "runs_hold limit g A" "runs_hold limit (concat gs) B" "M = A + B"
    using Cons.prems(2) by (auto simp: runs_hold_append)
  have sz: "pairs_size A \<le> d_used d" "d_used d + pairs_size A \<le> F" "pairs_size B \<le> d_used d" "d_used d + pairs_size B \<le> F"
    using Cons.prems(3,4) pairs_size_nonneg [of A] pairs_size_nonneg [of B] unfolding ab(3) pairs_size_simps by linarith+
  obtain out d1 where g: "merge_group b env g d = Inr (out, d1)" "room F d1" "d_used d1 = d_used d"
    using merge_group_ok [OF assms(1) Cons.prems(1) ab(1) sz(1,2) assms(2,3)] by blast
  from Cons.IH [OF g(2) ab(2)] sz(3,4) g show ?case by auto
qed simp

lemma merge_runs_ok:
  assumes "roomy b env F" and "limit = nat (the (record_limit b))" and "limit < 2 ^ 32" and "pairs_size M + pairs_size M \<le> F"
  shows "room F d \<Longrightarrow> runs_hold limit runs M \<Longrightarrow> d_used d = pairs_size M
    \<Longrightarrow> \<exists>runs' d'. merge_runs b env runs d = Inr (runs', d') \<and> room F d' \<and> d_used d' = pairs_size M"
proof (induction "length runs" arbitrary: runs d rule: less_induct)
  case less
  show ?case
  proof (cases "length runs \<le> 1")
    case True
    then show ?thesis using less.prems by (simp add: merge_runs.simps)
  next
    case False
    have h: "runs_hold limit (concat (groups_of_4 runs)) M" using less.prems(2) by (simp add: groups_of_4_concat)
    obtain outs d' where r: "merge_round b env (groups_of_4 runs) d = Inr (outs, d')" "room F d'" "d_used d' = d_used d"
      using merge_round_ok [OF assms(1-3) less.prems(1) h] less.prems(3) assms(4) by auto
    have l: "length outs < length runs"
      using merge_round_length [OF r(1)] groups_of_4_length [of runs] False by simp
    from less.hyps [OF l r(2) merge_round_holds [OF r(1) h assms(2,3)]] r(3) less.prems(3)
    show ?thesis using False r(1) by (subst merge_runs.simps) simp
  qed
qed

definition reader_room :: "int \<Rightarrow> reader \<Rightarrow> int \<Rightarrow> bool" where
  "reader_room F st N \<longleftrightarrow> room F (rd_disk st) \<and> d_used (rd_disk st) + pairs_size (mset (rd_batch st)) = N"

lemma spill_ok:
  assumes "roomy b env F" and "reader_room F st N" and "N \<le> F"
  shows "\<exists>st'. spill b env st = Inr st' \<and> reader_room F st' N"
proof (cases "rd_batch st = []")
  case True
  then show ?thesis using assms by (simp add: spill_def)
next
  case False
  have st: "room F (rd_disk st)" "d_used (rd_disk st) + pairs_size (mset (rd_batch st)) = N"
    using assms(2) by (simp_all add: reader_room_def)
  have "d_used (rd_disk st) + 0 \<le> F" using st(2) assms(3) pairs_size_nonneg [of "mset (rd_batch st)"] by linarith
  from disk_check_ok [OF assms(1) st(1) _ this] obtain d where
    d: "disk_check b env 0 (rd_disk st) = Inr d" "room F d" "d_used d = d_used (rd_disk st)" by auto
  have "d_used d + pairs_size (mset (sort (rd_batch st))) \<le> F" using d(3) st(2) assms(3) by simp
  from write_records_ok [OF assms(1) d(2) this, of "[]"] obtain out d' where
    w: "write_records b env (sort (rd_batch st)) [] d = Inr (out, d')" "room F d'" "d_used d' = N"
    using st(2) d(3) by auto
  show ?thesis using False d(1) w by (simp add: spill_def reader_room_def)
qed

context digest32
begin

lemma read_rows_ok:
  assumes "roomy b env F" and "decode_digest sd = Inr dg"
  shows "reader_room F st N \<Longrightarrow> list_all (\<lambda>r. \<exists>x. r = Some x \<and> int (length x) \<le> the (record_limit b)) rows
    \<Longrightarrow> int (rd_count st + length rows) \<le> MAX_TREE_SIZE \<Longrightarrow> N + (\<Sum>r\<leftarrow>rows. 36 + int (length (the r))) \<le> F
    \<Longrightarrow> \<exists>st'. read_rows H b env cost sd rows st = Inr st' \<and> reader_room F st' (N + (\<Sum>r\<leftarrow>rows. 36 + int (length (the r))))
         \<and> rd_count st' = rd_count st + length rows"
proof (induction rows arbitrary: st N)
  case (Cons row rows)
  obtain r where r: "row = Some r" "int (length r) \<le> the (record_limit b)" using Cons.prems(2) by auto
  have nn: "0 \<le> (\<Sum>r\<leftarrow>rows. 36 + int (length (the r)))" by (rule sum_list_nonneg) auto
  have st: "room F (rd_disk st)" "d_used (rd_disk st) + pairs_size (mset (rd_batch st)) = N"
    using Cons.prems(1) by (simp_all add: reader_room_def)
  have N: "N \<le> F" using Cons.prems(4) nn by (simp add: r)
  then have "d_used (rd_disk st) + 0 \<le> F" using st(2) pairs_size_nonneg [of "mset (rd_batch st)"] by linarith
  from disk_check_ok [OF assms(1) st(1) _ this] obtain dk where
    dk: "disk_check b env 0 (rd_disk st) = Inr dk" "room F dk" "d_used dk = d_used (rd_disk st)" by auto
  have base: "compute_base_row_digest H sd r = Inr (H (base_input dg r))"
    using assms(2) by (simp add: compute_base_row_digest_def base_input_def)
  have rr: "reader_room F (st\<lparr>rd_disk := dk\<rparr>) N" using st dk by (simp add: reader_room_def)
  from spill_ok [OF assms(1) rr N] obtain st1 where
    st1: "(if int (rd_used st + cost r) > the (run_bytes b) then spill b env (st\<lparr>rd_disk := dk\<rparr>)
           else Inr (st\<lparr>rd_disk := dk\<rparr>)) = Inr st1" "reader_room F st1 N"
    using rr by (cases "int (rd_used st + cost r) > the (run_bytes b)") auto
  have cnt: "rd_count st1 = rd_count st"
    using st1(1) spill_count by (fastforce split: if_split_asm)
  define st2 where "st2 = st1\<lparr>rd_batch := rd_batch st1 @ [(H (base_input dg r), r)], rd_used := rd_used st1 + cost r,
                           rd_count := rd_count st1 + 1, rd_bytes := rd_bytes st1 + length r\<rparr>"
  have "reader_room F st2 (N + (36 + int (length r)))" using st1(2) by (simp add: reader_room_def st2_def)
  moreover have "int (rd_count st2 + length rows) \<le> MAX_TREE_SIZE" using Cons.prems(3) cnt by (simp add: st2_def)
  ultimately obtain st' where st': "read_rows H b env cost sd rows st2 = Inr st'"
      "reader_room F st' (N + (36 + int (length r)) + (\<Sum>r\<leftarrow>rows. 36 + int (length (the r))))"
      "rd_count st' = rd_count st2 + length rows"
    using Cons.IH [of st2 "N + (36 + int (length r))"] Cons.prems(2,4) r by auto
  have "\<not> int (rd_count st2) > MAX_TREE_SIZE" using Cons.prems(3) cnt by (simp add: st2_def)
  then have "read_rows H b env cost sd (row # rows) st = Inr st'"
    using dk(1) r base st1(1) st'(1) unfolding st2_def by (simp add: Let_def)
  moreover have "reader_room F st' (N + (\<Sum>r\<leftarrow>row # rows. 36 + int (length (the r))))"
    using st'(2) by (simp add: r add.assoc)
  moreover have "rd_count st' = rd_count st + length (row # rows)" using st'(3) cnt by (simp add: st2_def)
  ultimately show ?case by blast
qed simp

lemma write_leaves_ok:
  assumes "roomy b env F"
  shows "room F d \<Longrightarrow> list_all (\<lambda>p. length (fst p) = 32) ps \<Longrightarrow> int (n + length ps) \<le> MAX_TREE_SIZE
    \<Longrightarrow> d_used d + 88 * int (length ps) \<le> F
    \<Longrightarrow> \<exists>ls es d'. write_leaves H b env ps prev n off d = Inr (ls, es, d') \<and> room F d' \<and> d_used d' = d_used d + 88 * int (length ps)"
proof (induction ps arbitrary: d prev n off)
  case (Cons p ps)
  let ?n = "if Some p = prev then n + 1 else 0"
  from disk_check_ok [OF assms Cons.prems(1), of "32 + 56"] Cons.prems(4) obtain d1 where
    d1: "disk_check b env (32 + 56) d = Inr d1" "room F d1" "d_used d1 = d_used d + (32 + 56)" by auto
  have n: "int (?n + length ps) \<le> MAX_TREE_SIZE" "int ?n \<le> MAX_TREE_SIZE" using Cons.prems(3) by auto
  have leaf: "\<exists>h. compute_leaf_hash H (Raw (fst p)) (Num (int ?n)) = Inr h"
    using n(2) Cons.prems(2) by (simp add: compute_leaf_hash_def SHA256_SIZE_def)
  have "list_all (\<lambda>p. length (fst p) = 32) ps" "d_used d1 + 88 * int (length ps) \<le> F" using Cons.prems(2,4) d1(3) by simp_all
  from Cons.IH [OF d1(2) this(1) n(1) this(2), of "Some p" "off + 36 + length (snd p)"] leaf d1
  show ?case by (auto simp: Let_def)
qed simp

lemma build_nodes_ok:
  assumes "roomy b env F" and "digests leaves"
  shows "0 < sz \<Longrightarrow> start + sz \<le> length leaves \<Longrightarrow> room F d \<Longrightarrow> d_used d \<le> F
    \<Longrightarrow> \<exists>h n' d'. build_nodes H b env leaves start sz pos n d = Inr (h, n', d') \<and> room F d' \<and> d_used d' = d_used d"
proof (induction sz arbitrary: start pos n d rule: less_induct)
  case (less sz)
  from disk_check_ok [OF assms(1) less.prems(3), of 0] less.prems(4) obtain d1 where
    d1: "disk_check b env 0 d = Inr d1" "room F d1" "d_used d1 = d_used d" by auto
  show ?case
  proof (cases "sz = 1")
    case True
    then show ?thesis using d1 build_nodes_one by auto
  next
    case False
    then have sz: "1 < sz" using less.prems by linarith
    let ?k = "pow2_below sz"
    note k = pow2_below_bounds [OF sz]
    have f1: "start + ?k \<le> length leaves" and f2: "start + ?k + (sz - ?k) \<le> length leaves" and f3: "sz - ?k < sz" "0 < sz - ?k"
      using less.prems(2) k by linarith+
    obtain l n1 d2 where l: "build_nodes H b env leaves start ?k (pos + 1) n d1 = Inr (l, n1, d2)" "room F d2" "d_used d2 = d_used d"
      using less.IH [OF k(2,1) f1 d1(2), of "pos + 1" n] d1(3) less.prems(4) by auto
    obtain r n2 d3 where r: "build_nodes H b env leaves (start + ?k) (sz - ?k) (pos + 2 * ?k) n1 d2 = Inr (r, n2, d3)"
        "room F d3" "d_used d3 = d_used d"
      using less.IH [OF f3 f2 l(2), of "pos + 2 * ?k" n1] l(3) less.prems(4) by auto
    have "l = mth H (take ?k (drop start leaves))" "r = mth H (take (sz - ?k) (drop (start + ?k) leaves))"
      using build_nodes_spec [OF l(1) assms(2) k(1) f1] build_nodes_spec [OF r(1) assms(2) f3(2) f2] by blast+
    then have "length l = 32" "length r = 32"
      using mth_slice_digest [OF assms(2)] f1 f2 f3 k by simp_all
    then have "compute_node_hash H (Raw l) (Raw r) = Inr (node_hash H l r)" by (rule compute_node_hash_Inr)
    then show ?thesis using d1(1) sz l(1) r False
      by (subst build_nodes.simps) (simp add: split_eq)
  qed
qed

lemma leaf_hash_length: "compute_leaf_hash H base n = Inr h \<Longrightarrow> length h = 32"
  by (auto simp: compute_leaf_hash_def digest_length split: if_splits num_arg.splits)

lemma build_disk_tree_ok:
  assumes "validate_budget b = Inr ()" and "decode_digest sd = Inr dg" and "rows \<noteq> []"
    and "int (length rows) \<le> MAX_TREE_SIZE"
    and "list_all (\<lambda>r. \<exists>x. r = Some x \<and> int (length x) \<le> the (record_limit b)) rows"
    and "roomy b env (2 * (\<Sum>r\<leftarrow>rows. 36 + int (length (the r))) + 152 * int (length rows))"
  shows "\<exists>t. build_disk_tree H b env cost sd rows = Inr t"
proof -
  let ?l = "nat (the (record_limit b))"
  let ?s0 = "\<lparr>rd_runs = [], rd_batch = [], rd_used = 0, rd_count = 0, rd_bytes = 0, rd_disk = new_disk b env\<rparr>"
  define N where "N = (\<Sum>r\<leftarrow>rows. 36 + int (length (the r)))"
  define F where "F = 2 * N + 152 * int (length rows)"
  note rm = assms(6) [folded N_def, folded F_def]
  have N0: "0 \<le> N" unfolding N_def by (rule sum_list_nonneg) auto
  then have NF: "N \<le> F" "N + N \<le> F" by (simp_all add: F_def)
  note l = budget_limit [OF assms(1)]
  have "reader_room F ?s0 0" by (simp add: reader_room_def room_def new_disk_def)
  from read_rows_ok [OF rm assms(2) this assms(5), of cost] assms(4) NF(1) obtain st0 where
    r: "read_rows H b env cost sd rows ?s0 = Inr st0" "reader_room F st0 N" "rd_count st0 = length rows"
    by (auto simp: N_def [symmetric])
  from spill_ok [OF rm r(2) NF(1)] obtain st where s: "spill b env st0 = Inr st" "reader_room F st N" by blast
  have i0: "reader_inv ?l ?s0 {#}" by (simp add: reader_inv_def)
  let ?M = "mset (map (\<lambda>r. (H (base_input dg (the r)), the r)) rows)"
  have i1: "reader_inv ?l st0 ?M" using read_rows_inv [OF r(1) i0 conjunct1 [OF l] assms(2)] by simp
  have i2: "reader_inv ?l st ?M" "rd_batch st = []" using spill_inv [OF s(1) i1] by simp_all
  note hold = reader_inv_empty(1) [OF i2]
  have cnt: "rd_count st = length rows" using spill_count [OF s(1)] r(3) by simp
  have MN: "pairs_size ?M = N" unfolding N_def pairs_size_def by (induction rows) simp_all
  have du: "room F (rd_disk st)" "d_used (rd_disk st) = pairs_size ?M" using s(2) i2(2) MN by (simp_all add: reader_room_def)
  from merge_runs_ok [OF rm refl conjunct2 [OF l] NF(2) [folded MN] du(1) hold du(2)] obtain runs d where
    m: "merge_runs b env (rd_runs st) (rd_disk st) = Inr (runs, d)" "room F d" "d_used d = N"
    unfolding MN by blast
  have mr: "runs_hold ?l runs ?M" "length runs \<le> 1"
    using merge_runs_holds [OF m(1) hold refl conjunct2 [OF l]] by simp_all
  have "runs \<noteq> []" using mr(1) assms(3) by auto
  then obtain f where one: "runs = [f]" using mr(2) by (cases runs) auto
  obtain ps where ps: "run_of ?l f ps" "mset ps = ?M" using mr(1) unfolding one runs_hold_single by blast
  have rr: "run_records ?l (hd runs) = Inr ps" using run_of_records [OF conjunct2 [OF l] ps(1)] one by simp
  have "size (mset ps) = size ?M" unfolding ps(2) ..
  then have len: "length ps = length rows" by simp
  have ok: "list_all (\<lambda>p. length (fst p) = 32) ps" using ps(1) by (auto simp: run_of_def list_all_iff pair_ok_def)
  have "int (0 + length ps) \<le> MAX_TREE_SIZE" "d_used d + 88 * int (length ps) \<le> F"
    using assms(4) len m(3) N0 by (simp_all add: F_def)
  from write_leaves_ok [OF rm m(2) ok this, of None 0] obtain ls es d1 where
    w: "write_leaves H b env ps None 0 0 d = Inr (ls, es, d1)" "room F d1" "d_used d1 = N + 88 * int (length rows)"
    using m(3) len by auto
  have c: "0 \<le> (2 * int (rd_count st) - 1) * 32" "d_used d1 + (2 * int (rd_count st) - 1) * 32 \<le> F"
    using cnt assms(3) w(3) N0 by (cases rows; simp add: F_def)+
  from disk_check_ok [OF rm w(2) c] obtain d2 where
    d2: "disk_check b env ((2 * int (rd_count st) - 1) * 32) d1 = Inr d2" "room F d2" "d_used d2 \<le> F"
    using c(2) by auto
  have srt: "sorted ([] @ ps)" using ps(1) by (simp add: run_of_def)
  have W: "length ls = length ps" "\<forall>i < length ps. compute_leaf_hash H (Raw (fst (ps ! i))) (Num (int (dup_ordinal ps i))) = Inr (ls ! i)"
    using write_leaves_spec [OF w(1) srt] by simp_all
  have "length (ls ! i) = 32" if "i < length ls" for i
    using leaf_hash_length [OF W(2) [rule_format, of i]] that W(1) by simp
  then have dl: "digests ls" by (auto simp: in_set_conv_nth)
  have "0 < rd_count st" "0 + rd_count st \<le> length ls" using cnt assms(3) W len by simp_all
  from build_nodes_ok [OF rm dl this d2(2,3), of 0 Map.empty] obtain h n d3 where
    bn: "build_nodes H b env ls 0 (rd_count st) 0 Map.empty d2 = Inr (h, n, d3)" by blast
  show ?thesis
    unfolding build_disk_tree_def
    using assms(1) r(1) s(1) cnt assms(3) m(1) rr w(1) d2(1) bn by simp
qed

end

text \<open>The rows in the order of the tree.\<close>

abbreviation ordered_rows :: "bytes \<Rightarrow> bytes list \<Rightarrow> pair list" where
  "ordered_rows d rows \<equiv> sort (map (\<lambda>r. (sha256 (base_input d r), r)) rows)"

text \<open>
  C10. Refinement: whatever the budget and the disk answer, a build that finishes has hashed every
  row, and its root and its proofs are those the reference routines compute in memory for the
  sorted rows with their duplicate ordinals; every other index is refused.
\<close>

theorem disk_tree_matches_reference:
  assumes "build_disk_tree sha256 b env cost sd rows = Inr t"
  shows "\<exists>d hs ps. decode_digest sd = Inr d \<and> list_all (\<lambda>r. r \<noteq> None) rows \<and> ps = ordered_rows d (map the rows)
    \<and> res_map (row_leaf sha256 sd) (map (\<lambda>i. (snd (ps ! i), dup_ordinal ps i)) [0..<length ps]) = Inr hs
    \<and> dt_count t = length rows \<and> build_merkle_root sha256 (map Raw hs) = Inr (dt_root t)
    \<and> (\<forall>i < length rows. \<exists>p. build_inclusion_proof sha256 (map Raw hs) (int i) = Inr p
         \<and> tree_proof t (Num (int i)) = Inr \<lparr>dp_base = fst (ps ! i), dp_ordinal = dup_ordinal ps i, dp_index = i,
              dp_size = length rows, dp_siblings = p\<rparr>)
    \<and> (\<forall>i. i < 0 \<or> int (length rows) \<le> i \<longrightarrow> tree_proof t (Num i) = Inl ''invalid_inclusion_proof'')"
proof -
  obtain ps hs where all: "list_all (\<lambda>r. r \<noteq> None) rows" and t: "sha.tree_of sd (map the rows) t ps hs"
    using sha.build_disk_tree_holds [OF assms] by blast
  note a = t [unfolded sha.tree_of_def]
  obtain d where d: "decode_digest sd = Inr d" "mset ps = mset (map (\<lambda>r. (sha256 (base_input d r), r)) (map the rows))"
    using a by blast
  have "sorted ps" using a by blast
  from properties_for_sort [OF d(2) this] have ps: "ps = ordered_rows d (map the rows)" by (rule sym)
  have len: "length ps = length rows" unfolding ps by simp
  have c: "dt_count t = length rows" using a len by simp
  show ?thesis
  proof (intro exI conjI allI impI)
    fix i assume "i < length rows"
    then show "build_inclusion_proof sha256 (map Raw hs) (int i) = Inr (mpath sha256 hs i)"
      and "tree_proof t (Num (int i)) = Inr \<lparr>dp_base = fst (ps ! i), dp_ordinal = dup_ordinal ps i, dp_index = i,
              dp_size = length rows, dp_siblings = mpath sha256 hs i\<rparr>"
      using sha.tree_of_proof [OF t] len c by simp_all
  next
    fix i assume "i < 0 \<or> int (length rows) \<le> i"
    then show "tree_proof t (Num i) = Inl ''invalid_inclusion_proof''" using c by (simp add: tree_proof_def)
  qed (use all d(1) ps a c sha.tree_of_root [OF t] in simp_all)
qed

text \<open>
  Determinism: two builds over the same rows in any order, under any budgets and disks, give
  the same root, count and proofs.
\<close>

theorem commitment_order_independent:
  assumes "build_disk_tree sha256 b env cost sd rows = Inr t"
    and "build_disk_tree sha256 b' env' cost' sd rows' = Inr t'" and "mset rows = mset rows'"
  shows "dt_root t = dt_root t' \<and> dt_count t = dt_count t' \<and> tree_proof t index = tree_proof t' index"
proof -
  obtain ps hs where t: "sha.tree_of sd (map the rows) t ps hs" using sha.build_disk_tree_holds [OF assms(1)] by blast
  obtain ps' hs' where t': "sha.tree_of sd (map the rows') t' ps' hs'" using sha.build_disk_tree_holds [OF assms(2)] by blast
  have "mset (map the rows) = mset (map the rows')" using assms(3) by (simp only: mset_map)
  note eq = sha.tree_of_unique [OF t t' this]
  note a = t [unfolded sha.tree_of_def] and a' = t' [unfolded sha.tree_of_def]
  have c: "dt_count t = length ps" "dt_count t' = length ps" using a a' eq by simp_all
  have "tree_proof t index = tree_proof t' index"
  proof (cases index)
    case (Num i)
    show ?thesis
    proof (cases "0 \<le> i \<and> nat i < length ps")
      case True
      then have i: "i = int (nat i)" "nat i < length ps" by simp_all
      have i': "nat i < length ps'" using i(2) eq by simp
      show ?thesis unfolding Num by (subst (1 2) i(1)) (use sha.tree_of_proof [OF t i(2)] sha.tree_of_proof [OF t' i'] eq c in auto)
    qed (use c Num in \<open>auto simp: tree_proof_def\<close>)
  qed (simp add: tree_proof_def)
  then show ?thesis using a a' eq by simp
qed



lemma small_build:
  assumes "rows \<noteq> []" and "length rows \<le> 3" and "list_all (\<lambda>r. \<exists>x. r = Some x \<and> length x = 1) rows"
  shows "\<exists>t. build_disk_tree sha256 WorkerBudget (\<lambda>n. (False, 2 * 1024 ^ 3)) length (Raw (replicate 32 0)) rows = Inr t"
proof (rule sha.build_disk_tree_ok [of _ _ "replicate 32 0"])
  have "(\<Sum>r\<leftarrow>rows. 36 + int (length (the r))) = 37 * int (length rows)" using assms(3) by (induction rows) auto
  then show "roomy WorkerBudget (\<lambda>n. (False, 2 * 1024 ^ 3))
      (2 * (\<Sum>r\<leftarrow>rows. 36 + int (length (the r))) + 152 * int (length rows))"
    using assms(2) by (simp add: roomy_def WorkerBudget_def)
  show "list_all (\<lambda>r. \<exists>x. r = Some x \<and> int (length x) \<le> the (record_limit WorkerBudget)) rows"
    using assms(3) by (auto simp: list_all_iff WorkerBudget_def)
qed (use assms(1,2) in \<open>simp_all add: validate_budget_def WorkerBudget_def MAX_TREE_SIZE_def SHA256_SIZE_def\<close>)

theorem disk_tree_matches_reference_witness:
  "\<exists>t hs. build_disk_tree sha256 WorkerBudget (\<lambda>n. (False, 2 * 1024 ^ 3)) length (Raw (replicate 32 0)) [Some [65], Some [66]] = Inr t
    \<and> dt_count t = 2 \<and> build_merkle_root sha256 (map Raw hs) = Inr (dt_root t)"
proof -
  obtain t where t: "build_disk_tree sha256 WorkerBudget (\<lambda>n. (False, 2 * 1024 ^ 3)) length (Raw (replicate 32 0)) [Some [65], Some [66]] = Inr t"
    using small_build [of "[Some [65], Some [66]]"] by auto
  obtain hs where "build_merkle_root sha256 (map Raw hs) = Inr (dt_root t)" "dt_count t = length [Some [65 :: 8 word], Some [66]]"
    using disk_tree_matches_reference [OF t] by blast
  with t show ?thesis by (intro exI [of _ t] exI [of _ hs]) simp
qed

theorem commitment_order_independent_witness:
  "\<exists>t t'. build_disk_tree sha256 WorkerBudget (\<lambda>n. (False, 2 * 1024 ^ 3)) length (Raw (replicate 32 0)) [Some [65], Some [66], Some [65]] = Inr t
    \<and> build_disk_tree sha256 WorkerBudget (\<lambda>n. (False, 2 * 1024 ^ 3)) length (Raw (replicate 32 0)) [Some [66], Some [65], Some [65]] = Inr t'
    \<and> dt_root t = dt_root t'"
proof -
  obtain t where t: "build_disk_tree sha256 WorkerBudget (\<lambda>n. (False, 2 * 1024 ^ 3)) length (Raw (replicate 32 0)) [Some [65], Some [66], Some [65]] = Inr t"
    using small_build [of "[Some [65], Some [66], Some [65]]"] by auto
  obtain t' where t': "build_disk_tree sha256 WorkerBudget (\<lambda>n. (False, 2 * 1024 ^ 3)) length (Raw (replicate 32 0)) [Some [66], Some [65], Some [65]] = Inr t'"
    using small_build [of "[Some [66], Some [65], Some [65]]"] by auto
  have "mset [Some [65 :: 8 word], Some [66], Some [65]] = mset [Some [66], Some [65], Some [65]]" by simp
  from commitment_order_independent [OF t t' this] t t' show ?thesis by blast
qed

end
