(* ===== verification/ConnTokens.thy ===== *)
theory ConnTokens
  imports Prelude "HOL-Library.Char_ord" "HOL-Library.List_Lexorder"
begin

text \<open>
  Access tokens of external language models (app/services/connectivity_token_service.py, the
  record of app/models/connectivity.py).  The database table is the list of its rows; every
  function is one transaction on it.  HMAC-SHA256 under the server's pepper is the argument
  \<open>mac\<close>, the random choices of \<^verbatim>\<open>secrets\<close> are the arguments \<open>draw\<close> and \<open>secret\<close>, and the clock
  is read once per call.  The \<open>scopes\<close> column is the list its JSON text denotes, or \<open>None\<close> for a
  text that is not JSON.
\<close>

section \<open>The format of a token\<close>

definition TOKEN_PREFIX :: string where
  "TOKEN_PREFIX = ''vzmcp_''"

definition alnum :: "char \<Rightarrow> bool" where
  "alnum c \<longleftrightarrow> (CHR ''a'' \<le> c \<and> c \<le> CHR ''z'') \<or> (CHR ''A'' \<le> c \<and> c \<le> CHR ''Z'') \<or> (CHR ''0'' \<le> c \<and> c \<le> CHR ''9'')"

definition lower_hex :: "char \<Rightarrow> bool" where
  "lower_hex c \<longleftrightarrow> (CHR ''a'' \<le> c \<and> c \<le> CHR ''f'') \<or> (CHR ''0'' \<le> c \<and> c \<le> CHR ''9'')"

text \<open>
  \<^verbatim>\<open>re.match("^[..]{n}$", s)\<close>: the dollar also matches before one newline at the end.
\<close>

definition match_class :: "(char \<Rightarrow> bool) \<Rightarrow> nat \<Rightarrow> string \<Rightarrow> bool" where
  "match_class P n s \<longleftrightarrow> length (take n s) = n \<and> list_all P (take n s) \<and> (drop n s = [] \<or> drop n s = [CHR 0x0A])"

definition TOKEN_ID_PATTERN :: "string \<Rightarrow> bool" where
  "TOKEN_ID_PATTERN = match_class alnum 8"

definition TOKEN_SECRET_PATTERN :: "string \<Rightarrow> bool" where
  "TOKEN_SECRET_PATTERN = match_class lower_hex 32"

fun split_on :: "char \<Rightarrow> string \<Rightarrow> string list" where
  "split_on c [] = [[]]"
| "split_on c (x # xs) =
     (if x = c then [] # split_on c xs
      else (case split_on c xs of [] \<Rightarrow> [[x]] | p # ps \<Rightarrow> (x # p) # ps))"

datatype token_error =
    AuthInvalid string | AuthRevoked string | AuthExpired | ScopeDenied "string list"
  | TooManyTokens int | NoTokenId

fun token_error_code :: "token_error \<Rightarrow> string" where
  "token_error_code (AuthInvalid _) = ''auth_invalid''"
| "token_error_code (AuthRevoked _) = ''auth_revoked''"
| "token_error_code AuthExpired = ''auth_expired''"
| "token_error_code (ScopeDenied _) = ''scope_denied''"
| "token_error_code (TooManyTokens _) = ''rate_limited''"
| "token_error_code NoTokenId = ''internal_error''"

definition parse_token :: "string \<Rightarrow> token_error + string \<times> string" where
  "parse_token raw =
     (if take (length TOKEN_PREFIX) raw \<noteq> TOKEN_PREFIX then Inl (AuthInvalid ''Invalid token format'')
      else case split_on (CHR ''_'') raw of
        [p, token_id, secret] \<Rightarrow>
          (if \<not> TOKEN_ID_PATTERN token_id then Inl (AuthInvalid ''Invalid token format'')
           else if \<not> TOKEN_SECRET_PATTERN secret then Inl (AuthInvalid ''Invalid token format'')
           else Inr (token_id, secret))
      | _ \<Rightarrow> Inl (AuthInvalid ''Invalid token format''))"

section \<open>Records and operations\<close>

definition VALID_SCOPES :: "string list" where
  "VALID_SCOPES = [''ext:sql'', ''ext:schema'', ''ext:datasets'', ''ext:profile'', ''ext:pii'']"

record token_row =
  tr_id :: string
  tr_label :: string
  hmac_hash :: string
  tr_last4 :: string
  tr_scopes :: "string list option"
  tr_created :: int
  tr_expires :: "int option"
  tr_last_used :: "int option"
  tr_requests :: nat
  is_revoked :: bool
  revoked_at :: "int option"

record conn_token =
  ct_id :: string
  ct_label :: string
  ct_scopes :: "string list"
  ct_last4 :: string
  ct_created :: int
  ct_expires :: "int option"
  ct_last_used :: "int option"
  ct_requests :: nat
  ct_revoked :: bool

text \<open>\<^verbatim>\<open>session.get\<close> by primary key, and the write of a changed row.\<close>

definition get_token :: "string \<Rightarrow> token_row list \<Rightarrow> token_row option" where
  "get_token i tb = find (\<lambda>r. tr_id r = i) tb"

definition put_token :: "token_row \<Rightarrow> token_row list \<Rightarrow> token_row list" where
  "put_token r tb = map (\<lambda>q. if tr_id q = tr_id r then r else q) tb"

definition conn_token_of :: "token_row \<Rightarrow> conn_token" where
  "conn_token_of r =
     \<lparr>ct_id = tr_id r, ct_label = tr_label r,
      ct_scopes = (case tr_scopes r of Some s \<Rightarrow> s | None \<Rightarrow> VALID_SCOPES),
      ct_last4 = tr_last4 r, ct_created = tr_created r, ct_expires = tr_expires r,
      ct_last_used = tr_last_used r, ct_requests = tr_requests r, ct_revoked = is_revoked r\<rparr>"

definition verify_token ::
  "(string \<Rightarrow> string) \<Rightarrow> string \<Rightarrow> int \<Rightarrow> token_row list \<Rightarrow> (token_error + conn_token) \<times> token_row list" where
  "verify_token mac raw now tb =
     (case parse_token raw of Inl e \<Rightarrow> (Inl e, tb)
      | Inr (i, secret) \<Rightarrow>
     (case get_token i tb of None \<Rightarrow> (Inl (AuthInvalid ''Unknown token''), tb)
      | Some r \<Rightarrow>
          (if hmac_hash r \<noteq> mac secret then (Inl (AuthInvalid ''Invalid token''), tb)
           else if is_revoked r then (Inl (AuthRevoked ''Token has been revoked''), tb)
           else if (case tr_expires r of None \<Rightarrow> False | Some e \<Rightarrow> now > e) then (Inl AuthExpired, tb)
           else (let r' = r\<lparr>tr_last_used := Some now, tr_requests := tr_requests r + 1\<rparr>
                 in (Inr (conn_token_of r'), put_token r' tb)))))"

definition create_token_conn ::
  "(string \<Rightarrow> string) \<Rightarrow> string \<Rightarrow> string list option \<Rightarrow> int option \<Rightarrow> int \<Rightarrow> (nat \<Rightarrow> string) \<Rightarrow> string \<Rightarrow> int
    \<Rightarrow> token_row list \<Rightarrow> (token_error + string \<times> conn_token) \<times> token_row list" where
  "create_token_conn mac label scopes expires max_tokens draw secret now tb =
     (let scopes' = (case scopes of None \<Rightarrow> VALID_SCOPES | Some s \<Rightarrow> s);
          invalid = filter (\<lambda>s. s \<notin> set VALID_SCOPES) scopes'
      in if invalid \<noteq> [] then (Inl (ScopeDenied (sort (remdups invalid))), tb)
         else if int (length (filter (\<lambda>r. \<not> is_revoked r) tb)) \<ge> max_tokens then (Inl (TooManyTokens max_tokens), tb)
         else case find (\<lambda>i. get_token i tb = None) (map draw [0..<10]) of
           None \<Rightarrow> (Inl NoTokenId, tb)
         | Some i \<Rightarrow>
             (let r = \<lparr>tr_id = i, tr_label = label, hmac_hash = mac secret, tr_last4 = drop (length secret - 4) secret,
                       tr_scopes = Some scopes', tr_created = now, tr_expires = expires, tr_last_used = None,
                       tr_requests = 0, is_revoked = False, revoked_at = None\<rparr>
              in (Inr (TOKEN_PREFIX @ i @ ''_'' @ secret, conn_token_of r), tb @ [r])))"

definition revoke_token :: "string \<Rightarrow> int \<Rightarrow> token_row list \<Rightarrow> (token_error + conn_token) \<times> token_row list" where
  "revoke_token i now tb =
     (case get_token i tb of None \<Rightarrow> (Inl (AuthInvalid ''Token not found''), tb)
      | Some r \<Rightarrow>
          (if is_revoked r then (Inl (AuthRevoked ''Token is already revoked''), tb)
           else (let r' = r\<lparr>is_revoked := True, revoked_at := Some now\<rparr>
                 in (Inr (conn_token_of r'), put_token r' tb))))"

text \<open>Newest first; rows created at the same instant are listed in the order of their creation.\<close>

definition list_tokens :: "token_row list \<Rightarrow> conn_token list" where
  "list_tokens tb = map conn_token_of (sort_key (\<lambda>r. - tr_created r) tb)"

section \<open>Parsing\<close>

lemma split_on_plain: "c \<notin> set a \<Longrightarrow> split_on c a = [a]"
  by (induction a) auto

lemma split_on_cons: "c \<notin> set a \<Longrightarrow> split_on c (a @ c # s) = a # split_on c s"
  by (induction a) auto

lemma split_on_nonempty: "split_on c s \<noteq> []"
  by (cases s) (auto split: list.splits)

lemma split_on_inv:
  "split_on c s = p # ps \<Longrightarrow> c \<notin> set p \<and> (case ps of [] \<Rightarrow> s = p | q # qs \<Rightarrow> \<exists>t. s = p @ c # t \<and> split_on c t = ps)"
proof (induction s arbitrary: p ps)
  case (Cons x xs)
  show ?case
  proof (cases "x = c")
    case True
    then show ?thesis using Cons.prems split_on_nonempty [of c xs] by (cases ps) auto
  next
    case False
    obtain q qs where q: "split_on c xs = q # qs" using split_on_nonempty [of c xs] by (cases "split_on c xs") auto
    then show ?thesis using Cons.IH [OF q] Cons.prems False by (auto split: list.splits)
  qed
qed auto

lemma split_on_three:
  "split_on c s = [p, q, r] \<longleftrightarrow> s = p @ c # q @ c # r \<and> c \<notin> set p \<and> c \<notin> set q \<and> c \<notin> set r"
proof
  assume "split_on c s = [p, q, r]"
  from split_on_inv [OF this] obtain t where t: "c \<notin> set p" "s = p @ c # t" "split_on c t = [q, r]" by auto
  from split_on_inv [OF t(3)] obtain u where u: "c \<notin> set q" "t = q @ c # u" "split_on c u = [r]" by auto
  from split_on_inv [OF u(3)] t u show "s = p @ c # q @ c # r \<and> c \<notin> set p \<and> c \<notin> set q \<and> c \<notin> set r" by auto
qed (simp add: split_on_cons split_on_plain)

lemma match_class_no:
  assumes "match_class P n s" and "\<not> P c" and "c \<noteq> CHR 0x0A"
  shows "c \<notin> set s"
proof -
  have "set s = set (take n s) \<union> set (drop n s)" by (metis append_take_drop_id set_append)
  then show ?thesis using assms by (auto simp: match_class_def list_all_iff)
qed

lemma no_underscore: "\<not> alnum (CHR ''_'')" "\<not> lower_hex (CHR ''_'')"
  by (simp_all add: alnum_def lower_hex_def less_eq_char_def)

lemma parse_token_iff:
  "parse_token raw = Inr (i, s) \<longleftrightarrow>
     raw = TOKEN_PREFIX @ i @ ''_'' @ s \<and> TOKEN_ID_PATTERN i \<and> TOKEN_SECRET_PATTERN s"
proof
  assume "parse_token raw = Inr (i, s)"
  then obtain p where p: "take (length TOKEN_PREFIX) raw = TOKEN_PREFIX" "split_on (CHR ''_'') raw = [p, i, s]"
      "TOKEN_ID_PATTERN i" "TOKEN_SECRET_PATTERN s"
    by (auto simp: parse_token_def split: if_splits list.splits)
  from p(2) have r: "raw = p @ CHR ''_'' # i @ CHR ''_'' # s" "CHR ''_'' \<notin> set p" by (simp_all add: split_on_three)
  obtain u where "raw = TOKEN_PREFIX @ u" using p(1) by (metis append_take_drop_id)
  then have "raw = ''vzmcp'' @ CHR ''_'' # u" by (simp add: TOKEN_PREFIX_def)
  then have "split_on (CHR ''_'') raw = ''vzmcp'' # split_on (CHR ''_'') u" by (simp add: split_on_cons)
  with p(2) have "p = ''vzmcp''" by simp
  with r p show "raw = TOKEN_PREFIX @ i @ ''_'' @ s \<and> TOKEN_ID_PATTERN i \<and> TOKEN_SECRET_PATTERN s"
    by (simp add: TOKEN_PREFIX_def)
next
  assume a: "raw = TOKEN_PREFIX @ i @ ''_'' @ s \<and> TOKEN_ID_PATTERN i \<and> TOKEN_SECRET_PATTERN s"
  then have "CHR ''_'' \<notin> set i" "CHR ''_'' \<notin> set s"
    using match_class_no no_underscore by (auto simp: TOKEN_ID_PATTERN_def TOKEN_SECRET_PATTERN_def)
  then have "split_on (CHR ''_'') raw = [''vzmcp'', i, s]" unfolding split_on_three using a by (simp add: TOKEN_PREFIX_def)
  with a show "parse_token raw = Inr (i, s)" by (simp add: parse_token_def TOKEN_PREFIX_def)
qed

lemma match_class_exact: "match_class P n s \<Longrightarrow> length s = n \<or> (length s = Suc n \<and> last s = CHR 0x0A)"
proof -
  assume m: "match_class P n s"
  then have l: "length s \<ge> n" by (auto simp: match_class_def)
  show ?thesis
  proof (cases "drop n s = []")
    case True
    then show ?thesis using l by simp
  next
    case False
    then have d: "drop n s = [CHR 0x0A]" using m by (auto simp: match_class_def)
    then have "length s - n = 1" by (metis length_drop length_Cons list.size(3) One_nat_def)
    moreover have "last s = CHR 0x0A" using d False by (metis last_drop last_ConsL drop_eq_Nil leI)
    ultimately show ?thesis using l by linarith
  qed
qed

text \<open>
  Tokens are written and read back: a text is accepted exactly when it is the prefix, an id and
  a secret that match their patterns, joined by underscores, and parsing returns these two parts.
  The patterns end in a dollar sign, so each part may also carry one newline at its end.
\<close>

theorem token_format_roundtrip:
  "(parse_token raw = Inr (i, s) \<longleftrightarrow>
      raw = TOKEN_PREFIX @ i @ ''_'' @ s \<and> TOKEN_ID_PATTERN i \<and> TOKEN_SECRET_PATTERN s)
   \<and> (TOKEN_ID_PATTERN i \<longleftrightarrow> (\<exists>w nl. i = w @ nl \<and> length w = 8 \<and> list_all alnum w \<and> nl \<in> {[], [CHR 0x0A]}))
   \<and> (TOKEN_SECRET_PATTERN s \<longleftrightarrow> (\<exists>w nl. s = w @ nl \<and> length w = 32 \<and> list_all lower_hex w \<and> nl \<in> {[], [CHR 0x0A]}))"
proof -
  have m: "match_class P n t \<longleftrightarrow> (\<exists>w nl. t = w @ nl \<and> length w = n \<and> list_all P w \<and> nl \<in> {[], [CHR 0x0A]})" for P n t
  proof
    assume "match_class P n t"
    then show "\<exists>w nl. t = w @ nl \<and> length w = n \<and> list_all P w \<and> nl \<in> {[], [CHR 0x0A]}"
      by (intro exI [of _ "take n t"] exI [of _ "drop n t"]) (simp add: match_class_def)
  qed (auto simp: match_class_def)
  show ?thesis unfolding TOKEN_ID_PATTERN_def TOKEN_SECRET_PATTERN_def
    by (intro conjI m parse_token_iff [unfolded TOKEN_ID_PATTERN_def TOKEN_SECRET_PATTERN_def])
qed

section \<open>Runs\<close>

datatype token_op =
    CreateOp string "string list option" "int option" int "nat \<Rightarrow> string" string int
  | VerifyOp string int
  | RevokeOp string int

fun token_step :: "(string \<Rightarrow> string) \<Rightarrow> token_row list \<Rightarrow> token_op \<Rightarrow> token_row list" where
  "token_step mac tb (CreateOp label scopes expires mx draw secret now) =
     snd (create_token_conn mac label scopes expires mx draw secret now tb)"
| "token_step mac tb (VerifyOp raw now) = snd (verify_token mac raw now tb)"
| "token_step mac tb (RevokeOp i now) = snd (revoke_token i now tb)"

definition token_run :: "(string \<Rightarrow> string) \<Rightarrow> token_row list \<Rightarrow> token_op list \<Rightarrow> token_row list" where
  "token_run mac = foldl (token_step mac)"

lemma token_run_snoc [simp]: "token_run mac tb (xs @ [x]) = token_step mac (token_run mac tb xs) x"
  by (simp add: token_run_def)

lemma get_token_Some: "get_token i tb = Some r \<Longrightarrow> r \<in> set tb \<and> tr_id r = i"
  by (auto simp: get_token_def find_Some_iff)

lemma get_token_None: "get_token i tb = None \<longleftrightarrow> i \<notin> tr_id ` set tb"
  by (auto simp: get_token_def find_None_iff)

lemma put_token_ids [simp]: "map tr_id (put_token r tb) = map tr_id tb"
  by (induction tb) (auto simp: put_token_def)

lemma in_put_token: "q \<in> set (put_token r tb) \<Longrightarrow> q = r \<or> q \<in> set tb \<and> tr_id q \<noteq> tr_id r"
  by (auto simp: put_token_def)

text \<open>What a step does to the rows: they stay, change in their use and revocation only, or one is created.\<close>

lemma verify_effect:
  "snd (verify_token mac raw now tb) = tb \<or>
     (\<exists>r\<in>set tb. \<not> is_revoked r
        \<and> snd (verify_token mac raw now tb) = put_token (r\<lparr>tr_last_used := Some now, tr_requests := tr_requests r + 1\<rparr>) tb)"
  by (auto simp: verify_token_def Let_def split: sum.splits option.splits dest!: get_token_Some)

lemma revoke_effect:
  "(\<forall>r\<in>set tb. tr_id r = i \<longrightarrow> is_revoked r) \<and> snd (revoke_token i now tb) = tb \<or>
     (\<exists>r\<in>set tb. tr_id r = i \<and> snd (revoke_token i now tb) = put_token (r\<lparr>is_revoked := True, revoked_at := Some now\<rparr>) tb)"
  if "distinct (map tr_id tb)"
proof (cases "get_token i tb")
  case None
  then have "tr_id r \<noteq> i" if "r \<in> set tb" for r using that by (auto simp: get_token_None)
  then show ?thesis using None by (auto simp: revoke_token_def)
next
  case (Some r)
  note r = get_token_Some [OF this]
  have "q = r" if "q \<in> set tb" "tr_id q = i" for q
    using that r \<open>distinct (map tr_id tb)\<close> by (auto simp: distinct_map inj_on_def)
  then show ?thesis using Some r by (auto simp: revoke_token_def Let_def)
qed

lemma create_effect:
  "snd (create_token_conn mac label scopes expires mx draw secret now tb) = tb \<or>
   (\<exists>i tok. create_token_conn mac label scopes expires mx draw secret now tb
        = (Inr (TOKEN_PREFIX @ i @ ''_'' @ secret, tok), tb @
           [\<lparr>tr_id = i, tr_label = label, hmac_hash = mac secret, tr_last4 = drop (length secret - 4) secret,
             tr_scopes = Some (case scopes of None \<Rightarrow> VALID_SCOPES | Some s \<Rightarrow> s), tr_created = now, tr_expires = expires,
             tr_last_used = None, tr_requests = 0, is_revoked = False, revoked_at = None\<rparr>])
      \<and> i \<notin> tr_id ` set tb \<and> set (case scopes of None \<Rightarrow> VALID_SCOPES | Some s \<Rightarrow> s) \<subseteq> set VALID_SCOPES
      \<and> int (length (filter (\<lambda>r. \<not> is_revoked r) tb)) < mx)"
proof -
  let ?inv = "filter (\<lambda>s. s \<notin> set VALID_SCOPES) (case scopes of None \<Rightarrow> VALID_SCOPES | Some s \<Rightarrow> s)"
  have sub: "?inv = [] \<longleftrightarrow> set (case scopes of None \<Rightarrow> VALID_SCOPES | Some s \<Rightarrow> s) \<subseteq> set VALID_SCOPES"
    by (auto simp: filter_empty_conv)
  show ?thesis
  proof (cases "?inv = [] \<and> int (length (filter (\<lambda>r. \<not> is_revoked r) tb)) < mx")
    case False
    then have "?inv \<noteq> [] \<or> int (length (filter (\<lambda>r. \<not> is_revoked r) tb)) \<ge> mx" by linarith
    then show ?thesis by (auto simp: create_token_conn_def Let_def)
  next
    case True
    show ?thesis
    proof (cases "find (\<lambda>i. get_token i tb = None) (map draw [0..<10])")
      case None
      then show ?thesis using True by (simp add: create_token_conn_def Let_def)
    next
      case (Some i)
      then have "i \<notin> tr_id ` set tb" by (auto simp: find_Some_iff get_token_None)
      then show ?thesis using True Some sub by (simp add: create_token_conn_def Let_def)
    qed
  qed
qed

text \<open>
  The row of every token goes back to the call that issued it: the later operations decide whether
  it is revoked and nothing else.
\<close>

definition issued_by :: "(string \<Rightarrow> string) \<Rightarrow> token_op list \<Rightarrow> token_row \<Rightarrow> bool" where
  "issued_by mac xs r \<longleftrightarrow> (\<exists>ys label scopes expires mx draw secret now zs tok tb'.
     xs = ys @ CreateOp label scopes expires mx draw secret now # zs
     \<and> create_token_conn mac label scopes expires mx draw secret now (token_run mac [] ys)
         = (Inr (TOKEN_PREFIX @ tr_id r @ ''_'' @ secret, tok), tb')
     \<and> hmac_hash r = mac secret \<and> tr_expires r = expires
     \<and> tr_scopes r = Some (case scopes of None \<Rightarrow> VALID_SCOPES | Some s \<Rightarrow> s)
     \<and> set (case scopes of None \<Rightarrow> VALID_SCOPES | Some s \<Rightarrow> s) \<subseteq> set VALID_SCOPES
     \<and> (is_revoked r \<longleftrightarrow> (\<exists>t. RevokeOp (tr_id r) t \<in> set zs)))"

lemma issued_by_later:
  assumes "issued_by mac xs r" and "tr_id r' = tr_id r" "hmac_hash r' = hmac_hash r" "tr_expires r' = tr_expires r"
    "tr_scopes r' = tr_scopes r" and "is_revoked r' \<longleftrightarrow> is_revoked r \<or> (\<exists>t. x = RevokeOp (tr_id r) t)"
  shows "issued_by mac (xs @ [x]) r'"
proof -
  obtain ys label scopes expires mx draw secret now zs tok tb' where i:
    "xs = ys @ CreateOp label scopes expires mx draw secret now # zs"
    "create_token_conn mac label scopes expires mx draw secret now (token_run mac [] ys)
       = (Inr (TOKEN_PREFIX @ tr_id r @ ''_'' @ secret, tok), tb')"
    "hmac_hash r = mac secret" "tr_expires r = expires"
    "tr_scopes r = Some (case scopes of None \<Rightarrow> VALID_SCOPES | Some s \<Rightarrow> s)"
    "set (case scopes of None \<Rightarrow> VALID_SCOPES | Some s \<Rightarrow> s) \<subseteq> set VALID_SCOPES"
    "is_revoked r \<longleftrightarrow> (\<exists>t. RevokeOp (tr_id r) t \<in> set zs)"
    using assms(1) unfolding issued_by_def by blast
  have rv: "is_revoked r' \<longleftrightarrow> (\<exists>t. RevokeOp (tr_id r) t \<in> set (zs @ [x]))" using i(7) assms(6) by auto
  have xs: "xs @ [x] = ys @ CreateOp label scopes expires mx draw secret now # (zs @ [x])" by (simp add: i(1))
  show ?thesis unfolding issued_by_def assms(2-5)
    by (intro exI [of _ ys] exI [of _ label] exI [of _ scopes] exI [of _ expires] exI [of _ mx] exI [of _ draw]
        exI [of _ secret] exI [of _ now] exI [of _ "zs @ [x]"] exI [of _ tok] exI [of _ tb'] conjI xs i(2-6) rv)
qed

lemma token_run_inv:
  "distinct (map tr_id (token_run mac [] xs)) \<and> (\<forall>r\<in>set (token_run mac [] xs). issued_by mac xs r)"
proof (induction xs rule: rev_induct)
  case Nil
  show ?case by (simp add: token_run_def)
next
  case (snoc x xs)
  let ?tb = "token_run mac [] xs"
  have same: "issued_by mac (xs @ [x]) r" if "r \<in> set ?tb" "\<not> (\<exists>t. x = RevokeOp (tr_id r) t) \<or> is_revoked r" for r
    by (rule issued_by_later [of _ _ r]) (use that snoc in auto)
  show ?case
  proof (cases x)
    case (CreateOp label scopes expires mx draw secret now)
    note keep = same [unfolded CreateOp, simplified]
    from create_effect [of mac label scopes expires mx draw secret now ?tb] show ?thesis
    proof (elim disjE exE conjE)
      assume "snd (create_token_conn mac label scopes expires mx draw secret now ?tb) = ?tb"
      then show ?thesis using snoc keep by (simp add: CreateOp)
    next
      fix i tok
      let ?r = "\<lparr>tr_id = i, tr_label = label, hmac_hash = mac secret, tr_last4 = drop (length secret - 4) secret,
             tr_scopes = Some (case scopes of None \<Rightarrow> VALID_SCOPES | Some s \<Rightarrow> s), tr_created = now, tr_expires = expires,
             tr_last_used = None, tr_requests = 0, is_revoked = False, revoked_at = None\<rparr>"
      assume c: "create_token_conn mac label scopes expires mx draw secret now ?tb
            = (Inr (TOKEN_PREFIX @ i @ ''_'' @ secret, tok), ?tb @ [?r])"
        and new: "i \<notin> tr_id ` set ?tb"
        and sub: "set (case scopes of None \<Rightarrow> VALID_SCOPES | Some s \<Rightarrow> s) \<subseteq> set VALID_SCOPES"
      have "issued_by mac (xs @ [x]) ?r" unfolding issued_by_def
        using c sub by (intro exI [of _ xs] exI [of _ label] exI [of _ scopes] exI [of _ expires] exI [of _ mx]
            exI [of _ draw] exI [of _ secret] exI [of _ now] exI [of _ "[]"] exI [of _ tok] exI [of _ "?tb @ [?r]"])
          (simp add: CreateOp)
      then show ?thesis using snoc keep new c by (simp add: CreateOp)
    qed
  next
    case (VerifyOp raw now)
    note keep = same [unfolded VerifyOp, simplified]
    from verify_effect [of mac raw now ?tb] show ?thesis
    proof (elim disjE bexE conjE)
      assume "snd (verify_token mac raw now ?tb) = ?tb"
      then show ?thesis using snoc keep by (simp add: VerifyOp)
    next
      fix r :: token_row
      let ?r = "r\<lparr>tr_last_used := Some now, tr_requests := tr_requests r + 1\<rparr>"
      assume r: "r \<in> set ?tb" and e: "snd (verify_token mac raw now ?tb) = put_token ?r ?tb"
      have "issued_by mac (xs @ [x]) ?r" by (rule issued_by_later [of _ _ r]) (use r snoc VerifyOp in auto)
      then show ?thesis using snoc keep e by (auto simp: VerifyOp dest!: in_put_token)
    qed
  next
    case (RevokeOp i now)
    note keep = same [unfolded RevokeOp, simplified]
    from revoke_effect [OF conjunct1 [OF snoc.IH], of i now] show ?thesis
    proof (elim disjE bexE conjE)
      assume "\<forall>r\<in>set ?tb. tr_id r = i \<longrightarrow> is_revoked r" and e: "snd (revoke_token i now ?tb) = ?tb"
      then have "issued_by mac (xs @ [x]) r" if "r \<in> set ?tb" for r using same [OF that] that by (auto simp: RevokeOp)
      then show ?thesis using snoc e by (simp add: RevokeOp)
    next
      fix r :: token_row
      let ?r = "r\<lparr>is_revoked := True, revoked_at := Some now\<rparr>"
      assume r: "r \<in> set ?tb" "tr_id r = i" and e: "snd (revoke_token i now ?tb) = put_token ?r ?tb"
      have n: "issued_by mac (xs @ [x]) ?r" by (rule issued_by_later [of _ _ r]) (use r snoc RevokeOp in auto)
      have "issued_by mac (xs @ [x]) q" if "q \<in> set (put_token ?r ?tb)" for q
        using in_put_token [OF that] n same [of q] r(2) by (auto simp: RevokeOp)
      then show ?thesis using snoc e by (simp add: RevokeOp)
    qed
  qed
qed

definition run_secrets :: "token_op list \<Rightarrow> string set" where
  "run_secrets xs = {secret. \<exists>l s e m d t. CreateOp l s e m d secret t \<in> set xs}"

text \<open>
  C37. A token that passes was issued and is in force: in every run from the empty table, if
  verification accepts a text, an earlier call of the run created exactly this text; the token was
  not revoked after that, its expiry has not passed, and the scopes it carries are those it was
  created with, all of them valid.  HMAC values must not collide on the secrets that occur.
\<close>

theorem verified_tokens_issued:
  assumes "verify_token mac raw now (token_run mac [] xs) = (Inr tok, tb)"
    and "inj_on mac (insert (drop 15 raw) (run_secrets xs) \<union> insert (drop 16 raw) (run_secrets xs))"
  shows "\<exists>ys label scopes expires mx draw secret t zs created tb'.
     xs = ys @ CreateOp label scopes expires mx draw secret t # zs
     \<and> create_token_conn mac label scopes expires mx draw secret t (token_run mac [] ys) = (Inr (raw, created), tb')
     \<and> (\<forall>t'. RevokeOp (ct_id tok) t' \<notin> set zs)
     \<and> (\<forall>e. expires = Some e \<longrightarrow> now \<le> e)
     \<and> ct_scopes tok = (case scopes of None \<Rightarrow> VALID_SCOPES | Some s \<Rightarrow> s) \<and> set (ct_scopes tok) \<subseteq> set VALID_SCOPES"
proof -
  let ?tb = "token_run mac [] xs"
  obtain i s r where p: "parse_token raw = Inr (i, s)" and g: "get_token i ?tb = Some r"
      and v: "hmac_hash r = mac s" "\<not> is_revoked r" "\<forall>e. tr_expires r = Some e \<longrightarrow> now \<le> e"
      and tok: "ct_id tok = tr_id r" "ct_scopes tok = ct_scopes (conn_token_of r)"
    using assms(1) by (auto simp: verify_token_def Let_def conn_token_of_def split: sum.splits option.splits if_splits)
  note r = get_token_Some [OF g]
  have raw: "raw = TOKEN_PREFIX @ i @ ''_'' @ s" and pat: "TOKEN_ID_PATTERN i" using p by (simp_all add: parse_token_iff)
  have "length i = 8 \<or> length i = 9" using match_class_exact pat unfolding TOKEN_ID_PATTERN_def by fastforce
  then have s: "s = drop 15 raw \<or> s = drop 16 raw" using raw by (auto simp: TOKEN_PREFIX_def)
  from token_run_inv [of mac xs] r have "issued_by mac xs r" by blast
  then obtain ys label scopes expires mx draw secret t zs created tb' where i:
    "xs = ys @ CreateOp label scopes expires mx draw secret t # zs"
    "create_token_conn mac label scopes expires mx draw secret t (token_run mac [] ys)
       = (Inr (TOKEN_PREFIX @ tr_id r @ ''_'' @ secret, created), tb')"
    "hmac_hash r = mac secret" "tr_expires r = expires"
    "tr_scopes r = Some (case scopes of None \<Rightarrow> VALID_SCOPES | Some s \<Rightarrow> s)"
    "set (case scopes of None \<Rightarrow> VALID_SCOPES | Some s \<Rightarrow> s) \<subseteq> set VALID_SCOPES"
    "is_revoked r \<longleftrightarrow> (\<exists>t. RevokeOp (tr_id r) t \<in> set zs)"
    unfolding issued_by_def by blast
  have "CreateOp label scopes expires mx draw secret t \<in> set xs" by (simp add: i(1))
  then have "secret \<in> run_secrets xs" unfolding run_secrets_def by blast
  then have "secret = s" using inj_onD [OF assms(2), of secret s] i(3) v(1) s by auto
  then have "TOKEN_PREFIX @ tr_id r @ ''_'' @ secret = raw" using raw r by simp
  then show ?thesis using i v tok
    by (intro exI [of _ ys] exI [of _ label] exI [of _ scopes] exI [of _ expires] exI [of _ mx] exI [of _ draw]
        exI [of _ secret] exI [of _ t] exI [of _ zs] exI [of _ created] exI [of _ tb'])
      (simp add: conn_token_of_def)
qed

lemma put_token_other: "r \<in> set tb \<Longrightarrow> tr_id r \<noteq> tr_id q \<Longrightarrow> r \<in> set (put_token q tb)"
  by (force simp: put_token_def)

lemma put_token_same: "q \<in> set tb \<Longrightarrow> tr_id q = tr_id r \<Longrightarrow> r \<in> set (put_token r tb)"
  by (force simp: put_token_def)

definition revoked_in :: "token_row list \<Rightarrow> string \<Rightarrow> bool" where
  "revoked_in tb i \<longleftrightarrow> (\<exists>r\<in>set tb. tr_id r = i \<and> is_revoked r)"

lemma revoked_in_step:
  assumes d: "distinct (map tr_id tb)" and "revoked_in tb i"
  shows "revoked_in (token_step mac tb x) i"
proof -
  obtain r where r: "r \<in> set tb" "tr_id r = i" "is_revoked r" using assms(2) by (auto simp: revoked_in_def)
  have other: "revoked_in (put_token q tb) i" if "tr_id q \<noteq> i" for q
    using put_token_other [OF r(1), of q] r that by (auto simp: revoked_in_def)
  have eq: "q = r" if "q \<in> set tb" "tr_id q = i" for q
    using that r d by (auto simp: distinct_map inj_on_def)
  show ?thesis
  proof (cases x)
    case (CreateOp l sc e m dr s t)
    with create_effect [of mac l sc e m dr s t tb] assms(2) show ?thesis by (auto simp: revoked_in_def)
  next
    case (VerifyOp raw now)
    from verify_effect [of mac raw now tb] show ?thesis
    proof (elim disjE bexE conjE)
      fix q :: token_row
      assume q: "q \<in> set tb" "\<not> is_revoked q"
        and e: "snd (verify_token mac raw now tb) = put_token (q\<lparr>tr_last_used := Some now, tr_requests := tr_requests q + 1\<rparr>) tb"
      have "tr_id q \<noteq> i" using eq [OF q(1)] q(2) r(3) by auto
      then show ?thesis using other [of "q\<lparr>tr_last_used := Some now, tr_requests := tr_requests q + 1\<rparr>"] e
        by (simp add: VerifyOp)
    qed (simp add: VerifyOp assms(2))
  next
    case (RevokeOp k now)
    from revoke_effect [OF d, of k now] show ?thesis
    proof (elim disjE bexE conjE)
      fix q :: token_row
      assume q: "q \<in> set tb" "tr_id q = k" and e: "snd (revoke_token k now tb) = put_token (q\<lparr>is_revoked := True, revoked_at := Some now\<rparr>) tb"
      let ?q = "q\<lparr>is_revoked := True, revoked_at := Some now\<rparr>"
      show ?thesis
      proof (cases "k = i")
        case True
        then have "?q \<in> set (put_token ?q tb)" by (intro put_token_same [OF q(1)]) simp
        then have "revoked_in (put_token ?q tb) i" unfolding revoked_in_def
          using q(2) True by (intro bexI [of _ ?q]) simp_all
        then show ?thesis using e by (simp add: RevokeOp)
      next
        case False
        then show ?thesis using other [of ?q] q e by (simp add: RevokeOp)
      qed
    qed (simp add: RevokeOp assms(2))
  qed
qed

lemma revoked_in_run: "revoked_in (token_run mac [] xs) i \<Longrightarrow> revoked_in (token_run mac [] (xs @ ys)) i"
proof (induction ys rule: rev_induct)
  case (snoc y ys)
  then show ?case using revoked_in_step token_run_inv [of mac "xs @ ys"]
    by (simp add: append_assoc [symmetric] del: append_assoc)
qed simp

text \<open>Revocation by the id: the flag is set in the table, or nothing changed.\<close>

lemma revoke_token_Inr:
  assumes "revoke_token i now tb = (Inr tok, tb')"
  shows "revoked_in tb' i"
proof -
  obtain r where g: "get_token i tb = Some r" and t: "tb' = put_token (r\<lparr>is_revoked := True, revoked_at := Some now\<rparr>) tb"
    using assms by (auto simp: revoke_token_def Let_def split: option.splits if_splits)
  note r = get_token_Some [OF g]
  have "r\<lparr>is_revoked := True, revoked_at := Some now\<rparr> \<in> set tb'" unfolding t
    by (rule put_token_same [of r]) (use r in simp_all)
  then show ?thesis unfolding revoked_in_def using r by (intro bexI) simp_all
qed

lemma verify_not_revoked:
  assumes "distinct (map tr_id tb)" and "verify_token mac raw now tb = (Inr tok, tb')"
  shows "\<not> revoked_in tb (ct_id tok)"
proof -
  obtain i s r where "get_token i tb = Some r" "\<not> is_revoked r" "ct_id tok = tr_id r"
    using assms(2) by (auto simp: verify_token_def Let_def conn_token_of_def split: sum.splits option.splits if_splits)
  then show ?thesis using assms(1) by (auto simp: revoked_in_def distinct_map inj_on_def dest!: get_token_Some)
qed

fun asks_at_most :: "int \<Rightarrow> token_op \<Rightarrow> bool" where
  "asks_at_most m (CreateOp l s e k d c t) = (k \<le> m)"
| "asks_at_most m _ = True"

definition active_tokens :: "token_row list \<Rightarrow> int" where
  "active_tokens tb = int (length (filter (\<lambda>r. \<not> is_revoked r) tb))"

lemma active_put_le:
  assumes "\<And>q. q \<in> set tb \<Longrightarrow> tr_id q = tr_id r \<Longrightarrow> \<not> is_revoked r \<Longrightarrow> \<not> is_revoked q"
  shows "active_tokens (put_token r tb) \<le> active_tokens tb"
  using assms unfolding active_tokens_def put_token_def
  by (induction tb) (auto simp: le_Suc_eq)

lemma active_step:
  assumes "distinct (map tr_id tb)" and "active_tokens tb \<le> m"
    and "asks_at_most m x"
  shows "active_tokens (token_step mac tb x) \<le> m"
proof (cases x)
  case (CreateOp l sc e k dr s t)
  with create_effect [of mac l sc e k dr s t tb] assms(2,3) show ?thesis by (force simp: active_tokens_def)
next
  case (VerifyOp raw now)
  from verify_effect [of mac raw now tb] show ?thesis
  proof (elim disjE bexE conjE)
    fix q :: token_row
    assume q: "q \<in> set tb" "\<not> is_revoked q"
      and e: "snd (verify_token mac raw now tb) = put_token (q\<lparr>tr_last_used := Some now, tr_requests := tr_requests q + 1\<rparr>) tb"
    have "p = q" if "p \<in> set tb" "tr_id p = tr_id q" for p
      using that q assms(1) by (auto simp: distinct_map inj_on_def)
    then have "active_tokens (put_token (q\<lparr>tr_last_used := Some now, tr_requests := tr_requests q + 1\<rparr>) tb) \<le> active_tokens tb"
      using q by (intro active_put_le) auto
    then show ?thesis using assms(2) e by (simp add: VerifyOp)
  qed (simp add: VerifyOp assms(2))
next
  case (RevokeOp i now)
  from revoke_effect [OF assms(1), of i now] show ?thesis
  proof (elim disjE bexE conjE)
    fix q :: token_row
    assume e: "snd (revoke_token i now tb) = put_token (q\<lparr>is_revoked := True, revoked_at := Some now\<rparr>) tb"
    have "active_tokens (put_token (q\<lparr>is_revoked := True, revoked_at := Some now\<rparr>) tb) \<le> active_tokens tb"
      by (intro active_put_le) simp
    then show ?thesis using assms(2) e by (simp add: RevokeOp)
  qed (simp add: RevokeOp assms(2))
qed

text \<open>
  Revocation is final and the tokens in force are capped: once a call has revoked an id, no
  text is ever accepted as a token with that id; and when every creation of a run asks for at most
  \<open>m\<close> tokens, at most \<open>m\<close> are in force after it.
\<close>

theorem revocation_final_and_capped:
  assumes "revoke_token i t (token_run mac [] xs) = (Inr tok, tb)"
    and "verify_token mac raw now (token_run mac [] (xs @ RevokeOp i t # ys)) = (res, tb')"
    and "list_all (asks_at_most m) (xs @ RevokeOp i t # ys)" and "0 \<le> m"
  shows "(\<forall>got. res = Inr got \<longrightarrow> ct_id got \<noteq> i)
    \<and> int (length (filter (\<lambda>r. \<not> is_revoked r) (token_run mac [] (xs @ RevokeOp i t # ys)))) \<le> m"
proof -
  have "revoked_in (token_run mac [] (xs @ [RevokeOp i t])) i" using revoke_token_Inr [OF assms(1)] assms(1) by simp
  then have "revoked_in (token_run mac [] ((xs @ [RevokeOp i t]) @ ys)) i" by (rule revoked_in_run)
  then have rv: "revoked_in (token_run mac [] (xs @ RevokeOp i t # ys)) i" by simp
  have "active_tokens (token_run mac [] zs) \<le> m"
    if "list_all (asks_at_most m) zs" for zs
    using that
  proof (induction zs rule: rev_induct)
    case Nil
    show ?case using assms(4) by (simp add: token_run_def active_tokens_def)
  next
    case (snoc z zs)
    have "active_tokens (token_run mac [] zs) \<le> m" using snoc by auto
    then have "active_tokens (token_step mac (token_run mac [] zs) z) \<le> m"
      using token_run_inv [of mac zs] snoc.prems by (intro active_step) auto
    then show ?case by simp
  qed
  with assms(3) have "active_tokens (token_run mac [] (xs @ RevokeOp i t # ys)) \<le> m" by blast
  moreover have "ct_id got \<noteq> i" if "res = Inr got" for got
    using verify_not_revoked [of "token_run mac [] (xs @ RevokeOp i t # ys)"] assms(2) rv that
      token_run_inv [of mac "xs @ RevokeOp i t # ys"] by blast
  ultimately show ?thesis by (simp add: active_tokens_def)
qed

definition sample_secret :: string where
  "sample_secret = ''0123456789abcdef0123456789abcdef''"

definition sample_create :: token_op where
  "sample_create = CreateOp ''l'' None (Some 100) 1 (\<lambda>_. ''Abcdef01'') sample_secret 5"

definition sample_token_row :: token_row where
  "sample_token_row = \<lparr>tr_id = ''Abcdef01'', tr_label = ''l'', hmac_hash = sample_secret, tr_last4 = ''cdef'',
     tr_scopes = Some VALID_SCOPES, tr_created = 5, tr_expires = Some 100, tr_last_used = None, tr_requests = 0,
     is_revoked = False, revoked_at = None\<rparr>"

lemma sample_create_run: "token_run id [] [sample_create] = [sample_token_row]"
  by (simp add: token_run_def sample_create_def sample_secret_def sample_token_row_def create_token_conn_def
      get_token_def VALID_SCOPES_def Let_def upt_conv_Cons)

lemma sample_parse: "parse_token (TOKEN_PREFIX @ ''Abcdef01'' @ ''_'' @ sample_secret) = Inr (''Abcdef01'', sample_secret)"
  unfolding parse_token_iff
  by (simp add: TOKEN_ID_PATTERN_def TOKEN_SECRET_PATTERN_def match_class_def sample_secret_def alnum_def lower_hex_def
      less_eq_char_def)

theorem verified_tokens_issued_witness:
  "\<exists>tok tb. verify_token id (TOKEN_PREFIX @ ''Abcdef01'' @ ''_'' @ sample_secret) 50 (token_run id [] [sample_create]) = (Inr tok, tb)
     \<and> set (ct_scopes tok) \<subseteq> set VALID_SCOPES"
proof -
  obtain tok tb where v: "verify_token id (TOKEN_PREFIX @ ''Abcdef01'' @ ''_'' @ sample_secret) 50
      (token_run id [] [sample_create]) = (Inr tok, tb)"
    unfolding verify_token_def sample_parse sample_create_run
    by (simp add: get_token_def sample_token_row_def Let_def)
  from verified_tokens_issued [OF v] have "set (ct_scopes tok) \<subseteq> set VALID_SCOPES" by auto
  with v show ?thesis by blast
qed

theorem revocation_final_and_capped_witness:
  "fst (verify_token id ''x'' 50 (token_run id [] [sample_create, RevokeOp ''Abcdef01'' 7, sample_create])) \<noteq> Inr (conn_token_of sample_token_row)
   \<and> int (length (filter (\<lambda>r. \<not> is_revoked r) (token_run id [] [sample_create, RevokeOp ''Abcdef01'' 7, sample_create]))) \<le> 1"
proof -
  obtain tok tb where r: "revoke_token ''Abcdef01'' 7 (token_run id [] [sample_create]) = (Inr tok, tb)"
    unfolding sample_create_run by (simp add: revoke_token_def get_token_def sample_token_row_def Let_def)
  obtain res tb' where v: "verify_token id ''x'' 50 (token_run id [] ([sample_create] @ RevokeOp ''Abcdef01'' 7 # [sample_create])) = (res, tb')"
    by (metis surj_pair)
  have "list_all (asks_at_most 1) ([sample_create] @ RevokeOp ''Abcdef01'' 7 # [sample_create])"
    by (simp add: sample_create_def)
  from revocation_final_and_capped [OF r v this] v show ?thesis
    by (auto simp: conn_token_of_def sample_token_row_def)
qed

end
