(* ===== verification/Nudge.thy ===== *)
theory Nudge
  imports Prelude "HOL-Library.AList"
begin

text \<open>
  Proactive nudges of the assistant (app/services/nudge_manager.py) and the dismissal message of
  the co-pilot socket (app/routers/copilot.py).  The dictionaries whose order or length the code
  uses are association lists in insertion order (\<^verbatim>\<open>AList.update\<close> keeps the place of a key, as a
  Python dictionary does), the others are maps; a missing inner dictionary and an empty one are
  read alike.  The clock is read once per call, and the random part of a nudge id is the argument
  \<open>hex\<close>.  The text of a nudge is the caller's, or the template of its trigger.
\<close>

section \<open>Triggers\<close>

record trigger_config =
  max_per_event :: nat
  max_per_session :: nat
  max_per_dataset :: nat
  max_per_operation :: nat
  cooldown_s :: nat
  cf_dismissable :: bool
  cf_required :: bool

definition TriggerConfig :: trigger_config where
  "TriggerConfig = \<lparr>max_per_event = 1, max_per_session = 0, max_per_dataset = 0, max_per_operation = 0,
     cooldown_s = 0, cf_dismissable = True, cf_required = False\<rparr>"

definition TRIGGER_ALLOWLIST :: "(string \<times> trigger_config) list" where
  "TRIGGER_ALLOWLIST =
     [(''error_event'', TriggerConfig\<lparr>max_per_event := 1, cooldown_s := 0\<rparr>),
      (''upload_complete'', TriggerConfig\<lparr>max_per_event := 1, cooldown_s := 0\<rparr>),
      (''processing_complete'', TriggerConfig\<lparr>max_per_event := 1, cooldown_s := 0\<rparr>),
      (''missing_config'', TriggerConfig\<lparr>max_per_session := 1, cooldown_s := 0, cf_dismissable := True\<rparr>),
      (''pii_detected'', TriggerConfig\<lparr>max_per_dataset := 1, cooldown_s := 0\<rparr>),
      (''long_running_op'', TriggerConfig\<lparr>max_per_operation := 1, cooldown_s := 30\<rparr>),
      (''destructive_action'', TriggerConfig\<lparr>max_per_event := 1, cooldown_s := 0, cf_dismissable := False, cf_required := True\<rparr>),
      (''first_search'', TriggerConfig\<lparr>max_per_session := 1, cooldown_s := 30, cf_dismissable := True\<rparr>)]"

definition NUDGE_ICONS :: "(string \<times> string) list" where
  "NUDGE_ICONS =
     [(''error_event'', ''AlertTriangle''), (''upload_complete'', ''CheckCircle''),
      (''processing_complete'', ''CheckCircle''), (''missing_config'', ''Settings''),
      (''pii_detected'', ''Shield''), (''long_running_op'', ''Clock''),
      (''destructive_action'', ''AlertOctagon''), (''first_search'', ''MessageCircle'')]"

datatype nudge_text = Template string | Given string

record nudge_message =
  n_id :: string
  n_trigger :: string
  n_text :: nudge_text
  n_dismissable :: bool
  n_icon :: string
  n_dataset :: "string option"
  n_operation :: "string option"

record nudge_event =
  e_nudge :: string
  e_trigger :: string
  e_action :: string
  e_session :: string
  e_user :: string
  e_time :: real

record nudge_context =
  c_dataset :: "string option"
  c_operation :: "string option"
  c_message :: "string option"

section \<open>The manager\<close>

record nudges =
  nudge_history :: "string \<Rightarrow> string \<Rightarrow> real list"
  session_counts :: "string \<Rightarrow> string \<Rightarrow> nat"
  dataset_counts :: "(string \<times> (string \<Rightarrow> nat)) list"
  dataset_counts_ts :: "(string \<times> real) list"
  operation_counts :: "(string \<times> (string \<Rightarrow> nat)) list"
  operation_counts_ts :: "(string \<times> real) list"
  session_dismissals :: "string \<Rightarrow> string set"
  permanent_dismissals :: "string \<Rightarrow> string set"
  quiet_mode :: "string \<Rightarrow> bool"
  analytics :: "nudge_event list"
  issued_nudges :: "string \<Rightarrow> string \<rightharpoonup> string"
  nudge_check_count :: nat

definition new_nudges :: nudges where
  "new_nudges =
     \<lparr>nudge_history = (\<lambda>_ _. []), session_counts = (\<lambda>_ _. 0), dataset_counts = [], dataset_counts_ts = [],
      operation_counts = [], operation_counts_ts = [], session_dismissals = (\<lambda>_. {}),
      permanent_dismissals = (\<lambda>_. {}), quiet_mode = (\<lambda>_. False), analytics = [],
      issued_nudges = (\<lambda>_. Map.empty), nudge_check_count = 0\<rparr>"

definition MAX_COUNT_ENTRIES :: nat where "MAX_COUNT_ENTRIES = 1000"

definition COUNT_TTL_S :: real where "COUNT_TTL_S = 3600"

text \<open>One of the two count tables with its time stamps: stale entries go, then the oldest beyond the cap.\<close>

definition pop_keys :: "string list \<Rightarrow> (string \<times> 'a) list \<Rightarrow> (string \<times> 'a) list" where
  "pop_keys ks al = filter (\<lambda>p. fst p \<notin> set ks) al"

definition prune_counts ::
  "real \<Rightarrow> (string \<times> (string \<Rightarrow> nat)) list \<times> (string \<times> real) list
    \<Rightarrow> (string \<times> (string \<Rightarrow> nat)) list \<times> (string \<times> real) list" where
  "prune_counts cutoff ct =
     (let stale = map fst (filter (\<lambda>p. snd p < cutoff) (snd ct));
          counts = pop_keys stale (fst ct);
          ts = pop_keys stale (snd ct)
      in if length counts > MAX_COUNT_ENTRIES
         then let victims = map fst (take (length counts - MAX_COUNT_ENTRIES) (sort_key snd ts))
              in (pop_keys victims counts, pop_keys victims ts)
         else (counts, ts))"

definition prune_stale_counts :: "real \<Rightarrow> nudges \<Rightarrow> nudges" where
  "prune_stale_counts now m =
     (let cutoff = now - COUNT_TTL_S;
          ds = prune_counts cutoff (dataset_counts m, dataset_counts_ts m);
          ops = prune_counts cutoff (operation_counts m, operation_counts_ts m)
      in m\<lparr>dataset_counts := fst ds, dataset_counts_ts := snd ds,
           operation_counts := fst ops, operation_counts_ts := snd ops\<rparr>)"

definition count_of :: "string \<Rightarrow> string \<Rightarrow> (string \<times> (string \<Rightarrow> nat)) list \<Rightarrow> nat" where
  "count_of k trigger al = (case map_of al k of None \<Rightarrow> 0 | Some c \<Rightarrow> c trigger)"

definition bump_count :: "string \<Rightarrow> string \<Rightarrow> (string \<times> (string \<Rightarrow> nat)) list \<Rightarrow> (string \<times> (string \<Rightarrow> nat)) list" where
  "bump_count k trigger al =
     AList.update k ((case map_of al k of None \<Rightarrow> (\<lambda>_. 0) | Some c \<Rightarrow> c)(trigger := count_of k trigger al + 1)) al"

definition cooling :: "trigger_config \<Rightarrow> real \<Rightarrow> real list \<Rightarrow> bool" where
  "cooling cf now hist \<longleftrightarrow> cooldown_s cf > 0 \<and> hist \<noteq> [] \<and> now - last hist < real (cooldown_s cf)"

definition event_limited :: "trigger_config \<Rightarrow> real \<Rightarrow> real list \<Rightarrow> bool" where
  "event_limited cf now hist \<longleftrightarrow>
     max_per_event cf > 0 \<and> length (filter (\<lambda>t. now - t < 1) hist) \<ge> max_per_event cf"

text \<open>
  The checks in the order of the code; any of them suppresses the nudge.
\<close>

definition suppressed ::
  "trigger_config \<Rightarrow> string \<Rightarrow> nudge_context \<Rightarrow> string \<Rightarrow> string \<Rightarrow> real \<Rightarrow> nudges \<Rightarrow> bool" where
  "suppressed cf trigger ctx sid uid now m \<longleftrightarrow>
     quiet_mode m sid
     \<or> (uid \<noteq> [] \<and> trigger \<in> permanent_dismissals m uid)
     \<or> trigger \<in> session_dismissals m sid
     \<or> (max_per_session cf > 0 \<and> session_counts m sid trigger \<ge> max_per_session cf)
     \<or> (max_per_dataset cf > 0 \<and> truthy (c_dataset ctx)
         \<and> count_of (the (c_dataset ctx)) trigger (dataset_counts m) \<ge> max_per_dataset cf)
     \<or> (max_per_operation cf > 0 \<and> truthy (c_operation ctx)
         \<and> count_of (the (c_operation ctx)) trigger (operation_counts m) \<ge> max_per_operation cf)
     \<or> cooling cf now (nudge_history m sid trigger)
     \<or> event_limited cf now (nudge_history m sid trigger)"

definition fire ::
  "trigger_config \<Rightarrow> string \<Rightarrow> nudge_context \<Rightarrow> string \<Rightarrow> string \<Rightarrow> string \<Rightarrow> real \<Rightarrow> nudges \<Rightarrow> nudge_message \<times> nudges" where
  "fire cf trigger ctx sid uid hex now m =
     (let nid = ''ndg_'' @ hex;
          m1 = m\<lparr>nudge_history := (nudge_history m)(sid := (nudge_history m sid)(trigger := nudge_history m sid trigger @ [now])),
                 session_counts := (session_counts m)(sid := (session_counts m sid)(trigger := session_counts m sid trigger + 1))\<rparr>;
          m2 = (if truthy (c_dataset ctx)
                then m1\<lparr>dataset_counts := bump_count (the (c_dataset ctx)) trigger (dataset_counts m1),
                        dataset_counts_ts := AList.update (the (c_dataset ctx)) now (dataset_counts_ts m1)\<rparr>
                else m1);
          m3 = (if truthy (c_operation ctx)
                then m2\<lparr>operation_counts := bump_count (the (c_operation ctx)) trigger (operation_counts m2),
                        operation_counts_ts := AList.update (the (c_operation ctx)) now (operation_counts_ts m2)\<rparr>
                else m2)
      in (\<lparr>n_id = nid, n_trigger = trigger,
           n_text = (if truthy (c_message ctx) then Given (the (c_message ctx)) else Template trigger),
           n_dismissable = (cf_dismissable cf \<and> \<not> cf_required cf),
           n_icon = (case map_of NUDGE_ICONS trigger of None \<Rightarrow> ''Info'' | Some i \<Rightarrow> i),
           n_dataset = c_dataset ctx, n_operation = c_operation ctx\<rparr>,
          m3\<lparr>issued_nudges := (issued_nudges m3)(sid := (issued_nudges m3 sid)(nid \<mapsto> trigger)),
             analytics := analytics m3 @
               [\<lparr>e_nudge = nid, e_trigger = trigger, e_action = ''nudge_shown'', e_session = sid, e_user = uid, e_time = now\<rparr>]\<rparr>))"

definition maybe_nudge ::
  "string \<Rightarrow> nudge_context \<Rightarrow> string \<Rightarrow> string \<Rightarrow> string \<Rightarrow> real \<Rightarrow> nudges \<Rightarrow> nudge_message option \<times> nudges" where
  "maybe_nudge trigger ctx sid uid hex now m =
     (let m1 = m\<lparr>nudge_check_count := nudge_check_count m + 1\<rparr>;
          m2 = (if nudge_check_count m1 mod 100 = 0 then prune_stale_counts now m1 else m1)
      in case map_of TRIGGER_ALLOWLIST trigger of
           None \<Rightarrow> (None, m2)
         | Some cf \<Rightarrow>
             (if suppressed cf trigger ctx sid uid now m2 then (None, m2)
              else (case fire cf trigger ctx sid uid hex now m2 of (n, m') \<Rightarrow> (Some n, m'))))"

definition was_nudge_issued :: "string \<Rightarrow> string \<Rightarrow> nudges \<Rightarrow> bool" where
  "was_nudge_issued sid nid m = (issued_nudges m sid nid \<noteq> None)"

definition interaction :: "string \<Rightarrow> string \<Rightarrow> string \<Rightarrow> string \<Rightarrow> string \<Rightarrow> real \<Rightarrow> nudge_event" where
  "interaction nid trigger action sid uid now =
     \<lparr>e_nudge = (if nid = [] then ''unknown_'' @ trigger else nid), e_trigger = trigger, e_action = action,
      e_session = sid, e_user = uid, e_time = now\<rparr>"

definition record_dismissal ::
  "string \<Rightarrow> string \<Rightarrow> bool \<Rightarrow> string \<Rightarrow> string \<Rightarrow> real \<Rightarrow> nudges \<Rightarrow> nudges" where
  "record_dismissal sid trigger permanent uid nid now m =
     (if map_of TRIGGER_ALLOWLIST trigger = None then m
      else let m1 = m\<lparr>session_dismissals := (session_dismissals m)(sid := insert trigger (session_dismissals m sid))\<rparr>;
               m2 = (if permanent \<and> uid \<noteq> []
                     then m1\<lparr>permanent_dismissals := (permanent_dismissals m1)(uid := insert trigger (permanent_dismissals m1 uid))\<rparr>
                     else m1)
           in m2\<lparr>analytics := analytics m2 @
                [interaction nid trigger (if permanent then ''nudge_permanent_dismiss'' else ''nudge_dismissed'') sid uid now]\<rparr>)"

definition record_acted :: "string \<Rightarrow> string \<Rightarrow> string \<Rightarrow> string \<Rightarrow> real \<Rightarrow> nudges \<Rightarrow> nudges" where
  "record_acted sid trigger uid nid now m =
     m\<lparr>analytics := analytics m @ [interaction nid trigger ''nudge_acted'' sid uid now]\<rparr>"

definition set_quiet_mode :: "string \<Rightarrow> bool \<Rightarrow> nudges \<Rightarrow> nudges" where
  "set_quiet_mode sid quiet m = m\<lparr>quiet_mode := (quiet_mode m)(sid := quiet)\<rparr>"

definition load_permanent_dismissals :: "string \<Rightarrow> string list \<Rightarrow> nudges \<Rightarrow> nudges" where
  "load_permanent_dismissals uid triggers m =
     m\<lparr>permanent_dismissals := (permanent_dismissals m)(uid := set triggers)\<rparr>"

definition cleanup_session :: "string \<Rightarrow> nudges \<Rightarrow> nudges" where
  "cleanup_session sid m =
     m\<lparr>nudge_history := (nudge_history m)(sid := (\<lambda>_. [])),
       session_counts := (session_counts m)(sid := (\<lambda>_. 0)),
       session_dismissals := (session_dismissals m)(sid := {}),
       quiet_mode := (quiet_mode m)(sid := False),
       issued_nudges := (issued_nudges m)(sid := Map.empty)\<rparr>"

definition get_analytics :: "nudges \<Rightarrow> nudge_event list \<times> nudges" where
  "get_analytics m = (analytics m, m\<lparr>analytics := []\<rparr>)"

record ws_nudge =
  w_trigger :: string
  w_text :: nudge_text
  w_id :: string
  w_dismissable :: bool
  w_icon :: string

definition to_ws_message :: "nudge_message \<Rightarrow> ws_nudge" where
  "to_ws_message n = \<lparr>w_trigger = n_trigger n, w_text = n_text n, w_id = n_id n,
     w_dismissable = n_dismissable n, w_icon = n_icon n\<rparr>"

text \<open>
  The \<^verbatim>\<open>NUDGE_DISMISS\<close> message of the socket; the second result says whether the dismissal is also
  written to the user's preferences.
\<close>

definition ws_nudge_dismiss ::
  "string \<Rightarrow> string \<Rightarrow> string \<Rightarrow> string \<Rightarrow> bool \<Rightarrow> real \<Rightarrow> nudges \<Rightarrow> nudges \<times> bool" where
  "ws_nudge_dismiss sid uid trigger nid permanent now m =
     (if map_of TRIGGER_ALLOWLIST trigger = None then (m, False)
      else if permanent \<and> \<not> was_nudge_issued sid nid m then (m, False)
      else (record_dismissal sid trigger permanent uid nid now m, permanent))"

section \<open>Runs\<close>

datatype nudge_op =
    MaybeOp string nudge_context string string string real
  | DismissOp string string bool string string real
  | ActedOp string string string string real
  | QuietOp string bool
  | LoadOp string "string list"
  | CleanupOp string
  | WsDismissOp string string string string bool real
  | AnalyticsOp

fun nudge_step :: "nudges \<Rightarrow> nudge_op \<Rightarrow> nudges" where
  "nudge_step m (MaybeOp trigger ctx sid uid hex now) = snd (maybe_nudge trigger ctx sid uid hex now m)"
| "nudge_step m (DismissOp sid trigger permanent uid nid now) = record_dismissal sid trigger permanent uid nid now m"
| "nudge_step m (ActedOp sid trigger uid nid now) = record_acted sid trigger uid nid now m"
| "nudge_step m (QuietOp sid quiet) = set_quiet_mode sid quiet m"
| "nudge_step m (LoadOp uid triggers) = load_permanent_dismissals uid triggers m"
| "nudge_step m (CleanupOp sid) = cleanup_session sid m"
| "nudge_step m (WsDismissOp sid uid trigger nid permanent now) = fst (ws_nudge_dismiss sid uid trigger nid permanent now m)"
| "nudge_step m AnalyticsOp = snd (get_analytics m)"

definition nudge_run :: "nudges \<Rightarrow> nudge_op list \<Rightarrow> nudges" where
  "nudge_run = foldl nudge_step"

lemma nudge_run_simps [simp]:
  "nudge_run m [] = m" "nudge_run m (x # xs) = nudge_run (nudge_step m x) xs"
  "nudge_run m (xs @ ys) = nudge_run (nudge_run m xs) ys"
  by (simp_all add: nudge_run_def)

text \<open>
  The times at which a run shows nudges, for the sessions, users and triggers that satisfy \<open>P\<close>.
\<close>

fun shown_by :: "(string \<Rightarrow> string \<Rightarrow> string \<Rightarrow> bool) \<Rightarrow> nudges \<Rightarrow> nudge_op \<Rightarrow> real list" where
  "shown_by P m (MaybeOp trigger ctx sid uid hex now) =
     (if P sid uid trigger \<and> fst (maybe_nudge trigger ctx sid uid hex now m) \<noteq> None then [now] else [])"
| "shown_by P m _ = []"

fun shown_times :: "(string \<Rightarrow> string \<Rightarrow> string \<Rightarrow> bool) \<Rightarrow> nudges \<Rightarrow> nudge_op list \<Rightarrow> real list" where
  "shown_times P m [] = []"
| "shown_times P m (x # xs) = shown_by P m x @ shown_times P (nudge_step m x) xs"

lemma prune_fields [simp]:
  "nudge_history (prune_stale_counts now m) = nudge_history m"
  "session_counts (prune_stale_counts now m) = session_counts m"
  "session_dismissals (prune_stale_counts now m) = session_dismissals m"
  "permanent_dismissals (prune_stale_counts now m) = permanent_dismissals m"
  "quiet_mode (prune_stale_counts now m) = quiet_mode m"
  "issued_nudges (prune_stale_counts now m) = issued_nudges m"
  by (simp_all add: prune_stale_counts_def Let_def)

lemma fire_fields [simp]:
  "nudge_history (snd (fire cf trigger ctx sid uid hex now m)) =
     (nudge_history m)(sid := (nudge_history m sid)(trigger := nudge_history m sid trigger @ [now]))"
  "session_counts (snd (fire cf trigger ctx sid uid hex now m)) =
     (session_counts m)(sid := (session_counts m sid)(trigger := session_counts m sid trigger + 1))"
  "session_dismissals (snd (fire cf trigger ctx sid uid hex now m)) = session_dismissals m"
  "permanent_dismissals (snd (fire cf trigger ctx sid uid hex now m)) = permanent_dismissals m"
  "quiet_mode (snd (fire cf trigger ctx sid uid hex now m)) = quiet_mode m"
  by (simp_all add: fire_def Let_def)

text \<open>What a check does: nothing that matters here, or it fires after every check has passed.\<close>

lemma maybe_nudge_cases:
  obtains (quiet) m2 where "maybe_nudge trigger ctx sid uid hex now m = (None, m2)"
      "nudge_history m2 = nudge_history m" "session_counts m2 = session_counts m"
      "session_dismissals m2 = session_dismissals m" "permanent_dismissals m2 = permanent_dismissals m"
      "quiet_mode m2 = quiet_mode m"
  | (fires) cf m2 where "map_of TRIGGER_ALLOWLIST trigger = Some cf" "\<not> suppressed cf trigger ctx sid uid now m2"
      "maybe_nudge trigger ctx sid uid hex now m =
         (Some (fst (fire cf trigger ctx sid uid hex now m2)), snd (fire cf trigger ctx sid uid hex now m2))"
      "nudge_history m2 = nudge_history m" "session_counts m2 = session_counts m"
      "session_dismissals m2 = session_dismissals m" "permanent_dismissals m2 = permanent_dismissals m"
      "quiet_mode m2 = quiet_mode m"
proof -
  let ?m1 = "m\<lparr>nudge_check_count := nudge_check_count m + 1\<rparr>"
  let ?m2 = "if nudge_check_count ?m1 mod 100 = 0 then prune_stale_counts now ?m1 else ?m1"
  have f: "nudge_history ?m2 = nudge_history m" "session_counts ?m2 = session_counts m"
      "session_dismissals ?m2 = session_dismissals m" "permanent_dismissals ?m2 = permanent_dismissals m"
      "quiet_mode ?m2 = quiet_mode m" by simp_all
  show ?thesis
  proof (cases "map_of TRIGGER_ALLOWLIST trigger")
    case None
    then have "maybe_nudge trigger ctx sid uid hex now m = (None, ?m2)" by (simp add: maybe_nudge_def Let_def)
    then show ?thesis using f by (rule quiet)
  next
    case (Some cf)
    show ?thesis
    proof (cases "suppressed cf trigger ctx sid uid now ?m2")
      case True
      then have "maybe_nudge trigger ctx sid uid hex now m = (None, ?m2)" using Some
        by (simp only: maybe_nudge_def Let_def option.case if_True)
      then show ?thesis using f by (rule quiet)
    next
      case False
      then have "maybe_nudge trigger ctx sid uid hex now m =
         (Some (fst (fire cf trigger ctx sid uid hex now ?m2)), snd (fire cf trigger ctx sid uid hex now ?m2))"
        using Some by (simp only: maybe_nudge_def Let_def option.case if_False prod.case_eq_if)
      with Some False show ?thesis using f by (rule fires)
    qed
  qed
qed

lemma dismissal_fields [simp]:
  "nudge_history (record_dismissal sid t p u n now m) = nudge_history m"
  "session_counts (record_dismissal sid t p u n now m) = session_counts m"
  "quiet_mode (record_dismissal sid t p u n now m) = quiet_mode m"
  by (simp_all add: record_dismissal_def Let_def)

lemma ws_dismiss_fst:
  "fst (ws_nudge_dismiss sid uid t nid p now m) = m \<or>
   fst (ws_nudge_dismiss sid uid t nid p now m) = record_dismissal sid t p uid nid now m"
  by (simp add: ws_nudge_dismiss_def)

lemma ws_dismiss_fields [simp]:
  "nudge_history (fst (ws_nudge_dismiss sid uid t nid p now m)) = nudge_history m"
  "session_counts (fst (ws_nudge_dismiss sid uid t nid p now m)) = session_counts m"
  "quiet_mode (fst (ws_nudge_dismiss sid uid t nid p now m)) = quiet_mode m"
  using ws_dismiss_fst [of sid uid t nid p now m] by auto

section \<open>Rate limits\<close>

definition nudge_gap :: "trigger_config \<Rightarrow> real" where
  "nudge_gap cf = max 1 (real (cooldown_s cf))"

text \<open>The history of a session and trigger: spaced by the gap, and counted.\<close>

definition spaced :: "real \<Rightarrow> real list \<Rightarrow> bool" where
  "spaced g ts \<longleftrightarrow> sorted_wrt (\<lambda>a b. a + g \<le> b) ts"

definition trigger_ok :: "string \<Rightarrow> nat \<Rightarrow> real list \<Rightarrow> bool" where
  "trigger_ok trigger n ts \<longleftrightarrow> n = length ts \<and>
     (case map_of TRIGGER_ALLOWLIST trigger of
        None \<Rightarrow> ts = []
      | Some cf \<Rightarrow> spaced (nudge_gap cf) ts \<and> (max_per_session cf > 0 \<longrightarrow> length ts \<le> max_per_session cf))"

definition nudge_inv :: "nudges \<Rightarrow> bool" where
  "nudge_inv m \<longleftrightarrow> (\<forall>sid trigger. trigger_ok trigger (session_counts m sid trigger) (nudge_history m sid trigger))"

lemma trigger_ok_Nil: "trigger_ok trigger 0 []"
  by (simp add: trigger_ok_def spaced_def split: option.split)

lemma trigger_okD:
  assumes "trigger_ok trigger n ts"
  shows "n = length ts" and "map_of TRIGGER_ALLOWLIST trigger = None \<Longrightarrow> ts = []"
    and "map_of TRIGGER_ALLOWLIST trigger = Some cf \<Longrightarrow>
      spaced (nudge_gap cf) ts \<and> (max_per_session cf > 0 \<longrightarrow> length ts \<le> max_per_session cf)"
  using assms unfolding trigger_ok_def by simp_all

lemma allowlist_per_event: "map_of TRIGGER_ALLOWLIST trigger = Some cf \<Longrightarrow> max_per_event cf = 1"
proof -
  assume "map_of TRIGGER_ALLOWLIST trigger = Some cf"
  then have "(trigger, cf) \<in> set TRIGGER_ALLOWLIST" by (rule map_of_SomeD)
  moreover have "\<forall>p\<in>set TRIGGER_ALLOWLIST. max_per_event (snd p) = 1"
    by (simp add: TRIGGER_ALLOWLIST_def TriggerConfig_def)
  ultimately have "max_per_event (snd (trigger, cf)) = 1" by (rule bspec [rotated])
  then show ?thesis by simp
qed

lemma spaced_snoc:
  assumes "spaced g ts" and "ts \<noteq> [] \<Longrightarrow> last ts + g \<le> now" and "0 \<le> g"
  shows "spaced g (ts @ [now])"
proof (cases ts rule: rev_cases)
  case Nil
  then show ?thesis by (simp add: spaced_def)
next
  case (snoc us z)
  have z: "z + g \<le> now" using assms(2) by (simp add: snoc)
  have "t + g \<le> z" if "t \<in> set us" for t
    using assms(1) that by (simp add: spaced_def snoc sorted_wrt_append)
  then have "t + g \<le> now" if "t \<in> set us" for t using that z assms(3) by fastforce
  then show ?thesis using assms(1) z by (simp add: spaced_def snoc sorted_wrt_append)
qed

lemma not_suppressed_gap:
  assumes "\<not> suppressed cf trigger ctx sid uid now m" and "max_per_event cf = 1"
    and "nudge_history m sid trigger \<noteq> []"
  shows "last (nudge_history m sid trigger) + nudge_gap cf \<le> now"
proof -
  let ?h = "nudge_history m sid trigger"
  have "\<not> event_limited cf now ?h" "\<not> cooling cf now ?h" using assms(1) by (simp_all add: suppressed_def)
  then have l: "length (filter (\<lambda>t. now - t < 1) ?h) < 1" and c: "cooldown_s cf > 0 \<longrightarrow> now - last ?h \<ge> real (cooldown_s cf)"
    using assms(2,3) unfolding event_limited_def cooling_def by (metis not_le zero_less_one, metis not_le)
  then have e: "filter (\<lambda>t. now - t < 1) ?h = []" by simp
  have "last ?h \<in> set ?h" using assms(3) by simp
  then have "\<not> now - last ?h < 1" using e by (metis filter_empty_conv)
  then show ?thesis using c unfolding nudge_gap_def by (cases "cooldown_s cf = 0") (auto simp: max_def)
qed

lemma nudge_inv_new: "nudge_inv new_nudges"
  by (simp add: nudge_inv_def new_nudges_def trigger_ok_Nil)

lemma nudge_inv_cong:
  "nudge_inv m \<Longrightarrow> nudge_history m' = nudge_history m \<Longrightarrow> session_counts m' = session_counts m \<Longrightarrow> nudge_inv m'"
  by (simp add: nudge_inv_def)

lemma nudge_inv_step: "nudge_inv m \<Longrightarrow> nudge_inv (nudge_step m x)"
proof (cases x)
  case (MaybeOp trigger ctx sid uid hex now)
  assume i: "nudge_inv m"
  show ?thesis
  proof (cases rule: maybe_nudge_cases [of trigger ctx sid uid hex now m])
    case (quiet m2)
    then show ?thesis using nudge_inv_cong [OF i, of m2] by (simp add: MaybeOp)
  next
    case (fires cf m2)
    have i2: "nudge_inv m2" by (rule nudge_inv_cong [OF i fires(4,5)])
    let ?h = "nudge_history m2 sid trigger"
    have ok: "trigger_ok trigger (session_counts m2 sid trigger) ?h" using i2 by (simp add: nudge_inv_def)
    have "spaced (nudge_gap cf) (?h @ [now])"
      using trigger_okD(3) [OF ok fires(1)] not_suppressed_gap [OF fires(2) allowlist_per_event [OF fires(1)]]
      by (intro spaced_snoc) (auto simp: nudge_gap_def)
    moreover have "max_per_session cf > 0 \<Longrightarrow> length ?h < max_per_session cf"
      using fires(2) trigger_okD(1) [OF ok] by (simp add: suppressed_def)
    ultimately have "trigger_ok trigger (session_counts m2 sid trigger + 1) (?h @ [now])"
      unfolding trigger_ok_def fires(1) using trigger_okD(1) [OF ok] by (simp add: Suc_le_eq)
    then show ?thesis using i2 unfolding MaybeOp nudge_step.simps fires(3) snd_conv nudge_inv_def fire_fields
      by simp
  qed
next
  case (CleanupOp sid)
  assume "nudge_inv m"
  then show ?thesis by (simp add: CleanupOp nudge_inv_def cleanup_session_def trigger_ok_Nil)
qed (erule nudge_inv_cong; simp add: record_acted_def set_quiet_mode_def load_permanent_dismissals_def get_analytics_def)+

lemma nudge_inv_run: "nudge_inv (nudge_run new_nudges xs)"
proof (induction xs rule: rev_induct)
  case (snoc x xs)
  then show ?case using nudge_inv_step by simp
qed (simp add: nudge_inv_new)

lemma history_grows:
  "CleanupOp sid \<notin> set ys \<Longrightarrow>
     nudge_history (nudge_run m ys) sid trigger
       = nudge_history m sid trigger @ shown_times (\<lambda>s u t. s = sid \<and> t = trigger) m ys"
proof (induction ys arbitrary: m)
  case (Cons x ys)
  have "nudge_history (nudge_step m x) sid trigger = nudge_history m sid trigger @ shown_by (\<lambda>s u t. s = sid \<and> t = trigger) m x"
  proof (cases x)
    case (MaybeOp t ctx s uid hex now)
    show ?thesis
      by (cases rule: maybe_nudge_cases [of t ctx s uid hex now m]) (simp_all add: MaybeOp)
  next
    case (CleanupOp s)
    then show ?thesis using Cons.prems by (simp add: cleanup_session_def)
  qed (simp_all add: record_acted_def set_quiet_mode_def load_permanent_dismissals_def get_analytics_def)
  then show ?case using Cons by simp
qed simp

text \<open>
  C38. The limits hold in every run: within a session, from any point on until it is cleaned up, a
  trigger shows at most its number of nudges per session, two of them are at least a second and
  its cooldown apart, and a trigger outside the allowlist shows none.
\<close>

theorem nudge_limits_hold:
  assumes "CleanupOp sid \<notin> set ys"
    and "ts = shown_times (\<lambda>s u t. s = sid \<and> t = trigger) (nudge_run new_nudges xs) ys"
  shows "(map_of TRIGGER_ALLOWLIST trigger = None \<longrightarrow> ts = [])
    \<and> (\<forall>cf. map_of TRIGGER_ALLOWLIST trigger = Some cf \<longrightarrow>
         (max_per_session cf > 0 \<longrightarrow> length ts \<le> max_per_session cf)
         \<and> sorted_wrt (\<lambda>a b. a + max 1 (real (cooldown_s cf)) \<le> b) ts)"
proof -
  have "nudge_inv (nudge_run new_nudges (xs @ ys))" by (rule nudge_inv_run)
  moreover have "nudge_history (nudge_run new_nudges (xs @ ys)) sid trigger
      = nudge_history (nudge_run new_nudges xs) sid trigger @ ts"
    using history_grows [OF assms(1)] by (simp add: assms(2))
  ultimately have ok: "trigger_ok trigger (session_counts (nudge_run new_nudges (xs @ ys)) sid trigger)
      (nudge_history (nudge_run new_nudges xs) sid trigger @ ts)" unfolding nudge_inv_def by metis
  show ?thesis using trigger_okD(2,3) [OF ok]
    by (auto simp: sorted_wrt_append spaced_def nudge_gap_def)
qed

definition ctx0 :: nudge_context where
  "ctx0 = \<lparr>c_dataset = None, c_operation = None, c_message = None\<rparr>"

theorem nudge_limits_hold_witness:
  "length (shown_times (\<lambda>s u t. s = ''s'' \<and> t = ''first_search'') (nudge_run new_nudges [])
      [MaybeOp ''first_search'' ctx0 ''s'' ''u'' ''1'' 0, MaybeOp ''first_search'' ctx0 ''s'' ''u'' ''2'' 50]) \<le> 1"
proof -
  have "map_of TRIGGER_ALLOWLIST ''first_search'' = Some (TriggerConfig\<lparr>max_per_session := 1, cooldown_s := 30, cf_dismissable := True\<rparr>)"
    by (simp add: TRIGGER_ALLOWLIST_def)
  with nudge_limits_hold [OF _ refl, of "''s''"
      "[MaybeOp ''first_search'' ctx0 ''s'' ''u'' ''1'' 0, MaybeOp ''first_search'' ctx0 ''s'' ''u'' ''2'' 50]" "''first_search''" "[]"]
  show ?thesis by simp
qed

section \<open>Dismissals and quiet mode\<close>

text \<open>
  A condition on the manager that silences the nudges of \<open>P\<close> and survives every operation that
  satisfies \<open>ok\<close> silences a whole run.
\<close>

lemma silent_run:
  assumes "I m" and "list_all ok ys"
    and "\<And>m x. I m \<Longrightarrow> ok x \<Longrightarrow> I (nudge_step m x)"
    and "\<And>m cf trigger ctx sid uid now. I m \<Longrightarrow> P sid uid trigger \<Longrightarrow> suppressed cf trigger ctx sid uid now m"
    and "\<And>m m'. I m \<Longrightarrow> session_dismissals m' = session_dismissals m \<Longrightarrow> permanent_dismissals m' = permanent_dismissals m
      \<Longrightarrow> quiet_mode m' = quiet_mode m \<Longrightarrow> I m'"
  shows "shown_times P m ys = []"
  using assms(1,2)
proof (induction ys arbitrary: m)
  case (Cons x ys)
  have "shown_by P m x = []"
  proof (cases x)
    case (MaybeOp trigger ctx sid uid hex now)
    show ?thesis
    proof (cases rule: maybe_nudge_cases [of trigger ctx sid uid hex now m])
      case (fires cf m2)
      have "I m2" using assms(5) [OF Cons.prems(1)] fires by blast
      then have "\<not> P sid uid trigger" using assms(4) fires(2) by blast
      then show ?thesis by (simp add: MaybeOp)
    qed (simp add: MaybeOp)
  qed simp_all
  then show ?case using Cons assms(3) by simp
qed simp

lemma maybe_nudge_flags [simp]:
  "session_dismissals (snd (maybe_nudge t ctx s u hex now m)) = session_dismissals m"
  "permanent_dismissals (snd (maybe_nudge t ctx s u hex now m)) = permanent_dismissals m"
  "quiet_mode (snd (maybe_nudge t ctx s u hex now m)) = quiet_mode m"
  by (cases rule: maybe_nudge_cases [of t ctx s u hex now m]; simp)+

lemma dismissal_grows:
  "session_dismissals m s \<subseteq> session_dismissals (record_dismissal sid t p u n now m) s"
  "permanent_dismissals m v \<subseteq> permanent_dismissals (record_dismissal sid t p u n now m) v"
  by (auto simp: record_dismissal_def Let_def)

lemma ws_dismiss_grows:
  "session_dismissals m s \<subseteq> session_dismissals (fst (ws_nudge_dismiss sid u t n p now m)) s"
  "permanent_dismissals m v \<subseteq> permanent_dismissals (fst (ws_nudge_dismiss sid u t n p now m)) v"
  using dismissal_grows(1) [of m s sid t p u n now] dismissal_grows(2) [of m v sid t p u n now]
    ws_dismiss_fst [of sid u t n p now m] by (elim disjE; simp)+

lemma session_dismissal_stays:
  "trigger \<in> session_dismissals m sid \<Longrightarrow> x \<noteq> CleanupOp sid \<Longrightarrow> trigger \<in> session_dismissals (nudge_step m x) sid"
  using dismissal_grows(1) ws_dismiss_grows(1)
  by (cases x) (auto simp: record_acted_def set_quiet_mode_def load_permanent_dismissals_def
      get_analytics_def cleanup_session_def subset_iff)

lemma permanent_dismissal_stays:
  "trigger \<in> permanent_dismissals m uid \<Longrightarrow> \<forall>ts. x \<noteq> LoadOp uid ts \<Longrightarrow> trigger \<in> permanent_dismissals (nudge_step m x) uid"
  using dismissal_grows(2) ws_dismiss_grows(2)
  by (cases x) (auto simp: record_acted_def set_quiet_mode_def load_permanent_dismissals_def
      get_analytics_def cleanup_session_def subset_iff)

lemma quiet_stays:
  "quiet_mode m sid \<Longrightarrow> x \<notin> {CleanupOp sid, QuietOp sid False} \<Longrightarrow> quiet_mode (nudge_step m x) sid"
  by (cases x) (auto simp: record_acted_def set_quiet_mode_def load_permanent_dismissals_def
      get_analytics_def cleanup_session_def)

lemma session_dismissed_silent:
  assumes "trigger \<in> session_dismissals m sid" and "CleanupOp sid \<notin> set ys"
  shows "shown_times (\<lambda>s u t. s = sid \<and> t = trigger) m ys = []"
  by (rule silent_run [where I = "\<lambda>m. trigger \<in> session_dismissals m sid" and ok = "\<lambda>x. x \<noteq> CleanupOp sid"])
    (use assms session_dismissal_stays in \<open>auto simp: suppressed_def list_all_iff\<close>)

lemma permanently_dismissed_silent:
  assumes "trigger \<in> permanent_dismissals m uid" and "uid \<noteq> []" and "\<forall>ts. LoadOp uid ts \<notin> set ys"
  shows "shown_times (\<lambda>s u t. u = uid \<and> t = trigger) m ys = []"
  by (rule silent_run [where I = "\<lambda>m. trigger \<in> permanent_dismissals m uid" and ok = "\<lambda>x. \<forall>ts. x \<noteq> LoadOp uid ts"])
    (use assms permanent_dismissal_stays in \<open>auto simp: suppressed_def list_all_iff\<close>)

lemma quiet_silent:
  assumes "quiet_mode m sid" and "CleanupOp sid \<notin> set ys" and "QuietOp sid False \<notin> set ys"
  shows "shown_times (\<lambda>s u t. s = sid) m ys = []"
  by (rule silent_run [where I = "\<lambda>m. quiet_mode m sid" and ok = "\<lambda>x. x \<notin> {CleanupOp sid, QuietOp sid False}"])
    (use assms quiet_stays in \<open>auto simp: suppressed_def list_all_iff\<close>)

text \<open>
  What the user silences stays silent: after a dismissal the trigger shows nothing in the session
  until it is cleaned up; after a permanent one nothing in any session of the user until the
  stored dismissals are loaded again; in quiet mode the session shows nothing until it is turned
  off or the session is cleaned up.
\<close>

theorem silenced_nudges_stay_silent:
  assumes "map_of TRIGGER_ALLOWLIST trigger \<noteq> None"
  shows "(CleanupOp sid \<notin> set ys \<longrightarrow>
      shown_times (\<lambda>s u t. s = sid \<and> t = trigger) (record_dismissal sid trigger p uid nid now m) ys = [])
    \<and> (uid \<noteq> [] \<and> (\<forall>ts. LoadOp uid ts \<notin> set ys) \<longrightarrow>
      shown_times (\<lambda>s u t. u = uid \<and> t = trigger) (record_dismissal sid trigger True uid nid now m) ys = [])
    \<and> (CleanupOp sid \<notin> set ys \<and> QuietOp sid False \<notin> set ys \<longrightarrow>
      shown_times (\<lambda>s u t. s = sid) (set_quiet_mode sid True m) ys = [])"
proof -
  have "trigger \<in> session_dismissals (record_dismissal sid trigger p uid nid now m) sid"
    unfolding record_dismissal_def Let_def using assms by (simp only: if_False) simp
  moreover have "trigger \<in> permanent_dismissals (record_dismissal sid trigger True uid nid now m) uid" if "uid \<noteq> []"
    unfolding record_dismissal_def Let_def using assms that by (simp only: if_False) simp
  moreover have "quiet_mode (set_quiet_mode sid True m) sid" by (simp add: set_quiet_mode_def)
  ultimately show ?thesis using session_dismissed_silent permanently_dismissed_silent quiet_silent by blast
qed

theorem silenced_nudges_stay_silent_witness:
  "shown_times (\<lambda>s u t. s = ''s'' \<and> t = ''pii_detected'') (record_dismissal ''s'' ''pii_detected'' False ''u'' [] 0 new_nudges)
     [MaybeOp ''pii_detected'' ctx0 ''s'' ''u'' ''1'' 9] = []"
  using silenced_nudges_stay_silent [of "''pii_detected''" "''s''" "[MaybeOp ''pii_detected'' ctx0 ''s'' ''u'' ''1'' 9]"
      False "''u''" "[]" 0 new_nudges]
  by (simp add: TRIGGER_ALLOWLIST_def)

text \<open>
  The confirmation of destructive actions can be silenced for ever: its nudges are sent as not
  dismissable, but the socket accepts a permanent dismissal of that trigger on the id of any nudge
  the session was ever sent, stores it, and from then on the user is never shown one again in any
  session, until the stored dismissals are loaded anew.
\<close>

theorem required_nudge_silenced:
  assumes "was_nudge_issued sid nid m" and "uid \<noteq> []" and "\<forall>ts. LoadOp uid ts \<notin> set ys"
    and "ws_nudge_dismiss sid uid ''destructive_action'' nid True now m = (m', saved)"
  shows "(\<forall>n m2. maybe_nudge ''destructive_action'' ctx sid2 uid2 hex now2 m0 = (Some n, m2) \<longrightarrow> \<not> n_dismissable n)
    \<and> saved \<and> shown_times (\<lambda>s u t. u = uid \<and> t = ''destructive_action'') m' ys = []"
proof -
  have al: "map_of TRIGGER_ALLOWLIST ''destructive_action''
      = Some (TriggerConfig\<lparr>max_per_event := 1, cooldown_s := 0, cf_dismissable := False, cf_required := True\<rparr>)"
    by (simp add: TRIGGER_ALLOWLIST_def)
  have m': "m' = record_dismissal sid ''destructive_action'' True uid nid now m" "saved"
    using assms(1,4) al by (auto simp: ws_nudge_dismiss_def)
  have "\<not> n_dismissable n" if "maybe_nudge ''destructive_action'' ctx sid2 uid2 hex now2 m0 = (Some n, m2)" for n m2
    using that
  proof (cases rule: maybe_nudge_cases [of "''destructive_action''" ctx sid2 uid2 hex now2 m0])
    case (fires cf m3)
    then show ?thesis using that al by (auto simp: fire_def Let_def)
  qed simp
  moreover have "''destructive_action'' \<in> permanent_dismissals m' uid"
    using assms(2) al by (simp add: m' record_dismissal_def Let_def)
  ultimately show ?thesis using m'(2) permanently_dismissed_silent assms(2,3) by blast
qed

theorem required_nudge_silenced_witness:
  "\<exists>m'. ws_nudge_dismiss ''s'' ''u'' ''destructive_action'' ''ndg_1'' True 5
        (nudge_run new_nudges [MaybeOp ''upload_complete'' ctx0 ''s'' ''u'' ''1'' 0]) = (m', True)
     \<and> shown_times (\<lambda>s u t. u = ''u'' \<and> t = ''destructive_action'') m'
         [CleanupOp ''s'', MaybeOp ''destructive_action'' ctx0 ''s2'' ''u'' ''2'' 90] = []"
proof -
  let ?m = "nudge_run new_nudges [MaybeOp ''upload_complete'' ctx0 ''s'' ''u'' ''1'' 0]"
  have al: "map_of TRIGGER_ALLOWLIST ''upload_complete'' = Some (TriggerConfig\<lparr>max_per_event := 1, cooldown_s := 0\<rparr>)"
    by (simp add: TRIGGER_ALLOWLIST_def)
  have i: "was_nudge_issued ''s'' ''ndg_1'' ?m"
    by (simp add: was_nudge_issued_def maybe_nudge_def al Let_def suppressed_def new_nudges_def TriggerConfig_def ctx0_def
        cooling_def event_limited_def fire_def)
  obtain m' saved where w: "ws_nudge_dismiss ''s'' ''u'' ''destructive_action'' ''ndg_1'' True 5 ?m = (m', saved)"
    by (metis surj_pair)
  have l: "\<forall>ts. LoadOp ''u'' ts \<notin> set [CleanupOp ''s'', MaybeOp ''destructive_action'' ctx0 ''s2'' ''u'' ''2'' 90]" by simp
  show ?thesis using required_nudge_silenced [OF i _ l w] w by auto
qed

end
