(* ===== verification/Reconciliation.thy ===== *)
theory Reconciliation
  imports DeductionQueue "HOL-Library.AList"
begin

text \<open>
  The daily comparison of completed deductions with the marketplace's own totals
  (app/services/reconciliation.py), on the rows of the deduction queue.  The replies of the
  marketplace for a user are arguments; \<open>user_totals\<close> is a dictionary in insertion order.
\<close>

section \<open>Replies\<close>

text \<open>
  A reply: no answer, or a status with the one field of its body that is read, which can be
  missing, null or an integer.
\<close>

datatype field = Missing | Null | IntField int

datatype reply = NoReply | Reply int field

definition fetch_remote_balance :: "reply \<Rightarrow> int option" where
  "fetch_remote_balance r =
     (case r of NoReply \<Rightarrow> None
      | Reply status balance_cents \<Rightarrow>
          (if status = 200 then (case balance_cents of Missing \<Rightarrow> Some 0 | Null \<Rightarrow> None | IntField n \<Rightarrow> Some n) else None))"

definition fetch_remote_deductions_total :: "reply \<Rightarrow> int option" where
  "fetch_remote_deductions_total r =
     (case r of NoReply \<Rightarrow> None
      | Reply status cents \<Rightarrow>
          (if status = 200 then (case cents of IntField n \<Rightarrow> Some n | _ \<Rightarrow> None) else None))"

section \<open>The run\<close>

definition DISCREPANCY_THRESHOLD_CENTS :: int where
  "DISCREPANCY_THRESHOLD_CENTS = 1"

datatype discrepancy =
    BalanceUnavailable string int
  | AmountMismatch string int int int

record recon_summary =
  rs_status :: string
  rs_users_checked :: nat
  rs_total_deductions :: "nat option"
  rs_discrepancies :: "discrepancy list"

definition add_amount :: "completed_row \<Rightarrow> (string \<times> int) list \<Rightarrow> (string \<times> int) list" where
  "add_amount r totals =
     AList.update (cr_user_id r)
       ((case map_of totals (cr_user_id r) of None \<Rightarrow> 0 | Some t \<Rightarrow> t) + cr_amount_cents r) totals"

definition user_totals :: "completed_row list \<Rightarrow> (string \<times> int) list" where
  "user_totals completed = fold add_amount completed []"

definition check_user :: "(string \<Rightarrow> reply) \<Rightarrow> (string \<Rightarrow> reply) \<Rightarrow> string \<times> int \<Rightarrow> discrepancy list" where
  "check_user balance_reply total_reply p =
     (case p of (user_id, local_total_cents) \<Rightarrow>
     (case fetch_remote_balance (balance_reply user_id) of
        None \<Rightarrow> [BalanceUnavailable user_id local_total_cents]
      | Some _ \<Rightarrow>
     (case fetch_remote_deductions_total (total_reply user_id) of
        None \<Rightarrow> []
      | Some remote_deducted \<Rightarrow>
          (let diff = \<bar>local_total_cents - remote_deducted\<bar>
           in if diff > DISCREPANCY_THRESHOLD_CENTS
              then [AmountMismatch user_id local_total_cents remote_deducted diff] else []))))"

definition run_daily_reconciliation ::
  "(string \<Rightarrow> reply) \<Rightarrow> (string \<Rightarrow> reply) \<Rightarrow> real \<Rightarrow> table \<Rightarrow> recon_summary" where
  "run_daily_reconciliation balance_reply total_reply now t =
     (let completed = get_completed_last_24h now t;
          totals = user_totals completed
      in if totals = [] then \<lparr>rs_status = ''ok'', rs_users_checked = 0, rs_total_deductions = None, rs_discrepancies = []\<rparr>
         else \<lparr>rs_status = ''completed'', rs_users_checked = length totals,
                rs_total_deductions = Some (length completed),
                rs_discrepancies = concat (map (check_user balance_reply total_reply) totals)\<rparr>)"

section \<open>Totals\<close>

definition local_total :: "string \<Rightarrow> completed_row list \<Rightarrow> int" where
  "local_total u rs = sum_list (map cr_amount_cents (filter (\<lambda>r. cr_user_id r = u) rs))"

lemma user_totals_acc:
  assumes "distinct (map fst acc)"
  shows "distinct (map fst (fold add_amount rs acc)) \<and>
    map_of (fold add_amount rs acc) = (\<lambda>u. if u \<in> cr_user_id ` set rs \<or> map_of acc u \<noteq> None
        then Some ((case map_of acc u of None \<Rightarrow> 0 | Some t \<Rightarrow> t) + local_total u rs) else None)"
  using assms
proof (induction rs arbitrary: acc)
  case Nil
  then show ?case by (auto simp: local_total_def fun_eq_iff split: option.splits)
next
  case (Cons r rs)
  have d: "distinct (map fst (add_amount r acc))" using Cons.prems by (simp add: add_amount_def distinct_update)
  have m: "map_of (add_amount r acc) = (map_of acc)(cr_user_id r \<mapsto>
      (case map_of acc (cr_user_id r) of None \<Rightarrow> 0 | Some t \<Rightarrow> t) + cr_amount_cents r)"
    by (simp add: add_amount_def update_conv')
  show ?case using Cons.IH [OF d] m by (auto simp: fun_eq_iff local_total_def split: option.splits)
qed

lemma user_totals_map:
  "distinct (map fst (user_totals rs))"
  "map_of (user_totals rs) = (\<lambda>u. if u \<in> cr_user_id ` set rs then Some (local_total u rs) else None)"
  using user_totals_acc [of "[]" rs] by (simp_all add: user_totals_def fun_eq_iff)

lemma in_user_totals: "(u, n) \<in> set (user_totals rs) \<longleftrightarrow> u \<in> cr_user_id ` set rs \<and> n = local_total u rs"
  using map_of_eq_Some_iff [OF user_totals_map(1) [of rs], of u n]
  by (auto simp: user_totals_map(2) split: if_split_asm)

lemma check_user_iff:
  "d \<in> set (check_user bal tot (u, n)) \<longleftrightarrow>
     (fetch_remote_balance (bal u) = None \<and> d = BalanceUnavailable u n)
     \<or> (\<exists>r. fetch_remote_balance (bal u) \<noteq> None \<and> fetch_remote_deductions_total (tot u) = Some r
           \<and> \<bar>n - r\<bar> > 1 \<and> d = AmountMismatch u n r \<bar>n - r\<bar>)"
  by (auto simp: check_user_def Let_def DISCREPANCY_THRESHOLD_CENTS_def split: option.splits)

lemma get_completed_rows:
  "set (get_completed_last_24h now t) =
     (\<lambda>r. \<lparr>cr_id = row_id r, cr_user_id = r_user_id r, cr_key = r_key r,
              cr_amount_cents = (case pl_amount_cents (r_payload r) of None \<Rightarrow> 0 | Some a \<Rightarrow> a),
              cr_created_at = created_at r\<rparr>) ` {r \<in> set (rows t). rstatus r = Completed \<and> created_at r \<ge> now - 24 * 3600}"
  by (auto simp: get_completed_last_24h_def)

text \<open>
  The reconciliation flags exactly the users whose balance cannot be read and those whose total
  is known to the marketplace and differs by more than a cent from the sum of the completed rows of
  the last day; each such user is flagged once, every user with such a row counts as checked, and a
  user whose remote total cannot be read is never flagged.
\<close>

theorem reconciliation_flags:
  assumes "rs = get_completed_last_24h now t" and "s = run_daily_reconciliation bal tot now t"
  shows "rs_users_checked s = card (r_user_id ` {r \<in> set (rows t). rstatus r = Completed \<and> created_at r \<ge> now - 24 * 3600})
    \<and> (BalanceUnavailable u n \<in> set (rs_discrepancies s) \<longleftrightarrow>
         u \<in> cr_user_id ` set rs \<and> n = local_total u rs \<and> fetch_remote_balance (bal u) = None)
    \<and> (AmountMismatch u n m k \<in> set (rs_discrepancies s) \<longleftrightarrow>
         u \<in> cr_user_id ` set rs \<and> n = local_total u rs \<and> fetch_remote_balance (bal u) \<noteq> None
         \<and> fetch_remote_deductions_total (tot u) = Some m \<and> k = \<bar>n - m\<bar> \<and> k > 1)
    \<and> length (rs_discrepancies s) \<le> rs_users_checked s"
proof -
  let ?t = "user_totals rs"
  have users: "cr_user_id ` set rs = r_user_id ` {r \<in> set (rows t). rstatus r = Completed \<and> created_at r \<ge> now - 24 * 3600}"
    unfolding assms(1) get_completed_rows by (auto simp: image_iff)
  have keys: "fst ` set ?t = cr_user_id ` set rs"
    using in_user_totals [of _ _ rs] by force
  have "length ?t = card (cr_user_id ` set rs)"
    using user_totals_map(1) [of rs] distinct_card [of "map fst ?t"] keys by simp
  then have len: "rs_users_checked s = card (cr_user_id ` set rs)"
    unfolding assms(2) run_daily_reconciliation_def Let_def assms(1) [symmetric] by auto
  have d: "rs_discrepancies s = concat (map (check_user bal tot) ?t)"
    unfolding assms(2) run_daily_reconciliation_def Let_def assms(1) [symmetric] by auto
  then have mem: "x \<in> set (rs_discrepancies s) \<longleftrightarrow> (\<exists>u n. u \<in> cr_user_id ` set rs \<and> n = local_total u rs \<and> x \<in> set (check_user bal tot (u, n)))" for x
    using in_user_totals [of _ _ rs] by auto
  have "length (concat (map (check_user bal tot) ps)) \<le> length ps" for ps
  proof (induction ps)
    case (Cons p ps)
    have "length (check_user bal tot p) \<le> 1"
      by (simp add: check_user_def Let_def split: prod.split option.split)
    then show ?case using Cons by simp
  qed simp
  then have "length (rs_discrepancies s) \<le> length ?t" unfolding d .
  then show ?thesis using len \<open>length ?t = card _\<close> users
    unfolding mem check_user_iff by auto
qed

definition recon_row :: row where
  "recon_row = \<lparr>row_id = 1, r_user_id = ''u'', r_key = ''k'',
     r_payload = \<lparr>pl_user_id = Some ''u'', pl_idempotency_key = Some ''k'', pl_amount_cents = Some 5\<rparr>,
     created_at = 0, next_retry_at = 0, attempt_count = 0, last_error = None, rstatus = Completed,
     r_worker = None, leased_at = None\<rparr>"

theorem reconciliation_flags_witness:
  "AmountMismatch ''u'' 5 2 3 \<in> set (rs_discrepancies
     (run_daily_reconciliation (\<lambda>_. Reply 200 Missing) (\<lambda>_. Reply 200 (IntField 2)) 10 \<lparr>rows = [recon_row], id_seq = 2\<rparr>))"
proof -
  have c: "get_completed_last_24h 10 \<lparr>rows = [recon_row], id_seq = 2\<rparr>
      = [\<lparr>cr_id = 1, cr_user_id = ''u'', cr_key = ''k'', cr_amount_cents = 5, cr_created_at = 0\<rparr>]"
    by (simp add: get_completed_last_24h_def recon_row_def)
  have "AmountMismatch ''u'' 5 2 3 \<in> set (rs_discrepancies
      (run_daily_reconciliation (\<lambda>_. Reply 200 Missing) (\<lambda>_. Reply 200 (IntField 2)) 10 \<lparr>rows = [recon_row], id_seq = 2\<rparr>))
    \<longleftrightarrow> True"
    using reconciliation_flags [OF refl refl, of "\<lambda>_. Reply 200 Missing" "\<lambda>_. Reply 200 (IntField 2)" 10
        "\<lparr>rows = [recon_row], id_seq = 2\<rparr>" "''u''" 5 2 3]
    by (simp add: c local_total_def fetch_remote_balance_def fetch_remote_deductions_total_def)
  then show ?thesis by simp
qed

end
