(* ===== verification/Json.thy ===== *)
theory Json
  imports Bytes "HOL-Library.List_Lexorder" "HOL-Library.Multiset"
begin

text \<open>
  The canonical JSON of app/services/dataset_merkle_service.py (\<^verbatim>\<open>canonical_json_bytes\<close>): metadata
  values, their normal form, the text \<^verbatim>\<open>json.dumps\<close> writes for it, and its UTF-8 bytes.  A Python
  \<^verbatim>\<open>str\<close> is its list of code points, so it may hold surrogates, which have no UTF-8 form.  The
  recursion limit of the interpreter is left out.
\<close>

section \<open>UTF-8 and UTF-16\<close>

definition scalar_value :: "nat \<Rightarrow> bool" where
  "scalar_value c \<longleftrightarrow> c < 0xD800 \<or> 0xE000 \<le> c \<and> c < 0x110000"

definition utf8_char :: "nat \<Rightarrow> nat list" where
  "utf8_char c =
     (if c < 0x80 then [c]
      else if c < 0x800 then [0xC0 + c div 64, 0x80 + c mod 64]
      else if c < 0x10000 then [0xE0 + c div 4096, 0x80 + c div 64 mod 64, 0x80 + c mod 64]
      else [0xF0 + c div 262144, 0x80 + c div 4096 mod 64, 0x80 + c div 64 mod 64, 0x80 + c mod 64])"

definition utf8 :: "ustr \<Rightarrow> bytes" where
  "utf8 s = map of_nat (concat (map utf8_char s))"

definition encode_utf8 :: "ustr \<Rightarrow> cerror + bytes" where
  "encode_utf8 s = (if list_all scalar_value s then Inr (utf8 s) else Inl ''invalid_unicode'')"

definition utf16_char :: "nat \<Rightarrow> nat list" where
  "utf16_char c =
     (if c < 0x10000 then [c div 256, c mod 256]
      else let h = 0xD800 + (c - 0x10000) div 1024; l = 0xDC00 + (c - 0x10000) mod 1024
        in [h div 256, h mod 256, l div 256, l mod 256])"

definition utf16_be :: "ustr \<Rightarrow> nat list" where
  "utf16_be s = concat (map utf16_char s)"

section \<open>Metadata values\<close>

text \<open>
  A dictionary is its items in insertion order; a key that is no \<^verbatim>\<open>str\<close> is \<open>None\<close>.  Lists and
  tuples are \<open>PList\<close>; \<open>POther\<close> is a value of any other type (a float, bytes, a \<^verbatim>\<open>Decimal\<close>).
\<close>

datatype pyval =
    PNone
  | PBool bool
  | PInt int
  | PStr ustr
  | PList "pyval list"
  | PDict "(ustr option \<times> pyval) list"
  | POther

definition SAFE_INTEGER :: int where "SAFE_INTEGER = 2 ^ 53 - 1"

function normalize_value :: "pyval \<Rightarrow> cerror + pyval" where
  "normalize_value PNone = Inr PNone"
| "normalize_value (PBool b) = Inr (PBool b)"
| "normalize_value (PInt i) = (if \<bar>i\<bar> > SAFE_INTEGER then Inl ''unsafe_integer'' else Inr (PInt i))"
| "normalize_value (PStr s) = (if list_all scalar_value s then Inr (PStr s) else Inl ''invalid_unicode'')"
| "normalize_value (PList xs) = res_bind (res_map normalize_value xs) (\<lambda>ys. Inr (PList ys))"
| "normalize_value (PDict kvs) =
     (if None \<in> fst ` set kvs then Inl ''invalid_metadata''
      else if \<not> list_all (\<lambda>kv. list_all scalar_value (the (fst kv))) kvs then Inl ''invalid_unicode''
      else let items = sort_key (\<lambda>kv. the (fst kv)) kvs in
        if map (\<lambda>kv. the (fst kv)) items \<noteq> sort_key utf16_be (map (\<lambda>kv. the (fst kv)) kvs)
        then Inl ''noncanonical_key_order''
        else res_bind (res_map (\<lambda>kv. res_bind (normalize_value (snd kv)) (\<lambda>v. Inr (fst kv, v))) items)
               (\<lambda>ys. Inr (PDict ys)))"
| "normalize_value POther = Inl ''invalid_metadata''"
  by pat_completeness auto
termination
proof (relation "measure size", goal_cases)
  case (2 xs x)
  then show ?case by (simp add: less_Suc_eq_le size_list_estimation')
next
  case (3 kvs items kv)
  then have m: "kv \<in> set kvs" by simp
  have "size (snd kv) \<le> size_prod (\<lambda>x. 0) size kv" by (cases kv) simp
  then have "size (snd kv) \<le> size_list (size_prod (\<lambda>x. 0) size) kvs" by (rule size_list_estimation' [OF m])
  then show ?case by simp
qed auto

section \<open>The text\<close>

fun dec_digits :: "nat \<Rightarrow> ustr" where
  "dec_digits n = (if n < 10 then [48 + n] else dec_digits (n div 10) @ [48 + n mod 10])"

declare dec_digits.simps [simp del]

definition int_text :: "int \<Rightarrow> ustr" where
  "int_text i = (if i < 0 then 45 # dec_digits (nat (- i)) else dec_digits (nat i))"

definition hex_digit :: "nat \<Rightarrow> nat" where
  "hex_digit n = (if n < 10 then 48 + n else 87 + n)"

text \<open>The escapes of \<^verbatim>\<open>json.dumps\<close> with \<^verbatim>\<open>ensure_ascii=False\<close>.\<close>

definition short_escapes :: "(nat \<times> nat) list" where
  "short_escapes = [(92, 92), (34, 34), (8, 98), (12, 102), (10, 110), (13, 114), (9, 116)]"

definition escape :: "nat \<Rightarrow> ustr" where
  "escape c =
     (case map_of short_escapes c of
        Some k \<Rightarrow> [92, k]
      | None \<Rightarrow> (if c < 32 then [92, 117, 48, 48, hex_digit (c div 16), hex_digit (c mod 16)] else [c]))"

definition quote :: "ustr \<Rightarrow> ustr" where
  "quote s = 34 # concat (map escape s) @ [34]"

text \<open>Items separated by commas up to a closing bracket.\<close>

fun comma_list :: "ustr list \<Rightarrow> nat \<Rightarrow> ustr" where
  "comma_list [] close = [close]"
| "comma_list [x] close = x @ [close]"
| "comma_list (x # y # xs) close = x @ 44 # comma_list (y # xs) close"

fun dumps :: "pyval \<Rightarrow> ustr" where
  "dumps PNone = text_of ''null''"
| "dumps (PBool b) = (if b then text_of ''true'' else text_of ''false'')"
| "dumps (PInt i) = int_text i"
| "dumps (PStr s) = quote s"
| "dumps (PList xs) = 91 # comma_list (map dumps xs) 93"
| "dumps (PDict kvs) = 123 # comma_list (map (\<lambda>kv. quote (the (fst kv)) @ 58 # dumps (snd kv)) kvs) 125"
| "dumps POther = []"

definition canonical_json_bytes :: "pyval \<Rightarrow> cerror + bytes" where
  "canonical_json_bytes v = res_bind (normalize_value v) (\<lambda>n. encode_utf8 (dumps n))"

section \<open>UTF-8 determines the text\<close>

lemma utf8_char_length:
  "c < 0x110000 \<Longrightarrow> length (utf8_char c) =
     (let b = hd (utf8_char c) in if b < 0x80 then 1 else if b < 0xE0 then 2 else if b < 0xF0 then 3 else 4)"
  by (simp add: utf8_char_def Let_def) linarith

lemma utf8_char_decode:
  assumes "c < 0x110000"
  shows "c = (case utf8_char c of [a] \<Rightarrow> a | [a, b] \<Rightarrow> (a - 0xC0) * 64 + (b - 0x80)
    | [a, b, d] \<Rightarrow> (a - 0xE0) * 4096 + (b - 0x80) * 64 + (d - 0x80)
    | [a, b, d, e] \<Rightarrow> (a - 0xF0) * 262144 + (b - 0x80) * 4096 + (d - 0x80) * 64 + (e - 0x80) | _ \<Rightarrow> 0)"
proof -
  have m: "64 * (c div 64) + c mod 64 = c" by simp
  have d12: "64 * (c div 4096) + c div 64 mod 64 = c div 64"
    using mult_div_mod_eq [of 64 "c div 64"] by (simp add: div_mult2_eq [symmetric])
  have d18: "64 * (c div 262144) + c div 4096 mod 64 = c div 4096"
    using mult_div_mod_eq [of 64 "c div 4096"] by (simp add: div_mult2_eq [symmetric])
  show ?thesis by (simp add: utf8_char_def) (use m d12 d18 in linarith)
qed

lemma utf8_char_prefix:
  assumes "c < 0x110000" and "c' < 0x110000" and "utf8_char c @ r = utf8_char c' @ r'"
  shows "c = c' \<and> r = r'"
proof -
  have ne: "utf8_char x \<noteq> []" for x by (simp add: utf8_char_def)
  have "hd (utf8_char c) = hd (utf8_char c')"
    using arg_cong [OF assms(3), of hd] ne by simp
  then have "length (utf8_char c) = length (utf8_char c')"
    unfolding utf8_char_length [OF assms(1)] utf8_char_length [OF assms(2)] by simp
  then have "utf8_char c = utf8_char c'" "r = r'" using assms(3) by simp_all
  then show ?thesis using utf8_char_decode [OF assms(1)] utf8_char_decode [OF assms(2)] by (simp only:)
qed

lemma utf8_char_nonempty [simp]: "utf8_char c \<noteq> []"
  by (simp add: utf8_char_def)

lemma utf8_char_bytes: "c < 0x110000 \<Longrightarrow> list_all (\<lambda>x. x < 256) (utf8_char c)"
  by (simp add: utf8_char_def) linarith

lemma of_nat_bytes_inj:
  "map of_nat xs = (map of_nat ys :: bytes) \<Longrightarrow> list_all (\<lambda>x. x < 256) xs \<Longrightarrow> list_all (\<lambda>x. x < 256) ys \<Longrightarrow> xs = ys"
proof (induction xs arbitrary: ys)
  case (Cons x xs)
  then obtain y zs where ys: "ys = y # zs" by (cases ys) auto
  with Cons.prems have "unat (of_nat x :: 8 word) = unat (of_nat y :: 8 word)" "x < 256" "y < 256" by auto
  then have "x = y" by (simp add: unat_of_nat)
  moreover have "xs = zs" by (rule Cons.IH) (use Cons.prems ys in simp_all)
  ultimately show ?case by (simp add: ys)
qed simp

lemma utf8_chars_inj:
  "concat (map utf8_char s) = concat (map utf8_char t) \<Longrightarrow> list_all (\<lambda>c. c < 0x110000) s
    \<Longrightarrow> list_all (\<lambda>c. c < 0x110000) t \<Longrightarrow> s = t"
proof (induction s arbitrary: t)
  case Nil
  then show ?case by (cases t) simp_all
next
  case (Cons c s)
  then obtain c' t' where t: "t = c' # t'" by (cases t) simp_all
  have "c < 0x110000" "c' < 0x110000" "utf8_char c @ concat (map utf8_char s) = utf8_char c' @ concat (map utf8_char t')"
    using Cons.prems by (simp_all add: t)
  from utf8_char_prefix [OF this] have "c = c'" "concat (map utf8_char s) = concat (map utf8_char t')" by blast+
  moreover from Cons.IH [OF this(2)] have "s = t'" using Cons.prems by (simp add: t)
  ultimately show ?case by (simp add: t)
qed

lemma utf8_inj:
  assumes "list_all scalar_value s" and "list_all scalar_value t" and "utf8 s = utf8 t"
  shows "s = t"
proof -
  have l: "list_all (\<lambda>c. c < 0x110000) s \<and> list_all (\<lambda>x. x < 256) (concat (map utf8_char s))"
    if "list_all scalar_value s" for s
    using that
  proof (induction s)
    case (Cons c s)
    then have "c < 0x110000" by (auto simp: scalar_value_def)
    with utf8_char_bytes [OF this] Cons show ?case by simp
  qed simp
  note s = l [OF assms(1)] and t = l [OF assms(2)]
  have "concat (map utf8_char s) = concat (map utf8_char t)"
    by (rule of_nat_bytes_inj) (use assms(3) s t in \<open>simp_all add: utf8_def\<close>)
  then show ?thesis by (rule utf8_chars_inj) (use s t in simp_all)
qed

section \<open>The text determines the value\<close>

definition digit_code :: "nat \<Rightarrow> bool" where
  "digit_code c \<longleftrightarrow> 48 \<le> c \<and> c \<le> 57"

text \<open>What may follow a number.\<close>

definition stops :: "ustr \<Rightarrow> bool" where
  "stops r \<longleftrightarrow> r = [] \<or> \<not> digit_code (hd r)"

lemma stops_simps [simp]: "stops []" "stops (c # r) = (\<not> digit_code c)"
  by (simp_all add: stops_def)

lemma dec_digits_codes: "list_all digit_code (dec_digits n)"
proof (induction n rule: dec_digits.induct)
  case (1 n)
  have "digit_code (48 + n mod 10)" "n < 10 \<Longrightarrow> digit_code (48 + n)" by (simp_all add: digit_code_def)
  then show ?case using 1 by (subst dec_digits.simps) simp
qed

lemma dec_digits_nonempty [simp]: "dec_digits n \<noteq> []"
  by (subst dec_digits.simps) simp

lemma dec_digits_value: "foldl (\<lambda>a d. a * 10 + (d - 48)) 0 (dec_digits n) = n"
proof (induction n rule: dec_digits.induct)
  case (1 n)
  show ?case by (subst dec_digits.simps) (simp add: 1)
qed

lemma dec_digits_inj [simp]: "dec_digits m = dec_digits n \<longleftrightarrow> m = n"
  using dec_digits_value by metis

lemma digits_prefix:
  assumes "dec_digits m @ r = dec_digits n @ s" and "stops r" and "stops s"
  shows "m = n \<and> r = s"
proof -
  have t: "takeWhile digit_code (dec_digits k @ q) = dec_digits k" if "stops q" for k q
  proof -
    have "takeWhile digit_code q = []" using that by (cases q) simp_all
    then show ?thesis using dec_digits_codes [of k] by (simp add: takeWhile_append list_all_iff)
  qed
  have "dec_digits m = dec_digits n" using t [OF assms(2), of m] t [OF assms(3), of n] assms(1) by simp
  then show ?thesis using assms(1) by simp
qed

lemma int_text_nonempty [simp]: "int_text i \<noteq> []"
  by (simp add: int_text_def)

lemma dec_digits_head: "digit_code (hd (dec_digits n))"
  using dec_digits_codes [of n] by (simp add: list_all_iff)

lemma int_text_head: "digit_code (hd (int_text i)) \<or> hd (int_text i) = 45"
  by (simp add: int_text_def dec_digits_head)

lemma int_text_prefix:
  assumes "int_text i @ r = int_text j @ s" and "stops r" and "stops s"
  shows "i = j \<and> r = s"
proof -
  have neq: "dec_digits m @ q \<noteq> 45 # q'" for m q q'
    using dec_digits_head [of m] by (cases "dec_digits m") (auto simp: digit_code_def)
  show ?thesis
  proof (cases "i < 0")
    case True
    then have "j < 0" using assms(1) by (cases "j < 0") (simp_all add: int_text_def neq neq [symmetric])
    with True have "dec_digits (nat (- i)) @ r = dec_digits (nat (- j)) @ s" using assms(1) by (simp add: int_text_def)
    from digits_prefix [OF this assms(2,3)] True \<open>j < 0\<close> show ?thesis by (simp add: eq_nat_nat_iff)
  next
    case False
    then have "\<not> j < 0" using assms(1) by (cases "j < 0") (simp_all add: int_text_def neq neq [symmetric])
    with False have "dec_digits (nat i) @ r = dec_digits (nat j) @ s" using assms(1) by (simp add: int_text_def)
    from digits_prefix [OF this assms(2,3)] False \<open>\<not> j < 0\<close> show ?thesis by (simp add: eq_nat_nat_iff)
  qed
qed

lemma hex_digit_inj: "m < 16 \<Longrightarrow> n < 16 \<Longrightarrow> hex_digit m = hex_digit n \<Longrightarrow> m = n"
  by (simp add: hex_digit_def split: if_split_asm)

lemma short_escapes_facts:
  "map_of short_escapes c = Some k \<Longrightarrow> k \<noteq> 117"
  "map_of short_escapes c = Some k \<Longrightarrow> map_of short_escapes d = Some k \<Longrightarrow> c = d"
  "map_of short_escapes c = None \<Longrightarrow> c \<noteq> 34 \<and> c \<noteq> 92"
proof -
  have s: "map_of short_escapes c = Some k \<Longrightarrow> (c, k) \<in> set short_escapes" for c k by (rule map_of_SomeD)
  have "distinct (map snd short_escapes)" by (simp add: short_escapes_def)
  then have i: "inj_on snd (set short_escapes)" by (simp add: distinct_map)
  show "map_of short_escapes c = Some k \<Longrightarrow> k \<noteq> 117" using s by (fastforce simp: short_escapes_def)
  show "map_of short_escapes c = Some k \<Longrightarrow> map_of short_escapes d = Some k \<Longrightarrow> c = d"
    using inj_onD [OF i, of "(c, k)" "(d, k)"] s by simp
  show "map_of short_escapes c = None \<Longrightarrow> c \<noteq> 34 \<and> c \<noteq> 92" by (auto simp: short_escapes_def)
qed

lemma escape_cases:
  obtains (plain) "escape c = [c]" "c \<noteq> 34" "c \<noteq> 92"
  | (short) k where "escape c = [92, k]" "map_of short_escapes c = Some k" "k \<noteq> 117"
  | (long) "escape c = [92, 117, 48, 48, hex_digit (c div 16), hex_digit (c mod 16)]" "c < 32"
proof (cases "map_of short_escapes c")
  case None
  then show ?thesis using short_escapes_facts(3) [OF None] plain long by (cases "c < 32") (simp_all add: escape_def)
next
  case (Some k)
  show ?thesis by (rule short [OF _ Some short_escapes_facts(1) [OF Some]]) (simp add: escape_def Some)
qed

lemma escape_prefix:
  assumes "escape c @ r = escape d @ s"
  shows "c = d \<and> r = s"
proof (cases c rule: escape_cases)
  case plain
  then show ?thesis using assms by (cases d rule: escape_cases) auto
next
  case c: (short k)
  show ?thesis
  proof (cases d rule: escape_cases)
    case (short k')
    then have "k = k'" "r = s" using assms c(1) by simp_all
    then show ?thesis using short_escapes_facts(2) c(2) short(2) by blast
  next
    case long
    then show ?thesis using assms c by auto
  qed (use assms c in auto)
next
  case c: long
  show ?thesis
  proof (cases d rule: escape_cases)
    case long
    then have "hex_digit (c div 16) = hex_digit (d div 16)" "hex_digit (c mod 16) = hex_digit (d mod 16)" "r = s"
      using assms c(1) by simp_all
    then have "c div 16 = d div 16" "c mod 16 = d mod 16"
      using hex_digit_inj c(2) long(2) by simp_all
    then show ?thesis using \<open>r = s\<close> div_mult_mod_eq by metis
  next
    case (short k')
    then show ?thesis using assms c by auto
  qed (use assms c in auto)
qed

lemma escape_head: "escape c \<noteq> []" "hd (escape c) \<noteq> 34"
  by (cases c rule: escape_cases; auto)+

lemma quote_prefix: "quote s @ r = quote t @ r' \<Longrightarrow> s = t \<and> r = r'"
proof -
  have "concat (map escape s) @ 34 # r = concat (map escape t) @ 34 # r' \<Longrightarrow> s = t \<and> r = r'" for r r'
  proof (induction s arbitrary: t)
    case Nil
    have "t = []"
    proof (cases t)
      case (Cons d u)
      then have "34 # r = escape d @ concat (map escape u) @ 34 # r'" using Nil by simp
      from arg_cong [OF this, of hd] have "hd (escape d @ concat (map escape u) @ 34 # r') = 34" by simp
      then show ?thesis using escape_head [of d] by (cases "escape d") simp_all
    qed simp
    then show ?case using Nil by simp
  next
    case (Cons c s)
    obtain d u where t: "t = d # u"
    proof (cases t)
      case Nil
      then have "escape c @ concat (map escape s) @ 34 # r = 34 # r'" using Cons.prems by simp
      from arg_cong [OF this, of hd] have "hd (escape c @ concat (map escape s) @ 34 # r) = 34" by simp
      then show ?thesis using escape_head [of c] by (cases "escape c") simp_all
    qed
    then have "escape c @ (concat (map escape s) @ 34 # r) = escape d @ (concat (map escape u) @ 34 # r')"
      using Cons.prems by simp
    from escape_prefix [OF this] Cons.IH [of u] t show ?case by blast
  qed
  then show "quote s @ r = quote t @ r' \<Longrightarrow> s = t \<and> r = r'" by (simp add: quote_def)
qed

text \<open>Values with a text: no foreign values, and every key is a string.\<close>

fun has_text :: "pyval \<Rightarrow> bool" where
  "has_text (PList xs) = (\<forall>x \<in> set xs. has_text x)"
| "has_text (PDict kvs) = (\<forall>kv \<in> set kvs. fst kv \<noteq> None \<and> has_text (snd kv))"
| "has_text POther = False"
| "has_text v = True"

definition prefix_free :: "('a \<Rightarrow> ustr) \<Rightarrow> 'a \<Rightarrow> 'a set \<Rightarrow> bool" where
  "prefix_free f x Y \<longleftrightarrow> (\<forall>y \<in> Y. \<forall>r s. stops r \<longrightarrow> stops s \<longrightarrow> f x @ r = f y @ s \<longrightarrow> x = y \<and> r = s)"

lemma prefix_freeD: "prefix_free f x Y \<Longrightarrow> y \<in> Y \<Longrightarrow> f x @ r = f y @ s \<Longrightarrow> stops r \<Longrightarrow> stops s \<Longrightarrow> x = y \<and> r = s"
  unfolding prefix_free_def by blast

fun comma_tail :: "ustr list \<Rightarrow> nat \<Rightarrow> ustr" where
  "comma_tail [] close = [close]"
| "comma_tail (x # xs) close = 44 # x @ comma_tail xs close"

lemma comma_list_Cons: "comma_list (x # xs) close = x @ comma_tail xs close"
  by (induction xs arbitrary: x) simp_all

lemma comma_tail_stops: "\<not> digit_code close \<Longrightarrow> stops (comma_tail xs close @ r)"
  by (cases xs) (simp_all add: digit_code_def)

lemma comma_tail_prefix:
  assumes "\<not> digit_code close" and "close \<noteq> 44"
  shows "\<forall>x \<in> set xs. prefix_free f x (set ys) \<Longrightarrow> comma_tail (map f xs) close @ r = comma_tail (map f ys) close @ s \<Longrightarrow> xs = ys \<and> r = s"
proof (induction xs arbitrary: ys)
  case Nil
  then show ?case using assms(2) by (cases ys) simp_all
next
  case (Cons x xs)
  then obtain y zs where ys: "ys = y # zs" using assms(2) by (cases ys) simp_all
  have e: "f x @ (comma_tail (map f xs) close @ r) = f y @ (comma_tail (map f zs) close @ s)" using Cons.prems(2) by (simp add: ys)
  have "prefix_free f x (set ys)" using Cons.prems(1) by simp
  from prefix_freeD [OF this _ e] have h: "x = y" "comma_tail (map f xs) close @ r = comma_tail (map f zs) close @ s"
    using comma_tail_stops [OF assms(1)] by (simp_all add: ys)
  have "\<forall>x \<in> set xs. prefix_free f x (set zs)" using Cons.prems(1) by (simp add: ys prefix_free_def)
  from Cons.IH [OF this h(2)] h(1) show ?case by (simp add: ys)
qed

lemma comma_list_prefix:
  assumes "\<not> digit_code close" and "close \<noteq> 44" and "\<forall>x \<in> set xs. prefix_free f x (set ys)"
    and "comma_list (map f xs) close @ r = comma_list (map f ys) close @ s"
    and "\<forall>x \<in> set xs \<union> set ys. f x \<noteq> [] \<and> hd (f x) \<noteq> close"
  shows "xs = ys \<and> r = s"
proof (cases xs)
  case Nil
  have "ys = []"
  proof (cases ys)
    case (Cons y zs)
    then have "close # r = f y @ comma_tail (map f zs) close @ s" using assms(4) Nil by (simp add: comma_list_Cons)
    from arg_cong [OF this, of hd] have "hd (f y) = close" using assms(5) Cons by simp
    then show ?thesis using assms(5) Cons by simp
  qed simp
  then show ?thesis using assms(4) Nil by simp
next
  case (Cons x us)
  obtain y zs where ys: "ys = y # zs"
  proof (cases ys)
    case Nil
    then have "f x @ comma_tail (map f us) close @ r = close # s" using assms(4) Cons by (simp add: comma_list_Cons)
    from arg_cong [OF this, of hd] have "hd (f x) = close" using assms(5) Cons by simp
    then show ?thesis using assms(5) Cons by simp
  qed
  have "comma_tail (map f xs) close @ r = comma_tail (map f ys) close @ s"
    using assms(4) by (simp add: Cons ys comma_list_Cons)
  from comma_tail_prefix [OF assms(1-3) this] show ?thesis .
qed

lemma dumps_head: "has_text v \<Longrightarrow> dumps v \<noteq> [] \<and> hd (dumps v) \<noteq> 93 \<and> hd (dumps v) \<noteq> 125"
proof (cases v)
  case (PInt i)
  then show ?thesis using int_text_head [of i] by (auto simp: digit_code_def)
qed (auto simp: text_of_def quote_def)

text \<open>The first character of the text tells the kind of the value.\<close>

fun kind :: "pyval \<Rightarrow> nat" where
  "kind PNone = 0"
| "kind (PBool b) = (if b then 1 else 2)"
| "kind (PStr s) = 3"
| "kind (PList xs) = 4"
| "kind (PDict kvs) = 5"
| "kind (PInt i) = 6"
| "kind POther = 7"

lemma kind_of_head:
  "has_text v \<Longrightarrow> kind v =
     (let c = hd (dumps v) in
       if c = 110 then 0 else if c = 116 then 1 else if c = 102 then 2 else if c = 34 then 3
       else if c = 91 then 4 else if c = 123 then 5 else 6)"
proof (cases v)
  case (PInt i)
  then show ?thesis using int_text_head [of i] by (auto simp: digit_code_def)
qed (simp_all add: text_of_def quote_def)

lemma same_kind:
  assumes "has_text v" and "has_text w" and "dumps v @ r = dumps w @ s"
  shows "kind v = kind w"
proof -
  have "hd (dumps v) = hd (dumps w)"
    using arg_cong [OF assms(3), of hd] dumps_head [OF assms(1)] dumps_head [OF assms(2)] by simp
  then show ?thesis unfolding kind_of_head [OF assms(1)] kind_of_head [OF assms(2)] by simp
qed

lemma prefix_free_kindI:
  assumes "has_text v"
    and "\<And>w r s. has_text w \<Longrightarrow> kind w = kind v \<Longrightarrow> stops r \<Longrightarrow> stops s \<Longrightarrow> dumps v @ r = dumps w @ s \<Longrightarrow> v = w \<and> r = s"
  shows "prefix_free dumps v (Collect has_text)"
  unfolding prefix_free_def
proof (intro ballI allI impI)
  fix w r s
  assume w: "w \<in> Collect has_text" "stops r" "stops s" "dumps v @ r = dumps w @ s"
  then have "kind w = kind v" using same_kind [OF assms(1), of w r s] by simp
  then show "v = w \<and> r = s" using assms(2) w by simp
qed

lemma the_inj: "a \<noteq> None \<Longrightarrow> b \<noteq> None \<Longrightarrow> the a = the b \<Longrightarrow> a = b"
  by auto

lemma dumps_prefix_free: "has_text v \<Longrightarrow> prefix_free dumps v (Collect has_text)"
proof (induction v)
  case (PList xs)
  show ?case
  proof (rule prefix_free_kindI [OF PList.prems])
    fix w r s
    assume w: "has_text w" "kind w = kind (PList xs)" "stops r" "stops s" "dumps (PList xs) @ r = dumps w @ s"
    obtain ys where ys: "w = PList ys" using w(2) by (cases w) (auto split: if_split_asm)
    have "xs = ys \<and> r = s"
    proof (rule comma_list_prefix [of 93 xs dumps])
      show "\<forall>x \<in> set xs. prefix_free dumps x (set ys)"
        using PList.IH PList.prems w(1) ys by (auto simp: prefix_free_def)
      show "comma_list (map dumps xs) 93 @ r = comma_list (map dumps ys) 93 @ s" using w(5) ys by simp
      show "\<forall>x \<in> set xs \<union> set ys. dumps x \<noteq> [] \<and> hd (dumps x) \<noteq> 93"
        using PList.prems w(1) ys dumps_head by auto
    qed (simp_all add: digit_code_def)
    then show "PList xs = w \<and> r = s" using ys by simp
  qed
next
  case (PDict kvs)
  let ?f = "\<lambda>kv. quote (the (fst kv)) @ 58 # dumps (snd kv)"
  show ?case
  proof (rule prefix_free_kindI [OF PDict.prems])
    fix w r s
    assume w: "has_text w" "kind w = kind (PDict kvs)" "stops r" "stops s" "dumps (PDict kvs) @ r = dumps w @ s"
    obtain lws where lws: "w = PDict lws" using w(2) by (cases w) (auto split: if_split_asm)
    have "kvs = lws \<and> r = s"
    proof (rule comma_list_prefix [of 125 kvs ?f])
      show "\<forall>x \<in> set kvs. prefix_free ?f x (set lws)"
      proof
        fix kv assume kv: "kv \<in> set kvs"
        have pf: "prefix_free dumps (snd kv) (Collect has_text)"
          using PDict.IH [OF kv, of "snd kv"] PDict.prems kv by (cases kv) auto
        have "kv = lw \<and> r = s" if "lw \<in> set lws" "stops r" "stops s" "?f kv @ r = ?f lw @ s" for lw r s
        proof -
          have "the (fst kv) = the (fst lw)" and d: "dumps (snd kv) @ r = dumps (snd lw) @ s"
            using quote_prefix [of "the (fst kv)" "58 # dumps (snd kv) @ r" "the (fst lw)" "58 # dumps (snd lw) @ s"] that(4)
            by simp_all
          moreover have k: "fst kv \<noteq> None" "fst lw \<noteq> None" "has_text (snd lw)"
            using PDict.prems kv w(1) lws that(1) by auto
          ultimately have "fst kv = fst lw" by (blast intro: the_inj)
          then show ?thesis using prefix_freeD [OF pf _ d that(2,3)] k(3) by (simp add: prod_eq_iff)
        qed
        then show "prefix_free ?f kv (set lws)" unfolding prefix_free_def by blast
      qed
      show "comma_list (map ?f kvs) 125 @ r = comma_list (map ?f lws) 125 @ s" using w(5) lws by simp
      show "\<forall>x \<in> set kvs \<union> set lws. ?f x \<noteq> [] \<and> hd (?f x) \<noteq> 125" by (simp add: quote_def)
    qed (simp_all add: digit_code_def)
    then show "PDict kvs = w \<and> r = s" using lws by simp
  qed
next
  case (PInt i)
  show ?case
  proof (rule prefix_free_kindI [OF PInt.prems])
    fix w r s
    assume w: "has_text w" "kind w = kind (PInt i)" "stops r" "stops s" "dumps (PInt i) @ r = dumps w @ s"
    obtain j where "w = PInt j" using w(1,2) by (cases w) (auto split: if_split_asm)
    then show "PInt i = w \<and> r = s" using int_text_prefix [of i r j s] w by simp
  qed
next
  case (PStr t)
  show ?case
  proof (rule prefix_free_kindI [OF PStr.prems])
    fix w r s
    assume w: "has_text w" "kind w = kind (PStr t)" "dumps (PStr t) @ r = dumps w @ s"
    obtain u where "w = PStr u" using w(2) by (cases w) (auto split: if_split_asm)
    then show "PStr t = w \<and> r = s" using quote_prefix [of t r u s] w(3) by simp
  qed
next
  case PNone
  show ?case
  proof (rule prefix_free_kindI [OF PNone.prems])
    fix w r s
    assume w: "has_text w" "kind w = kind PNone" "dumps PNone @ r = dumps w @ s"
    have "w = PNone" using w(2) by (cases w) (auto split: if_split_asm)
    then show "PNone = w \<and> r = s" using w by simp
  qed
next
  case (PBool b)
  show ?case
  proof (rule prefix_free_kindI [OF PBool.prems])
    fix w r s
    assume w: "has_text w" "kind w = kind (PBool b)" "dumps (PBool b) @ r = dumps w @ s"
    have "w = PBool b" using w(2) by (cases w) (auto split: if_split_asm)
    then show "PBool b = w \<and> r = s" using w by simp
  qed
qed simp

section \<open>Normal forms\<close>

lemma scalar_ascii: "c < 0x80 \<Longrightarrow> scalar_value c"
  by (simp add: scalar_value_def)

lemma scalar_int_text: "list_all scalar_value (int_text i)"
proof -
  have "list_all scalar_value (dec_digits n)" for n
    using dec_digits_codes [of n] by (rule list.pred_mono_strong) (simp add: digit_code_def scalar_ascii)
  then show ?thesis by (simp add: int_text_def scalar_ascii)
qed

lemma scalar_escape: "scalar_value c \<Longrightarrow> list_all scalar_value (escape c)"
proof (cases c rule: escape_cases)
  case (short k)
  have "list_all (\<lambda>p. snd p < 0x80) short_escapes" by (simp add: short_escapes_def)
  then have "k < 0x80" using map_of_SomeD [OF short(2)] by (auto simp: list_all_iff)
  then show ?thesis by (simp add: short(1) scalar_ascii)
next
  case long
  have "hex_digit (c div 16) < 0x80" "hex_digit (c mod 16) < 0x80" using long(2) by (auto simp: hex_digit_def)
  then show ?thesis by (simp add: long(1) scalar_ascii)
qed simp

lemma scalar_quote: "list_all scalar_value s \<Longrightarrow> list_all scalar_value (quote s)"
  by (induction s) (simp_all add: quote_def scalar_ascii scalar_escape)

lemma scalar_comma_list:
  "list_all (list_all scalar_value) xs \<Longrightarrow> close < 0x80 \<Longrightarrow> list_all scalar_value (comma_list xs close)"
  by (induction xs close rule: comma_list.induct) (simp_all add: scalar_ascii)

lemma list_all2_in: "list_all2 P xs ys \<Longrightarrow> y \<in> set ys \<Longrightarrow> \<exists>x \<in> set xs. P x y"
  by (induction rule: list_all2_induct) auto

lemma normalize_value_text: "normalize_value v = Inr n \<Longrightarrow> has_text n \<and> list_all scalar_value (dumps n)"
proof (induction v arbitrary: n rule: normalize_value.induct)
  case (5 xs)
  then obtain ys where ys: "list_all2 (\<lambda>x y. normalize_value x = Inr y) xs ys" "n = PList ys" by (auto simp: res_map_iff)
  have "has_text y \<and> list_all scalar_value (dumps y)" if y: "y \<in> set ys" for y
  proof -
    obtain x where "x \<in> set xs" "normalize_value x = Inr y" using list_all2_in [OF ys(1)] y by blast
    with 5 show ?thesis by blast
  qed
  then have "\<forall>y \<in> set ys. has_text y" "list_all (list_all scalar_value) (map dumps ys)" by (simp_all add: list_all_iff)
  then show ?case using scalar_comma_list [of "map dumps ys" 93] by (simp add: ys(2) scalar_ascii)
next
  case (6 kvs)
  let ?items = "sort_key (\<lambda>kv. the (fst kv)) kvs"
  have n: "None \<notin> fst ` set kvs" and sc: "list_all (\<lambda>kv. list_all scalar_value (the (fst kv))) kvs"
    and o: "map (\<lambda>kv. the (fst kv)) ?items = sort_key utf16_be (map (\<lambda>kv. the (fst kv)) kvs)"
    and "\<exists>ys. res_map (\<lambda>kv. res_bind (normalize_value (snd kv)) (\<lambda>v. Inr (fst kv, v))) ?items = Inr ys \<and> n = PDict ys"
    using "6.prems" by (auto simp: Let_def split: if_split_asm)
  then obtain ys where m: "res_map (\<lambda>kv. res_bind (normalize_value (snd kv)) (\<lambda>v. Inr (fst kv, v))) ?items = Inr ys" "n = PDict ys"
    by blast
  have ys: "list_all2 (\<lambda>kv lw. \<exists>v. normalize_value (snd kv) = Inr v \<and> lw = (fst kv, v)) ?items ys" "n = PDict ys"
    by (rule list_all2_mono [OF m(1) [unfolded res_map_iff]]) (auto simp: m(2))
  have "fst lw \<noteq> None \<and> list_all scalar_value (the (fst lw)) \<and> has_text (snd lw) \<and> list_all scalar_value (dumps (snd lw))"
    if y: "lw \<in> set ys" for lw
  proof -
    obtain kv v where kv: "kv \<in> set ?items" "normalize_value (snd kv) = Inr v" "lw = (fst kv, v)"
      using list_all2_in [OF ys(1)] y by blast
    have "has_text v \<and> list_all scalar_value (dumps v)"
      by (rule "6.IH" [OF n _ refl _ kv(1,2)]) (use sc o in simp_all)
    moreover have "fst kv \<noteq> None" using n kv(1) by force
    moreover have "list_all scalar_value (the (fst kv))" using sc kv(1) by (simp add: list_all_iff)
    ultimately show ?thesis by (simp add: kv(3))
  qed
  note y = this
  then have "\<forall>lw \<in> set ys. fst lw \<noteq> None \<and> has_text (snd lw)" by blast
  moreover have "list_all (list_all scalar_value) (map (\<lambda>kv. quote (the (fst kv)) @ 58 # dumps (snd kv)) ys)"
    unfolding list.pred_map list_all_iff [of _ ys] using y by (simp add: scalar_quote scalar_ascii)
  ultimately show ?case using scalar_comma_list [of "map (\<lambda>kv. quote (the (fst kv)) @ 58 # dumps (snd kv)) ys" 125]
    by (simp add: ys(2) scalar_ascii)
qed (auto simp: text_of_def scalar_ascii scalar_int_text scalar_quote split: if_split_asm)

lemma json_bytes_identify:
  assumes "normalize_value v = Inr n"
  shows "\<exists>b. canonical_json_bytes v = Inr b \<and> (\<forall>w. canonical_json_bytes w = Inr b \<longleftrightarrow> normalize_value w = Inr n)"
proof -
  note n = normalize_value_text [OF assms]
  have b: "canonical_json_bytes v = Inr (utf8 (dumps n))" using assms n by (simp add: canonical_json_bytes_def encode_utf8_def)
  have "normalize_value w = Inr n" if w: "canonical_json_bytes w = Inr (utf8 (dumps n))" for w
  proof -
    obtain m where m: "normalize_value w = Inr m" "utf8 (dumps m) = utf8 (dumps n)"
      using w unfolding canonical_json_bytes_def res_bind_eq_Inr encode_utf8_def by (auto split: if_split_asm)
    note t = normalize_value_text [OF m(1)]
    have "dumps m = dumps n" using utf8_inj m(2) n t by blast
    then have "m = n" using prefix_freeD [OF dumps_prefix_free, of m n "[]" "[]"] n t by simp
    then show ?thesis using m(1) by simp
  qed
  moreover have "canonical_json_bytes w = Inr (utf8 (dumps n))" if "normalize_value w = Inr n" for w
    using that n by (simp add: canonical_json_bytes_def encode_utf8_def)
  ultimately show ?thesis using b by (intro exI [of _ "utf8 (dumps n)"]) blast
qed

text \<open>
  C30. Canonical JSON identifies a value up to its normal form: two values have the same canonical
  bytes exactly when they normalise to the same value, and the bytes exist whenever the normal
  form does, so the final encoding never fails.
\<close>

theorem canonical_json_identifies_value:
  assumes "normalize_value v = Inr n"
  shows "\<exists>b. canonical_json_bytes v = Inr b \<and> (\<forall>w. canonical_json_bytes w = Inr b \<longleftrightarrow> normalize_value w = Inr n)"
  using assms by (rule json_bytes_identify)

theorem canonical_json_identifies_value_witness:
  "\<exists>b. canonical_json_bytes (PList [PInt (-5), PNone, PStr [233]]) = Inr b
     \<and> canonical_json_bytes (PList [PInt (-5), PNone, PStr [232]]) \<noteq> Inr b"
  using canonical_json_identifies_value [of "PList [PInt (-5), PNone, PStr [233]]" "PList [PInt (-5), PNone, PStr [233]]"]
  by (auto simp: SAFE_INTEGER_def scalar_value_def)

lemma utf16_char_decode:
  assumes "scalar_value c"
  shows "c = (case utf16_char c of [a, b] \<Rightarrow> a * 256 + b
    | [a, b, d, e] \<Rightarrow> ((a - 0xD8) * 256 + b) * 1024 + ((d - 0xDC) * 256 + e) + 0x10000 | _ \<Rightarrow> 0)"
    and "length (utf16_char c) = (if 0xD8 \<le> hd (utf16_char c) \<and> hd (utf16_char c) < 0xE0 then 4 else 2)"
proof -
  show "c = (case utf16_char c of [a, b] \<Rightarrow> a * 256 + b
    | [a, b, d, e] \<Rightarrow> ((a - 0xD8) * 256 + b) * 1024 + ((d - 0xDC) * 256 + e) + 0x10000 | _ \<Rightarrow> 0)"
  proof (cases "c < 0x10000")
    case False
    define x where "x = c - 0x10000"
    have c: "c = x + 0x10000" using False by (simp add: x_def)
    have "(0xD800 + h) div 256 = 0xD8 + h div 256" "(0xD800 + h) mod 256 = h mod 256"
      "(0xDC00 + h) div 256 = 0xDC + h div 256" "(0xDC00 + h) mod 256 = h mod 256" for h :: nat
      using div_mult_self3 [of 256 "0xD8" h] mod_mult_self3 [of "0xD8" 256 h] div_mult_self3 [of 256 "0xDC" h]
        mod_mult_self3 [of "0xDC" 256 h] by simp_all
    moreover have "262144 * (x div 1024 div 256) + x div 1024 mod 256 * 1024 + x mod 1024 = x"
      using mult_div_mod_eq [of 1024 x] mult_div_mod_eq [of 256 "x div 1024"] by linarith
    ultimately show ?thesis using c by (simp add: utf16_char_def Let_def)
  qed (simp add: utf16_char_def)
  show "length (utf16_char c) = (if 0xD8 \<le> hd (utf16_char c) \<and> hd (utf16_char c) < 0xE0 then 4 else 2)"
  proof (cases "c < 0x10000")
    case True
    then have "c div 256 < 0xD8 \<or> 0xE0 \<le> c div 256" using assms unfolding scalar_value_def by linarith
    then show ?thesis using True by (auto simp: utf16_char_def)
  next
    case False
    then have "c - 0x10000 < 0x100000" using assms by (simp add: scalar_value_def)
    then have "(0xD800 + (c - 0x10000) div 1024) div 256 < 0xE0" "0xD8 \<le> (0xD800 + (c - 0x10000) div 1024) div 256"
      by linarith+
    then show ?thesis using False by (simp add: utf16_char_def Let_def)
  qed
qed

lemma utf16_char_nonempty [simp]: "utf16_char c \<noteq> []"
  by (simp add: utf16_char_def Let_def)

lemma utf16_char_prefix:
  assumes "scalar_value c" and "scalar_value d" and "utf16_char c @ r = utf16_char d @ s"
  shows "c = d \<and> r = s"
proof -
  have "hd (utf16_char c) = hd (utf16_char d)" using arg_cong [OF assms(3), of hd] by simp
  then have "length (utf16_char c) = length (utf16_char d)"
    unfolding utf16_char_decode(2) [OF assms(1)] utf16_char_decode(2) [OF assms(2)] by simp
  then have "utf16_char c = utf16_char d" "r = s" using assms(3) by simp_all
  then show ?thesis using utf16_char_decode(1) [OF assms(1)] utf16_char_decode(1) [OF assms(2)] by (simp only:)
qed

lemma utf16_be_inj: "list_all scalar_value s \<Longrightarrow> list_all scalar_value t \<Longrightarrow> utf16_be s = utf16_be t \<Longrightarrow> s = t"
  unfolding utf16_be_def
proof (induction s arbitrary: t)
  case Nil
  then show ?case by (cases t) simp_all
next
  case (Cons c s)
  obtain c' t' where t: "t = c' # t'" using Cons.prems(3) by (cases t) simp_all
  have "utf16_char c @ concat (map utf16_char s) = utf16_char c' @ concat (map utf16_char t')" "scalar_value c" "scalar_value c'"
    using Cons.prems by (simp_all add: t)
  from utf16_char_prefix [OF this(2,3,1)] Cons.IH [of t'] Cons.prems show ?case by (simp add: t)
qed

text \<open>The insertion order of a dictionary does not matter.\<close>

lemma normalize_value_dict_order:
  assumes "distinct (map fst kvs)" and "mset kvs' = mset kvs"
  shows "normalize_value (PDict kvs') = normalize_value (PDict kvs)"
proof (cases "None \<in> fst ` set kvs")
  case True
  then show ?thesis using arg_cong [OF assms(2), of set_mset] by simp
next
  case False
  have s: "set kvs' = set kvs" using arg_cong [OF assms(2), of set_mset] by simp
  have "inj_on (\<lambda>kv. the (fst kv)) (set kvs)"
  proof (rule inj_onI)
    fix x y assume xy: "x \<in> set kvs" "y \<in> set kvs" "the (fst x) = the (fst y)"
    then have "fst x \<noteq> None" "fst y \<noteq> None" using False by force+
    then have "fst x = fst y" using xy(3) by (rule the_inj)
    then show "x = y" using assms(1) xy(1,2) by (simp add: distinct_map inj_on_def)
  qed
  then have k: "sort_key (\<lambda>kv. the (fst kv)) kvs' = sort_key (\<lambda>kv. the (fst kv)) kvs"
    by (intro sort_key_inj_key_eq) (use assms(2) s in simp_all)
  show ?thesis
  proof (cases "list_all (\<lambda>kv. list_all scalar_value (the (fst kv))) kvs")
    case True
    have "inj_on utf16_be (set (map (\<lambda>kv. the (fst kv)) kvs))"
      by (rule inj_onI, rule utf16_be_inj) (use True in \<open>auto simp: list_all_iff\<close>)
    then have u: "sort_key utf16_be (map (\<lambda>kv. the (fst kv)) kvs') = sort_key utf16_be (map (\<lambda>kv. the (fst kv)) kvs)"
      by (intro sort_key_inj_key_eq) (use assms(2) s in simp_all)
    show ?thesis unfolding normalize_value.simps k u s list_all_iff ..
  qed (simp add: s list_all_iff)
qed

end
