(* ===== verification/Decimals.thy ===== *)
theory Decimals
  imports Json
begin

text \<open>
  Numbers of a canonical row (app/services/dataset_canonicalization.py, \<^verbatim>\<open>CanonicalSchema._value\<close>):
  the \<^verbatim>\<open>signed_integer\<close> and \<^verbatim>\<open>decimal\<close> branches.  A \<^verbatim>\<open>Decimal\<close> is its sign, coefficient and
  exponent; \<^verbatim>\<open>\d\<close> of a pattern on text matches every decimal digit of Unicode (14.0, Python 3.11).
\<close>

section \<open>Digits\<close>

text \<open>The code points of the zeros of the decimal digit ranges (category Nd).\<close>

definition digit_zeros :: "nat list" where
  "digit_zeros =
     [0x30, 0x660, 0x6f0, 0x7c0, 0x966, 0x9e6, 0xa66, 0xae6, 0xb66, 0xbe6, 0xc66, 0xce6, 0xd66, 0xde6, 0xe50,
      0xed0, 0xf20, 0x1040, 0x1090, 0x17e0, 0x1810, 0x1946, 0x19d0, 0x1a80, 0x1a90, 0x1b50, 0x1bb0, 0x1c40,
      0x1c50, 0xa620, 0xa8d0, 0xa900, 0xa9d0, 0xa9f0, 0xaa50, 0xabf0, 0xff10, 0x104a0, 0x10d30, 0x11066,
      0x110f0, 0x11136, 0x111d0, 0x112f0, 0x11450, 0x114d0, 0x11650, 0x116c0, 0x11730, 0x118e0, 0x11950,
      0x11c50, 0x11d50, 0x11da0, 0x16a60, 0x16ac0, 0x16b50, 0x1d7ce, 0x1d7d8, 0x1d7e2, 0x1d7ec, 0x1d7f6,
      0x1e140, 0x1e2f0, 0x1e950, 0x1fbf0]"

definition digit_value :: "nat \<Rightarrow> nat option" where
  "digit_value c = map_option (\<lambda>z. c - z) (find (\<lambda>z. z \<le> c \<and> c \<le> z + 9) digit_zeros)"

definition is_digit :: "nat \<Rightarrow> bool" where
  "is_digit c \<longleftrightarrow> digit_value c \<noteq> None"

definition digits_num :: "ustr \<Rightarrow> nat" where
  "digits_num ds = foldl (\<lambda>a c. a * 10 + the (digit_value c)) 0 ds"

section \<open>Integers\<close>

text \<open>\<^verbatim>\<open>re.fullmatch(r"-?(?:0|[1-9]\d*)", value)\<close>\<close>

definition unsigned_part :: "ustr \<Rightarrow> ustr" where
  "unsigned_part s = (if s \<noteq> [] \<and> hd s = 45 then tl s else s)"

definition matches_integer :: "ustr \<Rightarrow> bool" where
  "matches_integer s =
     (let t = unsigned_part s in
       t = [48] \<or> t \<noteq> [] \<and> 49 \<le> hd t \<and> hd t \<le> 57 \<and> list_all is_digit (tl t))"

datatype number_arg = NInt int | NText ustr | NDecimal "(bool \<times> nat \<times> int) option" | NOther

definition canonical_integer :: "number_arg \<Rightarrow> cerror + ustr" where
  "canonical_integer value =
     (case value of
        NInt i \<Rightarrow> Inr (int_text i)
      | NText s \<Rightarrow> (if matches_integer s then Inr (if s = text_of ''-0'' then text_of ''0'' else s) else Inl ''invalid_integer'')
      | _ \<Rightarrow> Inl ''invalid_integer'')"

section \<open>Decimals\<close>

record dec =
  dneg :: bool
  coeff :: nat
  expo :: int

text \<open>\<^verbatim>\<open>re.fullmatch(r"-?\d+(?:\.\d+)?", value)\<close>, with its sign, integral and fractional digits.\<close>

definition match_decimal :: "ustr \<Rightarrow> (bool \<times> ustr \<times> ustr) option" where
  "match_decimal s =
     (let t = unsigned_part s; ip = takeWhile is_digit t; rest = dropWhile is_digit t in
       if ip = [] then None
       else if rest = [] then Some (t \<noteq> s, ip, [])
       else if hd rest = 46 \<and> tl rest \<noteq> [] \<and> list_all is_digit (tl rest) then Some (t \<noteq> s, ip, tl rest)
       else None)"

text \<open>\<^verbatim>\<open>Decimal(value)\<close>; \<^verbatim>\<open>NaN\<close> and the infinities are \<open>None\<close>.\<close>

definition to_decimal :: "number_arg \<Rightarrow> cerror + dec option" where
  "to_decimal value =
     (case value of
        NInt i \<Rightarrow> Inr (Some \<lparr>dneg = i < 0, coeff = nat \<bar>i\<bar>, expo = 0\<rparr>)
      | NText s \<Rightarrow>
          (case match_decimal s of
             None \<Rightarrow> Inl ''invalid_decimal''
           | Some (neg, ip, fp) \<Rightarrow>
               Inr (Some \<lparr>dneg = neg, coeff = digits_num (ip @ fp), expo = - int (length fp)\<rparr>))
      | NDecimal d \<Rightarrow> Inr (map_option (\<lambda>(neg, c, e). \<lparr>dneg = neg, coeff = c, expo = e\<rparr>) d)
      | NOther \<Rightarrow> Inl ''invalid_decimal'')"

text \<open>\<^verbatim>\<open>format(number, "f")\<close>\<close>

definition format_f :: "dec \<Rightarrow> ustr" where
  "format_f d =
     (let ds = dec_digits (coeff d); dot = int (length ds) + expo d;
          ip = (if dot < 0 then [] else if dot > int (length ds) then ds @ replicate (nat dot - length ds) 48
                else take (nat dot) ds);
          fp = (if dot < 0 then replicate (nat (- dot)) 48 @ ds else drop (nat dot) ds)
      in (if dneg d then [45] else []) @ (if ip = [] then [48] else ip) @ (if fp = [] then [] else 46 # fp))"

definition rstrip :: "nat \<Rightarrow> ustr \<Rightarrow> ustr" where
  "rstrip c s = rev (dropWhile (\<lambda>x. x = c) (rev s))"

definition decimal_text :: "dec \<Rightarrow> ustr" where
  "decimal_text number =
     (let result = format_f number in if 46 \<in> set result then rstrip 46 (rstrip 48 result) else result)"

definition canonical_decimal :: "int \<Rightarrow> int \<Rightarrow> number_arg \<Rightarrow> cerror + ustr" where
  "canonical_decimal precision scale value =
     res_bind (to_decimal value) (\<lambda>n. case n of None \<Rightarrow> Inl ''invalid_decimal''
      | Some number \<Rightarrow>
        (let digits = int (length (dec_digits (coeff number)));
             sc = max 0 (- expo number);
             integral = (if coeff number \<noteq> 0 then max 0 (digits + expo number) else 0)
         in if sc > scale \<or> integral > precision - scale then Inl ''decimal_out_of_range''
            else if coeff number = 0 then Inr (text_of ''0'')
            else Inr (decimal_text number)))"

section \<open>What a text of digits denotes\<close>

lemma digit_value_ascii: "digit_code c \<Longrightarrow> digit_value c = Some (c - 48)"
  by (simp add: digit_value_def digit_zeros_def digit_code_def)

lemma digit_code_digit: "digit_code c \<Longrightarrow> is_digit c"
  by (simp add: is_digit_def digit_value_ascii)

lemma no_digit: "\<not> is_digit 45" "\<not> is_digit 46"
  by (simp_all add: is_digit_def digit_value_def digit_zeros_def)

lemma digits_num_Nil [simp]: "digits_num [] = 0"
  by (simp add: digits_num_def)

lemma digits_num_append: "digits_num (xs @ ys) = digits_num xs * 10 ^ length ys + digits_num ys"
proof -
  have "foldl (\<lambda>a c. a * 10 + the (digit_value c)) a ys
      = a * 10 ^ length ys + foldl (\<lambda>a c. a * 10 + the (digit_value c)) 0 ys" for a
  proof (induction ys arbitrary: a)
    case (Cons y ys)
    show ?case
      using Cons [of "a * 10 + the (digit_value y)"] Cons [of "the (digit_value y)"] by (simp add: algebra_simps)
  qed simp
  then show ?thesis unfolding digits_num_def foldl_append by blast
qed

lemma digits_num_zeros [simp]: "digits_num (replicate n 48) = 0"
proof (induction n)
  case (Suc n)
  have "digits_num (replicate n 48 @ [48]) = 0"
    using Suc by (simp add: digits_num_append digits_num_def digit_value_ascii digit_code_def)
  then show ?case by (simp add: replicate_append_same)
qed simp

lemma digits_num_dec [simp]: "digits_num (dec_digits n) = n"
proof (induction n rule: dec_digits.induct)
  case (1 n)
  have "the (digit_value (48 + m)) = m" if "m < 10" for m
    using that by (simp add: digit_value_ascii digit_code_def)
  then show ?case using 1
    by (subst dec_digits.simps) (auto simp: digits_num_append [unfolded digits_num_def] digits_num_def)
qed

text \<open>The number a decimal denotes, and the number a text of the pattern denotes.\<close>

definition dec_value :: "dec \<Rightarrow> real" where
  "dec_value d = (if dneg d then -1 else 1) * real (coeff d) * 10 powi (expo d)"

definition text_value :: "bool \<times> ustr \<times> ustr \<Rightarrow> real" where
  "text_value m = (case m of (neg, ip, fp) \<Rightarrow> (if neg then -1 else 1) * real (digits_num (ip @ fp)) * 10 powi (- int (length fp)))"

section \<open>The canonical text of a decimal\<close>

definition format_parts :: "dec \<Rightarrow> ustr \<times> ustr" where
  "format_parts d =
     (let ds = dec_digits (coeff d); dot = int (length ds) + expo d in
       if dot < 0 then ([48], replicate (nat (- dot)) 48 @ ds)
       else if dot > int (length ds) then (ds @ replicate (nat dot - length ds) 48, [])
       else (if take (nat dot) ds = [] then [48] else take (nat dot) ds, drop (nat dot) ds))"

lemma format_f_parts:
  "format_f d = (if dneg d then [45] else []) @ fst (format_parts d) @ (if snd (format_parts d) = [] then [] else 46 # snd (format_parts d))"
proof -
  have "nat (int l + e) \<ge> l" if "0 < e" for l :: nat and e :: int using that by linarith
  then show ?thesis by (auto simp: format_f_def format_parts_def Let_def)
qed

lemma format_parts_digits:
  "list_all digit_code (fst (format_parts d))" "list_all digit_code (snd (format_parts d))" "fst (format_parts d) \<noteq> []"
proof -
  have z: "list_all digit_code (replicate n 48)" for n by (induction n) (simp_all add: digit_code_def)
  have t: "list_all digit_code (take n (dec_digits c))" "list_all digit_code (drop n (dec_digits c))" for n c
    using dec_digits_codes [of c] by (auto simp: list_all_iff dest: in_set_takeD in_set_dropD)
  show "list_all digit_code (fst (format_parts d))" "list_all digit_code (snd (format_parts d))" "fst (format_parts d) \<noteq> []"
    using z t dec_digits_codes by (simp_all add: format_parts_def Let_def digit_code_def)
qed

lemma format_parts_value:
  "real (digits_num (fst (format_parts d) @ snd (format_parts d))) = real (coeff d) * 10 powi (expo d + int (length (snd (format_parts d))))"
proof -
  let ?ds = "dec_digits (coeff d)" and ?dot = "int (length (dec_digits (coeff d))) + expo d"
  have lead: "digits_num (48 # xs) = digits_num xs" for xs
    using digits_num_append [of "[48]" xs] digits_num_zeros [of 1] by simp
  consider "?dot < 0" | "?dot > int (length ?ds)" | "0 \<le> ?dot" "?dot \<le> int (length ?ds)" by linarith
  then show ?thesis
  proof cases
    case 1
    then show ?thesis
      by (simp add: format_parts_def Let_def lead digits_num_append)
  next
    case 2
    then have "0 < expo d" "nat ?dot - length ?ds = nat (expo d)" "length ?ds \<le> nat ?dot" by linarith+
    then show ?thesis using 2
      by (simp add: format_parts_def Let_def digits_num_append power_int_def)
  next
    case 3
    then have l: "expo d + int (length (drop (nat ?dot) ?ds)) = 0" by simp
    have "digits_num ((if take (nat ?dot) ?ds = [] then [48] else take (nat ?dot) ?ds) @ drop (nat ?dot) ?ds)
        = digits_num (take (nat ?dot) ?ds @ drop (nat ?dot) ?ds)"
      using lead by simp
    also have "\<dots> = coeff d" unfolding append_take_drop_id by simp
    finally have n: "digits_num ((if take (nat ?dot) ?ds = [] then [48] else take (nat ?dot) ?ds) @ drop (nat ?dot) ?ds) = coeff d" .
    have p: "format_parts d = (if take (nat ?dot) ?ds = [] then [48] else take (nat ?dot) ?ds, drop (nat ?dot) ?ds)"
      using 3 by (simp add: format_parts_def Let_def)
    show ?thesis unfolding p fst_conv snd_conv n l by simp
  qed
qed

lemma rstrip_append: "rstrip c (xs @ ys) = (if rstrip c ys = [] then rstrip c xs else xs @ rstrip c ys)"
  by (simp add: rstrip_def dropWhile_append)

lemma rstrip_id: "xs \<noteq> [] \<Longrightarrow> last xs \<noteq> c \<Longrightarrow> rstrip c xs = xs"
  by (cases xs rule: rev_cases) (simp_all add: rstrip_def)

lemma rstrip_zeros: "\<exists>k. xs = rstrip c xs @ replicate k c"
proof (induction xs rule: rev_induct)
  case (snoc x xs)
  then obtain k where k: "xs = rstrip c xs @ replicate k c" by blast
  show ?case
  proof (cases "x = c")
    case True
    have "xs @ [c] = (rstrip c xs @ replicate k c) @ [c]" by (simp only: k [symmetric])
    moreover have "rstrip c (xs @ [c]) = rstrip c xs" by (simp add: rstrip_def)
    ultimately have "xs @ [x] = rstrip c (xs @ [x]) @ replicate (Suc k) c"
      using True by (simp add: replicate_append_same)
    then show ?thesis by blast
  qed (intro exI [of _ 0], simp add: rstrip_def)
qed (simp add: rstrip_def)

lemma decimal_text_parts:
  "decimal_text d = (if dneg d then [45] else []) @ fst (format_parts d)
     @ (if rstrip 48 (snd (format_parts d)) = [] then [] else 46 # rstrip 48 (snd (format_parts d)))"
proof -
  define pre ip fp :: ustr where "pre = (if dneg d then [45] else [])" and "ip = fst (format_parts d)" and "fp = snd (format_parts d)"
  note f = format_parts_digits [of d, folded ip_def fp_def]
  have c46: "\<not> digit_code 46" by (simp add: digit_code_def)
  have lastip: "rstrip 46 (pre @ ip) = pre @ ip"
    using f c46 by (intro rstrip_id) (auto simp: list_all_iff dest: last_in_set)
  have r: "format_f d = pre @ ip @ (if fp = [] then [] else 46 # fp)" by (simp add: format_f_parts pre_def ip_def fp_def)
  have n46: "46 \<notin> set pre" "46 \<notin> set ip" using f c46 by (auto simp: pre_def list_all_iff)
  have "decimal_text d = pre @ ip @ (if rstrip 48 fp = [] then [] else 46 # rstrip 48 fp)"
  proof (cases "fp = []")
    case True
    have "rstrip 48 [] = []" by (simp add: rstrip_def)
    then show ?thesis using True r n46 by (simp add: decimal_text_def Let_def)
  next
    case False
    have dot: "rstrip 48 (46 # fp) = 46 # rstrip 48 fp"
      using rstrip_append [of 48 "[46]" fp] by (simp add: rstrip_def)
    have s: "rstrip 48 (format_f d) = (pre @ ip) @ 46 # rstrip 48 fp"
      using rstrip_append [of 48 "pre @ ip" "46 # fp"] False r dot by simp
    have "rstrip 46 ((pre @ ip) @ 46 # rstrip 48 fp) = pre @ ip @ (if rstrip 48 fp = [] then [] else 46 # rstrip 48 fp)"
    proof (cases "rstrip 48 fp = []")
      case True
      have "rstrip 46 [46] = []" by (simp add: rstrip_def)
      then show ?thesis using True rstrip_append [of 46 "pre @ ip" "[46]"] lastip by simp
    next
      case False
      obtain k where k: "fp = rstrip 48 fp @ replicate k 48" using rstrip_zeros by blast
      have "last (rstrip 48 fp) \<in> set fp" using False k by (metis Un_iff last_in_set set_append)
      then have "last ((pre @ ip) @ 46 # rstrip 48 fp) \<noteq> 46" using False f(2) c46 by (auto simp: list_all_iff)
      then show ?thesis using False by (simp add: rstrip_id)
    qed
    moreover have "46 \<in> set (format_f d)" using False r by simp
    ultimately show ?thesis using s by (simp add: decimal_text_def Let_def)
  qed
  then show ?thesis by (simp add: pre_def ip_def fp_def)
qed

lemma decimal_text_value:
  "\<exists>m. match_decimal (decimal_text d) = Some m \<and> text_value m = dec_value d"
proof -
  define ip fp where "ip = fst (format_parts d)" and "fp = snd (format_parts d)"
  define g where "g = rstrip 48 fp"
  note f = format_parts_digits [of d, folded ip_def fp_def]
  obtain k where k: "fp = g @ replicate k 48" unfolding g_def using rstrip_zeros by blast
  have dig: "list_all is_digit ip" "list_all is_digit g"
    using f k by (auto simp: list_all_iff digit_code_digit)
  let ?rest = "if g = [] then [] else 46 # g"
  have t: "decimal_text d = (if dneg d then [45] else []) @ ip @ ?rest"
    by (simp add: decimal_text_parts ip_def fp_def g_def)
  have "digit_code (hd ip)" using f by (cases ip) simp_all
  then have h: "hd (ip @ ?rest) \<noteq> 45" using f(3) by (auto simp: digit_code_def)
  have u: "unsigned_part (decimal_text d) = ip @ ?rest" and sg: "(ip @ ?rest \<noteq> decimal_text d) = dneg d"
    using h f(3) t by (auto simp: unsigned_part_def)
  have sp: "takeWhile is_digit (ip @ ?rest) = ip" "dropWhile is_digit (ip @ ?rest) = ?rest"
    using dig(1) no_digit(2) by (auto simp: list_all_iff takeWhile_append dropWhile_append)
  have m: "match_decimal (decimal_text d) = Some (dneg d, ip, g)"
    unfolding match_decimal_def Let_def u sp sg using f(3) dig(2) by simp
  have "real (digits_num (ip @ g)) * 10 ^ k = real (digits_num (ip @ fp))"
    by (simp add: k digits_num_append [of "ip @ g" "replicate k 48", simplified])
  also have "\<dots> = real (coeff d) * 10 powi (expo d + int (length fp))"
    unfolding ip_def fp_def by (rule format_parts_value)
  also have "int (length fp) = int (length g) + int k" by (simp add: k)
  finally have "real (digits_num (ip @ g)) * 10 ^ k = real (coeff d) * 10 powi expo d * 10 powi int (length g) * 10 ^ k"
    by (simp add: power_int_add add.assoc [symmetric])
  then have "real (digits_num (ip @ g)) = real (coeff d) * 10 powi expo d * 10 powi int (length g)" by simp
  then have "real (digits_num (ip @ g)) * 10 powi (- int (length g)) = real (coeff d) * 10 powi expo d"
    by (simp add: power_int_minus field_simps)
  then show ?thesis using m by (intro exI [of _ "(dneg d, ip, g)"]) (simp add: text_value_def dec_value_def)
qed

lemma dec_digits_times10: "0 < c \<Longrightarrow> dec_digits (10 * c) = dec_digits c @ [48]"
  by (subst dec_digits.simps) simp

text \<open>A zero at the end of the coefficient moves into the exponent.\<close>

lemma decimal_text_shift:
  assumes "0 < c"
  shows "decimal_text \<lparr>dneg = n, coeff = 10 * c, expo = e - 1\<rparr> = decimal_text \<lparr>dneg = n, coeff = c, expo = e\<rparr>"
proof -
  let ?ds = "dec_digits c" and ?dot = "int (length (dec_digits c)) + e"
  let ?d = "\<lparr>dneg = n, coeff = c, expo = e\<rparr>" and ?d' = "\<lparr>dneg = n, coeff = 10 * c, expo = e - 1\<rparr>"
  have r: "rstrip 48 (xs @ [48]) = rstrip 48 xs" for xs by (simp add: rstrip_def)
  have "fst (format_parts ?d') = fst (format_parts ?d) \<and> rstrip 48 (snd (format_parts ?d')) = rstrip 48 (snd (format_parts ?d))"
  proof -
    consider "?dot < 0" | "?dot > int (length ?ds)" | "0 \<le> ?dot" "?dot \<le> int (length ?ds)" by linarith
    then show ?thesis
    proof cases
      case 1
      then show ?thesis using r [of "replicate (nat (- ?dot)) 48 @ ?ds"]
        by (simp add: format_parts_def Let_def dec_digits_times10 [OF assms])
    next
      case 2
      then have e: "0 < e" by simp
      show ?thesis
      proof (cases "e = 1")
        case True
        then show ?thesis by (simp add: format_parts_def Let_def dec_digits_times10 [OF assms] nat_add_distrib)
      next
        case False
        have l: "nat (int (length ?ds) + e) = length ?ds + nat e" using e by (simp add: nat_add_distrib)
        have z: "nat e = Suc (nat e - 1)" using e by simp
        have "replicate (nat e) (48 :: nat) = 48 # replicate (nat e - 1) 48" by (subst z) simp
        then show ?thesis using e False l
          by (simp add: format_parts_def Let_def dec_digits_times10 [OF assms])
      qed
    next
      case 3
      then have le: "nat ?dot \<le> length ?ds" by simp
      have "rstrip 48 (drop (nat ?dot) (?ds @ [48])) = rstrip 48 (drop (nat ?dot) ?ds)"
        using r [of "drop (nat ?dot) ?ds"] le by simp
      then show ?thesis using 3 le
        by (simp add: format_parts_def Let_def dec_digits_times10 [OF assms])
    qed
  qed
  then show ?thesis unfolding decimal_text_parts by simp
qed

lemma decimal_text_shifts:
  assumes "0 < c"
  shows "decimal_text \<lparr>dneg = n, coeff = 10 ^ k * c, expo = e - int k\<rparr> = decimal_text \<lparr>dneg = n, coeff = c, expo = e\<rparr>"
proof (induction k)
  case (Suc k)
  have "decimal_text \<lparr>dneg = n, coeff = 10 * (10 ^ k * c), expo = (e - int k) - 1\<rparr>
      = decimal_text \<lparr>dneg = n, coeff = 10 ^ k * c, expo = e - int k\<rparr>"
    using assms by (intro decimal_text_shift) simp
  with Suc show ?case by (simp add: algebra_simps)
qed simp

lemma decimal_text_of_value:
  assumes "0 < coeff d" and "0 < coeff d'" and "dec_value d = dec_value d'"
  shows "decimal_text d = decimal_text d'"
proof -
  have scale: "decimal_text x = decimal_text y"
    if xy: "0 < coeff x" "0 < coeff y" "dec_value x = dec_value y" "expo x \<le> expo y" for x y
  proof -
    define k where "k = nat (expo y - expo x)"
    have ex: "expo x = expo y - int k" using xy(4) by (simp add: k_def)
    have pos: "0 < real (coeff z) * 10 powi expo z" if "0 < coeff z" for z :: dec using that by simp
    have sg: "dneg x = dneg y"
      using xy(3) pos [OF xy(1)] pos [OF xy(2)] by (auto simp: dec_value_def split: if_split_asm)
    then have "real (coeff x) * 10 powi expo x = real (coeff y) * 10 powi (expo x + int k)"
      using xy(3) ex by (auto simp: dec_value_def split: if_split_asm)
    then have "real (coeff x) = real (coeff y) * 10 ^ k" by (simp add: power_int_add)
    then have c: "coeff x = 10 ^ k * coeff y"
      by (metis mult.commute of_nat_eq_iff of_nat_mult of_nat_numeral of_nat_power)
    have "x = \<lparr>dneg = dneg y, coeff = 10 ^ k * coeff y, expo = expo y - int k\<rparr>" using c ex sg by simp
    also have "decimal_text \<dots> = decimal_text \<lparr>dneg = dneg y, coeff = coeff y, expo = expo y\<rparr>"
      by (rule decimal_text_shifts [OF xy(2)])
    also have "\<lparr>dneg = dneg y, coeff = coeff y, expo = expo y\<rparr> = y" by simp
    finally show ?thesis .
  qed
  show ?thesis
  proof (cases "expo d \<le> expo d'")
    case True
    then show ?thesis using scale assms by blast
  next
    case False
    then have "expo d' \<le> expo d" by simp
    with scale [of d' d] assms show ?thesis by simp
  qed
qed

text \<open>The number a source value denotes.\<close>

definition number_value :: "number_arg \<Rightarrow> real" where
  "number_value v = (case to_decimal v of Inr (Some d) \<Rightarrow> dec_value d | _ \<Rightarrow> 0)"

lemma canonical_decimal_text:
  assumes "canonical_decimal p s v = Inr t"
  obtains d where "to_decimal v = Inr (Some d)"
    and "t = (if coeff d = 0 then text_of ''0'' else decimal_text d)"
  using assms by (auto simp: canonical_decimal_def Let_def split: option.splits if_split_asm)

lemma zero_text: "match_decimal (text_of ''0'') = Some (False, [48], [])"
  using digit_code_digit [of 48] by (simp add: text_of_def match_decimal_def unsigned_part_def digit_code_def)

lemma canonical_decimal_value:
  assumes "canonical_decimal p s v = Inr t"
  shows "\<exists>m. match_decimal t = Some m \<and> text_value m = number_value v"
  using assms
proof (rule canonical_decimal_text)
  fix d assume d: "to_decimal v = Inr (Some d)" and t: "t = (if coeff d = 0 then text_of ''0'' else decimal_text d)"
  show ?thesis
  proof (cases "coeff d = 0")
    case True
    then show ?thesis using d t zero_text digits_num_zeros [of 1]
      by (simp add: number_value_def text_value_def dec_value_def)
  next
    case False
    then show ?thesis using d t decimal_text_value [of d] by (simp add: number_value_def)
  qed
qed

lemma canonical_decimal_unique:
  assumes "canonical_decimal p s v = Inr t" and "canonical_decimal p' s' w = Inr u" and "number_value v = number_value w"
  shows "t = u"
proof -
  obtain d where d: "to_decimal v = Inr (Some d)" "t = (if coeff d = 0 then text_of ''0'' else decimal_text d)"
    using assms(1) by (rule canonical_decimal_text)
  obtain e where e: "to_decimal w = Inr (Some e)" "u = (if coeff e = 0 then text_of ''0'' else decimal_text e)"
    using assms(2) by (rule canonical_decimal_text)
  have z: "dec_value x = 0 \<longleftrightarrow> coeff x = 0" for x by (simp add: dec_value_def)
  have "dec_value d = dec_value e" using assms(3) d(1) e(1) by (simp add: number_value_def)
  then show ?thesis using d(2) e(2) z [of d] z [of e] decimal_text_of_value [of d e] by (cases "coeff d = 0") simp_all
qed

text \<open>
  Canonical decimals: the text of an accepted decimal reads back as the same number, and two
  accepted values have the same text exactly when they are the same number, however they were
  spelled (leading and trailing zeros, exponents, negative zero).
\<close>

theorem decimals_canonical:
  assumes "canonical_decimal p s v = Inr t" and "canonical_decimal p' s' w = Inr u"
  shows "(\<exists>m. match_decimal t = Some m \<and> text_value m = number_value v) \<and> (t = u \<longleftrightarrow> number_value v = number_value w)"
  using canonical_decimal_value [OF assms(1)] canonical_decimal_value [OF assms(2)] canonical_decimal_unique [OF assms] by auto

theorem decimals_canonical_witness:
  "canonical_decimal 10 4 (NText (text_of ''-0012.3400'')) = canonical_decimal 12 3 (NText (text_of ''-12.34''))"
proof -
  have c: "dec_digits 123400 = [49, 50, 51, 52, 48, 48]" "dec_digits 1234 = [49, 50, 51, 52]"
    by (simp_all add: dec_digits.simps)
  have d: "is_digit 48" "is_digit 49" "is_digit 50" "is_digit 51" "is_digit 52"
    by (simp_all add: digit_code_digit digit_code_def)
  have m: "match_decimal (text_of ''-0012.3400'') = Some (True, [48, 48, 49, 50], [51, 52, 48, 48])"
      "match_decimal (text_of ''-12.34'') = Some (True, [49, 50], [51, 52])"
    by (simp_all add: text_of_def match_decimal_def unsigned_part_def d no_digit)
  have n: "digits_num [48, 48, 49, 50, 51, 52, 48, 48] = 123400" "digits_num [49, 50, 51, 52] = 1234"
    by (simp_all add: digits_num_def digit_value_ascii digit_code_def)
  let ?v = "NText (text_of ''-0012.3400'')" and ?w = "NText (text_of ''-12.34'')"
  have v: "to_decimal ?v = Inr (Some \<lparr>dneg = True, coeff = 123400, expo = -4\<rparr>)"
      "to_decimal ?w = Inr (Some \<lparr>dneg = True, coeff = 1234, expo = -2\<rparr>)"
    by (simp_all add: to_decimal_def m n)
  obtain t u where tu: "canonical_decimal 10 4 ?v = Inr t" "canonical_decimal 12 3 ?w = Inr u"
    by (simp add: canonical_decimal_def v c)
  have "number_value ?v = number_value ?w"
    by (simp add: number_value_def v dec_value_def power_int_minus)
  with decimals_canonical [OF tu] tu show ?thesis by simp
qed

section \<open>Integers\<close>

definition text_int :: "ustr \<Rightarrow> int" where
  "text_int s = (if unsigned_part s \<noteq> s then -1 else 1) * int (digits_num (unsigned_part s))"

definition integer_value :: "number_arg \<Rightarrow> int" where
  "integer_value v = (case v of NInt i \<Rightarrow> i | NText s \<Rightarrow> text_int s | _ \<Rightarrow> 0)"

text \<open>The digits of a text are ASCII digits.\<close>

definition western :: "ustr \<Rightarrow> bool" where
  "western s \<longleftrightarrow> list_all (\<lambda>c. is_digit c \<longrightarrow> digit_code c) s"

definition western_arg :: "number_arg \<Rightarrow> bool" where
  "western_arg v = (case v of NText s \<Rightarrow> western s | _ \<Rightarrow> True)"

lemma ascii_digit:
  assumes "is_digit c" and "c < 0x80"
  shows "digit_code c"
proof -
  obtain z where z: "find (\<lambda>z. z \<le> c \<and> c \<le> z + 9) digit_zeros = Some z"
    using assms(1) by (auto simp: is_digit_def digit_value_def)
  have "z \<in> set digit_zeros" "z \<le> c" "c \<le> z + 9" using z by (auto simp: find_Some_iff)
  moreover have "list_all (\<lambda>z. z = 0x30 \<or> 0x80 \<le> z) digit_zeros" by (simp add: digit_zeros_def)
  ultimately show ?thesis using assms(2) by (fastforce simp: list_all_iff digit_code_def)
qed

lemma ascii_western: "list_all (\<lambda>c. c < 0x80) s \<Longrightarrow> western s"
  by (auto simp: western_def list_all_iff ascii_digit)

lemma int_text_value [simp]: "text_int (int_text i) = i"
proof -
  have "hd (dec_digits n) \<noteq> 45" for n using dec_digits_head [of n] by (auto simp: digit_code_def)
  then show ?thesis by (simp add: text_int_def int_text_def unsigned_part_def)
qed

lemma digits_spelling:
  "list_all digit_code ds \<Longrightarrow> ds \<noteq> [] \<Longrightarrow> hd ds \<noteq> 48 \<Longrightarrow> 0 < digits_num ds \<and> dec_digits (digits_num ds) = ds"
proof (induction ds rule: rev_induct)
  case (snoc c ds)
  have c: "digit_code c" using snoc.prems by simp
  have n: "digits_num (ds @ [c]) = digits_num ds * 10 + (c - 48)"
    by (simp add: digits_num_append digits_num_def digit_value_ascii [OF c])
  show ?case
  proof (cases "ds = []")
    case True
    then show ?thesis using snoc.prems c unfolding n
      by (subst dec_digits.simps) (auto simp: digit_code_def)
  next
    case False
    then have ih: "0 < digits_num ds" "dec_digits (digits_num ds) = ds" using snoc by simp_all
    have c': "c - 48 < 10" "48 + (c - 48) = c" using c by (auto simp: digit_code_def)
    define r where "r = c - 48"
    have "(digits_num ds * 10 + r) div 10 = digits_num ds" "(digits_num ds * 10 + r) mod 10 = r"
      using c'(1) by (simp_all add: r_def [symmetric])
    note dm = this [unfolded r_def]
    show ?thesis unfolding n using ih c' by (subst dec_digits.simps) (simp only: dm, simp)
  qed
qed simp

lemma western_integer_spelling:
  assumes "canonical_integer v = Inr t" and "western_arg v"
  shows "t = int_text (integer_value v)"
proof (cases v)
  case (NText s)
  have m: "matches_integer s" and t: "t = (if s = text_of ''-0'' then text_of ''0'' else s)"
    using assms(1) by (auto simp: NText canonical_integer_def split: if_split_asm)
  let ?u = "unsigned_part s"
  have asc: "western ?u" using assms(2) by (auto simp: NText western_arg_def western_def unsigned_part_def list_all_iff dest: list.set_sel(2))
  have "dec_digits (digits_num ?u) = ?u"
  proof (cases "?u = [48]")
    case True
    show ?thesis unfolding True by (subst dec_digits.simps) (simp add: digits_num_def digit_value_ascii digit_code_def)
  next
    case False
    then have "?u \<noteq> []" "49 \<le> hd ?u" "hd ?u \<le> 57" "list_all is_digit (tl ?u)" using m by (auto simp: matches_integer_def Let_def)
    then have "list_all digit_code ?u" using asc by (cases ?u) (auto simp: western_def list_all_iff digit_code_def)
    with digits_spelling [of ?u] \<open>49 \<le> hd ?u\<close> \<open>?u \<noteq> []\<close> show ?thesis by auto
  qed
  then show ?thesis
  proof (cases "?u = s")
    case True
    then have "s \<noteq> text_of ''-0''" by (auto simp: unsigned_part_def text_of_def)
    with True \<open>dec_digits (digits_num ?u) = ?u\<close> show ?thesis
      by (simp add: t NText integer_value_def text_int_def int_text_def)
  next
    case False
    then have s: "s = 45 # ?u" by (cases s) (auto simp: unsigned_part_def split: if_split_asm)
    have d0: "dec_digits 0 = [48]" by (subst dec_digits.simps) simp
    show ?thesis
    proof (cases "digits_num ?u = 0")
      case True
      then have "?u = [48]" using \<open>dec_digits (digits_num ?u) = ?u\<close> d0 by simp
      then show ?thesis using False True s d0 by (simp add: t NText integer_value_def text_int_def int_text_def text_of_def)
    next
      case nz: False
      have "s \<noteq> text_of ''-0''"
      proof
        assume "s = text_of ''-0''"
        then have "?u = [48]" by (simp add: text_of_def unsigned_part_def)
        then show False using nz digits_num_zeros [of 1] by simp
      qed
      then show ?thesis using False nz s \<open>dec_digits (digits_num ?u) = ?u\<close>
        by (simp add: t NText integer_value_def text_int_def int_text_def)
    qed
  qed
qed (use assms in \<open>auto simp: canonical_integer_def integer_value_def\<close>)

lemma canonical_integer_value: "canonical_integer v = Inr t \<Longrightarrow> text_int t = integer_value v"
proof (cases v)
  case (NText s)
  assume "canonical_integer v = Inr t"
  then have "t = (if s = text_of ''-0'' then text_of ''0'' else s)"
    by (auto simp: NText canonical_integer_def split: if_split_asm)
  then show ?thesis using digits_num_zeros [of 1]
    by (auto simp: NText integer_value_def text_int_def text_of_def unsigned_part_def)
qed (auto simp: canonical_integer_def integer_value_def)

text \<open>
  Canonical integers: equal texts denote the same integer, and integers given as numbers or in
  ASCII have the same text exactly when they are equal.  This fails beyond ASCII: the pattern
  accepts every decimal digit after the first and the text is kept as it is spelled, so 13 also has
  the canonical text of a one and an Arabic-Indic three.
\<close>

theorem integers_canonical:
  assumes "canonical_integer v = Inr t" and "canonical_integer w = Inr u"
  shows "(t = u \<longrightarrow> integer_value v = integer_value w)
    \<and> (western_arg v \<longrightarrow> western_arg w \<longrightarrow> integer_value v = integer_value w \<longrightarrow> t = u)
    \<and> canonical_integer (NText [49, 0x663]) = Inr [49, 0x663] \<and> canonical_integer (NText [49, 51]) = Inr [49, 51]
    \<and> integer_value (NText [49, 0x663]) = integer_value (NText [49, 51])"
proof -
  have d: "digit_value 49 = Some 1" "digit_value 51 = Some 3" "digit_value 0x663 = Some 3"
    by (simp_all add: digit_value_def digit_zeros_def)
  show ?thesis
    using canonical_integer_value [OF assms(1)] canonical_integer_value [OF assms(2)]
      western_integer_spelling [OF assms(1)] western_integer_spelling [OF assms(2)]
    by (auto simp: canonical_integer_def matches_integer_def unsigned_part_def text_of_def is_digit_def d
        integer_value_def text_int_def digits_num_def)
qed

theorem integers_canonical_witness:
  "canonical_integer (NText (text_of ''-0'')) = Inr (int_text 0) \<and> canonical_integer (NInt 0) = Inr (int_text 0)"
proof -
  have a: "canonical_integer (NText (text_of ''-0'')) = Inr (text_of ''0'')"
    by (simp add: canonical_integer_def matches_integer_def unsigned_part_def text_of_def)
  have b: "canonical_integer (NInt 0) = Inr (int_text 0)" by (simp add: canonical_integer_def)
  have "integer_value (NText (text_of ''-0'')) = integer_value (NInt 0)" "western_arg (NText (text_of ''-0''))" "western_arg (NInt 0)"
    using digits_num_zeros [of 1] by (simp_all add: integer_value_def text_int_def unsigned_part_def text_of_def western_arg_def ascii_western)
  with integers_canonical [OF a b] a b show ?thesis by simp
qed

end
