(* ===== verification/Timestamps.thy ===== *)
theory Timestamps
  imports Decimals
begin

text \<open>
  Dates and timestamps of a canonical row (app/services/dataset_canonicalization.py,
  \<^verbatim>\<open>normalize_timestamp\<close> and the \<^verbatim>\<open>date\<close> branch of \<^verbatim>\<open>_value\<close>) and the signed bytes of a checkpoint
  (\<^verbatim>\<open>canonical_rfc3339_utc\<close>, \<^verbatim>\<open>checkpoint_signing_bytes\<close> of dataset_merkle_service.py).  The
  calendar is that of Python's \<^verbatim>\<open>datetime\<close>: the proleptic Gregorian years 1 to 9999.  An offset is
  less than a day, so subtracting it moves the date by one day at most.
\<close>

section \<open>The calendar\<close>

record date =
  yr :: nat
  mon :: nat
  dy :: nat

definition leap_year :: "nat \<Rightarrow> bool" where
  "leap_year y \<longleftrightarrow> y mod 4 = 0 \<and> (y mod 100 \<noteq> 0 \<or> y mod 400 = 0)"

definition days_in_month :: "nat \<Rightarrow> nat \<Rightarrow> nat" where
  "days_in_month y m =
     (if m = 2 then (if leap_year y then 29 else 28) else if m \<in> {4, 6, 9, 11} then 30 else 31)"

definition valid_date :: "date \<Rightarrow> bool" where
  "valid_date d \<longleftrightarrow> 1 \<le> yr d \<and> yr d \<le> 9999 \<and> 1 \<le> mon d \<and> mon d \<le> 12 \<and> 1 \<le> dy d \<and> dy d \<le> days_in_month (yr d) (mon d)"

text \<open>The neighbours of a day; outside the years 1 to 9999 there is none (\<^verbatim>\<open>OverflowError\<close>).\<close>

definition next_day :: "date \<Rightarrow> date option" where
  "next_day d =
     (if dy d < days_in_month (yr d) (mon d) then Some (d\<lparr>dy := dy d + 1\<rparr>)
      else if mon d < 12 then Some (d\<lparr>mon := mon d + 1, dy := 1\<rparr>)
      else if yr d < 9999 then Some \<lparr>yr = yr d + 1, mon = 1, dy = 1\<rparr>
      else None)"

definition prev_day :: "date \<Rightarrow> date option" where
  "prev_day d =
     (if 1 < dy d then Some (d\<lparr>dy := dy d - 1\<rparr>)
      else if 1 < mon d then Some (d\<lparr>mon := mon d - 1, dy := days_in_month (yr d) (mon d - 1)\<rparr>)
      else if 1 < yr d then Some \<lparr>yr = yr d - 1, mon = 12, dy = 31\<rparr>
      else None)"

text \<open>A naive \<^verbatim>\<open>datetime\<close> without its fraction: a date and the seconds of its day.\<close>

type_synonym moment = "date \<times> int"

definition shift_moment :: "moment \<Rightarrow> int \<Rightarrow> moment option" where
  "shift_moment dt delta =
     (let t = snd dt + delta in
       if t < 0 then map_option (\<lambda>d. (d, t + 86400)) (prev_day (fst dt))
       else if t \<ge> 86400 then map_option (\<lambda>d. (d, t - 86400)) (next_day (fst dt))
       else Some (fst dt, t))"

section \<open>Text\<close>

text \<open>\<open>n\<close> with at least \<open>w\<close> digits.\<close>

definition pad :: "nat \<Rightarrow> nat \<Rightarrow> ustr" where
  "pad w n = replicate (w - length (dec_digits n)) 48 @ dec_digits n"

definition date_text :: "date \<Rightarrow> ustr" where
  "date_text d = pad 4 (yr d) @ 45 # pad 2 (mon d) @ 45 # pad 2 (dy d)"

definition clock_text :: "int \<Rightarrow> ustr" where
  "clock_text t = pad 2 (nat t div 3600) @ 58 # pad 2 (nat t div 60 mod 60) @ 58 # pad 2 (nat t mod 60)"

text \<open>
  \<^verbatim>\<open>date.fromisoformat\<close> and \<^verbatim>\<open>datetime.fromisoformat\<close> on the shapes the patterns let through; they
  read ASCII digits only.
\<close>

definition read_num :: "ustr \<Rightarrow> nat option" where
  "read_num s = (if list_all digit_code s then Some (digits_num s) else None)"

definition read_date :: "ustr \<Rightarrow> date option" where
  "read_date s =
     (case (read_num (take 4 s), read_num (take 2 (drop 5 s)), read_num (drop 8 s)) of
        (Some y, Some m, Some d) \<Rightarrow>
          (let r = \<lparr>yr = y, mon = m, dy = d\<rparr> in if valid_date r then Some r else None)
      | _ \<Rightarrow> None)"

definition read_clock :: "ustr \<Rightarrow> int option" where
  "read_clock s =
     (case (read_num (take 2 s), read_num (take 2 (drop 3 s)), read_num (drop 6 s)) of
        (Some h, Some mi, Some sec) \<Rightarrow>
          (if h < 24 \<and> mi < 60 \<and> sec < 60 then Some (int h * 3600 + int mi * 60 + int sec) else None)
      | _ \<Rightarrow> None)"

section \<open>Patterns\<close>

text \<open>A shape: \<open>d\<close> for \<^verbatim>\<open>\d\<close>, other characters for themselves.\<close>

definition shape :: "string \<Rightarrow> ustr \<Rightarrow> bool" where
  "shape p s \<longleftrightarrow> list_all2 (\<lambda>c x. if c = CHR ''d'' then is_digit x else x = of_char c) p s"

text \<open>\<^verbatim>\<open>[+-](?:0\d|1\d|2[0-3]):[0-5]\d\<close> or \<^verbatim>\<open>Z\<close>; \<open>None\<close> is no string.\<close>

definition valid_offset :: "ustr option \<Rightarrow> bool" where
  "valid_offset value =
     (case value of None \<Rightarrow> False
      | Some v \<Rightarrow> v = text_of ''Z'' \<or>
          (shape ''+dd:dd'' v \<or> shape ''-dd:dd'' v)
          \<and> (v ! 1 \<in> {48, 49} \<or> v ! 1 = 50 \<and> 48 \<le> v ! 2 \<and> v ! 2 \<le> 51)
          \<and> 48 \<le> v ! 4 \<and> v ! 4 \<le> 53)"

text \<open>
  The groups of \<^verbatim>\<open>(\d{4}-\d{2}-\d{2})[T ](\d{2}:\d{2}:\d{2})(?:\.(\d{1,9}))?(Z|[+-]\d{2}:\d{2})?\<close>:
  day, clock, fraction (empty when absent) and zone.
\<close>

definition match_zone :: "ustr \<Rightarrow> ustr option option" where
  "match_zone z =
     (if z = [] then Some None
      else if z = text_of ''Z'' \<or> shape ''+dd:dd'' z \<or> shape ''-dd:dd'' z then Some (Some z) else None)"

definition match_timestamp :: "ustr \<Rightarrow> (ustr \<times> ustr \<times> ustr \<times> ustr option) option" where
  "match_timestamp s =
     (let day = take 10 s; clock = take 8 (drop 11 s); rest = drop 19 s in
       if \<not> (shape ''dddd-dd-dd'' day \<and> shape ''dd:dd:dd'' clock \<and> (s ! 10 = 84 \<or> s ! 10 = 32)) then None
       else if rest \<noteq> [] \<and> hd rest = 46
       then (let fraction = takeWhile is_digit (tl rest) in
              if fraction = [] \<or> length fraction > 9 then None
              else map_option (\<lambda>zone. (day, clock, fraction, zone)) (match_zone (dropWhile is_digit (tl rest))))
       else map_option (\<lambda>zone. (day, clock, [], zone)) (match_zone rest))"

section \<open>The operations\<close>

definition zone_or :: "ustr option \<Rightarrow> ustr option \<Rightarrow> ustr option" where
  "zone_or zone offset = (case zone of Some z \<Rightarrow> Some z | None \<Rightarrow> offset)"

text \<open>What is added to the local time of a zone to reach UTC, in seconds.\<close>

definition zone_delta :: "ustr \<Rightarrow> int" where
  "zone_delta z =
     (let mins = digits_num (take 2 (drop 1 z)) * 60 + digits_num (take 2 (drop 4 z)) in
      if z = text_of ''Z'' then 0 else if hd z = 43 then - (60 * int mins) else 60 * int mins)"

text \<open>
  A source value: text, or the \<^verbatim>\<open>isoformat\<close> of a \<^verbatim>\<open>datetime\<close>; \<open>None\<close> is a value of another type.
\<close>

definition normalize_timestamp :: "ustr option \<Rightarrow> nat \<Rightarrow> ustr option \<Rightarrow> cerror + ustr" where
  "normalize_timestamp value precision offset =
     (case value of None \<Rightarrow> Inl ''invalid_timestamp'' | Some s \<Rightarrow>
      (case match_timestamp s of None \<Rightarrow> Inl ''invalid_timestamp''
       | Some (day, clock, fraction, zone) \<Rightarrow>
         (if \<not> valid_offset (zone_or zone offset) then Inl ''timestamp_timezone_required''
          else if length (rstrip 48 fraction) > precision then Inl ''timestamp_precision_loss''
          else case (read_date day, read_clock clock) of
            (Some d, Some t) \<Rightarrow>
              (case shift_moment (d, t) (zone_delta (the (zone_or zone offset))) of None \<Rightarrow> Inl ''invalid_timestamp''
               | Some (d', t') \<Rightarrow>
                   Inr (date_text d' @ 84 # clock_text t'
                     @ (if precision = 0 then []
                        else 46 # take precision fraction @ replicate (precision - length (take precision fraction)) 48)
                     @ [90]))
          | _ \<Rightarrow> Inl ''invalid_timestamp'')))"

definition canonical_date :: "ustr option \<Rightarrow> cerror + ustr" where
  "canonical_date value =
     (case value of None \<Rightarrow> Inl ''invalid_date''
      | Some s \<Rightarrow> (if \<not> shape ''dddd-dd-dd'' s then Inl ''invalid_date''
          else case read_date s of None \<Rightarrow> Inl ''invalid_date'' | Some d \<Rightarrow> Inr (date_text d)))"

section \<open>Days are numbered\<close>

definition days_before_year :: "nat \<Rightarrow> nat" where
  "days_before_year y = (y - 1) * 365 + (y - 1) div 4 + (y - 1) div 400 - (y - 1) div 100"

definition days_before_month :: "nat \<Rightarrow> nat \<Rightarrow> nat" where
  "days_before_month y m = (\<Sum>k = 1..<m. days_in_month y k)"

definition day_number :: "date \<Rightarrow> int" where
  "day_number d = int (days_before_year (yr d) + days_before_month (yr d) (mon d) + dy d)"

lemma days_in_month_bounds: "28 \<le> days_in_month y m" "days_in_month y m \<le> 31"
  by (simp_all add: days_in_month_def)

lemma days_before_next_month: "1 \<le> m \<Longrightarrow> days_before_month y (m + 1) = days_before_month y m + days_in_month y m"
  by (simp add: days_before_month_def)

lemma days_in_year: "days_before_month y 13 = (if leap_year y then 366 else 365)"
proof -
  have "days_before_month y 13 = sum_list (map (days_in_month y) [1..<13])"
    by (simp add: days_before_month_def sum_list_distinct_conv_sum_set)
  also have "[1..<13] = [1, 2, 3, 4, 5, 6, 7, 8, 9, 10, 11, 12]" by (simp add: upt_rec)
  finally show ?thesis by (simp add: days_in_month_def)
qed

lemma leap_arith:
  fixes a b c x :: nat
  assumes "b \<le> a" and "Q \<Longrightarrow> P" and "R \<Longrightarrow> Q"
  shows "Suc x * 365 + (a + (if P then 1 else 0)) + (c + (if R then 1 else 0)) - (b + (if Q then 1 else 0))
    = x * 365 + a + c - b + (if P \<and> (\<not> Q \<or> R) then 366 else 365)"
  using assms by (cases P; cases Q; cases R) auto

lemma days_before_next_year: "1 \<le> y \<Longrightarrow> days_before_year (y + 1) = days_before_year y + days_before_month y 13"
proof -
  assume "1 \<le> y"
  then obtain x where y: "y = Suc x" by (cases y) auto
  have q': "Suc x div k = x div k + (if k dvd Suc x then 1 else 0)" for k
    by (simp add: div_Suc dvd_eq_mod_eq_0)
  note q = q' [of 4] q' [of 100] q' [of 400]
  have d: "100 dvd Suc x \<Longrightarrow> 4 dvd Suc x" "400 dvd Suc x \<Longrightarrow> 100 dvd Suc x"
    by (rule dvd_trans [of 4 100], simp_all) (rule dvd_trans [of 100 400], simp_all)
  have "x div 100 \<le> x div 4" by (rule div_le_mono2) simp_all
  moreover have "days_before_year (Suc x + 1) = Suc x * 365 + Suc x div 4 + Suc x div 400 - Suc x div 100"
      "days_before_year (Suc x) = x * 365 + x div 4 + x div 400 - x div 100"
    by (simp_all only: days_before_year_def add_diff_cancel_right' diff_Suc_1)
  moreover have "leap_year (Suc x) = (4 dvd Suc x \<and> (\<not> 100 dvd Suc x \<or> 400 dvd Suc x))"
    by (simp only: leap_year_def dvd_eq_mod_eq_0)
  ultimately show ?thesis unfolding y days_in_year q using leap_arith [OF _ d] by (simp only:)
qed

lemma next_day_number:
  assumes "next_day d = Some e" and "valid_date d"
  shows "valid_date e \<and> day_number e = day_number d + 1"
proof -
  consider "dy d < days_in_month (yr d) (mon d)" "e = d\<lparr>dy := dy d + 1\<rparr>"
    | "dy d = days_in_month (yr d) (mon d)" "mon d < 12" "e = d\<lparr>mon := mon d + 1, dy := 1\<rparr>"
    | "dy d = days_in_month (yr d) (mon d)" "mon d = 12" "yr d < 9999" "e = \<lparr>yr = yr d + 1, mon = 1, dy = 1\<rparr>"
    using assms by (force simp: next_day_def valid_date_def split: if_split_asm)
  then show ?thesis
  proof cases
    case 1
    then show ?thesis using assms(2) by (simp add: valid_date_def day_number_def)
  next
    case 2
    have "1 \<le> days_in_month y m" for y m using days_in_month_bounds(1) [of y m] by linarith
    then show ?thesis using 2 assms(2) days_before_next_month [of "mon d" "yr d"] by (simp add: valid_date_def day_number_def)
  next
    case 3
    have "days_before_month (yr d) 13 = days_before_month (yr d) 12 + days_in_month (yr d) 12"
      using days_before_next_month [of 12 "yr d"] by simp
    moreover have "days_before_month y 1 = 0" "1 \<le> days_in_month y 1" for y by (simp_all add: days_before_month_def days_in_month_def)
    ultimately show ?thesis using 3 assms(2) days_before_next_year [of "yr d"] by (simp add: valid_date_def day_number_def)
  qed
qed

lemma prev_day_next:
  assumes "prev_day d = Some e" and "valid_date d"
  shows "valid_date e \<and> next_day e = Some d"
proof -
  consider "1 < dy d" "e = d\<lparr>dy := dy d - 1\<rparr>"
    | "dy d = 1" "1 < mon d" "e = d\<lparr>mon := mon d - 1, dy := days_in_month (yr d) (mon d - 1)\<rparr>"
    | "dy d = 1" "mon d = 1" "1 < yr d" "e = \<lparr>yr = yr d - 1, mon = 12, dy = 31\<rparr>"
    using assms by (force simp: prev_day_def valid_date_def split: if_split_asm)
  then show ?thesis
  proof cases
    case 1
    then show ?thesis using assms(2) by (auto simp: valid_date_def next_day_def)
  next
    case 2
    have "1 \<le> days_in_month y m" for y m using days_in_month_bounds(1) [of y m] by linarith
    then show ?thesis using 2 assms(2) by (auto simp: valid_date_def next_day_def intro!: date.equality)
  next
    case 3
    then show ?thesis using assms(2) by (auto simp: valid_date_def next_day_def days_in_month_def intro!: date.equality)
  qed
qed

lemma month_range: "valid_date d \<Longrightarrow> days_before_month (yr d) (mon d) + dy d \<le> days_before_month (yr d) (mon d + 1)"
  using days_before_next_month [of "mon d" "yr d"] by (simp add: valid_date_def)

lemma days_before_month_mono: "m \<le> n \<Longrightarrow> days_before_month y m \<le> days_before_month y n"
  unfolding days_before_month_def by (intro sum_mono2) auto

lemma days_before_year_mono: "m \<le> n \<Longrightarrow> 1 \<le> m \<Longrightarrow> days_before_year m \<le> days_before_year n"
proof (induction n rule: dec_induct)
  case (step n)
  then show ?case using days_before_next_year [of n] by simp
qed simp

lemma year_range: "valid_date d \<Longrightarrow> days_before_month (yr d) (mon d) + dy d \<le> days_before_month (yr d) 13"
  using month_range [of d] days_before_month_mono [of "mon d + 1" 13 "yr d"] by (simp add: valid_date_def)

lemma day_number_inj:
  assumes "valid_date d" and "valid_date e" and "day_number d = day_number e"
  shows "d = e"
proof -
  have n: "days_before_year (yr d) + days_before_month (yr d) (mon d) + dy d
      = days_before_year (yr e) + days_before_month (yr e) (mon e) + dy e"
    using assms(3) unfolding day_number_def by simp
  have lt: False if "valid_date d" "valid_date e" "yr d < yr e"
      "days_before_year (yr d) + days_before_month (yr d) (mon d) + dy d
        = days_before_year (yr e) + days_before_month (yr e) (mon e) + dy e" for d e
    using that year_range [OF that(1)] days_before_next_year [of "yr d"] days_before_year_mono [of "yr d + 1" "yr e"]
    by (simp add: valid_date_def)
  have y: "yr d = yr e" using lt [OF assms(1,2) _ n] lt [OF assms(2,1) _ n [symmetric]] by (meson linorder_cases)
  have ltm: False if "valid_date d" "valid_date e" "yr d = yr e" "mon d < mon e"
      "days_before_month (yr d) (mon d) + dy d = days_before_month (yr e) (mon e) + dy e" for d e
    using that month_range [OF that(1)] days_before_month_mono [of "mon d + 1" "mon e" "yr e"]
    by (simp add: valid_date_def)
  have m: "mon d = mon e" using ltm [OF assms(1,2) y] ltm [OF assms(2,1) y [symmetric]] n y by (metis linorder_cases add.assoc add_left_cancel)
  show ?thesis using n y m by (intro date.equality) simp_all
qed

definition moment_number :: "moment \<Rightarrow> int" where
  "moment_number dt = day_number (fst dt) * 86400 + snd dt"

definition valid_moment :: "moment \<Rightarrow> bool" where
  "valid_moment dt \<longleftrightarrow> valid_date (fst dt) \<and> 0 \<le> snd dt \<and> snd dt < 86400"

lemma moment_number_inj:
  assumes "valid_moment a" and "valid_moment b" and "moment_number a = moment_number b"
  shows "a = b"
proof -
  have "day_number (fst a) = day_number (fst b)"
    using assms unfolding valid_moment_def moment_number_def by linarith
  moreover from this have "snd a = snd b" using assms(3) by (simp add: moment_number_def)
  ultimately have "day_number (fst a) = day_number (fst b)" "snd a = snd b" by blast+
  then show ?thesis using day_number_inj [of "fst a" "fst b"] assms(1,2) by (simp add: valid_moment_def prod_eq_iff)
qed

lemma shift_moment_number:
  assumes "shift_moment a delta = Some b" and "valid_moment a" and "\<bar>delta\<bar> \<le> 86400"
  shows "valid_moment b \<and> moment_number b = moment_number a + delta"
proof -
  have v: "valid_date (fst a)" "0 \<le> snd a" "snd a < 86400" using assms(2) by (simp_all add: valid_moment_def)
  consider d where "snd a + delta < 0" "prev_day (fst a) = Some d" "b = (d, snd a + delta + 86400)"
    | d where "snd a + delta \<ge> 86400" "next_day (fst a) = Some d" "b = (d, snd a + delta - 86400)"
    | "0 \<le> snd a + delta" "snd a + delta < 86400" "b = (fst a, snd a + delta)"
    using assms(1) by (auto simp: shift_moment_def Let_def split: if_split_asm)
  then show ?thesis
  proof cases
    case 1
    note p = prev_day_next [OF 1(2) v(1)]
    from next_day_number [OF conjunct2 [OF p] conjunct1 [OF p]] p 1 v assms(3) show ?thesis
      by (simp add: valid_moment_def moment_number_def)
  next
    case 2
    from next_day_number [OF 2(2) v(1)] 2 v assms(3) show ?thesis by (simp add: valid_moment_def moment_number_def)
  next
    case 3
    then show ?thesis using v by (simp add: valid_moment_def moment_number_def)
  qed
qed

section \<open>The text of a moment reads back\<close>

lemma dec_digits_length: "0 < w \<Longrightarrow> n < 10 ^ w \<Longrightarrow> length (dec_digits n) \<le> w"
proof (induction w arbitrary: n)
  case (Suc w)
  show ?case
  proof (cases "n < 10")
    case True
    then show ?thesis by (subst dec_digits.simps) simp
  next
    case False
    then have "w \<noteq> 0" using Suc.prems by (cases w) simp_all
    then have "length (dec_digits (n div 10)) \<le> w" using Suc by (simp add: div_less_iff_less_mult mult.commute)
    then show ?thesis using False by (subst dec_digits.simps) simp
  qed
qed simp

lemma pad_facts:
  assumes "0 < w" and "n < 10 ^ w"
  shows "length (pad w n) = w" and "list_all digit_code (pad w n)" and "digits_num (pad w n) = n"
proof -
  have z: "list_all digit_code (replicate k 48)" for k by (induction k) (simp_all add: digit_code_def)
  show "length (pad w n) = w" "list_all digit_code (pad w n)" "digits_num (pad w n) = n"
    using dec_digits_length [OF assms] z dec_digits_codes by (simp_all add: pad_def digits_num_append)
qed

lemma pad2:
  assumes "n < 100"
  obtains a b where "pad 2 n = [a, b]" "digit_code a" "digit_code b" "digits_num [a, b] = n"
proof -
  have "0 < (2 :: nat)" "n < 10 ^ 2" using assms by simp_all
  note f = pad_facts [OF this]
  then obtain a b where "pad 2 n = [a, b]" by (auto simp: numeral_2_eq_2 length_Suc_conv)
  with f that show ?thesis by simp
qed

lemma pad4:
  assumes "n < 10000"
  obtains a b c d where "pad 4 n = [a, b, c, d]" "list_all digit_code [a, b, c, d]" "digits_num [a, b, c, d] = n"
proof -
  have "0 < (4 :: nat)" "n < 10 ^ 4" using assms by simp_all
  note f = pad_facts [OF this]
  then obtain a b c d where "pad 4 n = [a, b, c, d]" by (auto simp: eval_nat_numeral length_Suc_conv)
  with f that show ?thesis by simp
qed

lemma valid_date_bounds:
  assumes "valid_date d"
  shows "yr d < 10000" and "mon d < 100" and "dy d < 100"
  using assms days_in_month_bounds(2) [of "yr d" "mon d"] by (simp_all add: valid_date_def)

lemma date_text_facts:
  assumes "valid_date d"
  shows "length (date_text d) = 10" and "shape ''dddd-dd-dd'' (date_text d)" and "read_date (date_text d) = Some d"
proof -
  note b = valid_date_bounds [OF assms]
  obtain y1 y2 y3 y4 where y: "pad 4 (yr d) = [y1, y2, y3, y4]" "list_all digit_code [y1, y2, y3, y4]" "digits_num [y1, y2, y3, y4] = yr d"
    using pad4 [OF b(1)] .
  obtain m1 m2 where m: "pad 2 (mon d) = [m1, m2]" "digit_code m1" "digit_code m2" "digits_num [m1, m2] = mon d" using pad2 [OF b(2)] .
  obtain d1 d2 where d: "pad 2 (dy d) = [d1, d2]" "digit_code d1" "digit_code d2" "digits_num [d1, d2] = dy d" using pad2 [OF b(3)] .
  have t: "date_text d = [y1, y2, y3, y4, 45, m1, m2, 45, d1, d2]" using y(1) m(1) d(1) by (simp add: date_text_def)
  show "length (date_text d) = 10" "shape ''dddd-dd-dd'' (date_text d)"
    using y m d by (simp_all add: t shape_def digit_code_digit)
  have r: "\<lparr>yr = yr d, mon = mon d, dy = dy d\<rparr> = d" by simp
  show "read_date (date_text d) = Some d"
    using y m d assms by (simp add: t read_date_def read_num_def numeral_eq_Suc Let_def r)
qed

lemma clock_text_facts:
  assumes "0 \<le> t" and "t < 86400"
  shows "length (clock_text t) = 8" and "shape ''dd:dd:dd'' (clock_text t)" and "read_clock (clock_text t) = Some t"
proof -
  have b: "nat t div 3600 < 24" "nat t div 60 mod 60 < 60" "nat t mod 60 < 60" using assms by (simp_all add: div_less_iff_less_mult)
  have e: "int (nat t div 3600) * 3600 + int (nat t div 60 mod 60) * 60 + int (nat t mod 60) = t"
  proof -
    have "nat t div 3600 * 3600 + nat t div 60 mod 60 * 60 + nat t mod 60 = nat t"
    proof -
      have "nat t div 60 div 60 = nat t div 3600" by (simp add: div_mult2_eq [symmetric])
      then show ?thesis using div_mult_mod_eq [of "nat t" 60] div_mult_mod_eq [of "nat t div 60" 60] by linarith
    qed
    then have "int (nat t div 3600 * 3600 + nat t div 60 mod 60 * 60 + nat t mod 60) = t" using assms(1) by simp
    then show ?thesis by simp
  qed
  have b': "nat t div 3600 < 100" "nat t div 60 mod 60 < 100" "nat t mod 60 < 100" using b by linarith+
  obtain h1 h2 where h: "pad 2 (nat t div 3600) = [h1, h2]" "digit_code h1" "digit_code h2" "digits_num [h1, h2] = nat t div 3600"
    using pad2 [OF b'(1)] .
  obtain m1 m2 where m: "pad 2 (nat t div 60 mod 60) = [m1, m2]" "digit_code m1" "digit_code m2" "digits_num [m1, m2] = nat t div 60 mod 60"
    using pad2 [OF b'(2)] .
  obtain s1 s2 where s: "pad 2 (nat t mod 60) = [s1, s2]" "digit_code s1" "digit_code s2" "digits_num [s1, s2] = nat t mod 60"
    using pad2 [OF b'(3)] .
  have c: "clock_text t = [h1, h2, 58, m1, m2, 58, s1, s2]" using h(1) m(1) s(1) by (simp add: clock_text_def)
  show "length (clock_text t) = 8" "shape ''dd:dd:dd'' (clock_text t)" using h m s by (simp_all add: c shape_def digit_code_digit)
  have r: "read_num [h1, h2] = Some (nat t div 3600)" "read_num [m1, m2] = Some (nat t div 60 mod 60)" "read_num [s1, s2] = Some (nat t mod 60)"
    using h m s by (simp_all add: read_num_def)
  have "take 2 (clock_text t) = [h1, h2]" "take 2 (drop 3 (clock_text t)) = [m1, m2]" "drop 6 (clock_text t) = [s1, s2]"
    by (simp_all add: c numeral_eq_Suc)
  then show "read_clock (clock_text t) = Some t" unfolding read_clock_def using r b e by simp
qed

section \<open>What a timestamp denotes\<close>

definition fraction_value :: "ustr \<Rightarrow> real" where
  "fraction_value f = real (digits_num f) / 10 ^ length f"

text \<open>The UTC second and the fraction of a timestamp text, read with a default offset.\<close>

definition instant :: "ustr \<Rightarrow> ustr option \<Rightarrow> (int \<times> real) option" where
  "instant s offset =
     (case match_timestamp s of None \<Rightarrow> None
      | Some (day, clock, fraction, zone) \<Rightarrow>
         (if \<not> valid_offset (zone_or zone offset) then None
          else case (read_date day, read_clock clock) of
            (Some d, Some t) \<Rightarrow> Some (moment_number (d, t) + zone_delta (the (zone_or zone offset)), fraction_value fraction)
          | _ \<Rightarrow> None))"

lemma shape_digit: "shape p s \<Longrightarrow> i < length p \<Longrightarrow> p ! i = CHR ''d'' \<Longrightarrow> is_digit (s ! i)"
  unfolding shape_def by (drule list_all2_nthD) auto

lemma shape_length: "shape p s \<Longrightarrow> length s = length p"
  unfolding shape_def by (drule list_all2_lengthD) simp

lemma digit_value_le: "digit_value c = Some v \<Longrightarrow> v \<le> 9"
  by (auto simp: digit_value_def find_Some_iff)

lemma zone_delta_bound:
  assumes "valid_offset (Some z)"
  shows "\<bar>zone_delta z\<bar> \<le> 86400"
proof (cases "z = text_of ''Z''")
  case False
  then have sh: "shape ''+dd:dd'' z \<or> shape ''-dd:dd'' z" and h: "z ! 1 \<in> {48, 49} \<or> z ! 1 = 50 \<and> 48 \<le> z ! 2 \<and> z ! 2 \<le> 51"
      and m: "48 \<le> z ! 4" "z ! 4 \<le> 53"
    using assms by (auto simp: valid_offset_def)
  then have "length z = 6" by (auto dest: shape_length)
  then obtain a b c d e f where z: "z = [a, b, c, d, e, f]" by (auto simp: eval_nat_numeral length_Suc_conv)
  have "is_digit c" "is_digit f" using sh by (auto simp: z shape_def)
  then obtain cv fv where v: "digit_value c = Some cv" "cv \<le> 9" "digit_value f = Some fv" "fv \<le> 9"
    using digit_value_le by (auto simp: is_digit_def)
  have b: "digit_value b = Some (b - 48)" "b - 48 \<le> 2" and e: "digit_value e = Some (e - 48)" "e - 48 \<le> 5"
    using h m by (auto simp: z digit_value_ascii digit_code_def)
  have "digits_num [b, c] \<le> 29" "digits_num [e, f] \<le> 59" using v b e by (simp_all add: digits_num_def)
  moreover have "digits_num [b, c] \<le> 23"
  proof (cases "b = 50")
    case True
    then have "48 \<le> c" "c \<le> 51" using h by (auto simp: z)
    then have "digit_value c = Some (c - 48)" "c - 48 \<le> 3" by (simp_all add: digit_value_ascii digit_code_def)
    then show ?thesis using b by (simp add: digits_num_def True)
  next
    case False
    then have "b - 48 \<le> 1" using h by (auto simp: z)
    then show ?thesis using v b by (simp add: digits_num_def)
  qed
  moreover have "take 2 (drop 1 z) = [b, c]" "take 2 (drop 4 z) = [e, f]" by (simp_all add: z numeral_eq_Suc)
  ultimately show ?thesis using False by (simp add: zone_delta_def Let_def)
qed (simp add: zone_delta_def)

lemma read_clock_range: "read_clock s = Some t \<Longrightarrow> 0 \<le> t \<and> t < 86400"
  by (auto simp: read_clock_def split: option.splits if_split_asm)

lemma read_date_valid: "read_date s = Some d \<Longrightarrow> valid_date d"
  by (auto simp: read_date_def Let_def split: option.splits if_split_asm)

text \<open>The canonical form of a moment, with the digits of its fraction.\<close>

definition moment_text :: "moment \<Rightarrow> ustr \<Rightarrow> ustr" where
  "moment_text dt digits = date_text (fst dt) @ 84 # clock_text (snd dt) @ (if digits = [] then [] else 46 # digits) @ [90]"

lemma match_moment_text:
  assumes "valid_moment dt" and "list_all is_digit digits" and "length digits \<le> 9"
  shows "match_timestamp (moment_text dt digits) = Some (date_text (fst dt), clock_text (snd dt), digits, Some (text_of ''Z''))"
proof -
  let ?s = "moment_text dt digits"
  note d = date_text_facts [of "fst dt"] and c = clock_text_facts [of "snd dt"]
  have v: "valid_date (fst dt)" "0 \<le> snd dt" "snd dt < 86400" using assms(1) by (simp_all add: valid_moment_def)
  have t: "take 10 ?s = date_text (fst dt)" "take 8 (drop 11 ?s) = clock_text (snd dt)"
      "drop 19 ?s = (if digits = [] then [] else 46 # digits) @ [90]" "?s ! 10 = 84"
    using d(1) [OF v(1)] c(1) [OF v(2,3)] by (simp_all add: moment_text_def nth_append)
  have z: "\<not> is_digit 90" by (simp add: is_digit_def digit_value_def digit_zeros_def)
  have tw: "takeWhile is_digit (digits @ [90]) = digits" "dropWhile is_digit (digits @ [90]) = [90]"
    using assms(2) z by (auto simp: list_all_iff takeWhile_append dropWhile_append)
  have mz: "match_zone [90] = Some (Some (text_of ''Z''))" by (simp add: match_zone_def text_of_def)
  show ?thesis
    unfolding match_timestamp_def Let_def t using d(2) [OF v(1)] c(2) [OF v(2,3)] assms(3) tw mz
    by (cases "digits = []") simp_all
qed

lemma instant_moment_text:
  assumes "valid_moment dt" and "list_all is_digit digits" and "length digits \<le> 9"
  shows "instant (moment_text dt digits) offset = Some (moment_number dt, fraction_value digits)"
proof -
  have v: "valid_date (fst dt)" "0 \<le> snd dt" "snd dt < 86400" using assms(1) by (simp_all add: valid_moment_def)
  show ?thesis
    using match_moment_text [OF assms] date_text_facts(3) [OF v(1)] clock_text_facts(3) [OF v(2,3)]
    by (simp add: instant_def valid_offset_def zone_delta_def zone_or_def)
qed

text \<open>The fraction with exactly \<open>p\<close> digits.\<close>

definition fraction_digits :: "nat \<Rightarrow> ustr \<Rightarrow> ustr" where
  "fraction_digits p f = take p f @ replicate (p - length (take p f)) 48"

lemma fraction_digits_facts:
  assumes "length (rstrip 48 f) \<le> p" and "list_all is_digit f"
  shows "length (fraction_digits p f) = p" and "list_all is_digit (fraction_digits p f)"
    and "fraction_value (fraction_digits p f) = fraction_value f"
proof -
  show "length (fraction_digits p f) = p" by (simp add: fraction_digits_def)
  have "is_digit 48" using digit_code_digit [of 48] by (simp add: digit_code_def)
  then show "list_all is_digit (fraction_digits p f)"
    using assms(2) by (auto simp: fraction_digits_def list_all_iff dest: in_set_takeD)
  define g where "g = rstrip 48 f"
  obtain k where k: "f = g @ replicate k 48" unfolding g_def using rstrip_zeros by blast
  have v: "fraction_value (g @ replicate j 48) = fraction_value g" for j
    by (simp add: fraction_value_def digits_num_append power_add)
  have "length g \<le> p" using assms(1) by (simp add: g_def)
  then have "fraction_digits p f = g @ replicate (p - length g) 48"
    by (simp add: fraction_digits_def k min_def flip: replicate_add)
  then show "fraction_value (fraction_digits p f) = fraction_value f" using v [of k] v [of "p - length g"] k by simp
qed

lemma match_timestamp_fraction: "match_timestamp s = Some (day, clock, f, zone) \<Longrightarrow> list_all is_digit f"
  by (auto simp: match_timestamp_def Let_def list_all_iff split: if_split_asm dest: set_takeWhileD)

lemma normalize_timestamp_moment:
  assumes "normalize_timestamp (Some s) p offset = Inr t"
  obtains dt f where "valid_moment dt" and "instant s offset = Some (moment_number dt, fraction_value f)"
    and "list_all is_digit f" and "length (rstrip 48 f) \<le> p" and "t = moment_text dt (fraction_digits p f)"
    and "\<exists>day clock zone. match_timestamp s = Some (day, clock, f, zone)"
proof -
  obtain day clock f zone where m: "match_timestamp s = Some (day, clock, f, zone)"
    using assms by (auto simp: normalize_timestamp_def split: option.splits)
  let ?z = "zone_or zone offset"
  have zo: "valid_offset ?z" and pr: "length (rstrip 48 f) \<le> p"
    and r: "(case (read_date day, read_clock clock) of
            (Some d, Some t) \<Rightarrow>
              (case shift_moment (d, t) (zone_delta (the ?z)) of None \<Rightarrow> Inl ''invalid_timestamp''
                 | Some (d', t') \<Rightarrow>
                      Inr (date_text d' @ 84 # clock_text t'
                        @ (if p = 0 then [] else 46 # take p f @ replicate (p - length (take p f)) 48) @ [90]))
          | _ \<Rightarrow> Inl ''invalid_timestamp'') = (Inr t :: cerror + ustr)"
    using assms m unfolding normalize_timestamp_def
    by (simp_all add: Let_def split: if_split_asm)
  obtain d tm where dt: "read_date day = Some d" "read_clock clock = Some tm"
    using r by (auto split: option.splits)
  obtain dt' where dt': "shift_moment (d, tm) (zone_delta (the ?z)) = Some dt'"
    and t: "t = date_text (fst dt') @ 84 # clock_text (snd dt') @ (if p = 0 then [] else 46 # take p f @ replicate (p - length (take p f)) 48) @ [90]"
    using r dt by (auto simp: Let_def split: option.splits prod.splits)
  have v: "valid_moment (d, tm)" using read_date_valid [OF dt(1)] read_clock_range [OF dt(2)] by (simp add: valid_moment_def)
  obtain zz where zz: "?z = Some zz" using zo by (cases ?z) (simp_all add: valid_offset_def)
  have b: "\<bar>zone_delta (the ?z)\<bar> \<le> 86400" using zone_delta_bound [of zz] zo by (simp add: zz)
  note sh = shift_moment_number [OF dt' v b]
  have inst: "instant s offset = Some (moment_number dt', fraction_value f)"
    using m zo dt sh by (simp add: instant_def Let_def)
  have fd: "length (fraction_digits p f) = p" by (simp add: fraction_digits_def)
  have tt: "t = moment_text dt' (fraction_digits p f)"
  proof (cases "p = 0")
    case True
    then show ?thesis using fd by (simp add: t moment_text_def)
  next
    case False
    then have "fraction_digits p f \<noteq> []" using fd by auto
    then show ?thesis using False by (simp add: t moment_text_def fraction_digits_def)
  qed
  show ?thesis by (rule that [OF _ inst match_timestamp_fraction [OF m] pr tt]) (use sh m in blast)+
qed

lemma ascii_digits_inj:
  "list_all digit_code xs \<Longrightarrow> list_all digit_code ys \<Longrightarrow> length xs = length ys \<Longrightarrow> digits_num xs = digits_num ys \<Longrightarrow> xs = ys"
proof (induction xs arbitrary: ys rule: rev_induct)
  case (snoc x xs)
  obtain y zs where ys: "ys = zs @ [y]" using snoc.prems(3) by (cases ys rule: rev_cases) auto
  have xy: "digit_code x" "digit_code y" using snoc.prems(1,2) by (simp_all add: ys)
  have e: "digits_num xs * 10 + (x - 48) = digits_num zs * 10 + (y - 48)"
    using snoc.prems(4) digits_num_append [of xs "[x]"] digits_num_append [of zs "[y]"]
    by (simp add: ys digits_num_def digit_value_ascii [OF xy(1)] digit_value_ascii [OF xy(2)])
  moreover have "x - 48 < 10" "y - 48 < 10" using xy by (auto simp: digit_code_def)
  ultimately have "digits_num xs = digits_num zs" by linarith
  moreover from this e have "x - 48 = y - 48" by simp
  moreover from this have "x = y" using xy by (auto simp: digit_code_def)
  ultimately show ?case using snoc.IH [of zs] snoc.prems ys by simp
qed simp

lemma timestamp_reads:
  assumes "normalize_timestamp (Some s) p offset = Inr t" and "p \<le> 9"
  shows "\<exists>i. instant s offset = Some i \<and> (\<forall>o2. instant t o2 = Some i)"
proof -
  obtain dt f where d: "valid_moment dt" "instant s offset = Some (moment_number dt, fraction_value f)"
      "list_all is_digit f" "length (rstrip 48 f) \<le> p" "t = moment_text dt (fraction_digits p f)"
      "\<exists>day clock zone. match_timestamp s = Some (day, clock, f, zone)"
    by (rule normalize_timestamp_moment [OF assms(1)])
  note F = fraction_digits_facts [OF d(4,3)]
  have "instant t o2 = Some (moment_number dt, fraction_value f)" for o2
    using instant_moment_text [OF d(1) F(2)] F(1,3) assms(2) by (simp add: d(5))
  then show ?thesis using d(2) by blast
qed

lemma timestamp_unique:
  assumes "normalize_timestamp (Some s) p offset = Inr t" and "normalize_timestamp (Some s') p offset' = Inr t'"
    and a: "western s" "western s'" and e: "instant s offset = instant s' offset'"
  shows "t = t'"
proof -
  obtain dt f where d: "valid_moment dt" "instant s offset = Some (moment_number dt, fraction_value f)"
      "list_all is_digit f" "length (rstrip 48 f) \<le> p" "t = moment_text dt (fraction_digits p f)"
      "\<exists>day clock zone. match_timestamp s = Some (day, clock, f, zone)"
    by (rule normalize_timestamp_moment [OF assms(1)])
  obtain dt' f' where d': "valid_moment dt'" "instant s' offset' = Some (moment_number dt', fraction_value f')"
      "list_all is_digit f'" "length (rstrip 48 f') \<le> p" "t' = moment_text dt' (fraction_digits p f')"
      "\<exists>day clock zone. match_timestamp s' = Some (day, clock, f', zone)"
    by (rule normalize_timestamp_moment [OF assms(2)])
  note F = fraction_digits_facts [OF d(4,3)] and F' = fraction_digits_facts [OF d'(4,3)]
  have "dt = dt'" by (rule moment_number_inj [OF d(1) d'(1)]) (use e d(2) d'(2) in simp)
  have sub: "set f \<subseteq> set s" if "match_timestamp s = Some (day, clock, f, zone)" for s f day clock zone
    using that by (auto simp: match_timestamp_def Let_def split: if_split_asm dest!: set_takeWhileD in_set_dropD list.set_sel(2) [rotated])
  have asc: "list_all digit_code (fraction_digits p f)" if "list_all is_digit f" "set f \<subseteq> set s" "western s" for f s
  proof -
    have "digit_code c" if "c \<in> set f" for c
      using that \<open>list_all is_digit f\<close> \<open>set f \<subseteq> set s\<close> \<open>western s\<close> by (auto simp: list_all_iff western_def)
    moreover have "digit_code 48" by (simp add: digit_code_def)
    ultimately show ?thesis by (auto simp: fraction_digits_def list_all_iff dest: in_set_takeD)
  qed
  have "fraction_digits p f = fraction_digits p f'"
  proof (rule ascii_digits_inj)
    show "list_all digit_code (fraction_digits p f)" "list_all digit_code (fraction_digits p f')"
      using asc [OF d(3) _ a(1)] asc [OF d'(3) _ a(2)] d(6) d'(6) sub by blast+
    show "length (fraction_digits p f) = length (fraction_digits p f')" using F(1) F'(1) by simp
    have "fraction_value (fraction_digits p f) = fraction_value (fraction_digits p f')"
      using F(3) F'(3) e d(2) d'(2) by simp
    then show "digits_num (fraction_digits p f) = digits_num (fraction_digits p f')"
      using F(1) F'(1) by (simp add: fraction_value_def)
  qed
  then show ?thesis using \<open>dt = dt'\<close> d(5) d'(5) by simp
qed


lemma no_digit_zone: "\<not> is_digit 43" "\<not> is_digit 90"
  by (simp_all add: is_digit_def digit_value_def digit_zeros_def)

lemmas text_eval = text_of_def digit_code_digit digit_code_def no_digit no_digit_zone shape_def digits_num_def digit_value_ascii


end
