(* ===== verification/Checkpoint.thy ===== *)
theory Checkpoint
  imports Timestamps Merkle
begin

text \<open>
  The signed bytes of a transparency checkpoint (app/services/dataset_merkle_service.py,
  \<^verbatim>\<open>canonical_rfc3339_utc\<close> and \<^verbatim>\<open>checkpoint_signing_bytes\<close>).  An aware \<^verbatim>\<open>datetime\<close> is its local
  date and second, its microseconds and its offset in seconds.
\<close>

datatype time_arg = TimeText ustr | AwareTime moment nat int | OtherTime

text \<open>\<^verbatim>\<open>\A\d{4}-\d{2}-\d{2}T\d{2}:\d{2}:\d{2}(?:\.\d{1,6})?Z\Z\<close>: the fraction digits of a match.\<close>

definition match_rfc3339 :: "ustr \<Rightarrow> ustr option" where
  "match_rfc3339 s =
     (let rest = drop 19 s; digits = takeWhile is_digit (tl rest) in
       if \<not> shape ''dddd-dd-ddTdd:dd:dd'' (take 19 s) then None
       else if rest = [90] then Some []
       else if rest \<noteq> [] \<and> hd rest = 46 \<and> digits \<noteq> [] \<and> length digits \<le> 6 \<and> dropWhile is_digit (tl rest) = [90]
       then Some digits else None)"

text \<open>\<^verbatim>\<open>fromisoformat\<close> reads ASCII digits only; \<^verbatim>\<open>astimezone\<close> leaves the calendar with \<^verbatim>\<open>OverflowError\<close>.\<close>

definition canonical_rfc3339_utc :: "time_arg \<Rightarrow> cerror + ustr" where
  "canonical_rfc3339_utc value =
     (case value of
        OtherTime \<Rightarrow> Inl ''ValueError''
      | AwareTime dt micro off \<Rightarrow>
          (case shift_moment dt (- off) of None \<Rightarrow> Inl ''OverflowError''
           | Some dt' \<Rightarrow> Inr (date_text (fst dt') @ 84 # clock_text (snd dt') @ 46 # pad 6 micro @ [90]))
      | TimeText s \<Rightarrow>
          (case match_rfc3339 s of None \<Rightarrow> Inl ''ValueError''
           | Some digits \<Rightarrow>
               (case (read_date (take 10 s), read_clock (take 8 (drop 11 s)), read_num digits) of
                  (Some d, Some t, Some f) \<Rightarrow>
                    Inr (date_text d @ 84 # clock_text t @ 46 # pad 6 (f * 10 ^ (6 - length digits)) @ [90])
                | _ \<Rightarrow> Inl ''ValueError'')))"

text \<open>A log id that is no \<^verbatim>\<open>str\<close> is \<open>None\<close>.\<close>

definition checkpoint_signing_bytes :: "ustr option \<Rightarrow> num_arg \<Rightarrow> hash_arg \<Rightarrow> time_arg \<Rightarrow> cerror + bytes" where
  "checkpoint_signing_bytes log_id tree_size root_hash checkpoint_at =
     (case (log_id, tree_size) of
        (Some l, Num n) \<Rightarrow>
          (if l = [] \<or> 10 \<in> set l \<or> n < 1 \<or> n > MAX_TREE_SIZE then Inl ''invalid_checkpoint''
           else res_bind (decode_digest root_hash) (\<lambda>d.
             res_bind (canonical_rfc3339_utc checkpoint_at) (\<lambda>ts.
               let message = text_of ''aim-transparency-checkpoint-v1'' @ 10 # l @ 10 # int_text n @ 10 # encode_base64url d
                     @ 10 # ts @ [10]
               in if list_all scalar_value message then Inr (utf8 message) else Inl ''UnicodeEncodeError'')))
      | _ \<Rightarrow> Inl ''invalid_checkpoint'')"

section \<open>Checkpoints are unambiguous\<close>

text \<open>The UTC second and microsecond a time argument denotes.\<close>

definition utc_time :: "time_arg \<Rightarrow> (int \<times> nat) option" where
  "utc_time value =
     (case value of
        OtherTime \<Rightarrow> None
      | AwareTime dt micro off \<Rightarrow> Some (moment_number dt - off, micro)
      | TimeText s \<Rightarrow>
          (case match_rfc3339 s of None \<Rightarrow> None
           | Some digits \<Rightarrow>
               (case (read_date (take 10 s), read_clock (take 8 (drop 11 s)), read_num digits) of
                  (Some d, Some t, Some f) \<Rightarrow> Some (moment_number (d, t), f * 10 ^ (6 - length digits))
                | _ \<Rightarrow> None)))"

text \<open>What Python guarantees of a \<^verbatim>\<open>datetime\<close>: its fields are in range.\<close>

definition time_ok :: "time_arg \<Rightarrow> bool" where
  "time_ok value =
     (case value of AwareTime dt micro off \<Rightarrow> valid_moment dt \<and> micro < 1000000 \<and> \<bar>off\<bar> < 86400 | _ \<Rightarrow> True)"

lemma ascii_digits_bound: "list_all digit_code ds \<Longrightarrow> digits_num ds < 10 ^ length ds"
proof (induction ds rule: rev_induct)
  case (snoc d ds)
  have "digit_code d" using snoc.prems by simp
  then have "the (digit_value d) < 10" by (auto simp: digit_value_ascii digit_code_def)
  moreover have "digits_num [d] = the (digit_value d)" by (simp add: digits_num_def)
  ultimately show ?case using snoc by (simp add: digits_num_append)
qed simp

lemma canonical_rfc3339_moment:
  assumes "canonical_rfc3339_utc v = Inr ts" and "time_ok v"
  obtains dt micro where "valid_moment dt" "micro < 10 ^ 6" "utc_time v = Some (moment_number dt, micro)"
    "ts = moment_text dt (pad 6 micro)"
proof (cases v)
  case (TimeText s)
  obtain digits d t f where r: "match_rfc3339 s = Some digits" "read_date (take 10 s) = Some d"
      "read_clock (take 8 (drop 11 s)) = Some t" "read_num digits = Some f"
      "ts = date_text d @ 84 # clock_text t @ 46 # pad 6 (f * 10 ^ (6 - length digits)) @ [90]"
    using assms(1) by (auto simp: TimeText canonical_rfc3339_utc_def split: option.splits)
  have l: "length digits \<le> 6" using r(1) by (auto simp: match_rfc3339_def Let_def split: if_split_asm)
  have "f < 10 ^ length digits" using r(4) ascii_digits_bound by (auto simp: read_num_def split: if_split_asm)
  then have "f * 10 ^ (6 - length digits) < 10 ^ length digits * 10 ^ (6 - length digits)" by simp
  also have "\<dots> = 10 ^ 6" using l by (simp flip: power_add)
  finally have m: "f * 10 ^ (6 - length digits) < 10 ^ 6" .
  have "length (pad 6 (f * 10 ^ (6 - length digits))) = 6" using pad_facts(1) [OF _ m] by simp
  then have "ts = moment_text (d, t) (pad 6 (f * 10 ^ (6 - length digits)))" using r(5) by (auto simp: moment_text_def)
  moreover have "valid_moment (d, t)" using read_date_valid [OF r(2)] read_clock_range [OF r(3)] by (simp add: valid_moment_def)
  moreover have "utc_time v = Some (moment_number (d, t), f * 10 ^ (6 - length digits))" using r by (simp add: TimeText utc_time_def)
  ultimately show ?thesis using m that by blast
next
  case (AwareTime dt micro off)
  obtain dt' where r: "shift_moment dt (- off) = Some dt'" "ts = date_text (fst dt') @ 84 # clock_text (snd dt') @ 46 # pad 6 micro @ [90]"
    using assms(1) by (auto simp: AwareTime canonical_rfc3339_utc_def split: option.splits)
  have v: "valid_moment dt" "micro < 10 ^ 6" "\<bar>- off\<bar> \<le> 86400" using assms(2) by (simp_all add: AwareTime time_ok_def)
  have "length (pad 6 micro) = 6" using pad_facts(1) [OF _ v(2)] by simp
  then have "ts = moment_text dt' (pad 6 micro)" using r(2) by (auto simp: moment_text_def)
  with shift_moment_number [OF r(1) v(1,3)] v(2) show ?thesis by (intro that [of dt' micro]) (simp_all add: AwareTime utc_time_def)
next
  case OtherTime
  then show ?thesis using assms(1) by (simp add: canonical_rfc3339_utc_def)
qed

lemma moment_text_inj:
  assumes "valid_moment dt" and "valid_moment dt'" and "m < 10 ^ 6" and "m' < 10 ^ 6"
    and "moment_text dt (pad 6 m) = moment_text dt' (pad 6 m')"
  shows "moment_number dt = moment_number dt' \<and> m = m'"
proof -
  have d: "list_all is_digit (pad 6 k)" "length (pad 6 k) \<le> 9" if "k < 10 ^ 6" for k
    using pad_facts [OF _ that] digit_code_digit by (simp_all add: list_all_iff)
  have "instant (moment_text dt (pad 6 m)) None = Some (moment_number dt, fraction_value (pad 6 m))"
      "instant (moment_text dt' (pad 6 m')) None = Some (moment_number dt', fraction_value (pad 6 m'))"
    using instant_moment_text assms(1-4) d by blast+
  with assms(5) have "moment_number dt = moment_number dt'" "fraction_value (pad 6 m) = fraction_value (pad 6 m')" by simp_all
  then show ?thesis using pad_facts [OF _ assms(3)] pad_facts [OF _ assms(4)] by (simp add: fraction_value_def)
qed

lemma split_at: "x \<notin> set xs \<Longrightarrow> x \<notin> set ys \<Longrightarrow> xs @ x # r = ys @ x # s \<Longrightarrow> xs = ys \<and> r = s"
proof (induction xs arbitrary: ys)
  case Nil
  then show ?case by (cases ys) auto
next
  case (Cons a xs)
  then show ?case by (cases ys) auto
qed

lemma checkpoint_parts:
  assumes "checkpoint_signing_bytes l n h t = Inr b"
  obtains lid k d ts where "l = Some lid" "n = Num k" "10 \<notin> set lid" "decode_digest h = Inr d" "canonical_rfc3339_utc t = Inr ts"
    "list_all scalar_value (text_of ''aim-transparency-checkpoint-v1'' @ 10 # lid @ 10 # int_text k @ 10 # encode_base64url d @ 10 # ts @ [10])"
    "b = utf8 (text_of ''aim-transparency-checkpoint-v1'' @ 10 # lid @ 10 # int_text k @ 10 # encode_base64url d @ 10 # ts @ [10])"
  using assms by (auto simp: checkpoint_signing_bytes_def Let_def split: option.splits num_arg.splits if_split_asm)

text \<open>
  Checkpoints are unambiguous: two checkpoints with the same signed bytes have the same log id,
  the same tree size, the same root digest and the same time to the microsecond.
\<close>

theorem checkpoint_bytes_unambiguous:
  assumes "checkpoint_signing_bytes l n h t = Inr b" and "checkpoint_signing_bytes l' n' h' t' = Inr b"
    and "time_ok t" and "time_ok t'"
  shows "l = l' \<and> n = n' \<and> decode_digest h = decode_digest h' \<and> utc_time t = utc_time t'"
proof -
  obtain lid k d ts where a: "l = Some lid" "n = Num k" "10 \<notin> set lid" "decode_digest h = Inr d" "canonical_rfc3339_utc t = Inr ts"
    "list_all scalar_value (text_of ''aim-transparency-checkpoint-v1'' @ 10 # lid @ 10 # int_text k @ 10 # encode_base64url d @ 10 # ts @ [10])"
    "b = utf8 (text_of ''aim-transparency-checkpoint-v1'' @ 10 # lid @ 10 # int_text k @ 10 # encode_base64url d @ 10 # ts @ [10])"
    by (rule checkpoint_parts [OF assms(1)])
  obtain lid' k' d' ts' where a': "l' = Some lid'" "n' = Num k'" "10 \<notin> set lid'" "decode_digest h' = Inr d'" "canonical_rfc3339_utc t' = Inr ts'"
    "list_all scalar_value (text_of ''aim-transparency-checkpoint-v1'' @ 10 # lid' @ 10 # int_text k' @ 10 # encode_base64url d' @ 10 # ts' @ [10])"
    "b = utf8 (text_of ''aim-transparency-checkpoint-v1'' @ 10 # lid' @ 10 # int_text k' @ 10 # encode_base64url d' @ 10 # ts' @ [10])"
    by (rule checkpoint_parts [OF assms(2)])
  define pre where "pre = text_of ''aim-transparency-checkpoint-v1''"
  note a = a [folded pre_def] and a' = a' [folded pre_def]
  have "pre @ 10 # lid @ 10 # int_text k @ 10 # encode_base64url d @ 10 # ts @ [10]
      = pre @ 10 # lid' @ 10 # int_text k' @ 10 # encode_base64url d' @ 10 # ts' @ [10]"
    by (rule utf8_inj [OF a(6) a'(6)]) (rule trans [OF a(7) [symmetric] a'(7)])
  then have e: "lid @ 10 # int_text k @ 10 # encode_base64url d @ 10 # ts @ [10]
      = lid' @ 10 # int_text k' @ 10 # encode_base64url d' @ 10 # ts' @ [10]"
    unfolding same_append_eq list.inject by blast
  from split_at [OF a(3) a'(3) e] have "lid = lid'"
    and e2: "int_text k @ 10 # encode_base64url d @ 10 # ts @ [10] = int_text k' @ 10 # encode_base64url d' @ 10 # ts' @ [10]"
    by blast+
  have st: "stops (10 # r)" for r by (simp add: digit_code_def)
  from int_text_prefix [OF e2 st st] have "k = k'"
    and e3: "encode_base64url d @ 10 # ts @ [10] = encode_base64url d' @ 10 # ts' @ [10]" by simp_all
  have n10: "10 \<notin> set (encode_base64url x)" for x
  proof
    assume "10 \<in> set (encode_base64url x)"
    then obtain m where "m < 64" "b64_char m = 10" using sextets_range [of x] by (auto simp: encode_base64url_def)
    then show False by (auto simp: b64_char_def split: if_split_asm)
  qed
  from split_at [OF n10 n10 e3] have enc: "encode_base64url d = encode_base64url d'" and ts: "ts = ts'" by simp_all
  have "d \<noteq> []" "d' \<noteq> []" using decode_digest_length [OF a(4)] decode_digest_length [OF a'(4)] by auto
  from trans [OF decode_encode [OF this(1), unfolded enc, symmetric] decode_encode [OF this(2)]] have "d = d'" by (rule Inr_inject)
  obtain dt m where m: "valid_moment dt" "m < 10 ^ 6" "utc_time t = Some (moment_number dt, m)" "ts = moment_text dt (pad 6 m)"
    by (rule canonical_rfc3339_moment [OF a(5) assms(3)])
  obtain dt' m' where m': "valid_moment dt'" "m' < 10 ^ 6" "utc_time t' = Some (moment_number dt', m')" "ts' = moment_text dt' (pad 6 m')"
    by (rule canonical_rfc3339_moment [OF a'(5) assms(4)])
  have "moment_number dt = moment_number dt' \<and> m = m'"
    by (rule moment_text_inj [OF m(1) m'(1) m(2) m'(2)]) (use ts m(4) m'(4) in simp)
  then show ?thesis using \<open>lid = lid'\<close> \<open>k = k'\<close> \<open>d = d'\<close> a(1,2,4) a'(1,2,4) m(3) m'(3) by simp
qed

theorem checkpoint_bytes_unambiguous_witness:
  "\<exists>b. checkpoint_signing_bytes (Some (text_of ''log'')) (Num 7) (Raw (replicate 32 5)) (TimeText (text_of ''2024-01-01T00:00:00Z'')) = Inr b
     \<and> checkpoint_signing_bytes (Some (text_of ''log'')) (Num 7) (Raw (replicate 32 5)) (TimeText (text_of ''2024-01-01T00:00:00.00Z'')) = Inr b
     \<and> utc_time (TimeText (text_of ''2024-01-01T00:00:00Z'')) = utc_time (TimeText (text_of ''2024-01-01T00:00:00.00Z''))"
proof -
  let ?f = "\<lambda>t. checkpoint_signing_bytes (Some (text_of ''log'')) (Num 7) (Raw (replicate 32 5)) (TimeText (text_of t))"
  have m: "match_rfc3339 (text_of ''2024-01-01T00:00:00Z'') = Some []" "match_rfc3339 (text_of ''2024-01-01T00:00:00.00Z'') = Some [48, 48]"
    by (simp_all add: match_rfc3339_def text_eval Let_def)
  let ?d = "\<lparr>yr = 2024, mon = 1, dy = 1\<rparr>"
  have r: "read_date (take 10 (text_of ''2024-01-01T00:00:00Z'')) = Some ?d" "read_date (take 10 (text_of ''2024-01-01T00:00:00.00Z'')) = Some ?d"
    "read_clock (take 8 (drop 11 (text_of ''2024-01-01T00:00:00Z''))) = Some 0" "read_clock (take 8 (drop 11 (text_of ''2024-01-01T00:00:00.00Z''))) = Some 0"
    "read_num [] = Some 0" "read_num [48, 48] = Some 0"
    by (simp_all add: read_date_def read_clock_def read_num_def text_eval valid_date_def days_in_month_def)
  let ?ts = "moment_text (?d, 0) (pad 6 0)"
  have ne: "pad 6 0 \<noteq> []" by (simp add: pad_def)
  have c: "canonical_rfc3339_utc (TimeText (text_of ''2024-01-01T00:00:00Z'')) = Inr ?ts"
      "canonical_rfc3339_utc (TimeText (text_of ''2024-01-01T00:00:00.00Z'')) = Inr ?ts"
    using ne by (simp_all add: canonical_rfc3339_utc_def m r moment_text_def)
  have "list_all scalar_value (pad w n)" for w n
  proof -
    have "list_all digit_code (pad w n)" using dec_digits_codes [of n] by (auto simp: pad_def list_all_iff digit_code_def)
    then show ?thesis by (rule list.pred_mono_strong) (simp add: digit_code_def scalar_ascii)
  qed
  then have "list_all scalar_value ?ts" using ne by (simp add: moment_text_def date_text_def clock_text_def scalar_ascii)
  moreover have "list_all scalar_value (encode_base64url x)" for x
    using encode_base64url_range [of _ x] scalar_ascii by (auto simp: list_all_iff)
  moreover have "list_all scalar_value (text_of ''aim-transparency-checkpoint-v1'')" "list_all scalar_value (text_of ''log'')"
    by (simp_all add: text_of_def scalar_value_def)
  ultimately have ok: "?f t = Inr (utf8 (text_of ''aim-transparency-checkpoint-v1'' @ 10 # text_of ''log'' @ 10 # int_text 7 @ 10
        # encode_base64url (replicate 32 5) @ 10 # ?ts @ [10]))"
    if "canonical_rfc3339_utc (TimeText (text_of t)) = Inr ?ts" for t
  proof -
    have "10 \<notin> set (text_of ''log'')" "text_of ''log'' \<noteq> []" by (simp_all add: text_of_def)
    moreover have "scalar_value 10" by (simp add: scalar_value_def)
    ultimately show ?thesis using that \<open>list_all scalar_value ?ts\<close> \<open>\<And>x. list_all scalar_value (encode_base64url x)\<close>
        \<open>list_all scalar_value (text_of ''aim-transparency-checkpoint-v1'')\<close> \<open>list_all scalar_value (text_of ''log'')\<close> scalar_int_text
      by (simp add: checkpoint_signing_bytes_def MAX_TREE_SIZE_def SHA256_SIZE_def Let_def)
  qed
  obtain b where b: "?f ''2024-01-01T00:00:00Z'' = Inr b" "?f ''2024-01-01T00:00:00.00Z'' = Inr b" using ok c by blast
  have "time_ok (TimeText s)" for s by (simp add: time_ok_def)
  with checkpoint_bytes_unambiguous [OF b] b show ?thesis by blast
qed

end
