(* ===== verification/Canonical.thy ===== *)
theory Canonical
  imports Timestamps Merkle
begin

text \<open>
  Declared schemas and canonical rows (app/services/dataset_canonicalization.py,
  \<^verbatim>\<open>CanonicalSchema\<close>).  Raw descriptors are metadata values; the validated descriptors, lists of
  name, tag, nullability and parameters in the code, are the datatype \<open>ltype\<close>.  The argument \<open>nf\<close>
  is \<^verbatim>\<open>unicodedata.normalize("NFC", _)\<close>.
\<close>

section \<open>Logical types\<close>

datatype ltype =
    TBoolean
  | TInteger
  | TDecimal int int
  | TString
  | TDate
  | TTimestamp int
  | TBinary
  | TArray ltype
  | TObject "(ustr \<times> ltype \<times> bool) list"

type_synonym field = "ustr \<times> ltype \<times> bool"

fun tag_of :: "ltype \<Rightarrow> string" where
  "tag_of TBoolean = ''boolean''"
| "tag_of TInteger = ''signed_integer''"
| "tag_of (TDecimal p s) = ''decimal''"
| "tag_of TString = ''string''"
| "tag_of TDate = ''date''"
| "tag_of (TTimestamp p) = ''timestamp''"
| "tag_of TBinary = ''binary''"
| "tag_of (TArray t) = ''array''"
| "tag_of (TObject fs) = ''object''"

definition TAGS :: "string list" where
  "TAGS = [''boolean'', ''signed_integer'', ''decimal'', ''string'', ''date'', ''timestamp'', ''binary'', ''array'', ''object'']"

text \<open>\<^verbatim>\<open>nfc\<close>; a value that is no \<^verbatim>\<open>str\<close> is \<open>None\<close>.\<close>

definition nfc :: "(ustr \<Rightarrow> ustr) \<Rightarrow> ustr option \<Rightarrow> cerror + ustr" where
  "nfc nf value =
     (case value of None \<Rightarrow> Inl ''invalid_unicode''
      | Some s \<Rightarrow> (if list_all scalar_value s then Inr (nf s) else Inl ''invalid_unicode''))"

definition as_str :: "pyval \<Rightarrow> ustr option" where
  "as_str v = (case v of PStr s \<Rightarrow> Some s | _ \<Rightarrow> None)"

definition as_int :: "pyval \<Rightarrow> int option" where
  "as_int v = (case v of PInt i \<Rightarrow> Some i | _ \<Rightarrow> None)"

text \<open>The keys of a dictionary as a set, and one of its values.\<close>

definition has_keys :: "string list \<Rightarrow> (ustr option \<times> pyval) list \<Rightarrow> bool" where
  "has_keys names kvs \<longleftrightarrow> fst ` set kvs = (\<lambda>n. Some (text_of n)) ` set names"

definition item :: "(ustr option \<times> pyval) list \<Rightarrow> string \<Rightarrow> pyval" where
  "item kvs name = (case map_of kvs (Some (text_of name)) of Some v \<Rightarrow> v | None \<Rightarrow> PNone)"

section \<open>Validating a schema\<close>

text \<open>A raw field: \<^verbatim>\<open>name, tag, nullable, params\<close>; \<open>None\<close> when it is no sequence of four.\<close>

type_synonym raw_field = "(pyval \<times> pyval \<times> pyval \<times> pyval) option"

definition raw_field_of :: "pyval \<Rightarrow> raw_field" where
  "raw_field_of v = (case v of PList [name, tag, nullable, params] \<Rightarrow> Some (name, tag, nullable, params) | _ \<Rightarrow> None)"

definition object_field_of :: "pyval \<Rightarrow> raw_field" where
  "object_field_of v =
     (case v of PDict kvs \<Rightarrow>
        (if has_keys [''name'', ''type'', ''nullable'', ''type_parameters''] kvs
         then Some (item kvs ''name'', item kvs ''type'', item kvs ''nullable'', item kvs ''type_parameters'') else None)
      | _ \<Rightarrow> None)"

definition sort_fields :: "field list \<Rightarrow> field list" where
  "sort_fields fs = sort_key (\<lambda>f. utf8 (fst f)) fs"

text \<open>\<^verbatim>\<open>_type\<close> on the tags without nested types.\<close>

definition leaf_type :: "ustr \<Rightarrow> (ustr option \<times> pyval) list \<Rightarrow> cerror + ltype" where
  "leaf_type t kvs =
     (if t = text_of ''decimal'' then
        (case (as_int (item kvs ''precision''), as_int (item kvs ''scale'')) of
           (Some p, Some s) \<Rightarrow>
             (if has_keys [''precision'', ''scale''] kvs \<and> 1 \<le> p \<and> p \<le> 1000 \<and> 0 \<le> s \<and> s \<le> p
              then Inr (TDecimal p s) else Inl ''invalid_decimal_parameters'')
         | _ \<Rightarrow> Inl ''invalid_decimal_parameters'')
      else if t = text_of ''timestamp'' then
        (case as_int (item kvs ''timestamp_precision'') of
           Some p \<Rightarrow>
             (if has_keys [''timestamp_precision''] kvs \<and> 0 \<le> p \<and> p \<le> 9
              then Inr (TTimestamp p) else Inl ''invalid_timestamp_parameters'')
         | None \<Rightarrow> Inl ''invalid_timestamp_parameters'')
      else if kvs \<noteq> [] then Inl ''invalid_schema''
      else Inr (if t = text_of ''boolean'' then TBoolean else if t = text_of ''signed_integer'' then TInteger
                else if t = text_of ''string'' then TString else if t = text_of ''date'' then TDate else TBinary))"

definition array_element :: "(ustr option \<times> pyval) list \<Rightarrow> (pyval \<times> pyval) option" where
  "array_element kvs =
     (case item kvs ''element_type'' of
        PDict elem \<Rightarrow>
          (if has_keys [''element_type''] kvs \<and> has_keys [''type'', ''type_parameters''] elem
           then Some (item elem ''type'', item elem ''type_parameters'') else None)
      | _ \<Rightarrow> None)"

definition object_fields :: "(ustr option \<times> pyval) list \<Rightarrow> raw_field list option" where
  "object_fields kvs =
     (case item kvs ''object_fields'' of
        PList raw \<Rightarrow>
          (if \<not> has_keys [''object_fields''] kvs \<or> None \<in> object_field_of ` set raw then None
           else Some (map object_field_of raw))
      | _ \<Rightarrow> None)"

text \<open>
  \<^verbatim>\<open>_type\<close> and the loop of \<^verbatim>\<open>_fields\<close>, with the node counter threaded through.  The fields found so
  far are the argument \<open>out\<close>, in reverse order.
\<close>

function check_type :: "(ustr \<Rightarrow> ustr) \<Rightarrow> pyval \<Rightarrow> pyval \<Rightarrow> nat \<Rightarrow> nat \<Rightarrow> cerror + ltype \<times> nat"
  and check_fields :: "(ustr \<Rightarrow> ustr) \<Rightarrow> raw_field list \<Rightarrow> nat \<Rightarrow> nat \<Rightarrow> field list \<Rightarrow> cerror + field list \<times> nat"
where
  "check_type nf tag params depth nodes =
     (if nodes + 1 > 10000 then Inl ''node_limit''
      else if depth > 16 then Inl ''depth_limit''
      else if as_str tag \<notin> (\<lambda>t. Some (text_of t)) ` set TAGS then Inl ''unsupported_logical_type''
      else case params of
        PDict kvs \<Rightarrow>
          (if as_str tag = Some (text_of ''array'') then
             (case array_element kvs of None \<Rightarrow> Inl ''invalid_schema''
              | Some (etag, eparams) \<Rightarrow>
                  res_bind (check_type nf etag eparams (depth + 1) (nodes + 1)) (\<lambda>(e, n). Inr (TArray e, n)))
           else if as_str tag = Some (text_of ''object'') then
             (case object_fields kvs of None \<Rightarrow> Inl ''invalid_schema''
              | Some raws \<Rightarrow>
                  (if raws = [] then Inl ''invalid_schema''
                   else if length raws > 500 then Inl ''field_limit''
                   else res_bind (check_fields nf raws (depth + 1) (nodes + 1) [])
                          (\<lambda>(fs, n). Inr (TObject (sort_fields fs), n))))
           else res_bind (leaf_type (the (as_str tag)) kvs) (\<lambda>t. Inr (t, nodes + 1)))
      | _ \<Rightarrow> Inl ''invalid_schema'')"
| "check_fields nf [] depth nodes out = Inr (rev out, nodes)"
| "check_fields nf (raw # raws) depth nodes out =
     (case raw of None \<Rightarrow> Inl ''invalid_schema''
      | Some (rname, tag, nullable, params) \<Rightarrow>
          res_bind (nfc nf (as_str rname)) (\<lambda>name.
          if length name < 1 \<or> length name > 255 then Inl ''invalid_field_name''
          else if name \<in> fst ` set out then Inl ''duplicate_field''
          else case nullable of
            PBool b \<Rightarrow>
              (if as_str tag = None then Inl ''invalid_schema''
               else res_bind (check_type nf tag params depth nodes) (\<lambda>(t, n).
                 check_fields nf raws depth n ((name, t, b) # out)))
          | _ \<Rightarrow> Inl ''invalid_schema''))"
  by pat_completeness auto
termination
  by (relation "inv_image (less_than <*lex*> less_than)
      (\<lambda>x. case x of Inl (nf, tag, params, depth, nodes) \<Rightarrow> (17 - depth, 0)
                   | Inr (nf, raws, depth, nodes, out) \<Rightarrow> (17 - depth, Suc (length raws)))") auto

declare check_type.simps [simp del]
declare check_fields.simps(2) [simp del]

text \<open>\<^verbatim>\<open>_fields\<close> on the declared descriptors: the validated schema and the number of its types.\<close>

definition build_schema :: "(ustr \<Rightarrow> ustr) \<Rightarrow> pyval \<Rightarrow> cerror + field list \<times> nat" where
  "build_schema nf descriptors =
     (case descriptors of
        PList raws \<Rightarrow>
          (if raws = [] then Inl ''invalid_schema''
           else if length raws > 500 then Inl ''field_limit''
           else res_bind (check_fields nf (map raw_field_of raws) 0 0 []) (\<lambda>(fs, n). Inr (sort_fields fs, n)))
      | _ \<Rightarrow> Inl ''invalid_schema'')"

text \<open>The descriptors as metadata, and the digest of their canonical JSON.\<close>

definition key :: "string \<Rightarrow> ustr option" where
  "key name = Some (text_of name)"

fun params_json :: "ltype \<Rightarrow> pyval" where
  "params_json (TDecimal p s) = PDict [(key ''precision'', PInt p), (key ''scale'', PInt s)]"
| "params_json (TTimestamp p) = PDict [(key ''timestamp_precision'', PInt p)]"
| "params_json (TArray t) =
     PDict [(key ''element_type'', PDict [(key ''type'', PStr (text_of (tag_of t))), (key ''type_parameters'', params_json t)])]"
| "params_json (TObject fs) =
     PDict [(key ''object_fields'',
       PList (map (\<lambda>(name, t, b). PDict [(key ''name'', PStr name), (key ''type'', PStr (text_of (tag_of t))),
         (key ''nullable'', PBool b), (key ''type_parameters'', params_json t)]) fs))]"
| "params_json t = PDict []"

definition descriptors_json :: "field list \<Rightarrow> pyval" where
  "descriptors_json fs =
     PList (map (\<lambda>(name, t, b). PList [PStr name, PStr (text_of (tag_of t)), PBool b, params_json t]) fs)"

definition schema_digest :: "hash_fun \<Rightarrow> field list \<Rightarrow> cerror + bytes" where
  "schema_digest H fs = res_bind (canonical_json_bytes (descriptors_json fs)) (\<lambda>b. Inr (compute_schema_digest H b))"

section \<open>What a declared schema means\<close>

text \<open>A raw field denotes a field when its type does, without counters.\<close>

inductive typed :: "(ustr \<Rightarrow> ustr) \<Rightarrow> nat \<Rightarrow> pyval \<Rightarrow> pyval \<Rightarrow> ltype \<Rightarrow> bool"
  and field_typed :: "(ustr \<Rightarrow> ustr) \<Rightarrow> nat \<Rightarrow> raw_field \<Rightarrow> field \<Rightarrow> bool"
  for nf where
  leaf: "depth \<le> 16 \<Longrightarrow> as_str tag = Some t \<Longrightarrow> t \<in> text_of ` set TAGS \<Longrightarrow> t \<noteq> text_of ''array'' \<Longrightarrow> t \<noteq> text_of ''object''
    \<Longrightarrow> leaf_type t kvs = Inr l \<Longrightarrow> typed nf depth tag (PDict kvs) l"
| array: "depth \<le> 16 \<Longrightarrow> as_str tag = Some (text_of ''array'') \<Longrightarrow> array_element kvs = Some (etag, eparams)
    \<Longrightarrow> typed nf (depth + 1) etag eparams e \<Longrightarrow> typed nf depth tag (PDict kvs) (TArray e)"
| object: "depth \<le> 16 \<Longrightarrow> as_str tag = Some (text_of ''object'') \<Longrightarrow> object_fields kvs = Some raws \<Longrightarrow> raws \<noteq> []
    \<Longrightarrow> length raws \<le> 500 \<Longrightarrow> list_all2 (field_typed nf (depth + 1)) raws fs \<Longrightarrow> distinct (map fst fs)
    \<Longrightarrow> typed nf depth tag (PDict kvs) (TObject (sort_fields fs))"
| field: "nfc nf (as_str rname) = Inr name \<Longrightarrow> 1 \<le> length name \<Longrightarrow> length name \<le> 255 \<Longrightarrow> typed nf depth tag params t
    \<Longrightarrow> field_typed nf depth (Some (rname, tag, PBool b, params)) (name, t, b)"

inductive_simps typed_dict: "typed nf depth tag (PDict kvs) l"
inductive_cases field_typedE: "field_typed nf depth raw f"
inductive_simps field_typed_Some: "field_typed nf depth raw f"

lemma typed_params: "typed nf depth tag params l \<Longrightarrow> \<exists>kvs t. params = PDict kvs \<and> as_str tag = Some t"
  by (auto elim: typed.cases)

text \<open>The types a schema declares, nested ones included.\<close>

fun type_nodes :: "ltype \<Rightarrow> nat" where
  "type_nodes (TArray e) = 1 + type_nodes e"
| "type_nodes (TObject fs) = 1 + sum_list (map (\<lambda>f. type_nodes (fst (snd f))) fs)"
| "type_nodes t = 1"

abbreviation fields_nodes :: "field list \<Rightarrow> nat" where
  "fields_nodes fs \<equiv> sum_list (map (\<lambda>f. type_nodes (fst (snd f))) fs)"

lemma fields_nodes_sort: "fields_nodes (sort_fields fs) = fields_nodes fs"
  by (simp add: sort_fields_def flip: sum_mset_sum_list)

lemma leaf_type_nodes: "leaf_type t kvs = Inr l \<Longrightarrow> type_nodes l = 1"
  by (auto simp: leaf_type_def split: if_split_asm option.splits)

lemma tags: "as_str tag \<in> (\<lambda>t. Some (text_of t)) ` set TAGS \<longleftrightarrow> (\<exists>t \<in> text_of ` set TAGS. as_str tag = Some t)"
  by auto

lemma array_tag: "text_of ''array'' \<in> text_of ` set TAGS" "text_of ''object'' \<in> text_of ` set TAGS" "text_of ''object'' \<noteq> text_of ''array''"
  by (simp_all add: TAGS_def text_of_def)

lemma type_nodes_pos: "1 \<le> type_nodes t"
  by (cases t) simp_all

lemma typed_bounds: "typed nf depth tag params t \<Longrightarrow> depth \<le> 16 \<and> (\<exists>s \<in> text_of ` set TAGS. as_str tag = Some s)"
proof (erule typed.cases)
qed (use array_tag in blast)+

lemma check_fields_ConsD:
  assumes "check_fields nf (raw # raws) depth n out = Inr r"
  shows "\<exists>rname name tag b params s. raw = Some (rname, tag, PBool b, params) \<and> nfc nf (as_str rname) = Inr name
      \<and> 1 \<le> length name \<and> length name \<le> 255 \<and> name \<notin> fst ` set out \<and> as_str tag = Some s"
proof -
  obtain rname tag nullable params where raw: "raw = Some (rname, tag, nullable, params)"
    using assms by (cases raw) (auto simp: check_fields.simps(2))
  note * = assms [unfolded raw check_fields.simps(2) option.case prod.case]
  obtain name where name: "nfc nf (as_str rname) = Inr name"
    using * by (cases "nfc nf (as_str rname)") auto
  note * = * [unfolded name res_bind.simps]
  have l: "\<not> (length name < 1 \<or> 255 < length name)" and d: "name \<notin> fst ` set out"
    using * by (metis Inl_Inr_False)+
  note * = * [unfolded if_not_P [OF l] if_not_P [OF d]]
  obtain b where b: "nullable = PBool b"
    using * by (cases nullable) auto
  obtain s where "as_str tag = Some s"
    using * by (cases "as_str tag") (auto simp: b)
  then show ?thesis using raw name l d b by (auto simp: not_less Suc_le_eq)
qed

lemma check_iff:
  "check_type nf tag params depth n = Inr (t, m) \<longleftrightarrow> typed nf depth tag params t \<and> m = n + type_nodes t \<and> m \<le> 10000"
  "distinct (map fst out) \<Longrightarrow> check_fields nf raws depth n out = Inr (fs, m) \<longleftrightarrow>
     (\<exists>gs. fs = rev out @ gs \<and> list_all2 (field_typed nf depth) raws gs \<and> distinct (map fst (rev out @ gs))
        \<and> m = n + fields_nodes gs \<and> (gs \<noteq> [] \<longrightarrow> m \<le> 10000))"
proof (induction nf tag params depth n and nf raws depth n out arbitrary: t m and fs m rule: check_type_check_fields.induct)
  case (1 nf tag params depth n)
  show ?case
  proof (cases "n + 1 > 10000 \<or> depth > 16 \<or> as_str tag \<notin> (\<lambda>t. Some (text_of t)) ` set TAGS \<or> (\<forall>kvs. params \<noteq> PDict kvs)")
    case True
    have "check_type nf tag params depth n \<noteq> Inr (t, m)"
      using True by (subst check_type.simps) (auto split: pyval.splits)
    moreover have "\<not> (typed nf depth tag params t \<and> m = n + type_nodes t \<and> m \<le> 10000)"
    proof
      assume t: "typed nf depth tag params t \<and> m = n + type_nodes t \<and> m \<le> 10000"
      have "\<not> depth > 16" "\<not> as_str tag \<notin> (\<lambda>t. Some (text_of t)) ` set TAGS"
        unfolding tags not_less not_not using typed_bounds [OF conjunct1 [OF t]] by blast+
      moreover have "\<not> (\<forall>kvs. params \<noteq> PDict kvs)" using typed_params [OF conjunct1 [OF t]] by blast
      moreover have "\<not> n + 1 > 10000" using t type_nodes_pos [of t] by linarith
      ultimately show False using True by blast
    qed
    ultimately show ?thesis by blast
  next
    case False
    then obtain kvs where p: "params = PDict kvs" and ok: "\<not> n + 1 > 10000" "\<not> depth > 16" "\<not> as_str tag \<notin> (\<lambda>t. Some (text_of t)) ` set TAGS"
      by blast
    obtain s where s: "as_str tag = Some s" "s \<in> text_of ` set TAGS" using ok(3) unfolding tags by blast
    consider (arr) "s = text_of ''array''" | (obj) "s = text_of ''object''"
      | (lf) "s \<noteq> text_of ''array''" "s \<noteq> text_of ''object''" by blast
    then show ?thesis
    proof cases
      case arr
      note array = s(1) [unfolded arr]
      show ?thesis
      proof (cases "array_element kvs")
        case None
        then show ?thesis using array p ok array_tag(3) by (subst check_type.simps) (simp add: typed_dict)
      next
        case (Some x)
        obtain etag eparams where x: "x = (etag, eparams)" by (cases x)
        have ih: "check_type nf etag eparams (depth + 1) (n + 1) = Inr (e, k) \<longleftrightarrow>
            typed nf (depth + 1) etag eparams e \<and> k = n + 1 + type_nodes e \<and> k \<le> 10000" for e k
          by (rule "1.IH"(1) [OF ok p array Some x [symmetric]])
        have "check_type nf tag params depth n
            = res_bind (check_type nf etag eparams (depth + 1) (n + 1)) (\<lambda>(e, k). Inr (TArray e, k))"
          using array p ok Some x by (subst check_type.simps) simp
        then have "check_type nf tag params depth n = Inr (t, m) \<longleftrightarrow>
            (\<exists>e. t = TArray e \<and> typed nf (depth + 1) etag eparams e \<and> m = n + 1 + type_nodes e \<and> m \<le> 10000)"
          using ih by auto
        moreover have "typed nf depth tag params t \<longleftrightarrow> (\<exists>e. t = TArray e \<and> typed nf (depth + 1) etag eparams e)"
          using array array_tag(3) ok(2) Some x by (auto simp: p typed_dict)
        ultimately show ?thesis by auto
      qed
    next
      case obj
      note object = s(1) [unfolded obj]
      show ?thesis
      proof (cases "object_fields kvs")
        case None
        then show ?thesis using object p ok array_tag(3) by (subst check_type.simps) (simp add: typed_dict)
      next
        case (Some raws)
        show ?thesis
        proof (cases "raws = [] \<or> length raws > 500")
          case True
          then show ?thesis using object p ok Some array_tag(3) by (subst check_type.simps) (auto simp: typed_dict)
        next
          case False
          have na: "as_str tag \<noteq> Some (text_of ''array'')" using object array_tag(3) by simp
          have ih: "check_fields nf raws (depth + 1) (n + 1) [] = Inr (fs, k) \<longleftrightarrow>
              (list_all2 (field_typed nf (depth + 1)) raws fs \<and> distinct (map fst fs)
                \<and> k = n + 1 + fields_nodes fs \<and> (fs \<noteq> [] \<longrightarrow> k \<le> 10000))" for fs k
            using "1.IH"(2) [OF ok p na object Some, of fs k] False by auto
          have "check_type nf tag params depth n
              = res_bind (check_fields nf raws (depth + 1) (n + 1) []) (\<lambda>(fs, k). Inr (TObject (sort_fields fs), k))"
            using object na p ok Some False by (subst check_type.simps) simp
          then have "check_type nf tag params depth n = Inr (t, m) \<longleftrightarrow>
              (\<exists>fs. t = TObject (sort_fields fs) \<and> list_all2 (field_typed nf (depth + 1)) raws fs \<and> distinct (map fst fs)
                \<and> m = n + 1 + fields_nodes fs \<and> (fs \<noteq> [] \<longrightarrow> m \<le> 10000))"
            using ih by auto
          moreover have "typed nf depth tag params t \<longleftrightarrow>
              (\<exists>fs. t = TObject (sort_fields fs) \<and> list_all2 (field_typed nf (depth + 1)) raws fs \<and> distinct (map fst fs))"
            using object array_tag(3) ok(2) Some False by (auto simp: p typed_dict)
          moreover have "fs \<noteq> []" if "list_all2 (field_typed nf (depth + 1)) raws fs" for fs using that False by auto
          moreover have "type_nodes (TObject (sort_fields fs)) = 1 + fields_nodes fs" for fs by (simp add: fields_nodes_sort)
          ultimately show ?thesis by (metis (no_types, lifting) add.assoc)
        qed
      qed
    next
      case lf
      note leaf = s lf
      have "check_type nf tag params depth n = res_bind (leaf_type s kvs) (\<lambda>t. Inr (t, n + 1))"
        using leaf p ok by (subst check_type.simps) simp
      moreover have "typed nf depth tag params t \<longleftrightarrow> leaf_type s kvs = Inr t"
        using leaf ok(2) by (auto simp: p typed_dict)
      ultimately show ?thesis using leaf_type_nodes [of s kvs] ok(1) by auto
    qed
  qed
next
  case (2 nf depth n out)
  then show ?case by (auto simp: rev_map [symmetric])
next
  case (3 nf raw raws depth n out)
  show ?case
  proof (cases "\<exists>rname name tag b params s. raw = Some (rname, tag, PBool b, params) \<and> nfc nf (as_str rname) = Inr name
      \<and> 1 \<le> length name \<and> length name \<le> 255 \<and> name \<notin> fst ` set out \<and> as_str tag = Some s")
    case False
    have "check_fields nf (raw # raws) depth n out \<noteq> Inr (fs, m)"
      using False check_fields_ConsD by blast
    moreover have "\<not> list_all2 (field_typed nf depth) (raw # raws) gs" if d: "distinct (map fst (rev out @ gs))" for gs
    proof
      assume "list_all2 (field_typed nf depth) (raw # raws) gs"
      then obtain f gs' where gs: "gs = f # gs'" "field_typed nf depth raw f" by (auto simp: list_all2_Cons1)
      obtain rname name tag b params t where f: "raw = Some (rname, tag, PBool b, params)" "f = (name, t, b)"
          "nfc nf (as_str rname) = Inr name" "1 \<le> length name" "length name \<le> 255" "typed nf depth tag params t"
        using gs(2) by (rule field_typedE) (rule that, simp_all)
      moreover obtain s where "as_str tag = Some s" using typed_bounds [OF f(6)] by blast
      moreover have "name \<notin> fst ` set out" using d unfolding gs(1) f(2) by auto
      ultimately show False using False by blast
    qed
    ultimately show ?thesis by blast
  next
    case True
    then obtain rname name tag b params s where raw: "raw = Some (rname, tag, PBool b, params)" "nfc nf (as_str rname) = Inr name"
        "1 \<le> length name" "length name \<le> 255" "name \<notin> fst ` set out" "as_str tag = Some s" by blast
    have e: "check_fields nf (raw # raws) depth n out =
        res_bind (check_type nf tag params depth n) (\<lambda>(t, k). check_fields nf raws depth k ((name, t, b) # out))"
      using raw by (subst check_fields.simps) auto
    have ih1: "check_type nf tag params depth n = Inr (t, k) \<longleftrightarrow> typed nf depth tag params t \<and> k = n + type_nodes t \<and> k \<le> 10000" for t k
      by (rule "3.IH"(1) [OF raw(1) refl refl refl raw(2) _ raw(5) refl]) (use raw in auto)
    have ih2: "check_fields nf raws depth k ((name, t, b) # out) = Inr (fs, m) \<longleftrightarrow>
       (\<exists>gs. fs = rev ((name, t, b) # out) @ gs \<and> list_all2 (field_typed nf depth) raws gs \<and> distinct (map fst (rev ((name, t, b) # out) @ gs))
        \<and> m = k + fields_nodes gs \<and> (gs \<noteq> [] \<longrightarrow> m \<le> 10000))" if "check_type nf tag params depth n = Inr (t, k)" for t k
      by (rule "3.IH"(2) [OF raw(1) refl refl refl raw(2) _ raw(5) refl _ that refl]) (use raw "3.prems" in auto)
    show ?thesis
    proof
      assume "check_fields nf (raw # raws) depth n out = Inr (fs, m)"
      then obtain t k where tk: "check_type nf tag params depth n = Inr (t, k)" "check_fields nf raws depth k ((name, t, b) # out) = Inr (fs, m)"
        unfolding e by auto
      obtain gs where gs: "fs = rev ((name, t, b) # out) @ gs" "list_all2 (field_typed nf depth) raws gs"
          "distinct (map fst (rev ((name, t, b) # out) @ gs))" "m = k + fields_nodes gs" "gs \<noteq> [] \<longrightarrow> m \<le> 10000"
        using ih2 [OF tk(1)] tk(2) by blast
      have t: "typed nf depth tag params t" "k = n + type_nodes t" "k \<le> 10000" using ih1 tk(1) by blast+
      have "list_all2 (field_typed nf depth) (raw # raws) ((name, t, b) # gs)"
        using gs(2) raw t(1) by (simp add: field_typed_Some)
      then show "\<exists>gs. fs = rev out @ gs \<and> list_all2 (field_typed nf depth) (raw # raws) gs \<and> distinct (map fst (rev out @ gs))
        \<and> m = n + fields_nodes gs \<and> (gs \<noteq> [] \<longrightarrow> m \<le> 10000)"
        using gs t by (intro exI [of _ "(name, t, b) # gs"]) auto
    next
      assume "\<exists>gs. fs = rev out @ gs \<and> list_all2 (field_typed nf depth) (raw # raws) gs \<and> distinct (map fst (rev out @ gs))
        \<and> m = n + fields_nodes gs \<and> (gs \<noteq> [] \<longrightarrow> m \<le> 10000)"
      then obtain gs where gs: "fs = rev out @ gs" "list_all2 (field_typed nf depth) (raw # raws) gs" "distinct (map fst (rev out @ gs))"
          "m = n + fields_nodes gs" "gs \<noteq> [] \<longrightarrow> m \<le> 10000" by blast
      then obtain t gs' where g: "gs = (name, t, b) # gs'" "typed nf depth tag params t" "list_all2 (field_typed nf depth) raws gs'"
        using raw by (cases gs) (auto simp: field_typed_Some)
      have tk: "check_type nf tag params depth n = Inr (t, n + type_nodes t)" using ih1 g gs(4,5) by auto
      have "check_fields nf raws depth (n + type_nodes t) ((name, t, b) # out) = Inr (fs, m)"
        unfolding ih2 [OF tk] using gs g by (intro exI [of _ gs']) auto
      then show "check_fields nf (raw # raws) depth n out = Inr (fs, m)" unfolding e tk by simp
    qed
  qed
qed

section \<open>Accepted schemas\<close>

lemma build_schema_iff:
  "build_schema nf d = Inr (S, n) \<longleftrightarrow>
     (\<exists>raws fs. d = PList raws \<and> raws \<noteq> [] \<and> length raws \<le> 500
        \<and> list_all2 (field_typed nf 0) (map raw_field_of raws) fs \<and> distinct (map fst fs)
        \<and> S = sort_fields fs \<and> n = fields_nodes fs \<and> n \<le> 10000)"
proof (cases "\<exists>raws. d = PList raws \<and> raws \<noteq> [] \<and> length raws \<le> 500")
  case False
  then show ?thesis by (cases d) (auto simp: build_schema_def)
next
  case True
  then obtain raws where d: "d = PList raws" "raws \<noteq> []" "length raws \<le> 500" by blast
  have "build_schema nf d = res_bind (check_fields nf (map raw_field_of raws) 0 0 []) (\<lambda>(fs, n). Inr (sort_fields fs, n))"
    using d by (simp add: build_schema_def)
  then have "build_schema nf d = Inr (S, n) \<longleftrightarrow>
      (\<exists>fs. check_fields nf (map raw_field_of raws) 0 0 [] = Inr (fs, n) \<and> S = sort_fields fs)" by auto
  also have "\<dots> \<longleftrightarrow> (\<exists>fs. list_all2 (field_typed nf 0) (map raw_field_of raws) fs \<and> distinct (map fst fs)
      \<and> n = fields_nodes fs \<and> (fs \<noteq> [] \<longrightarrow> n \<le> 10000) \<and> S = sort_fields fs)"
    using check_iff(2) [of "[]" nf "map raw_field_of raws" 0 0] by simp
  also have "\<dots> \<longleftrightarrow> (\<exists>fs. list_all2 (field_typed nf 0) (map raw_field_of raws) fs \<and> distinct (map fst fs)
      \<and> S = sort_fields fs \<and> n = fields_nodes fs \<and> n \<le> 10000)"
    using d(2) by (auto simp: list_all2_iff)
  finally show ?thesis using d by simp
qed

text \<open>
  What a consumer of a schema relies on.  NFC turns text with a UTF-8 form into text with a UTF-8
  form.
\<close>

definition keeps_scalars :: "(ustr \<Rightarrow> ustr) \<Rightarrow> bool" where
  "keeps_scalars nf \<longleftrightarrow> (\<forall>s. list_all scalar_value s \<longrightarrow> list_all scalar_value (nf s))"

definition good_fields :: "field list \<Rightarrow> bool" where
  "good_fields fs \<longleftrightarrow> fs \<noteq> [] \<and> length fs \<le> 500 \<and> distinct (map fst fs) \<and> sorted (map (\<lambda>f. utf8 (fst f)) fs)
     \<and> list_all (\<lambda>f. 1 \<le> length (fst f) \<and> length (fst f) \<le> 255 \<and> list_all scalar_value (fst f)) fs"

fun good_type :: "nat \<Rightarrow> ltype \<Rightarrow> bool" where
  "good_type d (TDecimal p s) \<longleftrightarrow> d \<le> 16 \<and> 1 \<le> p \<and> p \<le> 1000 \<and> 0 \<le> s \<and> s \<le> p"
| "good_type d (TTimestamp p) \<longleftrightarrow> d \<le> 16 \<and> 0 \<le> p \<and> p \<le> 9"
| "good_type d (TArray e) \<longleftrightarrow> d \<le> 16 \<and> good_type (d + 1) e"
| "good_type d (TObject fs) \<longleftrightarrow> d \<le> 16 \<and> good_fields fs \<and> (\<forall>f \<in> set fs. good_type (d + 1) (fst (snd f)))"
| "good_type d t \<longleftrightarrow> d \<le> 16"

lemma set_sort_fields [simp]: "set (sort_fields fs) = set fs"
  by (simp add: sort_fields_def)

lemma distinct_sort_fields: "distinct (map fst fs) \<Longrightarrow> distinct (map fst (sort_fields fs))"
  by (simp add: sort_fields_def distinct_map)

lemma good_sort_fields:
  assumes "fs \<noteq> []" and "length fs \<le> 500" and "distinct (map fst fs)"
    and "\<forall>f \<in> set fs. 1 \<le> length (fst f) \<and> length (fst f) \<le> 255 \<and> list_all scalar_value (fst f)"
  shows "good_fields (sort_fields fs)"
proof -
  have "sort_fields fs \<noteq> []" using assms(1) set_sort_fields [of fs] by (metis set_empty)
  moreover have "length (sort_fields fs) \<le> 500" "sorted (map (\<lambda>f. utf8 (fst f)) (sort_fields fs))"
    using assms(2) by (simp_all add: sort_fields_def)
  ultimately show ?thesis
    using assms(4) distinct_sort_fields [OF assms(3)] unfolding good_fields_def list_all_iff set_sort_fields by blast
qed

lemma leaf_type_good: "leaf_type t kvs = Inr l \<Longrightarrow> d \<le> 16 \<Longrightarrow> good_type d l"
  by (auto simp: leaf_type_def split: if_split_asm option.splits)

lemma nfc_scalar: "nfc nf v = Inr name \<Longrightarrow> keeps_scalars nf \<Longrightarrow> list_all scalar_value name"
  by (auto simp: nfc_def keeps_scalars_def split: option.splits if_split_asm)

lemma typed_good:
  assumes "keeps_scalars nf"
  shows "typed nf d tag params t \<Longrightarrow> good_type d t"
    and "field_typed nf d raw f \<Longrightarrow> (1 \<le> length (fst f) \<and> length (fst f) \<le> 255 \<and> list_all scalar_value (fst f))
      \<and> good_type d (fst (snd f))"
proof (induction rule: typed_field_typed.inducts)
  case (leaf depth tag t kvs l)
  then show ?case by (simp add: leaf_type_good)
next
  case (object depth tag kvs raws fs)
  have f: "\<forall>f \<in> set fs. (1 \<le> length (fst f) \<and> length (fst f) \<le> 255 \<and> list_all scalar_value (fst f))
      \<and> good_type (depth + 1) (fst (snd f))"
    using list_all2_in [OF object.IH] by blast
  have "fs \<noteq> []" "length fs \<le> 500" using list_all2_lengthD [OF object.IH] object.hyps by auto
  then have "good_fields (sort_fields fs)" using good_sort_fields object.hyps f by blast
  then show ?case using object.hyps f by simp
next
  case (field rname name depth tag params t b)
  then show ?case using nfc_scalar assms by simp
qed simp_all

lemma build_schema_good:
  assumes "build_schema nf d = Inr (S, n)" and "keeps_scalars nf"
  shows "good_fields S \<and> (\<forall>f \<in> set S. good_type 0 (fst (snd f))) \<and> n = fields_nodes S \<and> n \<le> 10000"
proof -
  obtain raws fs where b: "raws \<noteq> []" "length raws \<le> 500" "list_all2 (field_typed nf 0) (map raw_field_of raws) fs"
      "distinct (map fst fs)" "S = sort_fields fs" "n = fields_nodes fs" "n \<le> 10000"
    using assms(1) unfolding build_schema_iff by blast
  have f: "\<forall>f \<in> set fs. (1 \<le> length (fst f) \<and> length (fst f) \<le> 255 \<and> list_all scalar_value (fst f)) \<and> good_type 0 (fst (snd f))"
    using list_all2_in [OF b(3)] typed_good(2) [OF assms(2)] by blast
  have "fs \<noteq> []" "length fs \<le> 500" using list_all2_lengthD [OF b(3)] b(1,2) by auto
  then have "good_fields S" using good_sort_fields b(4,5) f by blast
  then show ?thesis using f b by (simp add: fields_nodes_sort)
qed

section \<open>The descriptors determine the schema\<close>

fun params_norm :: "ltype \<Rightarrow> pyval" where
  "params_norm (TArray t) =
     PDict [(key ''element_type'', PDict [(key ''type'', PStr (text_of (tag_of t))), (key ''type_parameters'', params_norm t)])]"
| "params_norm (TObject fs) =
     PDict [(key ''object_fields'',
       PList (map (\<lambda>f. PDict [(key ''name'', PStr (fst f)), (key ''nullable'', PBool (snd (snd f))),
         (key ''type'', PStr (text_of (tag_of (fst (snd f))))), (key ''type_parameters'', params_norm (fst (snd f)))]) fs))]"
| "params_norm t = params_json t"

lemmas dict_eval = key_def text_of_def utf16_be_def utf16_char_def scalar_value_def Let_def

lemma normalize_dicts:
  "normalize_value (PDict [(key ''precision'', a), (key ''scale'', b)]) =
     res_bind (normalize_value a) (\<lambda>a. res_bind (normalize_value b) (\<lambda>b. Inr (PDict [(key ''precision'', a), (key ''scale'', b)])))"
  "normalize_value (PDict [(key ''timestamp_precision'', a)]) =
     res_bind (normalize_value a) (\<lambda>a. Inr (PDict [(key ''timestamp_precision'', a)]))"
  "normalize_value (PDict [(key ''element_type'', a)]) =
     res_bind (normalize_value a) (\<lambda>a. Inr (PDict [(key ''element_type'', a)]))"
  "normalize_value (PDict [(key ''object_fields'', a)]) =
     res_bind (normalize_value a) (\<lambda>a. Inr (PDict [(key ''object_fields'', a)]))"
  "normalize_value (PDict [(key ''type'', a), (key ''type_parameters'', b)]) =
     res_bind (normalize_value a) (\<lambda>a. res_bind (normalize_value b) (\<lambda>b. Inr (PDict [(key ''type'', a), (key ''type_parameters'', b)])))"
  "normalize_value (PDict [(key ''name'', a), (key ''type'', b), (key ''nullable'', c), (key ''type_parameters'', d)]) =
     res_bind (normalize_value a) (\<lambda>a. res_bind (normalize_value c) (\<lambda>c. res_bind (normalize_value b) (\<lambda>b.
       res_bind (normalize_value d) (\<lambda>d. Inr (PDict [(key ''name'', a), (key ''nullable'', c), (key ''type'', b), (key ''type_parameters'', d)])))))"
  "normalize_value (PDict []) = Inr (PDict [])"
  by (simp_all add: dict_eval res_bind_assoc)

lemma scalar_tag: "list_all scalar_value (text_of (tag_of t))"
  by (cases t) (simp_all add: text_of_def scalar_value_def)

declare normalize_value.simps(6) [simp del]

lemma normalize_params:
  "good_type d t \<Longrightarrow> normalize_value (params_json t) = Inr (params_norm t)"
proof (induction t arbitrary: d rule: params_norm.induct)
  case (1 t)
  then show ?case by (auto simp: normalize_dicts scalar_tag)
next
  case (2 fs)
  have f: "normalize_value ((\<lambda>(name, t, b). PDict [(key ''name'', PStr name), (key ''type'', PStr (text_of (tag_of t))),
         (key ''nullable'', PBool b), (key ''type_parameters'', params_json t)]) f) =
      Inr (PDict [(key ''name'', PStr (fst f)), (key ''nullable'', PBool (snd (snd f))),
         (key ''type'', PStr (text_of (tag_of (fst (snd f))))), (key ''type_parameters'', params_norm (fst (snd f)))])"
    if "f \<in> set fs" for f
  proof -
    obtain name t b where f: "f = (name, t, b)" by (cases f)
    have "normalize_value (params_json t) = Inr (params_norm t)" using 2 that f by fastforce
    moreover have "list_all scalar_value name" using 2(2) that f by (fastforce simp: good_fields_def list_all_iff)
    ultimately show ?thesis by (simp add: f normalize_dicts scalar_tag)
  qed
  show ?case by (simp add: normalize_dicts) (rule res_map_map, rule f)
qed (auto simp: normalize_dicts SAFE_INTEGER_def)

lemma params_norm_leaf:
  "params_norm t = params_norm u \<Longrightarrow> tag_of t = tag_of u \<Longrightarrow> \<forall>e. t \<noteq> TArray e \<Longrightarrow> \<forall>fs. t \<noteq> TObject fs \<Longrightarrow> t = u"
  by (cases t; cases u) simp_all

lemma params_norm_inj:
  "params_norm t = params_norm u \<Longrightarrow> tag_of t = tag_of u \<Longrightarrow> t = u"
proof (induction t arbitrary: u rule: params_norm.induct)
  case (1 t)
  then obtain e where u: "u = TArray e" by (cases u) simp_all
  show ?case using 1 by (simp add: u text_of_inj)
next
  case (2 fs)
  then obtain gs where u: "u = TObject gs" by (cases u) simp_all
  have "fs = gs"
  proof (rule list.inj_map_strong)
    fix f g
    assume m: "f \<in> set fs" and e: "PDict [(key ''name'', PStr (fst f)), (key ''nullable'', PBool (snd (snd f))),
        (key ''type'', PStr (text_of (tag_of (fst (snd f))))), (key ''type_parameters'', params_norm (fst (snd f)))]
      = PDict [(key ''name'', PStr (fst g)), (key ''nullable'', PBool (snd (snd g))),
        (key ''type'', PStr (text_of (tag_of (fst (snd g))))), (key ''type_parameters'', params_norm (fst (snd g)))]"
    obtain n t b where f: "f = (n, t, b)" by (cases f)
    show "f = g" using 2(1) [OF m, of "fst (snd g)"] e by (cases g) (simp add: f text_of_inj)
  next
    show "map (\<lambda>f. PDict [(key ''name'', PStr (fst f)), (key ''nullable'', PBool (snd (snd f))),
        (key ''type'', PStr (text_of (tag_of (fst (snd f))))), (key ''type_parameters'', params_norm (fst (snd f)))]) fs
      = map (\<lambda>f. PDict [(key ''name'', PStr (fst f)), (key ''nullable'', PBool (snd (snd f))),
        (key ''type'', PStr (text_of (tag_of (fst (snd f))))), (key ''type_parameters'', params_norm (fst (snd f)))]) gs"
      using 2(2) by (simp only: u params_norm.simps pyval.inject list.inject prod.inject)
  qed
  then show ?case by (simp add: u)
qed (rule params_norm_leaf, simp_all)+

lemma normalize_descriptors:
  assumes "good_fields S" and "\<forall>f \<in> set S. good_type 0 (fst (snd f))"
  shows "normalize_value (descriptors_json S) =
    Inr (PList (map (\<lambda>f. PList [PStr (fst f), PStr (text_of (tag_of (fst (snd f)))), PBool (snd (snd f)), params_norm (fst (snd f))]) S))"
proof -
  have "normalize_value ((\<lambda>(name, t, b). PList [PStr name, PStr (text_of (tag_of t)), PBool b, params_json t]) f) =
      Inr (PList [PStr (fst f), PStr (text_of (tag_of (fst (snd f)))), PBool (snd (snd f)), params_norm (fst (snd f))])"
    if "f \<in> set S" for f
  proof -
    obtain name t b where f: "f = (name, t, b)" by (cases f)
    have "list_all scalar_value name" "good_type 0 t" using assms that f by (fastforce simp: good_fields_def list_all_iff)+
    then show ?thesis by (simp add: f scalar_tag normalize_params)
  qed
  then have "res_map normalize_value (map (\<lambda>(name, t, b). PList [PStr name, PStr (text_of (tag_of t)), PBool b, params_json t]) S)
      = Inr (map (\<lambda>f. PList [PStr (fst f), PStr (text_of (tag_of (fst (snd f)))), PBool (snd (snd f)), params_norm (fst (snd f))]) S)"
    by (rule res_map_map)
  then show ?thesis by (simp only: descriptors_json_def normalize_value.simps res_bind.simps)
qed

lemma descriptors_bytes:
  assumes "good_fields S" and "\<forall>f \<in> set S. good_type 0 (fst (snd f))"
    and "good_fields S'" and "\<forall>f \<in> set S'. good_type 0 (fst (snd f))"
  shows "\<exists>b. canonical_json_bytes (descriptors_json S) = Inr b \<and> (canonical_json_bytes (descriptors_json S') = Inr b \<longleftrightarrow> S' = S)"
proof -
  note n = normalize_descriptors [OF assms(1,2)] and n' = normalize_descriptors [OF assms(3,4)]
  have "S' = S" if "normalize_value (descriptors_json S') = normalize_value (descriptors_json S)"
  proof (rule list.inj_map_strong)
    show "map (\<lambda>f. PList [PStr (fst f), PStr (text_of (tag_of (fst (snd f)))), PBool (snd (snd f)), params_norm (fst (snd f))]) S'
        = map (\<lambda>f. PList [PStr (fst f), PStr (text_of (tag_of (fst (snd f)))), PBool (snd (snd f)), params_norm (fst (snd f))]) S"
      using that unfolding n n' by (simp only: sum.inject pyval.inject)
  next
    fix f g
    assume "PList [PStr (fst f), PStr (text_of (tag_of (fst (snd f)))), PBool (snd (snd f)), params_norm (fst (snd f))]
      = PList [PStr (fst g), PStr (text_of (tag_of (fst (snd g)))), PBool (snd (snd g)), params_norm (fst (snd g))]"
    then show "f = g" using params_norm_inj [of "fst (snd f)" "fst (snd g)"] by (cases f, cases g) (simp add: text_of_inj)
  qed
  moreover obtain b where "canonical_json_bytes (descriptors_json S) = Inr b"
      "canonical_json_bytes (descriptors_json S') = Inr b \<longleftrightarrow> normalize_value (descriptors_json S') = normalize_value (descriptors_json S)"
    using json_bytes_identify [OF n] unfolding n by blast
  ultimately show ?thesis by blast
qed

lemma sort_fields_perm:
  assumes "mset fs' = mset fs" and "distinct (map fst fs)" and "\<forall>f \<in> set fs. list_all scalar_value (fst f)"
  shows "sort_fields fs' = sort_fields fs"
  unfolding sort_fields_def
proof -
  have "inj_on (\<lambda>f. utf8 (fst f)) (set fs)"
  proof (rule inj_onI)
    fix f g assume f: "f \<in> set fs" "g \<in> set fs" and "utf8 (fst f) = utf8 (fst g)"
    then have "fst f = fst g" using utf8_inj assms(3) by blast
    then show "f = g" using assms(2) f by (simp add: distinct_map inj_on_def)
  qed
  then show "sort_key (\<lambda>f. utf8 (fst f)) fs' = sort_key (\<lambda>f. utf8 (fst f)) fs"
    by (intro sort_key_inj_key_eq) (use assms(1) mset_eq_setD [OF assms(1)] in simp_all)
qed

section \<open>Properties\<close>

text \<open>
  C27.  The checker, with its node counter, its depth guard and the fields found so far, accepts the
  descriptors that denote a schema, and only those: every descriptor has a type (a relation without
  counters), the normalized names are distinct, and the schema has at most 10000 types.  It returns
  the denoted fields in the byte order of their names, and the number of their types.
\<close>

theorem schema_accepts_declared:
  "build_schema nf (PList raws) = Inr (S, n) \<longleftrightarrow>
     raws \<noteq> [] \<and> length raws \<le> 500
     \<and> (\<exists>fs. list_all2 (field_typed nf 0) (map raw_field_of raws) fs \<and> distinct (map fst fs)
          \<and> S = sort_fields fs \<and> n = fields_nodes fs \<and> fields_nodes fs \<le> 10000)"
  unfolding build_schema_iff by auto

text \<open>
  C28.  An accepted schema is well formed at every level: between 1 and 500 fields, distinct names of
  1 to 255 characters with a UTF-8 form, in strictly the byte order of the names, types at most 16
  levels deep, a decimal scale within its precision, and at most 10000 types in all.
\<close>

theorem schema_wellformed:
  assumes "build_schema nf d = Inr (S, n)" and "keeps_scalars nf"
  shows "good_fields S \<and> (\<forall>f \<in> set S. good_type 0 (fst (snd f))) \<and> n = fields_nodes S \<and> n \<le> 10000"
  by (rule build_schema_good [OF assms])

text \<open>A schema with its fields out of order.\<close>

definition small_descriptors :: "pyval list" where
  "small_descriptors =
     [PList [PStr [98], PStr (text_of ''decimal''), PBool True, PDict [(key ''scale'', PInt 2), (key ''precision'', PInt 9)]],
      PList [PStr [97], PStr (text_of ''array''), PBool False,
        PDict [(key ''element_type'', PDict [(key ''type'', PStr (text_of ''string'')), (key ''type_parameters'', PDict [])])]]]"

definition small_schema :: "field list" where
  "small_schema = [([97], TArray TString, False), ([98], TDecimal 9 2, True)]"

lemma small_schema_built:
  "build_schema id (PList small_descriptors) = Inr (small_schema, 3)"
  by (simp add: small_descriptors_def small_schema_def build_schema_def raw_field_of_def check_fields.simps check_type.simps
      nfc_def as_str_def as_int_def key_def text_of_def TAGS_def array_element_def item_def has_keys_def leaf_type_def
      scalar_value_def sort_fields_def utf8_def utf8_char_def insert_commute)

theorem schema_wellformed_witness:
  "good_fields small_schema \<and> list_all (\<lambda>f. good_type 0 (fst (snd f))) small_schema
   \<and> (3 :: nat) = fields_nodes small_schema \<and> (3 :: nat) \<le> 10000"
  using schema_wellformed [OF small_schema_built] by (simp add: keeps_scalars_def list_all_iff)

text \<open>
  The order in which the fields are declared does not matter: a permutation of accepted
  descriptors gives the same schema, and so the same schema digest and the same canonical rows.
\<close>

theorem schema_order_independent:
  assumes "build_schema nf (PList raws) = Inr (S, n)" and "mset raws' = mset raws" and "keeps_scalars nf"
  shows "build_schema nf (PList raws') = Inr (S, n)"
proof -
  obtain fs where fs: "raws \<noteq> []" "length raws \<le> 500" "list_all2 (field_typed nf 0) (map raw_field_of raws) fs"
      "distinct (map fst fs)" "S = sort_fields fs" "n = fields_nodes fs" "n \<le> 10000"
    using assms(1) unfolding build_schema_iff by blast
  obtain fs' where fs': "list_all2 (field_typed nf 0) (map raw_field_of raws') fs'" "mset fs' = mset fs"
    using list_all2_reorder_left_invariance [OF fs(3), of "map raw_field_of raws'"] assms(2) by auto
  have "distinct (map fst fs')" using fs(4) fs'(2) by (metis mset_eq_imp_distinct_iff mset_map)
  moreover have "\<forall>f \<in> set fs. list_all scalar_value (fst f)"
    using list_all2_in [OF fs(3)] typed_good(2) [OF assms(3)] by blast
  then have "sort_fields fs' = sort_fields fs" by (rule sort_fields_perm [OF fs'(2) fs(4)])
  moreover have "fields_nodes fs' = fields_nodes fs" using fs'(2) by (simp flip: sum_mset_sum_list)
  moreover have "raws' \<noteq> []" "length raws' \<le> 500" using fs(1,2) assms(2) by (auto dest: mset_eq_length)
  ultimately show ?thesis unfolding build_schema_iff
    by (intro exI [of _ raws'] exI [of _ fs'] conjI refl) (use fs fs'(1) in simp_all)
qed

theorem schema_order_independent_witness:
  "build_schema id (PList (rev small_descriptors)) = Inr (small_schema, 3)"
  by (rule schema_order_independent [OF small_schema_built]) (simp_all add: keeps_scalars_def)

definition flag_schema :: "field list" where
  "flag_schema = [([97], TBoolean, False)]"

lemma flag_schema_built:
  "build_schema id (PList [PList [PStr [97], PStr (text_of ''boolean''), PBool False, PDict []]]) = Inr (flag_schema, 1)"
  by (simp add: flag_schema_def build_schema_def raw_field_of_def check_fields.simps check_type.simps
      nfc_def as_str_def text_of_def TAGS_def leaf_type_def scalar_value_def sort_fields_def)

text \<open>The hashed bytes of a schema digest.\<close>

definition schema_input :: "bytes \<Rightarrow> bytes" where
  "schema_input b = ascii ''aim-schema-v1'' @ [0] @ b"

text \<open>
  C29.  The schema digest identifies the schema: every accepted schema has one, and two accepted
  schemas with the same digest are equal, or their hashed bytes are a collision of the hash function.
\<close>

theorem schema_digest_identifies:
  assumes "build_schema nf d = Inr (S, n)" and "build_schema nf d' = Inr (S', n')" and "keeps_scalars nf"
  shows "\<exists>b b'. canonical_json_bytes (descriptors_json S) = Inr b \<and> canonical_json_bytes (descriptors_json S') = Inr b'
     \<and> schema_digest H S = Inr (compute_schema_digest H b) \<and> schema_digest H S' = Inr (compute_schema_digest H b')
     \<and> (compute_schema_digest H b = compute_schema_digest H b' 
           \<longrightarrow> S = S' \<or> schema_input b \<noteq> schema_input b' \<and> H (schema_input b) = H (schema_input b'))"
proof -
  note g = build_schema_good [OF assms(1,3)] and g' = build_schema_good [OF assms(2,3)]
  obtain b where b: "canonical_json_bytes (descriptors_json S) = Inr b" "canonical_json_bytes (descriptors_json S') = Inr b \<longleftrightarrow> S' = S"
    using descriptors_bytes [of S S'] g g' by blast
  obtain b' where b': "canonical_json_bytes (descriptors_json S') = Inr b'"
    using descriptors_bytes [of S' S] g g' by blast
  have "S = S' \<or> schema_input b \<noteq> schema_input b' \<and> H (schema_input b) = H (schema_input b')"
    if "compute_schema_digest H b = compute_schema_digest H b'"
  proof (cases "b = b'")
    case True
    then show ?thesis using b b' by simp
  next
    case False
    then show ?thesis using that by (simp add: compute_schema_digest_def schema_input_def)
  qed
  then show ?thesis unfolding schema_digest_def b(1) b' res_bind.simps by (intro exI [of _ b] exI [of _ b'] conjI refl impI)
qed

theorem schema_digest_identifies_witness:
  "\<exists>b b'. canonical_json_bytes (descriptors_json small_schema) = Inr b \<and> canonical_json_bytes (descriptors_json flag_schema) = Inr b'
     \<and> schema_digest id small_schema = Inr (compute_schema_digest id b)
     \<and> schema_digest id flag_schema = Inr (compute_schema_digest id b')
     \<and> (compute_schema_digest id b = compute_schema_digest id b'
           \<longrightarrow> small_schema = flag_schema \<or> schema_input b \<noteq> schema_input b' \<and> id (schema_input b) = id (schema_input b'))"
  by (rule schema_digest_identifies [OF small_schema_built flag_schema_built]) (simp add: keeps_scalars_def)

end
