(* ===== verification/Rows.thy ===== *)
theory Rows
  imports Canonical
begin

text \<open>
  Canonical rows (app/services/dataset_canonicalization.py, \<^verbatim>\<open>canonical_row\<close>, \<^verbatim>\<open>_record\<close>,
  \<^verbatim>\<open>_value\<close>): a source record becomes the JSON list of \<open>[name, tag, value]\<close> triples in the order of
  the schema.  A row of a CSV or TSV source is read in text mode.
\<close>

section \<open>Source values\<close>

text \<open>
  A \<^verbatim>\<open>datetime\<close> is its \<^verbatim>\<open>isoformat\<close> text; a key of a record that is no \<^verbatim>\<open>str\<close> is \<open>None\<close>; \<open>SOther\<close>
  is a value of any other type.
\<close>

datatype sval =
    SNone
  | SBool bool
  | SInt int
  | SText ustr
  | SDecimal "(bool \<times> nat \<times> int) option"
  | SDate date
  | SDatetime ustr
  | SBytes bytes
  | SList "sval list"
  | SRecord "(ustr option \<times> sval) list"
  | SOther

definition number_of :: "sval \<Rightarrow> number_arg" where
  "number_of v = (case v of SInt i \<Rightarrow> NInt i | SText s \<Rightarrow> NText s | SDecimal d \<Rightarrow> NDecimal d | _ \<Rightarrow> NOther)"

definition text_arg :: "sval \<Rightarrow> ustr option" where
  "text_arg v = (case v of SText s \<Rightarrow> Some s | _ \<Rightarrow> None)"

definition time_text :: "sval \<Rightarrow> ustr option" where
  "time_text v = (case v of SText s \<Rightarrow> Some s | SDatetime s \<Rightarrow> Some s | _ \<Rightarrow> None)"

definition canonical_boolean :: "bool \<Rightarrow> sval \<Rightarrow> cerror + pyval" where
  "canonical_boolean text v =
     (case v of
        SBool b \<Rightarrow> Inr (PBool b)
      | SText s \<Rightarrow>
          (if text \<and> (s = text_of ''true'' \<or> s = text_of ''false'') then Inr (PBool (s = text_of ''true''))
           else Inl ''invalid_boolean'')
      | SList xs \<Rightarrow> (if text then Inl ''TypeError'' else Inl ''invalid_boolean'')
      | SRecord r \<Rightarrow> (if text then Inl ''TypeError'' else Inl ''invalid_boolean'')
      | _ \<Rightarrow> Inl ''invalid_boolean'')"

definition date_value :: "sval \<Rightarrow> cerror + ustr" where
  "date_value v = (case v of SDate d \<Rightarrow> Inr (date_text d) | _ \<Rightarrow> canonical_date (text_arg v))"

text \<open>The branches of \<^verbatim>\<open>_value\<close> without nested values.\<close>

definition scalar_leaf :: "(ustr \<Rightarrow> ustr) \<Rightarrow> bool \<Rightarrow> ustr option \<Rightarrow> ltype \<Rightarrow> sval \<Rightarrow> cerror + pyval" where
  "scalar_leaf nf text offset t v =
     (case t of
        TString \<Rightarrow> res_bind (nfc nf (text_arg v)) (\<lambda>s. Inr (PStr s))
      | TBoolean \<Rightarrow> canonical_boolean text v
      | TInteger \<Rightarrow> res_bind (canonical_integer (number_of v)) (\<lambda>s. Inr (PStr s))
      | TDecimal p s \<Rightarrow> res_bind (canonical_decimal p s (number_of v)) (\<lambda>s. Inr (PStr s))
      | TDate \<Rightarrow> res_bind (date_value v) (\<lambda>s. Inr (PStr s))
      | TTimestamp p \<Rightarrow> res_bind (normalize_timestamp (time_text v) (nat p) offset) (\<lambda>s. Inr (PStr s))
      | TBinary \<Rightarrow> (case v of SBytes b \<Rightarrow> Inr (PStr (encode_base64url b)) | _ \<Rightarrow> Inl ''invalid_binary'')
      | _ \<Rightarrow> Inl ''unsupported_logical_type'')"

section \<open>Records\<close>

text \<open>The keys of a record in normal form; a second key with the same normal form is an error.\<close>

fun normalized :: "(ustr \<Rightarrow> ustr) \<Rightarrow> (ustr option \<times> sval) list \<Rightarrow> (ustr \<times> sval) list \<Rightarrow> cerror + (ustr \<times> sval) list" where
  "normalized nf [] acc = Inr (rev acc)"
| "normalized nf ((k, v) # kvs) acc =
     res_bind (nfc nf k) (\<lambda>k'. if k' \<in> fst ` set acc then Inl ''duplicate_field'' else normalized nf kvs ((k', v) # acc))"

definition tick :: "nat \<Rightarrow> nat \<Rightarrow> cerror + nat" where
  "tick depth cnt = (if cnt + 1 > 10000 then Inl ''node_limit'' else if depth > 16 then Inl ''depth_limit'' else Inr (cnt + 1))"

function row_value :: "(ustr \<Rightarrow> ustr) \<Rightarrow> bool \<Rightarrow> ustr option \<Rightarrow> ltype \<Rightarrow> sval \<Rightarrow> nat \<Rightarrow> nat \<Rightarrow> cerror + pyval \<times> nat"
  and row_values :: "(ustr \<Rightarrow> ustr) \<Rightarrow> bool \<Rightarrow> ustr option \<Rightarrow> ltype \<Rightarrow> sval list \<Rightarrow> nat \<Rightarrow> nat \<Rightarrow> cerror + pyval list \<times> nat"
  and row_fields :: "(ustr \<Rightarrow> ustr) \<Rightarrow> bool \<Rightarrow> ustr option \<Rightarrow> field list \<Rightarrow> (ustr \<times> sval) list \<Rightarrow> nat \<Rightarrow> nat \<Rightarrow> cerror + pyval list \<times> nat"
  and row_record :: "(ustr \<Rightarrow> ustr) \<Rightarrow> bool \<Rightarrow> ustr option \<Rightarrow> field list \<Rightarrow> sval \<Rightarrow> nat \<Rightarrow> nat \<Rightarrow> cerror + pyval \<times> nat"
where
  "row_value nf text offset t v depth cnt =
     res_bind (tick depth cnt) (\<lambda>n.
       if v = SNone then Inr (PNone, n)
       else case t of
         TArray e \<Rightarrow>
           (case v of SList xs \<Rightarrow> res_bind (row_values nf text offset e xs (depth + 1) n) (\<lambda>(ys, m). Inr (PList ys, m))
            | _ \<Rightarrow> Inl ''invalid_array'')
       | TObject fs \<Rightarrow> row_record nf text offset fs v (depth + 1) n
       | _ \<Rightarrow> res_bind (scalar_leaf nf text offset t v) (\<lambda>p. Inr (p, n)))"
| "row_values nf text offset t [] depth cnt = Inr ([], cnt)"
| "row_values nf text offset t (v # vs) depth cnt =
     res_bind (row_value nf text offset t v depth cnt) (\<lambda>(y, n).
     res_bind (row_values nf text offset t vs depth n) (\<lambda>(ys, m). Inr (y # ys, m)))"
| "row_fields nf text offset [] rec depth cnt = Inr ([], cnt)"
| "row_fields nf text offset ((name, t, nullable) # fs) rec depth cnt =
     res_bind
       (case map_of rec name of
          None \<Rightarrow> res_bind (tick depth cnt) (\<lambda>n. Inr (PList [PStr name, PStr (text_of ''missing''), PNone], n))
        | Some v \<Rightarrow>
            (if v = SNone
             then res_bind (tick depth cnt) (\<lambda>n.
               if \<not> nullable then Inl ''null_not_allowed'' else Inr (PList [PStr name, PStr (text_of ''null''), PNone], n))
             else res_bind (row_value nf text offset t v depth cnt) (\<lambda>(y, n).
               Inr (PList [PStr name, PStr (text_of (tag_of t)), y], n))))
       (\<lambda>(entry, n). res_bind (row_fields nf text offset fs rec depth n) (\<lambda>(entries, m). Inr (entry # entries, m)))"
| "row_record nf text offset fs v depth cnt =
     (case v of
        SRecord items \<Rightarrow>
          res_bind (normalized nf items []) (\<lambda>rec.
            if \<not> fst ` set rec \<subseteq> fst ` set fs then Inl ''unknown_field''
            else res_bind (row_fields nf text offset fs rec depth cnt) (\<lambda>(entries, n). Inr (PList entries, n)))
      | _ \<Rightarrow> Inl ''invalid_record'')"
  by pat_completeness auto
termination
  by (relation "inv_image (less_than <*lex*> less_than <*lex*> less_than)
      (\<lambda>x. case x of
         Inl (Inl (nf, text, offset, t, v, d, n)) \<Rightarrow> (size t, 1, 0)
       | Inl (Inr (nf, text, offset, t, vs, d, n)) \<Rightarrow> (size t, 2, length vs)
       | Inr (Inl (nf, text, offset, fs, rec, d, n)) \<Rightarrow> (size_list (size_prod (\<lambda>_. 0) (size_prod size (\<lambda>_. 0))) fs, 0, 0)
       | Inr (Inr (nf, text, offset, fs, v, d, n)) \<Rightarrow> (size_list (size_prod (\<lambda>_. 0) (size_prod size (\<lambda>_. 0))) fs, 1, 0))")
    auto

declare row_value.simps [simp del]
declare row_record.simps [simp del]

definition MAX_RECORD_BYTES :: nat where "MAX_RECORD_BYTES = 8 * 1024 * 1024"

definition canonical_row :: "(ustr \<Rightarrow> ustr) \<Rightarrow> field list \<Rightarrow> bool \<Rightarrow> ustr option \<Rightarrow> sval \<Rightarrow> cerror + bytes" where
  "canonical_row nf fs text source_timezone record =
     res_bind (row_record nf text source_timezone fs record 0 0) (\<lambda>(result, n).
     res_bind (canonical_json_bytes result) (\<lambda>encoded.
       if length encoded > MAX_RECORD_BYTES then Inl ''record_resource_limit'' else Inr encoded))"

section \<open>What a row denotes\<close>

text \<open>
  The meaning of a source value under a declared type, and the reading of a canonical entry.  A
  timestamp is its UTC instant, a number is a real, text is its normal form.  A missing field and a
  null field are different.
\<close>

datatype denoted =
    DMissing
  | DNull
  | DBool bool
  | DText ustr
  | DInt int
  | DReal real
  | DDay "date option"
  | DInstant "(int \<times> real) option"
  | DBytes bytes
  | DList "denoted list"
  | DFields "denoted list"
  | DBad

definition source_date :: "sval \<Rightarrow> date option" where
  "source_date v = (case v of SDate d \<Rightarrow> Some d | SText s \<Rightarrow> read_date s | _ \<Rightarrow> None)"

definition leaf_denotes :: "(ustr \<Rightarrow> ustr) \<Rightarrow> ustr option \<Rightarrow> ltype \<Rightarrow> sval \<Rightarrow> denoted" where
  "leaf_denotes nf offset t v =
     (if v = SNone then DNull else case t of
        TBoolean \<Rightarrow> DBool (v = SBool True \<or> v = SText (text_of ''true''))
      | TInteger \<Rightarrow> DInt (integer_value (number_of v))
      | TDecimal p s \<Rightarrow> DReal (number_value (number_of v))
      | TString \<Rightarrow> DText (nf (the (text_arg v)))
      | TDate \<Rightarrow> DDay (source_date v)
      | TTimestamp p \<Rightarrow> DInstant (instant (the (time_text v)) offset)
      | TBinary \<Rightarrow> (case v of SBytes b \<Rightarrow> DBytes b | _ \<Rightarrow> DBad)
      | _ \<Rightarrow> DBad)"

text \<open>The value of the key of a record whose normal form is a name.\<close>

definition field_of :: "(ustr \<Rightarrow> ustr) \<Rightarrow> (ustr option \<times> sval) list \<Rightarrow> ustr \<Rightarrow> sval option" where
  "field_of nf items name = map_option snd (find (\<lambda>i. map_option nf (fst i) = Some name) items)"

function denotes :: "(ustr \<Rightarrow> ustr) \<Rightarrow> ustr option \<Rightarrow> ltype \<Rightarrow> sval \<Rightarrow> denoted" where
  "denotes nf offset t v =
     (case t of
        TArray e \<Rightarrow>
          (case v of SNone \<Rightarrow> DNull | SList xs \<Rightarrow> DList (map (denotes nf offset e) xs) | _ \<Rightarrow> DBad)
      | TObject fs \<Rightarrow>
          (case v of
             SNone \<Rightarrow> DNull
           | SRecord items \<Rightarrow>
               DFields (map (\<lambda>f. case field_of nf items (fst f) of None \<Rightarrow> DMissing | Some x \<Rightarrow> denotes nf offset (fst (snd f)) x) fs)
           | _ \<Rightarrow> DBad)
      | _ \<Rightarrow> leaf_denotes nf offset t v)"
  by pat_completeness auto

lemma field_size: "f \<in> set fs \<Longrightarrow> size (fst (snd f)) < size (TObject fs)"
proof -
  assume f: "f \<in> set fs"
  have "size (fst (snd f)) \<le> size_prod (\<lambda>_. 0) (size_prod size (\<lambda>_. 0)) f" by (cases f) simp
  then show ?thesis using size_list_estimation' [OF f] by (simp add: less_Suc_eq_le)
qed

termination denotes
  by (relation "measure (\<lambda>(nf, offset, t, v). size t)") (use field_size in auto)

definition leaf_decode :: "ltype \<Rightarrow> pyval \<Rightarrow> denoted" where
  "leaf_decode t y =
     (case (t, y) of
        (_, PNone) \<Rightarrow> DNull
      | (TBoolean, PBool b) \<Rightarrow> DBool b
      | (TInteger, PStr s) \<Rightarrow> DInt (text_int s)
      | (TDecimal p q, PStr s) \<Rightarrow> (case match_decimal s of Some m \<Rightarrow> DReal (text_value m) | None \<Rightarrow> DBad)
      | (TString, PStr s) \<Rightarrow> DText s
      | (TDate, PStr s) \<Rightarrow> DDay (read_date s)
      | (TTimestamp p, PStr s) \<Rightarrow> DInstant (instant s None)
      | (TBinary, PStr s) \<Rightarrow> (case (if s = [] then Inr [] else decode_base64url s) of Inr b \<Rightarrow> DBytes b | Inl e \<Rightarrow> DBad)
      | _ \<Rightarrow> DBad)"

definition entry_parts :: "pyval \<Rightarrow> (ustr \<times> ustr \<times> pyval) option" where
  "entry_parts e = (case e of PList [PStr name, PStr tag, y] \<Rightarrow> Some (name, tag, y) | _ \<Rightarrow> None)"

function decode :: "ltype \<Rightarrow> pyval \<Rightarrow> denoted" where
  "decode t y =
     (case t of
        TArray e \<Rightarrow> (case y of PNone \<Rightarrow> DNull | PList ys \<Rightarrow> DList (map (decode e) ys) | _ \<Rightarrow> DBad)
      | TObject fs \<Rightarrow>
          (case y of
             PNone \<Rightarrow> DNull
           | PList es \<Rightarrow>
               DFields (map (\<lambda>(f, e). case entry_parts e of None \<Rightarrow> DBad
                 | Some (name, tag, x) \<Rightarrow>
                     (if tag = text_of ''missing'' then DMissing else if tag = text_of ''null'' then DNull
                      else decode (fst (snd f)) x)) (zip fs es))
           | _ \<Rightarrow> DBad)
      | _ \<Rightarrow> leaf_decode t y)"
  by pat_completeness auto
termination decode
proof (relation "measure (\<lambda>(t, y). size t)", goal_cases)
  case (3 t y fs es fe f e a b c d x)
  then have "f \<in> set fs" by (auto dest!: set_zip_leftD)
  from field_size [OF this] 3 show ?case by simp
qed auto

declare denotes.simps [simp del]
declare decode.simps [simp del]

text \<open>The shape of a canonical value and of the entry of a field.\<close>

definition leaf_shaped :: "ltype \<Rightarrow> pyval \<Rightarrow> bool" where
  "leaf_shaped t y =
     (case y of PNone \<Rightarrow> True | PBool b \<Rightarrow> t = TBoolean
      | PStr s \<Rightarrow> t \<noteq> TBoolean \<and> (\<forall>e. t \<noteq> TArray e) \<and> (\<forall>fs. t \<noteq> TObject fs) | _ \<Rightarrow> False)"

text \<open>The one spelling of a value: with the flag, a shaped value is spelled so.\<close>

inductive leaf_canonical :: "ltype \<Rightarrow> pyval \<Rightarrow> bool" where
  "leaf_canonical t PNone"
| "leaf_canonical TBoolean (PBool b)"
| "leaf_canonical TInteger (PStr (int_text i))"
| "canonical_decimal p q v = Inr s \<Longrightarrow> leaf_canonical (TDecimal p q) (PStr s)"
| "leaf_canonical TString (PStr s)"
| "valid_date d \<Longrightarrow> leaf_canonical TDate (PStr (date_text d))"
| "normalize_timestamp (Some x) (nat p) offset = Inr s \<Longrightarrow> western x \<Longrightarrow> leaf_canonical (TTimestamp p) (PStr s)"
| "leaf_canonical TBinary (PStr (encode_base64url b))"

function shaped :: "bool \<Rightarrow> ltype \<Rightarrow> pyval \<Rightarrow> bool" where
  "shaped a t y =
     (case t of
        TArray e \<Rightarrow> (case y of PNone \<Rightarrow> True | PList ys \<Rightarrow> (\<forall>x \<in> set ys. shaped a e x) | _ \<Rightarrow> False)
      | TObject fs \<Rightarrow>
          (case y of
             PNone \<Rightarrow> True
           | PList es \<Rightarrow>
               length es = length fs \<and> (\<forall>(f, e) \<in> set (zip fs es). case entry_parts e of None \<Rightarrow> False
                 | Some (name, tag, x) \<Rightarrow> name = fst f
                     \<and> (if tag = text_of ''missing'' then x = PNone else if tag = text_of ''null'' then snd (snd f) \<and> x = PNone
                        else tag = text_of (tag_of (fst (snd f))) \<and> x \<noteq> PNone \<and> shaped a (fst (snd f)) x))
           | _ \<Rightarrow> False)
      | _ \<Rightarrow> leaf_shaped t y \<and> (a \<longrightarrow> leaf_canonical t y))"
  by pat_completeness auto
termination shaped
proof (relation "measure (\<lambda>(a, t, y). size t)", goal_cases)
  case (3 a t y fs es fe f e)
  then have "f \<in> set fs" by (auto dest!: set_zip_leftD)
  from field_size [OF this] 3 show ?case by simp
qed auto

declare shaped.simps [simp del]

fun nodes :: "denoted \<Rightarrow> nat" where
  "nodes (DList ms) = 1 + sum_list (map nodes ms)"
| "nodes (DFields ms) = 1 + sum_list (map nodes ms)"
| "nodes m = 1"

text \<open>
  Dates of the source are dates of the calendar, as every \<^verbatim>\<open>datetime.date\<close> is; with the flag, the
  digits of its texts are ASCII digits.
\<close>

fun proper :: "bool \<Rightarrow> sval \<Rightarrow> bool" where
  "proper a (SDate d) = valid_date d"
| "proper a (SText s) = (a \<longrightarrow> western s)"
| "proper a (SDatetime s) = (a \<longrightarrow> western s)"
| "proper a (SList xs) = (\<forall>x \<in> set xs. proper a x)"
| "proper a (SRecord items) = (\<forall>i \<in> set items. proper a (snd i))"
| "proper a v = True"

section \<open>The code computes the meaning\<close>

lemma normalized_facts:
  "normalized nf items acc = Inr rec \<Longrightarrow>
     \<exists>new. rec = rev acc @ new \<and> list_all2 (\<lambda>i r. nfc nf (fst i) = Inr (fst r) \<and> snd i = snd r) items new
       \<and> (distinct (map fst acc) \<longrightarrow> distinct (map fst rec))"
proof (induction nf items acc rule: normalized.induct)
  case (1 nf acc)
  then show ?case by (auto simp: rev_map [symmetric])
next
  case (2 nf k v kvs acc)
  then obtain k' where k: "nfc nf k = Inr k'" "k' \<notin> fst ` set acc" "normalized nf kvs ((k', v) # acc) = Inr rec"
    by (auto split: if_split_asm)
  obtain new where "rec = rev ((k', v) # acc) @ new" "list_all2 (\<lambda>i r. nfc nf (fst i) = Inr (fst r) \<and> snd i = snd r) kvs new"
      "distinct (map fst ((k', v) # acc)) \<longrightarrow> distinct (map fst rec)"
    using "2.IH" [OF k] by blast
  then show ?case using k by (intro exI [of _ "(k', v) # new"]) simp
qed

lemma nfc_key: "nfc nf k = Inr x \<Longrightarrow> map_option nf k = Some x"
  by (auto simp: nfc_def split: option.splits if_split_asm)

lemma lookup_field:
  "list_all2 (\<lambda>i r. nfc nf (fst i) = Inr (fst r) \<and> snd i = snd r) items rec \<Longrightarrow> map_of rec name = field_of nf items name"
proof (induction rule: list_all2_induct)
  case (Cons i items r rec)
  then show ?case using nfc_key [of nf "fst i" "fst r"] by (cases r) (auto simp: field_of_def)
qed (simp add: field_of_def)

lemma date_value_reads: "date_value v = Inr s \<Longrightarrow> proper a v \<Longrightarrow> \<exists>d. s = date_text d \<and> valid_date d \<and> source_date v = Some d"
  by (cases v) (auto simp: date_value_def source_date_def canonical_date_def text_arg_def
      dest: read_date_valid split: if_split_asm option.splits)

lemmas leaf_defs = scalar_leaf_def leaf_denotes_def leaf_decode_def leaf_shaped_def

lemma scalar_leaf_denotes:
  assumes "scalar_leaf nf tx offset t v = Inr y" and "good_type k t" and "proper a v" and "v \<noteq> SNone"
  shows "leaf_decode t y = leaf_denotes nf offset t v \<and> leaf_shaped t y \<and> (a \<longrightarrow> leaf_canonical t y) \<and> y \<noteq> PNone"
proof (cases t)
  case TBoolean
  then show ?thesis using assms
    by (cases v) (auto simp: leaf_defs canonical_boolean_def text_of_inj leaf_canonical.intros split: if_split_asm)
next
  case TInteger
  then obtain s where s: "canonical_integer (number_of v) = Inr s" "y = PStr s" using assms(1) by (auto simp: leaf_defs)
  have "s = int_text (integer_value (number_of v))" if a
    using western_integer_spelling [OF s(1)] assms(3) that by (cases v) (auto simp: number_of_def western_arg_def)
  then show ?thesis using TInteger assms(4) canonical_integer_value [OF s(1)] s(2)
    by (auto simp: leaf_defs intro: leaf_canonical.intros)
next
  case (TDecimal p s)
  then show ?thesis using assms canonical_decimal_value [of p s "number_of v"]
    by (auto simp: leaf_defs intro: leaf_canonical.intros)
next
  case TString
  then show ?thesis using assms nfc_key [of nf "text_arg v"] by (auto simp: leaf_defs intro: leaf_canonical.intros)
next
  case TDate
  then obtain s where s: "date_value v = Inr s" "y = PStr s" using assms(1) by (auto simp: leaf_defs)
  obtain d where "s = date_text d" "valid_date d" "source_date v = Some d" using date_value_reads [OF s(1) assms(3)] by blast
  then show ?thesis using TDate assms(4) s(2) date_text_facts(3) by (auto simp: leaf_defs intro: leaf_canonical.intros)
next
  case (TTimestamp p)
  then obtain s where s: "normalize_timestamp (time_text v) (nat p) offset = Inr s" "y = PStr s"
    using assms(1) by (auto simp: leaf_defs)
  then obtain w where w: "time_text v = Some w" by (cases "time_text v") (simp_all add: normalize_timestamp_def)
  have "nat p \<le> 9" using assms(2) TTimestamp by (simp add: nat_le_iff)
  from timestamp_reads [OF s(1) [unfolded w] this] have "instant s None = instant w offset" by auto
  moreover have "a \<longrightarrow> western w" using assms(3) w by (cases v) (auto simp: time_text_def)
  ultimately show ?thesis using TTimestamp s w assms(4) leaf_canonical.intros(7) [OF s(1) [unfolded w]] by (auto simp: leaf_defs)
next
  case TBinary
  then show ?thesis using assms decode_encode by (cases v) (auto simp: leaf_defs intro: leaf_canonical.intros)
qed (use assms in \<open>simp_all add: scalar_leaf_def\<close>)

text \<open>The meaning of the fields of a record with normalized keys.\<close>

definition field_denotes :: "(ustr \<Rightarrow> ustr) \<Rightarrow> ustr option \<Rightarrow> (ustr \<times> sval) list \<Rightarrow> field \<Rightarrow> denoted" where
  "field_denotes nf offset rec f =
     (case map_of rec (fst f) of None \<Rightarrow> DMissing | Some x \<Rightarrow> denotes nf offset (fst (snd f)) x)"

definition fields_denote :: "(ustr \<Rightarrow> ustr) \<Rightarrow> ustr option \<Rightarrow> field list \<Rightarrow> (ustr \<times> sval) list \<Rightarrow> denoted list" where
  "fields_denote nf offset fs rec =
     map (field_denotes nf offset rec) fs"

definition entry_decode :: "field \<Rightarrow> pyval \<Rightarrow> denoted" where
  "entry_decode f e =
     (case entry_parts e of None \<Rightarrow> DBad
      | Some (name, tag, x) \<Rightarrow>
          (if tag = text_of ''missing'' then DMissing else if tag = text_of ''null'' then DNull else decode (fst (snd f)) x))"

definition entry_shaped :: "bool \<Rightarrow> field \<Rightarrow> pyval \<Rightarrow> bool" where
  "entry_shaped a f e =
     (case entry_parts e of None \<Rightarrow> False
      | Some (name, tag, x) \<Rightarrow> name = fst f
          \<and> (if tag = text_of ''missing'' then x = PNone else if tag = text_of ''null'' then snd (snd f) \<and> x = PNone
             else tag = text_of (tag_of (fst (snd f))) \<and> x \<noteq> PNone \<and> shaped a (fst (snd f)) x))"

lemma denotes_leaf: "\<forall>e. t \<noteq> TArray e \<Longrightarrow> \<forall>fs. t \<noteq> TObject fs \<Longrightarrow> denotes nf offset t v = leaf_denotes nf offset t v"
  by (subst denotes.simps) (cases t; simp)

lemma decode_leaf: "\<forall>e. t \<noteq> TArray e \<Longrightarrow> \<forall>fs. t \<noteq> TObject fs \<Longrightarrow> decode t y = leaf_decode t y"
  by (subst decode.simps) (cases t; simp)

lemma shaped_leaf: "\<forall>e. t \<noteq> TArray e \<Longrightarrow> \<forall>fs. t \<noteq> TObject fs \<Longrightarrow> shaped a t y = (leaf_shaped t y \<and> (a \<longrightarrow> leaf_canonical t y))"
  by (subst shaped.simps) (cases t; simp)

lemma null_value [simp]:
  "decode t PNone = DNull" "denotes nf offset t SNone = DNull" "shaped a t PNone"
  by (cases t; simp add: decode.simps denotes.simps shaped.simps leaf_defs leaf_canonical.intros)+

lemma array_value:
  "decode (TArray e) (PList ys) = DList (map (decode e) ys)"
  "denotes nf offset (TArray e) (SList xs) = DList (map (denotes nf offset e) xs)"
  "shaped a (TArray e) (PList ys) = (\<forall>x \<in> set ys. shaped a e x)"
  by (simp_all add: decode.simps [of "TArray e"] denotes.simps [of nf offset "TArray e"] shaped.simps [of a "TArray e"])

lemma object_value:
  "decode (TObject fs) (PList es) = DFields (map2 entry_decode fs es)"
  "shaped a (TObject fs) (PList es) = list_all2 (entry_shaped a) fs es"
  by (simp_all add: decode.simps [of "TObject fs"] shaped.simps [of a "TObject fs"] entry_decode_def [abs_def]
      entry_shaped_def [abs_def] list_all2_iff eq_commute)

lemma object_denotes:
  "normalized nf items [] = Inr rec \<Longrightarrow> denotes nf offset (TObject fs) (SRecord items) = DFields (fields_denote nf offset fs rec)"
  using normalized_facts [of nf items "[]" rec] lookup_field [of nf items rec]
  by (auto simp: denotes.simps [of nf offset "TObject fs"] fields_denote_def field_denotes_def)

lemma leaf_denotes_nodes: "nodes (leaf_denotes nf offset t v) = 1"
  by (cases t) (auto simp: leaf_denotes_def split: sval.splits)

lemma tag_not_special: "text_of (tag_of t) \<noteq> text_of ''missing''" "text_of (tag_of t) \<noteq> text_of ''null''"
  by (cases t; simp add: text_of_inj)+

lemma tick_iff: "tick d cnt = Inr m \<longleftrightarrow> m = cnt + 1 \<and> cnt + 1 \<le> 10000 \<and> d \<le> 16"
  by (auto simp: tick_def)

text \<open>The entry of one field.\<close>

lemma entry_facts:
  assumes "tag = text_of (tag_of t)" and "decode t y = m" and "shaped a t y" and "y \<noteq> PNone"
  shows "entry_decode (name, t, b) (PList [PStr name, PStr tag, y]) = m
    \<and> entry_shaped a (name, t, b) (PList [PStr name, PStr tag, y])"
  using assms tag_not_special [of t] by (simp add: entry_decode_def entry_shaped_def entry_parts_def)

lemma entry_missing:
  "entry_decode (name, t, b) (PList [PStr name, PStr (text_of ''missing''), PNone]) = DMissing"
  "entry_shaped a (name, t, b) (PList [PStr name, PStr (text_of ''missing''), PNone])"
  "entry_decode (name, t, b) (PList [PStr name, PStr (text_of ''null''), PNone]) = DNull"
  "entry_shaped a (name, t, b) (PList [PStr name, PStr (text_of ''null''), PNone]) = b"
  by (simp_all add: entry_decode_def entry_shaped_def entry_parts_def text_of_inj)

lemma row_facts:
  "row_value nf tx offset t v d cnt = Inr (y, n) \<Longrightarrow> good_type k t \<Longrightarrow> proper a v \<Longrightarrow>
     decode t y = denotes nf offset t v \<and> shaped a t y \<and> (y = PNone \<longleftrightarrow> v = SNone)
     \<and> n = cnt + nodes (denotes nf offset t v) \<and> n \<le> 10000"
  "row_values nf tx offset t vs d cnt = Inr (ys, n) \<Longrightarrow> good_type k t \<Longrightarrow> \<forall>v \<in> set vs. proper a v \<Longrightarrow>
     map (decode t) ys = map (denotes nf offset t) vs \<and> (\<forall>y \<in> set ys. shaped a t y)
     \<and> n = cnt + sum_list (map nodes (map (denotes nf offset t) vs)) \<and> (cnt \<le> 10000 \<longrightarrow> n \<le> 10000)"
  "row_fields nf tx offset fs rec d cnt = Inr (es, n) \<Longrightarrow> \<forall>f \<in> set fs. good_type k (fst (snd f))
     \<Longrightarrow> \<forall>r \<in> set rec. proper a (snd r) \<Longrightarrow>
     map2 entry_decode fs es = fields_denote nf offset fs rec \<and> list_all2 (entry_shaped a) fs es
     \<and> n = cnt + sum_list (map nodes (fields_denote nf offset fs rec)) \<and> (cnt \<le> 10000 \<longrightarrow> n \<le> 10000)"
  "row_record nf tx offset fs v d cnt = Inr (y, n) \<Longrightarrow> \<forall>f \<in> set fs. good_type k (fst (snd f)) \<Longrightarrow> proper a v \<Longrightarrow>
     decode (TObject fs) y = denotes nf offset (TObject fs) v \<and> shaped a (TObject fs) y \<and> y \<noteq> PNone \<and> v \<noteq> SNone
     \<and> Suc n = cnt + nodes (denotes nf offset (TObject fs) v) \<and> (cnt \<le> 10000 \<longrightarrow> n \<le> 10000)"
proof (induction nf tx offset t v d cnt and nf tx offset t vs d cnt and nf tx offset fs rec d cnt and nf tx offset fs v d cnt
    arbitrary: y n k and ys n k and es n k and y n k
    rule: row_value_row_values_row_fields_row_record.induct)
  case (1 nf tx offset t v d cnt)
  obtain m where m: "tick d cnt = Inr m" and m': "m = cnt + 1" "m \<le> 10000"
    using "1.prems"(1) unfolding row_value.simps [of _ _ _ t] by (rule res_bindE) (use tick_iff in auto)
  show ?case
  proof (cases "v = SNone")
    case True
    then show ?thesis using "1.prems"(1) m m' by (simp add: row_value.simps)
  next
    case False
    consider (arr) e where "t = TArray e" | (obj) fs where "t = TObject fs" | (lf) "\<forall>e. t \<noteq> TArray e" "\<forall>fs. t \<noteq> TObject fs" by blast
    then show ?thesis
    proof cases
      case arr
      then obtain xs ys where v: "v = SList xs" and r: "row_values nf tx offset e xs (d + 1) m = Inr (ys, n)" and y: "y = PList ys"
        using "1.prems"(1) False m by (cases v) (auto simp: row_value.simps)
      show ?thesis using "1.IH"(1) [OF m False arr v r, of "k + 1"] "1.prems"(2,3) m' by (simp add: arr v y array_value)
    next
      case obj
      then have r: "row_record nf tx offset fs v (d + 1) m = Inr (y, n)"
        using "1.prems"(1) False m by (simp add: row_value.simps)
      show ?thesis using "1.IH"(2) [OF m False obj r, of "k + 1"] "1.prems"(2,3) m' by (simp add: obj)
    next
      case lf
      then have r: "scalar_leaf nf tx offset t v = Inr y \<and> n = m"
        using "1.prems"(1) False m by (cases t) (auto simp: row_value.simps)
      show ?thesis using scalar_leaf_denotes [OF conjunct1 [OF r] "1.prems"(2,3) False] m' r False
        by (simp add: denotes_leaf [OF lf] decode_leaf [OF lf] shaped_leaf [OF lf] leaf_denotes_nodes)
    qed
  qed
next
  case (3 nf tx offset t v vs d cnt)
  obtain y n' where v: "row_value nf tx offset t v d cnt = Inr (y, n')"
    and r: "\<exists>ys'. row_values nf tx offset t vs d n' = Inr (ys', n) \<and> ys = y # ys'"
    using "3.prems"(1) by auto
  then obtain ys' where r: "row_values nf tx offset t vs d n' = Inr (ys', n)" "ys = y # ys'" by blast
  show ?case using "3.IH"(1) [OF v "3.prems"(2)] "3.IH"(2) [OF v refl r(1) "3.prems"(2)] "3.prems"(3) r(2) by simp
next
  case (5 nf tx offset name t b fs rec d cnt)
  obtain e n' es' where e: "(case map_of rec name of
          None \<Rightarrow> res_bind (tick d cnt) (\<lambda>n. Inr (PList [PStr name, PStr (text_of ''missing''), PNone], n))
        | Some v \<Rightarrow>
            (if v = SNone
             then res_bind (tick d cnt) (\<lambda>n.
               if \<not> b then Inl ''null_not_allowed'' else Inr (PList [PStr name, PStr (text_of ''null''), PNone], n))
             else res_bind (row_value nf tx offset t v d cnt) (\<lambda>(y, n).
               Inr (PList [PStr name, PStr (text_of (tag_of t)), y], n)))) = Inr (e, n')"
    and r: "row_fields nf tx offset fs rec d n' = Inr (es', n)" and es: "es = e # es'"
    using "5.prems"(1) unfolding row_fields.simps by (elim res_bind2E) auto
  let ?m = "field_denotes nf offset rec (name, t, b)"
  have "entry_decode (name, t, b) e = ?m \<and> entry_shaped a (name, t, b) e \<and> n' = cnt + nodes ?m \<and> n' \<le> 10000"
  proof (cases "map_of rec name")
    case None
    then show ?thesis using e by (auto simp: tick_iff entry_missing field_denotes_def)
  next
    case (Some v)
    show ?thesis
    proof (cases "v = SNone")
      case True
      then show ?thesis using Some e by (auto simp: tick_iff entry_missing field_denotes_def split: if_split_asm)
    next
      case False
      then obtain y where y: "row_value nf tx offset t v d cnt = Inr (y, n')"
          and ey: "e = PList [PStr name, PStr (text_of (tag_of t)), y]" using Some e by auto
      have g: "good_type k t" "proper a v" using "5.prems"(2,3) map_of_SomeD [OF Some] by auto
      show ?thesis using "5.IH"(1) [OF Some False y g] entry_facts [OF refl, of t y "denotes nf offset t v" a name b]
          Some False ey by (simp add: field_denotes_def)
    qed
  qed
  moreover have "map2 entry_decode fs es' = fields_denote nf offset fs rec \<and> list_all2 (entry_shaped a) fs es'
     \<and> n = n' + sum_list (map nodes (fields_denote nf offset fs rec)) \<and> (n' \<le> 10000 \<longrightarrow> n \<le> 10000)"
    by (rule "5.IH"(2) [OF e refl r]) (use "5.prems" in auto)
  ultimately show ?case by (simp add: es fields_denote_def)
next
  case (6 nf tx offset fs v d cnt)
  then obtain items where v: "v = SRecord items" by (cases v) (simp_all add: row_record.simps)
  obtain rec where rec: "normalized nf items [] = Inr rec" using "6.prems"(1) v by (auto simp: row_record.simps)
  have k: "\<not> \<not> fst ` set rec \<subseteq> fst ` set fs" using "6.prems"(1) v rec by (auto simp: row_record.simps split: if_split_asm)
  obtain es where es: "row_fields nf tx offset fs rec d cnt = Inr (es, n)" "y = PList es"
    using "6.prems"(1) v rec k by (auto simp: row_record.simps)
  have "\<forall>r \<in> set rec. proper a (snd r)"
    using normalized_facts [OF rec] "6.prems"(3) list_all2_in by (fastforce simp: v)
  from "6.IH" [OF v rec k es(1) "6.prems"(2) this] show ?case
    by (auto simp: es(2) v object_value object_denotes [OF rec])
qed (simp_all add: fields_denote_def)

section \<open>Canonical values are told apart by their meaning\<close>

inductive_cases canonical_leafE: "leaf_canonical t y"

lemma leaf_decode_None [simp]: "leaf_decode t PNone = DNull"
  by (cases t) (simp_all add: leaf_decode_def)

lemma leaf_decode_not_null:
  assumes "leaf_canonical t y" and "y \<noteq> PNone"
  shows "leaf_decode t y \<noteq> DNull \<and> leaf_decode t y \<noteq> DMissing"
  using assms
proof (cases rule: leaf_canonical.cases)
  case (4 p q v s)
  then show ?thesis using canonical_decimal_value by (fastforce simp: leaf_decode_def)
next
  case (8 b)
  then show ?thesis using decode_encode [of b] by (cases "b = []") (auto simp: leaf_decode_def)
qed (auto simp: leaf_decode_def)

lemma leaf_decode_inj:
  assumes "leaf_canonical t y" and "leaf_canonical t y'" and "good_type k t" and "leaf_decode t y = leaf_decode t y'"
  shows "y = y'"
proof (cases "y = PNone \<or> y' = PNone")
  case True
  then show ?thesis
    using leaf_decode_not_null [OF assms(1)] leaf_decode_not_null [OF assms(2)] assms(4)
    by (cases "y = PNone"; cases "y' = PNone") auto
next
  case False
  show ?thesis
    using assms(1)
  proof (cases rule: leaf_canonical.cases)
    case (2 b)
    then show ?thesis using assms(2,4) False by (auto simp: leaf_decode_def elim: canonical_leafE)
  next
    case (3 i)
    then show ?thesis using assms(2,4) False by (auto simp: leaf_decode_def elim: canonical_leafE)
  next
    case (4 p q v s)
    obtain v' s' where y': "canonical_decimal p q v' = Inr s'" "y' = PStr s'"
      using assms(2) False by (cases rule: leaf_canonical.cases) (auto simp: 4)
    then show ?thesis
      using canonical_decimal_value [OF 4(3)] canonical_decimal_value [OF y'(1)] canonical_decimal_unique [OF 4(3) y'(1)] assms(4) 4(1,2)
      by (auto simp: leaf_decode_def)
  next
    case (5 s)
    then show ?thesis using assms(2,4) False by (auto simp: leaf_decode_def elim: canonical_leafE)
  next
    case (6 d)
    obtain d' where "y' = PStr (date_text d')" "valid_date d'"
      using assms(2) False by (cases rule: leaf_canonical.cases) (auto simp: 6(1))
    then show ?thesis using 6 assms(4) by (simp add: leaf_decode_def date_text_facts(3))
  next
    case (7 x p offset s)
    obtain x' offset' s' where y': "normalize_timestamp (Some x') (nat p) offset' = Inr s'" "western x'" "y' = PStr s'"
      using assms(2) False by (cases rule: leaf_canonical.cases) (auto simp: 7)
    have p: "nat p \<le> 9" using assms(3) 7(1) by (simp add: nat_le_iff)
    obtain i where i: "instant x offset = Some i" "instant s None = Some i" using timestamp_reads [OF 7(3) p] by blast
    obtain i' where i': "instant x' offset' = Some i'" "instant s' None = Some i'" using timestamp_reads [OF y'(1) p] by blast
    have "i = i'" using assms(4) i(2) i'(2) 7(1,2) y'(3) by (simp add: leaf_decode_def)
    then have "s = s'" using timestamp_unique [OF 7(3) y'(1) 7(4) y'(2)] i(1) i'(1) by simp
    then show ?thesis using 7(2) y'(3) by simp
  next
    case (8 b)
    obtain b' where y': "y' = PStr (encode_base64url b')"
      using assms(2) False by (cases rule: leaf_canonical.cases) (auto simp: 8(1))
    have "(if encode_base64url c = [] then Inr [] else decode_base64url (encode_base64url c)) = Inr c" for c
      using decode_encode [of c] by (cases "c = []") simp_all
    then show ?thesis using 8 y' assms(4) by (simp add: leaf_decode_def)
  qed (use False in simp)
qed

lemma canonical_leaf_value: "shaped True t y \<Longrightarrow> \<forall>e. t \<noteq> TArray e \<Longrightarrow> \<forall>fs. t \<noteq> TObject fs \<Longrightarrow> leaf_canonical t y"
  by (simp add: shaped_leaf)

text \<open>A shaped value other than null is an array, an object or a leaf.\<close>

lemma shaped_array: "shaped a (TArray e) y \<Longrightarrow> y = PNone \<or> (\<exists>ys. y = PList ys \<and> (\<forall>x \<in> set ys. shaped a e x))"
  by (cases y) (simp_all add: shaped.simps)

lemma shaped_object: "shaped a (TObject fs) y \<Longrightarrow> y = PNone \<or> (\<exists>es. y = PList es \<and> list_all2 (entry_shaped a) fs es)"
  using object_value(2) by (cases y) (simp_all add: shaped.simps [of a "TObject fs" "_ :: pyval"])

lemma decode_not_null: "shaped True t y \<Longrightarrow> y \<noteq> PNone \<Longrightarrow> decode t y \<noteq> DNull \<and> decode t y \<noteq> DMissing"
proof -
  assume s: "shaped True t y" and y: "y \<noteq> PNone"
  consider e where "t = TArray e" | fs where "t = TObject fs" | "\<forall>e. t \<noteq> TArray e" "\<forall>fs. t \<noteq> TObject fs" by blast
  then show ?thesis
  proof cases
    case 1
    then show ?thesis using s y shaped_array [of True e y] by (auto simp: array_value)
  next
    case 2
    then show ?thesis using s y shaped_object [of True fs y] by (auto simp: object_value)
  next
    case 3
    then show ?thesis using leaf_decode_not_null canonical_leaf_value s y by (simp add: decode_leaf)
  qed
qed

lemma entry_inj:
  assumes "entry_shaped True f e" and "entry_shaped True f e'" and "entry_decode f e = entry_decode f e'"
    and inj: "\<And>x x'. shaped True (fst (snd f)) x \<Longrightarrow> shaped True (fst (snd f)) x'
      \<Longrightarrow> decode (fst (snd f)) x = decode (fst (snd f)) x' \<Longrightarrow> x = x'"
  shows "e = e'"
proof -
  have parts: "\<exists>tag x. e = PList [PStr (fst f), PStr tag, x] \<and>
      (tag = text_of ''missing'' \<and> x = PNone \<and> entry_decode f e = DMissing
       \<or> tag = text_of ''null'' \<and> x = PNone \<and> entry_decode f e = DNull
       \<or> tag = text_of (tag_of (fst (snd f))) \<and> shaped True (fst (snd f)) x \<and> entry_decode f e = decode (fst (snd f)) x
          \<and> decode (fst (snd f)) x \<noteq> DMissing \<and> decode (fst (snd f)) x \<noteq> DNull)"
    if es: "entry_shaped True f e" for e
  proof -
    obtain name tag x where p: "entry_parts e = Some (name, tag, x)"
      using es by (cases "entry_parts e") (auto simp: entry_shaped_def)
    then have e: "e = PList [PStr name, PStr tag, x]" by (auto simp: entry_parts_def split: pyval.splits list.splits)
    have p': "entry_parts (PList [PStr name, PStr tag, x]) = Some (name, tag, x)" by (simp add: entry_parts_def)
    have n: "name = fst f" and c: "if tag = text_of ''missing'' then x = PNone
        else if tag = text_of ''null'' then snd (snd f) \<and> x = PNone
        else tag = text_of (tag_of (fst (snd f))) \<and> x \<noteq> PNone \<and> shaped True (fst (snd f)) x"
      using es unfolding e entry_shaped_def p' option.case prod.case by blast+
    have d: "entry_decode f e = (if tag = text_of ''missing'' then DMissing else if tag = text_of ''null'' then DNull
        else decode (fst (snd f)) x)" by (simp add: e p' entry_decode_def)
    consider "tag = text_of ''missing''" | "tag \<noteq> text_of ''missing''" "tag = text_of ''null''"
      | "tag \<noteq> text_of ''missing''" "tag \<noteq> text_of ''null''" by blast
    then show ?thesis
    proof cases
      case 3
      then have "tag = text_of (tag_of (fst (snd f)))" "x \<noteq> PNone" "shaped True (fst (snd f)) x" using c by simp_all
      then show ?thesis using e n d 3 decode_not_null [of "fst (snd f)" x] by simp
    qed (use e n c d in simp_all)
  qed
  show ?thesis using parts [OF assms(1)] parts [OF assms(2)] assms(3) inj by (elim exE conjE disjE) auto
qed

lemma entries_inj:
  assumes "list_all2 (entry_shaped True) fs es" and "list_all2 (entry_shaped True) fs es'"
    and m: "map2 entry_decode fs es = map2 entry_decode fs es'"
    and inj: "\<And>f x x'. f \<in> set fs \<Longrightarrow> shaped True (fst (snd f)) x \<Longrightarrow> shaped True (fst (snd f)) x'
      \<Longrightarrow> decode (fst (snd f)) x = decode (fst (snd f)) x' \<Longrightarrow> x = x'"
  shows "es = es'"
proof (rule nth_equalityI)
  note l = list_all2_lengthD [OF assms(1)] list_all2_lengthD [OF assms(2)]
  show "length es = length es'" using l by simp
  fix i assume i: "i < length es"
  have "entry_decode (fs ! i) (es ! i) = entry_decode (fs ! i) (es' ! i)"
    using arg_cong [OF m, of "\<lambda>xs. xs ! i"] i l by simp
  moreover have "fs ! i \<in> set fs" using i l by simp
  moreover have "entry_shaped True (fs ! i) (es ! i)" "entry_shaped True (fs ! i) (es' ! i)"
    using list_all2_nthD2 [OF assms(1)] list_all2_nthD2 [OF assms(2)] i l by simp_all
  ultimately show "es ! i = es' ! i" using entry_inj inj by blast
qed

lemma decode_inj:
  "good_type k t \<Longrightarrow> shaped True t y \<Longrightarrow> shaped True t y' \<Longrightarrow> decode t y = decode t y' \<Longrightarrow> y = y'"
proof (induction "size t" arbitrary: t k y y' rule: less_induct)
  case less
  show ?case
  proof (cases "y = PNone \<or> y' = PNone")
    case True
    then show ?thesis using decode_not_null [OF less.prems(2)] decode_not_null [OF less.prems(3)] less.prems(4)
      by (cases "y = PNone"; cases "y' = PNone") auto
  next
    case False
    consider (arr) e where "t = TArray e" | (obj) fs where "t = TObject fs" | (lf) "\<forall>e. t \<noteq> TArray e" "\<forall>fs. t \<noteq> TObject fs" by blast
    then show ?thesis
    proof cases
      case arr
      obtain ys ys' where y: "y = PList ys" "\<forall>x \<in> set ys. shaped True e x" "y' = PList ys'" "\<forall>x \<in> set ys'. shaped True e x"
        using shaped_array less.prems(2,3) False unfolding arr by blast
      have "ys = ys'"
      proof (rule list.inj_map_strong)
        show "map (decode e) ys = map (decode e) ys'" using less.prems(4) by (simp add: arr y array_value)
      qed (use less.hyps [of e "k + 1"] less.prems(1) y in \<open>auto simp: arr\<close>)
      then show ?thesis by (simp add: y)
    next
      case obj
      obtain es es' where y: "y = PList es" "list_all2 (entry_shaped True) fs es" "y' = PList es'" "list_all2 (entry_shaped True) fs es'"
        using shaped_object less.prems(2,3) False unfolding obj by blast
      have "x = x'" if "f \<in> set fs" "shaped True (fst (snd f)) x" "shaped True (fst (snd f)) x'"
          "decode (fst (snd f)) x = decode (fst (snd f)) x'" for f x x'
        using less.hyps [of "fst (snd f)" "k + 1" x x'] field_size [OF that(1)] less.prems(1) that by (simp add: obj)
      then have "es = es'" using entries_inj [OF y(2,4)] less.prems(4) by (simp add: obj y object_value)
      then show ?thesis by (simp add: y)
    next
      case lf
      then show ?thesis using leaf_decode_inj [of t y y' k] canonical_leaf_value less.prems by (simp add: decode_leaf)
    qed
  qed
qed

section \<open>The bytes of a row\<close>

text \<open>A row holds no dictionary, so its normal form is the row itself.\<close>

fun dict_free :: "pyval \<Rightarrow> bool" where
  "dict_free (PList xs) = (\<forall>x \<in> set xs. dict_free x)"
| "dict_free (PDict kvs) = False"
| "dict_free y = True"

lemma normalize_dict_free: "normalize_value y = Inr n \<Longrightarrow> dict_free y \<Longrightarrow> n = y"
proof (induction y arbitrary: n rule: normalize_value.induct)
  case (5 xs)
  then obtain ys where ys: "list_all2 (\<lambda>x y. normalize_value x = Inr y) xs ys" "n = PList ys"
    by (auto simp: res_map_iff)
  have "list_all2 (=) xs ys" by (rule list.rel_mono_strong [OF ys(1)]) (use 5 in auto)
  then show ?case using ys(2) by (simp add: list.rel_eq)
qed (auto split: if_split_asm)

lemma entry_dict_free:
  "entry_shaped a f e \<Longrightarrow> (\<And>x. shaped a (fst (snd f)) x \<Longrightarrow> dict_free x) \<Longrightarrow> dict_free e"
  by (auto simp: entry_shaped_def entry_parts_def split: pyval.splits list.splits if_split_asm)

lemma shaped_dict_free: "shaped a t y \<Longrightarrow> dict_free y"
proof (induction "size t" arbitrary: t y rule: less_induct)
  case less
  consider (arr) e where "t = TArray e" | (obj) fs where "t = TObject fs" | (lf) "\<forall>e. t \<noteq> TArray e" "\<forall>fs. t \<noteq> TObject fs" by blast
  then show ?case
  proof cases
    case arr
    then show ?thesis using shaped_array [of a e y] less.prems less.hyps [of e] by auto
  next
    case obj
    consider "y = PNone" | es where "y = PList es" "list_all2 (entry_shaped a) fs es"
      using shaped_object [of a fs y] less.prems obj by blast
    then show ?thesis
    proof cases
      case 2
      have "dict_free e" if e: "e \<in> set es" for e
      proof -
        obtain f where "f \<in> set fs" "entry_shaped a f e" using list_all2_in [OF 2(2) e] by blast
        then show ?thesis using entry_dict_free less.hyps field_size obj by metis
      qed
      then show ?thesis using 2(1) by simp
    qed simp
  next
    case lf
    then show ?thesis using less.prems by (cases y) (auto simp: shaped_leaf leaf_shaped_def)
  qed
qed

lemma canonical_row_facts:
  assumes "build_schema nf d = Inr (S, N)" and "keeps_scalars nf"
    and "canonical_row nf S tx offset r = Inr b" and "proper a r"
  obtains y where "canonical_json_bytes y = Inr b" and "normalize_value y = Inr y"
    and "decode (TObject S) y = denotes nf offset (TObject S) r" and "shaped a (TObject S) y" and "y \<noteq> PNone"
    and "nodes (denotes nf offset (TObject S) r) \<le> 10001" and "length b \<le> MAX_RECORD_BYTES"
proof -
  obtain y n where y: "row_record nf tx offset S r 0 0 = Inr (y, n)" "canonical_json_bytes y = Inr b" "length b \<le> MAX_RECORD_BYTES"
    using assms(3) unfolding canonical_row_def by (elim res_bind2E res_bindE if_InrE) auto
  have g: "\<forall>f \<in> set S. good_type 0 (fst (snd f))" using build_schema_good [OF assms(1,2)] by blast
  note f = row_facts(4) [OF y(1) g assms(4)]
  obtain v where v: "normalize_value y = Inr v" using y(2) by (auto simp: canonical_json_bytes_def)
  have "v = y" using normalize_dict_free [OF v] shaped_dict_free f by blast
  then show ?thesis using that y(2,3) v f by simp
qed

section \<open>An example\<close>

text \<open>Two records of the small schema that differ in the order of their keys.\<close>

definition small_record :: sval where
  "small_record = SRecord [(Some [97], SList [SText [120]]), (Some [98], SNone)]"

definition swapped_record :: sval where
  "swapped_record = SRecord [(Some [98], SNone), (Some [97], SList [SText [120]])]"

definition small_row :: pyval where
  "small_row = PList [PList [PStr [97], PStr (text_of ''array''), PList [PStr [120]]], PList [PStr [98], PStr (text_of ''null''), PNone]]"

lemma small_row_bytes: "\<exists>b. canonical_json_bytes small_row = Inr b \<and> length b \<le> MAX_RECORD_BYTES"
  by (simp add: small_row_def canonical_json_bytes_def encode_utf8_def utf8_def utf8_char_def text_of_def scalar_value_def quote_def
      escape_def short_escapes_def MAX_RECORD_BYTES_def)

lemma small_records_row:
  "row_record id False None small_schema small_record 0 0 = Inr (small_row, 3)"
  "row_record id False None small_schema swapped_record 0 0 = Inr (small_row, 3)"
  by (simp_all add: row_record.simps row_value.simps small_record_def swapped_record_def small_schema_def small_row_def nfc_def
      scalar_value_def tick_def scalar_leaf_def text_arg_def insert_commute)

lemma small_records_accepted:
  "\<exists>b. canonical_row id small_schema False None small_record = Inr b \<and> canonical_row id small_schema False None swapped_record = Inr b"
proof -
  obtain b where "canonical_json_bytes small_row = Inr b" "\<not> MAX_RECORD_BYTES < length b" using small_row_bytes by (auto simp: not_less)
  then show ?thesis by (intro exI [of _ b]) (simp add: canonical_row_def small_records_row)
qed

lemma small_records_proper: "proper a swapped_record \<and> proper True small_record"
  by (simp add: small_record_def swapped_record_def western_def is_digit_def digit_value_def digit_zeros_def)

section \<open>Properties\<close>

text \<open>
  C26.  A canonical row has the declared shape and keeps the meaning of its record: its bytes are the
  canonical JSON of one value, which holds for every field of the schema, in the order of the
  schema, its name and either \<open>missing\<close>, \<open>null\<close> (of a nullable field only) or its type and a
  value of that type; reading that value back gives the values of the record: the same numbers,
  UTC instants, dates, bytes and normalized texts, with missing and null kept apart.
\<close>

theorem rows_keep_meaning:
  assumes "build_schema nf d = Inr (S, N)" and "keeps_scalars nf"
    and "canonical_row nf S tx offset r = Inr b" and "proper a r"
  shows "\<exists>y. canonical_json_bytes y = Inr b \<and> (\<forall>y'. canonical_json_bytes y' = Inr b \<longleftrightarrow> normalize_value y' = Inr y)
     \<and> shaped a (TObject S) y \<and> decode (TObject S) y = denotes nf offset (TObject S) r"
proof (rule canonical_row_facts [OF assms])
  fix y assume y: "canonical_json_bytes y = Inr b" "normalize_value y = Inr y"
    "decode (TObject S) y = denotes nf offset (TObject S) r" "shaped a (TObject S) y"
  then show ?thesis using json_bytes_identify [OF y(2)] by auto
qed

theorem rows_keep_meaning_witness:
  "\<exists>b y. canonical_row id small_schema False None swapped_record = Inr b \<and> canonical_json_bytes y = Inr b
     \<and> shaped True (TObject small_schema) y \<and> decode (TObject small_schema) y = denotes id None (TObject small_schema) swapped_record"
  using small_records_accepted rows_keep_meaning [OF small_schema_built _ _ conjunct1 [OF small_records_proper]]
  by (metis keeps_scalars_def id_apply)

text \<open>
  A row is bounded: at most 10000 values and 8 MiB.
\<close>

theorem rows_bounded:
  assumes "build_schema nf d = Inr (S, N)" and "keeps_scalars nf"
    and "canonical_row nf S tx offset r = Inr b" and "proper a r"
  shows "nodes (denotes nf offset (TObject S) r) \<le> 10001 \<and> length b \<le> MAX_RECORD_BYTES"
  by (rule canonical_row_facts [OF assms]) simp

theorem rows_bounded_witness:
  "nodes (denotes id None (TObject small_schema) swapped_record) \<le> 10001"
  using small_records_accepted rows_bounded [OF small_schema_built _ _ conjunct1 [OF small_records_proper]]
  by (metis keeps_scalars_def id_apply)

text \<open>
  C25.  Row bytes identify records up to their meaning: two accepted records with the same row have
  the same meaning, and two with the same meaning, however keys were ordered and numbers and
  timestamps spelled (with ASCII digits), have the same row.  Whether the source was read as text or
  as typed values, and the default zone, matter only through the meaning.
\<close>

theorem rows_identify_meaning:
  assumes "build_schema nf d = Inr (S, N)" and "keeps_scalars nf"
    and "canonical_row nf S tx offset r = Inr b" and "canonical_row nf S tx' offset' r' = Inr b'"
    and "proper False r" and "proper False r'"
  shows "(b = b' \<longrightarrow> denotes nf offset (TObject S) r = denotes nf offset' (TObject S) r')
     \<and> (proper True r \<and> proper True r' \<and> denotes nf offset (TObject S) r = denotes nf offset' (TObject S) r' \<longrightarrow> b = b')"
proof (intro conjI impI)
  assume e: "b = b'"
  obtain y where y: "canonical_json_bytes y = Inr b" "normalize_value y = Inr y"
      "decode (TObject S) y = denotes nf offset (TObject S) r"
    by (rule canonical_row_facts [OF assms(1,2,3,5)])
  obtain y' where y': "canonical_json_bytes y' = Inr b'" "normalize_value y' = Inr y'"
      "decode (TObject S) y' = denotes nf offset' (TObject S) r'"
    by (rule canonical_row_facts [OF assms(1,2,4,6)])
  have "y' = y" using json_bytes_identify [OF y(2)] y(1) y'(1,2) e by auto
  then show "denotes nf offset (TObject S) r = denotes nf offset' (TObject S) r'" using y(3) y'(3) by simp
next
  assume m: "proper True r \<and> proper True r' \<and> denotes nf offset (TObject S) r = denotes nf offset' (TObject S) r'"
  obtain y where y: "canonical_json_bytes y = Inr b" "decode (TObject S) y = denotes nf offset (TObject S) r"
      "shaped True (TObject S) y" "y \<noteq> PNone"
    by (rule canonical_row_facts [OF assms(1,2,3) conjunct1 [OF m]])
  obtain y' where y': "canonical_json_bytes y' = Inr b'" "decode (TObject S) y' = denotes nf offset' (TObject S) r'"
      "shaped True (TObject S) y'" "y' \<noteq> PNone"
    by (rule canonical_row_facts [OF assms(1,2,4) conjunct1 [OF conjunct2 [OF m]]])
  have g: "\<forall>f \<in> set S. good_type 0 (fst (snd f))" using build_schema_good [OF assms(1,2)] by blast
  obtain es es' where es: "y = PList es" "list_all2 (entry_shaped True) S es" "y' = PList es'" "list_all2 (entry_shaped True) S es'"
    using shaped_object [OF y(3)] shaped_object [OF y'(3)] y(4) y'(4) by blast
  have "map2 entry_decode S es = map2 entry_decode S es'" using y(2) y'(2) m unfolding es object_value
    by (metis denoted.inject(9))
  then have "es = es'" by (rule entries_inj [OF es(2,4)]) (use decode_inj g in blast)
  then have "y = y'" by (simp add: es)
  then show "b = b'" using y(1) y'(1) by simp
qed

theorem rows_identify_meaning_witness:
  "denotes id None (TObject small_schema) small_record = denotes id None (TObject small_schema) swapped_record"
proof -
  obtain b where b: "canonical_row id small_schema False None small_record = Inr b"
      "canonical_row id small_schema False None swapped_record = Inr b" using small_records_accepted by blast
  have p: "proper False small_record" "proper False swapped_record" by (simp_all add: small_record_def swapped_record_def)
  have k: "keeps_scalars id" by (simp add: keeps_scalars_def)
  show ?thesis using rows_identify_meaning [OF small_schema_built k b p] by simp
qed

end
