(* ===== verification/Consistency.thy ===== *)
theory Consistency
  imports MerkleTree
begin

text \<open>
  Append-only proofs of the transparency log (app/services/dataset_merkle_service.py,
  \<^verbatim>\<open>build_consistency_proof\<close>, \<^verbatim>\<open>verify_consistency_proof\<close> and the log entry hashes): that a tree of
  \<open>old_size\<close> leaves is the beginning of a larger one.  The builder recurses from the root, the
  verifier shifts two indices from the leaves; both are related to one recursive description of the
  path between the two trees.
\<close>

section \<open>The code\<close>

definition compute_log_entry_hash :: "hash_fun \<Rightarrow> bytes \<Rightarrow> bytes" where
  "compute_log_entry_hash H entry_bytes = H entry_bytes"

definition compute_log_leaf_hash :: "hash_fun \<Rightarrow> bytes \<Rightarrow> bytes" where
  "compute_log_leaf_hash H entry_bytes = H ([0] @ ascii ''aim-log-leaf-v1'' @ [0] @ entry_bytes)"

definition build_log_root :: "hash_fun \<Rightarrow> hash_arg list \<Rightarrow> cerror + bytes" where
  "build_log_root H log_leaves = build_merkle_root H log_leaves"

function subproof :: "hash_fun \<Rightarrow> bytes list \<Rightarrow> nat \<Rightarrow> nat \<Rightarrow> nat \<Rightarrow> bool \<Rightarrow> cerror + bytes list" where
  "subproof H normalized start first_size sz whole =
     (if first_size = sz then
        (if whole then Inr []
         else res_bind (build_merkle_root H (map Raw (py_slice start (start + sz) normalized))) (\<lambda>h. Inr [h]))
      else res_bind (largest_power_of_two_less_than sz) (\<lambda>split.
        if first_size \<le> split then
          res_bind (subproof H normalized start first_size split whole) (\<lambda>p.
          res_bind (build_merkle_root H (map Raw (py_slice (start + split) (start + sz) normalized))) (\<lambda>h.
            Inr (p @ [h])))
        else
          res_bind (subproof H normalized (start + split) (first_size - split) (sz - split) False) (\<lambda>p.
          res_bind (build_merkle_root H (map Raw (py_slice start (start + split) normalized))) (\<lambda>h.
            Inr (p @ [h])))))"
  by pat_completeness auto
termination
  by (relation "measure (\<lambda>(H, ls, start, first, sz, whole). sz)") (auto dest: split_SomeD)

declare subproof.simps [simp del]

definition build_consistency_proof :: "hash_fun \<Rightarrow> hash_arg list \<Rightarrow> int \<Rightarrow> cerror + bytes list" where
  "build_consistency_proof H leaves old_size =
     res_bind (res_map decode_digest leaves) (\<lambda>normalized.
       if old_size < 1 \<or> old_size > int (length normalized) then Inl ''invalid_tree_size''
       else if old_size = int (length normalized) then Inr []
       else subproof H normalized 0 (nat old_size) (length normalized) True)"

text \<open>The loops that shift both indices.\<close>

function strip_ones :: "nat \<Rightarrow> nat \<Rightarrow> nat \<times> nat" where
  "strip_ones f s = (if odd f then strip_ones (f div 2) (s div 2) else (f, s))"
  by pat_completeness auto
termination
  by (relation "measure fst") (auto elim: oddE)

function strip_zeros :: "nat \<Rightarrow> nat \<Rightarrow> nat \<times> nat" where
  "strip_zeros f s = (if f \<noteq> 0 \<and> even f then strip_zeros (f div 2) (s div 2) else (f, s))"
  by pat_completeness auto
termination
  by (relation "measure fst") auto

declare strip_ones.simps [simp del]
declare strip_zeros.simps [simp del]

text \<open>
  The loop over the remaining hashes; \<open>None\<close> is the \<^verbatim>\<open>return False\<close> on a hash too many.
\<close>

fun verify_chain :: "hash_fun \<Rightarrow> nat \<Rightarrow> nat \<Rightarrow> bytes \<Rightarrow> bytes \<Rightarrow> bytes list \<Rightarrow> cerror + (nat \<times> bytes \<times> bytes) option" where
  "verify_chain H f s first_root second_root [] = Inr (Some (s, first_root, second_root))"
| "verify_chain H f s first_root second_root (item # items) =
     (if s = 0 then Inr None
      else if odd f \<or> f = s then
        res_bind (compute_node_hash H (Raw item) (Raw first_root)) (\<lambda>a.
        res_bind (compute_node_hash H (Raw item) (Raw second_root)) (\<lambda>b.
          let (f', s') = strip_zeros f s in verify_chain H (f' div 2) (s' div 2) a b items))
      else
        res_bind (compute_node_hash H (Raw second_root) (Raw item)) (\<lambda>b.
          verify_chain H (f div 2) (s div 2) first_root b items))"

text \<open>Errors of the code are a \<^verbatim>\<open>False\<close> of the verifier.\<close>

definition check_hashes :: "hash_fun \<Rightarrow> nat \<Rightarrow> nat \<Rightarrow> bytes \<Rightarrow> bytes \<Rightarrow> bytes list \<Rightarrow> bool" where
  "check_hashes H old_size new_size old_root new_root hashes =
     (let (f, s) = strip_ones (old_size - 1) (new_size - 1) in
      if f \<noteq> 0 \<and> hashes = [] then False
      else let seed = (if f = 0 then old_root else hd hashes);
               rest = (if f = 0 then hashes else tl hashes)
        in case verify_chain H f s seed seed rest of
             Inr (Some (s', first_root, second_root)) \<Rightarrow> s' = 0 \<and> first_root = old_root \<and> second_root = new_root
           | _ \<Rightarrow> False)"

definition verify_consistency_proof ::
  "hash_fun \<Rightarrow> int \<Rightarrow> int \<Rightarrow> hash_arg \<Rightarrow> hash_arg \<Rightarrow> hash_arg list \<Rightarrow> bool" where
  "verify_consistency_proof H old_size new_size old_root new_root proof =
     (case res_map decode_digest (old_root # new_root # proof) of
        Inr (old # new # hashes) \<Rightarrow>
          (if old_size < 1 \<or> old_size > new_size \<or> new_size > MAX_TREE_SIZE then False
           else if old_size = new_size then hashes = [] \<and> old = new
           else check_hashes H (nat old_size) (nat new_size) old new hashes)
      | _ \<Rightarrow> False)"

section \<open>The path between the two trees\<close>

text \<open>
  What the verifier reads from the two sizes: on which side of the path every hash lies, from the
  leaves to the root.  A hash on the left belongs to both trees, one on the right to the new tree.
\<close>

function cdirs :: "nat \<Rightarrow> nat \<Rightarrow> direction list" where
  "cdirs m n =
     (if n \<le> m \<or> n \<le> 1 then []
      else if m \<le> pow2_below n then cdirs m (pow2_below n) @ [RightSibling]
      else cdirs (m - pow2_below n) (n - pow2_below n) @ [LeftSibling])"
  by pat_completeness auto
termination
  by (relation "measure snd") (auto simp: not_le)

text \<open>The subtree both trees share at the end of the path, and the hashes along it.\<close>

function cseed :: "hash_fun \<Rightarrow> bytes list \<Rightarrow> nat \<Rightarrow> bytes" where
  "cseed H xs m =
     (let k = pow2_below (length xs) in
      if length xs \<le> m \<or> length xs \<le> 1 then mth H xs
      else if m \<le> k then cseed H (take k xs) m else cseed H (drop k xs) (m - k))"
  by pat_completeness auto
termination
  by (relation "measure (\<lambda>(H, xs, m). length xs)") (auto simp: not_le)

function citems :: "hash_fun \<Rightarrow> bytes list \<Rightarrow> nat \<Rightarrow> bytes list" where
  "citems H xs m =
     (let k = pow2_below (length xs) in
      if length xs \<le> m \<or> length xs \<le> 1 then []
      else if m \<le> k then citems H (take k xs) m @ [mth H (drop k xs)]
      else citems H (drop k xs) (m - k) @ [mth H (take k xs)])"
  by pat_completeness auto
termination
  by (relation "measure (\<lambda>(H, xs, m). length xs)") (auto simp: not_le)

declare cdirs.simps [simp del] cseed.simps [simp del] citems.simps [simp del]

text \<open>One step towards both roots.\<close>

fun chain_step :: "hash_fun \<Rightarrow> bytes \<times> bytes \<Rightarrow> direction \<times> bytes \<Rightarrow> bytes \<times> bytes" where
  "chain_step H (a, b) (LeftSibling, item) = (node_hash H item a, node_hash H item b)"
| "chain_step H (a, b) (RightSibling, item) = (a, node_hash H b item)"

definition chain :: "hash_fun \<Rightarrow> bytes \<Rightarrow> direction list \<Rightarrow> bytes list \<Rightarrow> bytes \<times> bytes" where
  "chain H seed ds items = foldl (chain_step H) (seed, seed) (zip ds items)"

lemma chain_Nil [simp]: "chain H seed [] items = (seed, seed)"
  by (simp add: chain_def)

lemma chain_snoc: "length ds = length items \<Longrightarrow> chain H seed (ds @ [d]) (items @ [x]) = chain_step H (chain H seed ds items) (d, x)"
  by (simp add: chain_def)

text \<open>What the verifier accepts: a chain of hashes from a shared subtree to both roots.\<close>

definition seed_of :: "nat \<Rightarrow> nat \<Rightarrow> bytes \<Rightarrow> bytes list \<Rightarrow> bytes" where
  "seed_of m n old hashes = (if LeftSibling \<in> set (cdirs m n) then hd hashes else old)"

definition items_of :: "nat \<Rightarrow> nat \<Rightarrow> bytes list \<Rightarrow> bytes list" where
  "items_of m n hashes = (if LeftSibling \<in> set (cdirs m n) then tl hashes else hashes)"

section \<open>The power of two below a size\<close>

lemma pow2_below_unique:
  assumes "2 ^ t < n" and "n \<le> 2 ^ Suc t"
  shows "pow2_below n = 2 ^ t"
proof -
  have n: "1 < n" using assms(1) by (metis le_less_trans one_le_numeral one_le_power)
  obtain e where e: "pow2_below n = 2 ^ e" by (simp add: pow2_below_def)
  have "(2 :: nat) ^ t < 2 ^ Suc e" "(2 :: nat) ^ e < 2 ^ Suc t"
    using pow2_below_bounds [OF n] assms e by simp_all
  then have "t < Suc e" "e < Suc t" by (simp_all only: power_strict_increasing_iff [OF one_less_numeral_iff [THEN iffD2]] semiring_norm)
  then show ?thesis using e by simp
qed

lemma pow2_below_power: "1 < n \<Longrightarrow> \<exists>t. pow2_below n = 2 ^ t \<and> 2 ^ t < n \<and> n \<le> 2 ^ Suc t"
  using pow2_below_bounds [of n] by (auto simp: pow2_below_def)

section \<open>The verifier's indices follow the path\<close>

function index_dirs :: "nat \<Rightarrow> nat \<Rightarrow> direction list" where
  "index_dirs f s =
     (if s = 0 then []
      else if odd f \<or> f = s then LeftSibling # (let (f', s') = strip_zeros f s in index_dirs (f' div 2) (s' div 2))
      else RightSibling # index_dirs (f div 2) (s div 2))"
  by pat_completeness auto

lemma strip_zeros_le: "(f', s') = strip_zeros f s \<Longrightarrow> s' \<le> s"
proof (induction f s rule: strip_zeros.induct)
  case (1 f s)
  then show ?case by (cases "f \<noteq> 0 \<and> even f") (auto simp: strip_zeros.simps [of f s] intro: le_trans)
qed

termination index_dirs
  by (relation "measure snd") (auto dest!: strip_zeros_le)

declare index_dirs.simps [simp del]

lemma strip_zeros_odd [simp]: "odd f \<Longrightarrow> strip_zeros f s = (f, s)"
  by (simp add: strip_zeros.simps)

lemma index_dirs_0 [simp]: "index_dirs f 0 = []"
  by (simp add: index_dirs.simps)

lemma index_dirs_odd: "odd f \<Longrightarrow> s \<noteq> 0 \<Longrightarrow> index_dirs f s = LeftSibling # index_dirs (f div 2) (s div 2)"
  by (simp add: index_dirs.simps [of f s])

lemma index_dirs_even: "even f \<Longrightarrow> f \<noteq> s \<Longrightarrow> s \<noteq> 0 \<Longrightarrow> index_dirs f s = RightSibling # index_dirs (f div 2) (s div 2)"
  by (simp add: index_dirs.simps [of f s])

lemma index_dirs_double: "index_dirs (2 * g) (2 * g) = index_dirs g g"
proof (cases "g = 0")
  case False
  then have "strip_zeros (2 * g) (2 * g) = strip_zeros g g" by (subst strip_zeros.simps) simp
  then show ?thesis using False by (simp add: index_dirs.simps [of "2 * g"] index_dirs.simps [of g])
qed simp

text \<open>Below the top bit of the new index.\<close>

lemma index_dirs_right:
  "f < 2 ^ t \<Longrightarrow> 2 ^ t \<le> s \<Longrightarrow> s < 2 ^ Suc t \<Longrightarrow> index_dirs f s = index_dirs f (2 ^ t - 1) @ [RightSibling]"
proof (induction t arbitrary: f s)
  case 0
  then have "f = 0" "s = 1" by simp_all
  then show ?case by (simp add: index_dirs.simps [of 0 "Suc 0"])
next
  case (Suc t)
  have p: "(2 :: nat) ^ Suc t - 1 = 2 * (2 ^ t - 1) + 1" proof -
    have "(1 :: nat) \<le> 2 ^ t" by simp
    then show ?thesis unfolding power_Suc by linarith
  qed
  have d: "((2 :: nat) ^ Suc t - 1) div 2 = 2 ^ t - 1" "(2 :: nat) ^ Suc t - 1 \<noteq> 0" "odd ((2 :: nat) ^ Suc t - 1)"
    unfolding p by simp_all
  have ih: "index_dirs (f div 2) (s div 2) = index_dirs (f div 2) (2 ^ t - 1) @ [RightSibling]"
    by (rule Suc.IH) (use Suc.prems in auto)
  have s: "s \<noteq> 0" "f \<noteq> s" using Suc.prems by auto
  show ?case
  proof (cases "odd f")
    case True
    then show ?thesis using ih s d by (simp add: index_dirs_odd del: power_Suc)
  next
    case False
    then have "f \<noteq> 2 ^ Suc t - 1" using d(3) by blast
    then show ?thesis using ih s d False by (simp add: index_dirs_even del: power_Suc)
  qed
qed

text \<open>With the top bit in both indices.\<close>

lemma index_dirs_left:
  "f \<le> s \<Longrightarrow> s < 2 ^ t \<Longrightarrow> index_dirs (2 ^ t + f) (2 ^ t + s) = index_dirs f s @ [LeftSibling]"
proof (induction t arbitrary: f s)
  case 0
  then show ?case by (simp add: index_dirs.simps [of "Suc 0" "Suc 0"])
next
  case (Suc t)
  have ih: "index_dirs (2 ^ t + f div 2) (2 ^ t + s div 2) = index_dirs (f div 2) (s div 2) @ [LeftSibling]"
    by (rule Suc.IH) (use Suc.prems in \<open>auto intro: div_le_mono\<close>)
  have d: "(2 ^ Suc t + x) div 2 = 2 ^ t + x div 2" "even (2 ^ Suc t + x) = even x" for x :: nat by simp_all
  show ?case
  proof (cases "even f \<and> f = s")
    case True
    then obtain g where g: "f = 2 * g" "s = 2 * g" by auto
    have "index_dirs (2 ^ Suc t + f) (2 ^ Suc t + s) = index_dirs (2 ^ t + g) (2 ^ t + g)"
      using index_dirs_double [of "2 ^ t + g"] by (simp add: g algebra_simps)
    then show ?thesis using ih by (simp add: g index_dirs_double)
  next
    case False
    then have s: "s \<noteq> 0" using Suc.prems by (cases "f = 0") auto
    show ?thesis
    proof (cases "odd f")
      case True
      then show ?thesis using ih s d by (simp add: index_dirs_odd del: power_Suc)
    next
      case F: False
      then have "f \<noteq> s" using False by blast
      then show ?thesis using ih s d F by (simp add: index_dirs_even del: power_Suc)
    qed
  qed
qed

text \<open>The first loop takes the same bits off all these indices.\<close>

lemma strip_ones_right:
  "f < 2 ^ t \<Longrightarrow> 2 ^ t \<le> s \<Longrightarrow> s < 2 ^ Suc t \<Longrightarrow>
     \<exists>t' f' s'. strip_ones f s = (f', s') \<and> strip_ones f (2 ^ t - 1) = (f', 2 ^ t' - 1) \<and> f' < 2 ^ t' \<and> 2 ^ t' \<le> s' \<and> s' < 2 ^ Suc t'"
proof (induction t arbitrary: f s)
  case 0
  then have "f = 0" "s = 1" by auto
  then show ?case by - (rule exI [of _ 0], rule exI [of _ 0], rule exI [of _ 1], simp add: strip_ones.simps)
next
  case (Suc t)
  have d: "((2 :: nat) ^ Suc t - 1) div 2 = 2 ^ t - 1" by simp
  show ?case
  proof (cases "odd f")
    case True
    have "\<exists>t' f' s'. strip_ones (f div 2) (s div 2) = (f', s') \<and> strip_ones (f div 2) (2 ^ t - 1) = (f', 2 ^ t' - 1)
        \<and> f' < 2 ^ t' \<and> 2 ^ t' \<le> s' \<and> s' < 2 ^ Suc t'"
      by (rule Suc.IH) (use Suc.prems in auto)
    then show ?thesis using True d by (simp add: strip_ones.simps [of f] del: power_Suc)
  next
    case False
    then show ?thesis using Suc.prems by - (rule exI [of _ "Suc t"], simp add: strip_ones.simps [of f] del: power_Suc)
  qed
qed

lemma strip_ones_left:
  "f < s \<Longrightarrow> s < 2 ^ t \<Longrightarrow>
     \<exists>t' f' s'. strip_ones f s = (f', s') \<and> strip_ones (2 ^ t + f) (2 ^ t + s) = (2 ^ t' + f', 2 ^ t' + s') \<and> f' < s' \<and> s' < 2 ^ t'"
proof (induction t arbitrary: f s)
  case 0
  then show ?case by simp
next
  case (Suc t)
  have d: "(2 ^ Suc t + x) div 2 = 2 ^ t + x div 2" "even (2 ^ Suc t + x) = even x" for x :: nat by simp_all
  show ?case
  proof (cases "odd f")
    case True
    have "\<exists>t' f' s'. strip_ones (f div 2) (s div 2) = (f', s')
        \<and> strip_ones (2 ^ t + f div 2) (2 ^ t + s div 2) = (2 ^ t' + f', 2 ^ t' + s') \<and> f' < s' \<and> s' < 2 ^ t'"
      by (rule Suc.IH) (use Suc.prems True in \<open>auto elim!: oddE\<close>)
    then show ?thesis using True d by (simp add: strip_ones.simps [of f] strip_ones.simps [of "2 ^ Suc t + f"] del: power_Suc)
  next
    case False
    then show ?thesis using Suc.prems
      by - (rule exI [of _ "Suc t"], simp add: d(2) strip_ones.simps [of f] strip_ones.simps [of "2 ^ Suc t + f"] del: power_Suc)
  qed
qed

text \<open>
  The directions the verifier's indices spell are those of the path, and the stripped old index is
  zero exactly when the path never turns left.
\<close>

lemma strip_ones_dirs:
  assumes "1 \<le> m" and "m < n \<or> m = n \<and> (\<exists>t. n = 2 ^ t)" and "strip_ones (m - 1) (n - 1) = (f, s)"
  shows "index_dirs f s = cdirs m n \<and> (f = 0 \<longleftrightarrow> LeftSibling \<notin> set (cdirs m n))"
  using assms
proof (induction n arbitrary: m f s rule: less_induct)
  case (less n)
  show ?case
  proof (cases "m = n")
    case True
    then obtain t where t: "n = 2 ^ t" using less.prems by auto
    have "strip_ones (2 ^ t - 1) (2 ^ t - 1) = (0, 0)"
    proof (induction t)
      case (Suc t)
      have "odd ((2 :: nat) ^ Suc t - 1)" "((2 :: nat) ^ Suc t - 1) div 2 = 2 ^ t - 1" by simp_all
      then show ?case using Suc by (subst strip_ones.simps) (simp del: power_Suc)
    qed (simp add: strip_ones.simps)
    then show ?thesis using less.prems True t by (simp add: cdirs.simps)
  next
    case False
    then have mn: "m < n" "1 < n" using less.prems by auto
    obtain t where t: "pow2_below n = 2 ^ t" "2 ^ t < n" "n \<le> 2 ^ Suc t" using pow2_below_power [OF mn(2)] by blast
    show ?thesis
    proof (cases "m \<le> 2 ^ t")
      case True
      have c: "cdirs m n = cdirs m (2 ^ t) @ [RightSibling]" using mn t True by (simp add: cdirs.simps [of m n])
      obtain t' f' s' where st: "strip_ones (m - 1) (n - 1) = (f', s')" "strip_ones (m - 1) (2 ^ t - 1) = (f', 2 ^ t' - 1)"
          "f' < 2 ^ t'" "2 ^ t' \<le> s'" "s' < 2 ^ Suc t'"
      proof -
        have p: "m - 1 < 2 ^ t" "2 ^ t \<le> n - 1" "n - 1 < 2 ^ Suc t" using True t less.prems(1) by linarith+
        from strip_ones_right [OF p] show ?thesis using that by blast
      qed
      have "index_dirs f' (2 ^ t' - 1) = cdirs m (2 ^ t) \<and> (f' = 0 \<longleftrightarrow> LeftSibling \<notin> set (cdirs m (2 ^ t)))"
        by (rule less.IH [OF t(2) less.prems(1) _ st(2)]) (use True in auto)
      then show ?thesis using index_dirs_right [OF st(3-5)] c st(1) less.prems(3) by simp
    next
      case F: False
      have c: "cdirs m n = cdirs (m - 2 ^ t) (n - 2 ^ t) @ [LeftSibling]" using mn t F by (simp add: cdirs.simps [of m n])
      have e: "m - 1 = 2 ^ t + (m - 2 ^ t - 1)" "n - 1 = 2 ^ t + (n - 2 ^ t - 1)" using F mn by simp_all
      obtain t' f' s' where st: "strip_ones (m - 2 ^ t - 1) (n - 2 ^ t - 1) = (f', s')"
          "strip_ones (2 ^ t + (m - 2 ^ t - 1)) (2 ^ t + (n - 2 ^ t - 1)) = (2 ^ t' + f', 2 ^ t' + s')" "f' < s'" "s' < 2 ^ t'"
      proof -
        have p: "m - 2 ^ t - 1 < n - 2 ^ t - 1" "n - 2 ^ t - 1 < 2 ^ t" using F mn t(3) by simp_all
        from strip_ones_left [OF p] show ?thesis using that by blast
      qed
      have "index_dirs f' s' = cdirs (m - 2 ^ t) (n - 2 ^ t) \<and> (f' = 0 \<longleftrightarrow> LeftSibling \<notin> set (cdirs (m - 2 ^ t) (n - 2 ^ t)))"
        by (rule less.IH [OF _ _ _ st(1)]) (use F mn in auto)
      then show ?thesis using index_dirs_left [of f' s' t'] c e st less.prems(3) by auto
    qed
  qed
qed

section \<open>The builder follows the path\<close>

text \<open>Both parts of a split list.\<close>

lemma path_split:
  assumes "1 < length xs"
  shows "length (take (pow2_below (length xs)) xs) = pow2_below (length xs)"
    and "length (drop (pow2_below (length xs)) xs) = length xs - pow2_below (length xs)"
    and "pow2_below (length xs) < length xs" and "length xs - pow2_below (length xs) < length xs"
  using pow2_below_bounds [OF assms] by simp_all

lemma citems_length: "length (citems H xs m) = length (cdirs m (length xs))"
proof (induction H xs m rule: citems.induct)
  case (1 H xs m)
  show ?case
  proof (cases "length xs \<le> m \<or> length xs \<le> 1")
    case True
    then show ?thesis by (auto simp: citems.simps cdirs.simps)
  next
    case False
    then have l: "1 < length xs" by simp
    have k: "min (length xs) (pow2_below (length xs)) = pow2_below (length xs)" using path_split(3) [OF l] by simp
    show ?thesis using 1 False
      by (subst citems.simps, subst cdirs.simps) (simp add: Let_def not_le k)
  qed
qed

lemma mth_take_right: "m \<le> k \<Longrightarrow> mth H (take m (take k xs)) = mth H (take m xs)"
  by (simp add: min_def)

lemma mth_take_left:
  assumes "1 < length xs" and "pow2_below (length xs) < m" and "m \<le> length xs"
  shows "mth H (take m xs) =
    node_hash H (mth H (take (pow2_below (length xs)) xs)) (mth H (take (m - pow2_below (length xs)) (drop (pow2_below (length xs)) xs)))"
proof -
  let ?k = "pow2_below (length xs)"
  obtain t where t: "?k = 2 ^ t" "length xs \<le> 2 ^ Suc t" using pow2_below_power [OF assms(1)] by blast
  have l: "length (take m xs) = m" using assms(3) by simp
  have k: "pow2_below (length (take m xs)) = ?k" unfolding l t(1) by (rule pow2_below_unique) (use assms t in simp_all)
  have "1 < length (take m xs)" using assms(2) pow2_below_bounds(1) [OF assms(1)] unfolding l by linarith
  from mth_split [OF this, of H] show ?thesis unfolding k using assms(2) by (simp add: min_def drop_take)
qed

text \<open>The hashes of the path lead from the shared subtree to both roots.\<close>

lemma chain_citems:
  assumes "1 \<le> m" and "m \<le> length xs"
  shows "chain H (cseed H xs m) (cdirs m (length xs)) (citems H xs m) = (mth H (take m xs), mth H xs)"
  using assms
proof (induction "length xs" arbitrary: xs m rule: less_induct)
  case less
  let ?k = "pow2_below (length xs)"
  show ?case
  proof (cases "length xs \<le> m \<or> length xs \<le> 1")
    case True
    then have "m = length xs" using less.prems by auto
    then show ?thesis by (simp add: cseed.simps cdirs.simps citems.simps)
  next
    case False
    then have l: "1 < length xs" "m < length xs" by simp_all
    note s = path_split [OF l(1)]
    show ?thesis
    proof (cases "m \<le> ?k")
      case True
      have "chain H (cseed H (take ?k xs) m) (cdirs m ?k) (citems H (take ?k xs) m) = (mth H (take m xs), mth H (take ?k xs))"
        using less.hyps [of "take ?k xs" m] s True less.prems(1) by (simp add: min_def)
      moreover have "length (cdirs m ?k) = length (citems H (take ?k xs) m)" using citems_length [of H "take ?k xs" m] s(1) by simp
      ultimately show ?thesis using l True
        by (simp add: cseed.simps [of H xs] cdirs.simps [of m "length xs"] citems.simps [of H xs] Let_def chain_snoc mth_split [OF l(1)])
    next
      case F: False
      have "chain H (cseed H (drop ?k xs) (m - ?k)) (cdirs (m - ?k) (length xs - ?k)) (citems H (drop ?k xs) (m - ?k))
          = (mth H (take (m - ?k) (drop ?k xs)), mth H (drop ?k xs))"
        using less.hyps [of "drop ?k xs" "m - ?k"] s F less.prems by simp
      moreover have "length (cdirs (m - ?k) (length xs - ?k)) = length (citems H (drop ?k xs) (m - ?k))"
        using citems_length [of H "drop ?k xs" "m - ?k"] s(2) by simp
      ultimately show ?thesis using l F
        by (simp add: cseed.simps [of H xs] cdirs.simps [of m "length xs"] citems.simps [of H xs] Let_def chain_snoc
            mth_split [OF l(1)] mth_take_left)
    qed
  qed
qed

text \<open>A path that never turns left starts at the root of the old tree.\<close>

lemma cseed_old:
  assumes "1 \<le> m" and "m \<le> length xs" and "LeftSibling \<notin> set (cdirs m (length xs))"
  shows "cseed H xs m = mth H (take m xs)"
  using assms
proof (induction "length xs" arbitrary: xs rule: less_induct)
  case less
  let ?k = "pow2_below (length xs)"
  show ?case
  proof (cases "length xs \<le> m \<or> length xs \<le> 1")
    case True
    then show ?thesis using less.prems by (auto simp: cseed.simps)
  next
    case False
    then have l: "1 < length xs" "m < length xs" by simp_all
    note s = path_split [OF l(1)]
    have k: "m \<le> ?k" using less.prems(3) l by (subst (asm) cdirs.simps) (auto split: if_split_asm)
    have "cseed H (take ?k xs) m = mth H (take m (take ?k xs))"
      using less.hyps [of "take ?k xs"] s k less.prems l by (simp add: cdirs.simps [of m "length xs"])
    then show ?thesis using l k by (simp add: cseed.simps [of H xs] Let_def min_def)
  qed
qed

context digest32
begin

lemma subproof_path:
  assumes "digests xs" and "int (length xs) \<le> MAX_TREE_SIZE" and "1 \<le> m" and "m \<le> n" and "s + n \<le> length xs"
  shows "subproof H xs s m n whole = Inr ((if whole \<and> LeftSibling \<notin> set (cdirs m n) then [] else [cseed H (take n (drop s xs)) m])
    @ citems H (take n (drop s xs)) m)"
  using assms(3-5)
proof (induction n arbitrary: s m whole rule: less_induct)
  case (less n)
  show ?case
  proof (cases "m = n")
    case True
    then show ?thesis using less.prems build_root_slice [OF assms(1) _ less.prems(3) assms(2)]
      by (simp add: subproof.simps [of H xs s] cdirs.simps cseed.simps citems.simps)
  next
    case False
    then have n: "1 < n" "m < n" using less.prems by simp_all
    let ?k = "pow2_below n"
    note b = pow2_below_bounds [OF n(1)]
    define ys where "ys = take n (drop s xs)"
    have ys: "length ys = n" "take ?k ys = take ?k (drop s xs)" "drop ?k ys = take (n - ?k) (drop (s + ?k) xs)"
      using less.prems(3) b by (simp_all add: ys_def take_take drop_take add.commute min_absorb1)
    have roots: "build_merkle_root H (map Raw (py_slice s (s + ?k) xs)) = Inr (mth H (take ?k ys))"
        "build_merkle_root H (map Raw (py_slice (s + ?k) (s + n) xs)) = Inr (mth H (drop ?k ys))"
      using build_root_slice [OF assms(1), of ?k s] build_root_slice [OF assms(1), of "n - ?k" "s + ?k"] less.prems(3) assms(2) b
      by (simp_all add: ys)
    show ?thesis
    proof (cases "m \<le> ?k")
      case True
      have "subproof H xs s m ?k whole = Inr ((if whole \<and> LeftSibling \<notin> set (cdirs m ?k) then [] else [cseed H (take ?k ys) m])
          @ citems H (take ?k ys) m)"
        using less.IH [of ?k m s whole] True less.prems b by (simp add: ys)
      then show ?thesis using n True roots unfolding ys_def [symmetric]
        by (simp add: subproof.simps [of H xs s m n] split_eq cdirs.simps [of m n] cseed.simps [of H ys] citems.simps [of H ys] ys(1) Let_def)
    next
      case F: False
      have "subproof H xs (s + ?k) (m - ?k) (n - ?k) False = Inr (cseed H (drop ?k ys) (m - ?k) # citems H (drop ?k ys) (m - ?k))"
        using less.IH [of "n - ?k" "m - ?k" "s + ?k" False] F less.prems b by (simp add: ys)
      then show ?thesis using n F roots unfolding ys_def [symmetric]
        by (simp add: subproof.simps [of H xs s m n] split_eq cdirs.simps [of m n] cseed.simps [of H ys] citems.simps [of H ys] ys(1) Let_def)
    qed
  qed
qed

section \<open>The verifier follows the path\<close>

lemma verify_chain_dirs:
  "length a = 32 \<Longrightarrow> length b = 32 \<Longrightarrow> digests items \<Longrightarrow>
   (\<exists>s'. verify_chain H f s a b items = Inr (Some (s', r1, r2)) \<and> s' = 0) \<longleftrightarrow>
     length items = length (index_dirs f s) \<and> foldl (chain_step H) (a, b) (zip (index_dirs f s) items) = (r1, r2)"
proof (induction items arbitrary: f s a b)
  case Nil
  have "s = 0 \<longleftrightarrow> index_dirs f s = []" by (subst index_dirs.simps) simp
  then show ?case by auto
next
  case (Cons x items)
  have x: "length x = 32" "digests items" using Cons.prems by simp_all
  have h: "length (node_hash H u v) = 32" for u v by (simp add: node_hash_def digest_length)
  consider "s = 0" | "s \<noteq> 0" "odd f \<or> f = s" | "s \<noteq> 0" "\<not> (odd f \<or> f = s)" by blast
  then show ?case
  proof cases
    case 1
    then show ?thesis by simp
  next
    case 2
    obtain f' s' where z: "strip_zeros f s = (f', s')" by (cases "strip_zeros f s")
    show ?thesis using Cons.IH [OF h h x(2), of "f' div 2" "s' div 2" x a x b] 2 z Cons.prems(1,2) x(1)
      by (simp add: compute_node_hash_Inr index_dirs.simps [of f s])
  next
    case 3
    show ?thesis using Cons.IH [OF Cons.prems(1) h x(2), of "f div 2" "s div 2" b x] 3 Cons.prems(1,2) x(1)
      by (simp add: compute_node_hash_Inr index_dirs.simps [of f s])
  qed
qed

lemma check_hashes_iff:
  assumes "1 \<le> m" and "m < n" and "length old = 32" and "digests hashes"
  shows "check_hashes H m n old new hashes \<longleftrightarrow>
    (LeftSibling \<in> set (cdirs m n) \<longrightarrow> hashes \<noteq> []) \<and> length (items_of m n hashes) = length (cdirs m n)
    \<and> chain H (seed_of m n old hashes) (cdirs m n) (items_of m n hashes) = (old, new)"
proof -
  obtain f s where fs: "strip_ones (m - 1) (n - 1) = (f, s)" by (cases "strip_ones (m - 1) (n - 1)")
  note fs' = fs [simplified]
  have d: "index_dirs f s = cdirs m n" "f = 0 \<longleftrightarrow> LeftSibling \<notin> set (cdirs m n)"
    using strip_ones_dirs [OF assms(1) _ fs] assms(2) by blast+
  show ?thesis
  proof (cases "f \<noteq> 0 \<and> hashes = []")
    case True
    then show ?thesis using d(2) by (simp add: check_hashes_def fs')
  next
    case False
    have sd: "length (seed_of m n old hashes) = 32" "digests (items_of m n hashes)"
      using False assms(3,4) d(2) by (cases hashes; simp add: seed_of_def items_of_def)+
    have "check_hashes H m n old new hashes \<longleftrightarrow>
        (\<exists>s'. verify_chain H f s (seed_of m n old hashes) (seed_of m n old hashes) (items_of m n hashes) = Inr (Some (s', old, new)) \<and> s' = 0)"
      using False d(2) by (auto simp: check_hashes_def fs' Let_def seed_of_def items_of_def split: sum.splits option.splits)
    then show ?thesis using verify_chain_dirs [OF sd(1) sd(1) sd(2), of f s old new] False d by (simp add: chain_def)
  qed
qed

end

section \<open>Accepted chains are honest\<close>

text \<open>The bytes hashed towards the new root.\<close>

fun step_input :: "bytes \<Rightarrow> direction \<times> bytes \<Rightarrow> bytes" where
  "step_input b (LeftSibling, x) = [1] @ x @ b"
| "step_input b (RightSibling, x) = [1] @ b @ x"

fun chain_inputs :: "hash_fun \<Rightarrow> bytes \<Rightarrow> (direction \<times> bytes) list \<Rightarrow> bytes list" where
  "chain_inputs H b [] = []"
| "chain_inputs H b (p # ps) = step_input b p # chain_inputs H (H (step_input b p)) ps"

lemma snd_chain_step: "snd (chain_step H ab p) = H (step_input (snd ab) p)"
  by (cases "(H, ab, p)" rule: chain_step.cases) (simp_all add: node_hash_def)

lemma chain_inputs_snoc:
  "chain_inputs H b (ps @ [p]) = chain_inputs H b ps @ [step_input (snd (foldl (chain_step H) (a, b) ps)) p]"
proof (induction ps arbitrary: a b)
  case (Cons q ps)
  obtain c d where c: "chain_step H (a, b) q = (c, d)" by (cases "chain_step H (a, b) q")
  then have "d = H (step_input b q)" using snd_chain_step [of H "(a, b)" q] by simp
  then show ?case using Cons.IH [of d c] by (simp add: c)
qed simp

context digest32
begin

lemma chain_digest: "length seed = 32 \<Longrightarrow> length (snd (chain H seed ds items)) = 32"
proof (induction "zip ds items" arbitrary: ds items rule: rev_induct)
  case Nil
  then show ?case by (simp add: chain_def flip: Nil.hyps)
next
  case (snoc p ps)
  then show ?case by (simp add: chain_def snd_chain_step digest_length flip: snoc.hyps(2))
qed

lemma path_digests:
  assumes "digests xs" and "1 \<le> m" and "m \<le> length xs"
  shows "digests (citems H xs m) \<and> length (cseed H xs m) = 32"
  using assms
proof (induction "length xs" arbitrary: xs m rule: less_induct)
  case less
  let ?k = "pow2_below (length xs)"
  show ?case
  proof (cases "length xs \<le> m \<or> length xs \<le> 1")
    case True
    moreover have "xs \<noteq> []" using less.prems by auto
    ultimately show ?thesis using mth_digest less.prems(1) by (auto simp: citems.simps cseed.simps)
  next
    case False
    then have l: "1 < length xs" "m < length xs" by simp_all
    note s = path_split [OF l(1)]
    have D: "digests (take ?k xs)" "digests (drop ?k xs)" using less.prems(1) by (auto dest: in_set_takeD in_set_dropD)
    have ne: "take ?k xs \<noteq> []" "drop ?k xs \<noteq> []" using s pow2_below_bounds(1) [OF l(1)] by auto
    have lens: "length (mth H (take ?k xs)) = 32" "length (mth H (drop ?k xs)) = 32" using mth_digest D ne by blast+
    show ?thesis
    proof (cases "m \<le> ?k")
      case True
      then have "digests (citems H (take ?k xs) m) \<and> length (cseed H (take ?k xs) m) = 32"
        using less.hyps [of "take ?k xs" m] s D less.prems(2) by simp
      then show ?thesis using True l lens by (simp add: citems.simps [of H xs] cseed.simps [of H xs] Let_def)
    next
      case F: False
      then have "digests (citems H (drop ?k xs) (m - ?k)) \<and> length (cseed H (drop ?k xs) (m - ?k)) = 32"
        using less.hyps [of "drop ?k xs" "m - ?k"] s D less.prems(3) by simp
      then show ?thesis using F l lens by (simp add: citems.simps [of H xs] cseed.simps [of H xs] Let_def)
    qed
  qed
qed

lemma chain_sound:
  assumes "digests xs" and "1 \<le> m" and "m \<le> length xs" and "length seed = 32" and "digests items"
    and "length items = length (cdirs m (length xs))"
    and "chain H seed (cdirs m (length xs)) items = (a, mth H xs)"
    and "inj_on H (set (tree_inputs H xs) \<union> set (chain_inputs H seed (zip (cdirs m (length xs)) items)))"
  shows "a = mth H (take m xs)"
  using assms
proof (induction "length xs" arbitrary: xs m items a rule: less_induct)
  case less
  let ?k = "pow2_below (length xs)"
  show ?case
  proof (cases "length xs \<le> m \<or> length xs \<le> 1")
    case True
    then have "m = length xs" using less.prems by auto
    then show ?thesis using less.prems by (auto simp: cdirs.simps)
  next
    case False
    then have l: "1 < length xs" "m < length xs" by simp_all
    note s = path_split [OF l(1)]
    let ?L = "take ?k xs" and ?R = "drop ?k xs"
    define ds where "ds = (if m \<le> ?k then cdirs m ?k else cdirs (m - ?k) (length xs - ?k))"
    define d where "d = (if m \<le> ?k then RightSibling else LeftSibling)"
    have c: "cdirs m (length xs) = ds @ [d]" using l by (simp add: cdirs.simps [of m "length xs"] ds_def d_def)
    obtain its x where its: "items = its @ [x]" "length its = length ds"
      using less.prems(6) unfolding c by (cases items rule: rev_cases) auto
    have x: "length x = 32" "digests its" using less.prems(5) its by auto
    obtain u v where uv: "chain H seed ds its = (u, v)" by (cases "chain H seed ds its")
    have v: "length v = 32" using chain_digest [OF less.prems(4), of ds its] uv by simp
    have st: "chain_step H (u, v) (d, x) = (a, mth H xs)"
      using less.prems(7) chain_snoc [of ds its H seed d x] its uv by (simp add: c)
    have D: "digests ?L" "digests ?R" using less.prems(1) by (auto dest: in_set_takeD in_set_dropD)
    have ne: "?L \<noteq> []" "?R \<noteq> []" using s pow2_below_bounds(1) [OF l(1)] by auto
    have lens: "length (mth H ?L) = 32" "length (mth H ?R) = 32" using mth_digest D ne by blast+
    have ci: "chain_inputs H seed (zip (cdirs m (length xs)) items) = chain_inputs H seed (zip ds its) @ [step_input v (d, x)]"
      using chain_inputs_snoc [of H seed "zip ds its" "(d, x)" seed] uv its by (simp add: c chain_def)
    have inj: "inj_on H (set (tree_inputs H ?L) \<union> set (chain_inputs H seed (zip ds its)))"
        "inj_on H (set (tree_inputs H ?R) \<union> set (chain_inputs H seed (zip ds its)))"
      using less.prems(8) unfolding ci tree_inputs_split [OF l(1)] by (auto intro: inj_on_subset)
    have eq: "step_input v (d, x) = [1] @ mth H ?L @ mth H ?R"
    proof (rule inj_onD [OF less.prems(8)])
      show "H (step_input v (d, x)) = H ([1] @ mth H ?L @ mth H ?R)"
        using snd_chain_step [of H "(u, v)" "(d, x)"] st mth_split [OF l(1), of H] by (simp add: node_hash_def)
    qed (simp_all add: ci tree_inputs_split [OF l(1)])
    show ?thesis
    proof (cases "m \<le> ?k")
      case True
      then have dd: "d = RightSibling" "ds = cdirs m (length ?L)" using s(1) by (simp_all add: d_def ds_def)
      have vx: "v = mth H ?L" using eq dd(1) v lens by simp
      have "u = mth H (take m ?L)"
        by (rule less.hyps [of ?L m its u]) (use s D True less.prems(2,4) x its uv vx inj dd in auto)
      then show ?thesis using st dd(1) True by (simp add: min_def)
    next
      case F: False
      then have dd: "d = LeftSibling" "ds = cdirs (m - ?k) (length ?R)" by (simp_all add: d_def ds_def)
      have vx: "v = mth H ?R" "x = mth H ?L" using eq dd(1) x(1) lens by simp_all
      have "u = mth H (take (m - ?k) ?R)"
        by (rule less.hyps [of ?R "m - ?k" its u]) (use s D F less.prems(2,3,4) x its uv vx inj dd in auto)
      then show ?thesis using st dd(1) F l vx(2) by (simp add: mth_take_left)
    qed
  qed
qed

lemma verify_iff_check:
  assumes "res_map decode_digest pf = Inr hashes" and "decode_digest old = Inr x" and "decode_digest new = Inr y"
    and "m \<noteq> n"
  shows "verify_consistency_proof H m n old new pf \<longleftrightarrow>
    1 \<le> m \<and> m < n \<and> n \<le> MAX_TREE_SIZE \<and> check_hashes H (nat m) (nat n) x y hashes"
  using assms by (auto simp: verify_consistency_proof_def)

lemma accepted_consistency:
  assumes "digests xs" and "res_map decode_digest pf = Inr hashes" and "decode_digest old = Inr x"
    and "verify_consistency_proof H m (int (length xs)) old (Raw (mth H xs)) pf"
    and "inj_on H (set (tree_inputs H xs) \<union> set (chain_inputs H (seed_of (nat m) (length xs) x hashes)
      (zip (cdirs (nat m) (length xs)) (items_of (nat m) (length xs) hashes))))"
  shows "1 \<le> m \<and> m \<le> int (length xs) \<and> x = mth H (take (nat m) xs)"
proof (cases "m = int (length xs)")
  case True
  have d: "decode_digest (Raw (mth H xs)) = Inr y" if "res_map decode_digest (old # Raw (mth H xs) # pf) = Inr (x # y # hashes)" for y
    using that assms(3) by simp
  show ?thesis using assms(2,3,4) True
    by (cases "decode_digest (Raw (mth H xs))")
      (auto simp: verify_consistency_proof_def decode_digest_Raw_iff Suc_le_eq split: if_split_asm)
next
  case False
  have v: "xs \<noteq> []" using assms(2-4) False
    by (cases "decode_digest (Raw (mth H xs))") (auto simp: verify_consistency_proof_def split: if_split_asm)
  have y: "decode_digest (Raw (mth H xs)) = Inr (mth H xs)" using mth_digest [OF assms(1) v] by simp
  have c: "1 \<le> m" "m < int (length xs)" "check_hashes H (nat m) (length xs) x (mth H xs) hashes"
    using assms(4) unfolding verify_iff_check [OF assms(2,3) y False] by simp_all
  have x: "length x = 32" using assms(3) by (rule decode_digest_length)
  have hs: "digests hashes" using decode_list_Inr [OF assms(2)] by blast
  have m: "1 \<le> nat m" "nat m < length xs" using c by simp_all
  note k = c(3) [unfolded check_hashes_iff [OF m x hs]]
  have "length (seed_of (nat m) (length xs) x hashes) = 32" "digests (items_of (nat m) (length xs) hashes)"
    using k x hs by (cases hashes; simp add: seed_of_def items_of_def)+
  then have "x = mth H (take (nat m) xs)"
    using chain_sound [OF assms(1) m(1) _ _ _ _ _ assms(5)] m k by auto
  then show ?thesis using c by simp
qed

lemma honest_consistency:
  assumes "digests xs" and "int (length xs) \<le> MAX_TREE_SIZE" and "1 \<le> m" and "m \<le> length xs"
    and "res_map decode_digest leaves = Inr xs"
  shows "\<exists>p. build_consistency_proof H leaves (int m) = Inr p
    \<and> verify_consistency_proof H (int m) (int (length xs)) (Raw (mth H (take m xs))) (Raw (mth H xs)) (map Raw p)"
proof -
  have ne: "xs \<noteq> []" "take m xs \<noteq> []" "digests (take m xs)" using assms by (auto dest: in_set_takeD)
  have r: "length (mth H (take m xs)) = 32" "length (mth H xs) = 32" using mth_digest assms(1) ne by blast+
  show ?thesis
  proof (cases "m = length xs")
    case True
    then show ?thesis using assms r ne(1) by (simp add: build_consistency_proof_def verify_consistency_proof_def)
  next
    case False
    define p where "p = (if LeftSibling \<notin> set (cdirs m (length xs)) then [] else [cseed H xs m]) @ citems H xs m"
    have b: "build_consistency_proof H leaves (int m) = Inr p"
      using subproof_path [OF assms(1,2,3,4), of 0 True] assms False by (simp add: build_consistency_proof_def p_def)
    have dg: "digests (citems H xs m)" "length (cseed H xs m) = 32" using path_digests [OF assms(1) assms(3,4)] by blast+
    have dp: "res_map decode_digest (map Raw p) = Inr p" by (rule decode_map_Raw) (use dg in \<open>auto simp: p_def\<close>)
    have ps: "seed_of m (length xs) (mth H (take m xs)) p = cseed H xs m" "items_of m (length xs) p = citems H xs m"
      using cseed_old [OF assms(3,4)] by (auto simp: seed_of_def items_of_def p_def)
    have "check_hashes H m (length xs) (mth H (take m xs)) (mth H xs) p"
      using check_hashes_iff [OF assms(3) _ r(1), of "length xs" p] False assms(4) chain_citems [OF assms(3,4)] citems_length [of H xs m] dg ps
      by (auto simp: p_def)
    then show ?thesis using b verify_iff_check [OF dp] r assms False by simp
  qed
qed

end

text \<open>
  C9. Consistency proofs are complete: for a log of decodable leaves within the size limit and any
  earlier size of it, the roots of the two trees and the proof between them are built without error,
  and the verifier accepts the proof; when the sizes are equal the proof is empty.
\<close>

theorem consistency_proofs_complete:
  assumes "res_map decode_digest leaves = Inr xs" and "int (length leaves) \<le> MAX_TREE_SIZE"
    and "1 \<le> m" and "m \<le> length leaves"
  shows "\<exists>r0 r p. build_log_root sha256 (take m leaves) = Inr r0 \<and> build_log_root sha256 leaves = Inr r
    \<and> build_consistency_proof sha256 leaves (int m) = Inr p \<and> (m = length leaves \<longrightarrow> p = [])
    \<and> verify_consistency_proof sha256 (int m) (int (length leaves)) (Raw r0) (Raw r) (map Raw p)"
proof -
  have l: "length xs = length leaves" "digests xs" using decode_list_Inr [OF assms(1)] by simp_all
  have ne: "leaves \<noteq> []" "take m leaves \<noteq> []" using assms(3,4) by auto
  have t: "res_map decode_digest (take m leaves) = Inr (take m xs)" using res_map_slice [OF assms(1), of _ 0] by simp
  have r: "build_log_root sha256 leaves = Inr (mth sha256 xs)"
    "build_log_root sha256 (take m leaves) = Inr (mth sha256 (take m xs))"
    using sha.build_root_mth [OF assms(1) ne(1) assms(2)] sha.build_root_mth [OF t ne(2)] assms(2,4)
    by (simp_all add: build_log_root_def)
  obtain p where p: "build_consistency_proof sha256 leaves (int m) = Inr p"
      "verify_consistency_proof sha256 (int m) (int (length xs)) (Raw (mth sha256 (take m xs))) (Raw (mth sha256 xs)) (map Raw p)"
    using sha.honest_consistency [OF l(2) _ assms(3) _ assms(1)] assms(2,4) l(1) by auto
  have "p = []" if "m = length leaves"
    using p(1) assms(1,3) l(1) that by (simp add: build_consistency_proof_def split: if_split_asm)
  then show ?thesis using r p l(1) by auto
qed

theorem consistency_proofs_complete_witness:
  "\<exists>r0 r p. build_consistency_proof sha256 [Raw (fill 1), Text (encode_base64url (fill 2)), Raw (fill 3)] 2 = Inr p
    \<and> verify_consistency_proof sha256 2 3 (Raw r0) (Raw r) (map Raw p)"
proof -
  have "res_map decode_digest [Raw (fill 1), Text (encode_base64url (fill 2)), Raw (fill 3)] = Inr [fill 1, fill 2, fill 3]"
    by simp
  from consistency_proofs_complete [OF this, of 2] show ?thesis
    by (auto simp: MAX_TREE_SIZE_def)
qed

text \<open>
  C8. Consistency proofs are sound: if SHA-256 does not collide on the inputs hashed for the log's
  tree and along the presented proof, an accepted proof against the log's root has an earlier size
  between one and the log's size, and the earlier root it vouches for is the root the code builds
  for that many first entries of the log: the log was only appended to.
\<close>

theorem consistency_proofs_sound:
  assumes "res_map decode_digest leaves = Inr xs" and "build_log_root sha256 leaves = Inr r"
    and "verify_consistency_proof sha256 m (int (length leaves)) old (Raw r) pf"
    and "decode_digest old = Inr x" and "res_map decode_digest pf = Inr hashes"
    and "inj_on sha256 (set (tree_inputs sha256 xs) \<union> set (chain_inputs sha256 (seed_of (nat m) (length xs) x hashes)
      (zip (cdirs (nat m) (length xs)) (items_of (nat m) (length xs) hashes))))"
  shows "1 \<le> m \<and> m \<le> int (length leaves) \<and> build_log_root sha256 (take (nat m) leaves) = Inr x"
proof -
  have l: "length xs = length leaves" "digests xs" using decode_list_Inr [OF assms(1)] by simp_all
  have n: "leaves \<noteq> []" "int (length leaves) \<le> MAX_TREE_SIZE"
    using assms(2) by (auto simp: build_log_root_def build_merkle_root_def split: if_splits)
  have r: "r = mth sha256 xs"
    using sha.build_root_mth [OF assms(1) n] assms(2) by (simp add: build_log_root_def)
  have a: "1 \<le> m" "m \<le> int (length leaves)" "x = mth sha256 (take (nat m) xs)"
    using sha.accepted_consistency [OF l(2) assms(5,4) _ assms(6)] assms(3) l(1) r by simp_all
  have t: "res_map decode_digest (take (nat m) leaves) = Inr (take (nat m) xs)" using res_map_slice [OF assms(1), of _ 0] by simp
  have "take (nat m) leaves \<noteq> []" using a(1) n(1) by auto
  then show ?thesis using sha.build_root_mth [OF t] a n(2) by (simp add: build_log_root_def)
qed

theorem consistency_proofs_sound_witness:
  "build_log_root sha256 (take 1 [Raw (fill 1), Raw (fill 2)]) = Inr (fill 1)"
proof -
  let ?ls = "[Raw (fill 1), Raw (fill 2)]" and ?xs = "[fill 1, fill 2]"
  have xs: "res_map decode_digest ?ls = Inr ?xs" by simp
  have rt: "build_log_root sha256 ?ls = Inr (mth sha256 ?xs)"
    unfolding build_log_root_def by (rule sha.build_root_mth [OF xs]) (simp_all add: MAX_TREE_SIZE_def)
  have d: "cdirs 1 2 = [RightSibling]" by (simp add: cdirs.simps pow2_below_def bit_length.simps)
  have s: "seed_of 1 2 (fill 1) [fill 2] = fill 1" "items_of 1 2 [fill 2] = [fill 2]"
    by (simp_all add: seed_of_def items_of_def d [simplified])
  have c: "check_hashes sha256 1 2 (fill 1) (mth sha256 ?xs) [fill 2]"
    by (subst sha.check_hashes_iff)
      (simp_all add: s [simplified] d [simplified] chain_def two_leaf_tree)
  have v: "verify_consistency_proof sha256 1 (int (length ?ls)) (Raw (fill 1)) (Raw (mth sha256 ?xs)) [Raw (fill 2)]"
    by (subst sha.verify_iff_check [of _ "[fill 2]" _ "fill 1" _ "mth sha256 ?xs"])
      (use c sha.mth_digest [of ?xs] in \<open>simp_all add: MAX_TREE_SIZE_def\<close>)
  have "inj_on sha256 (set (tree_inputs sha256 ?xs) \<union> set (chain_inputs sha256 (seed_of (nat 1) (length ?xs) (fill 1) [fill 2])
      (zip (cdirs (nat 1) (length ?xs)) (items_of (nat 1) (length ?xs) [fill 2]))))"
    by (simp add: two_leaf_tree s [simplified One_nat_def numeral_2_eq_2] d [simplified One_nat_def numeral_2_eq_2])
  from consistency_proofs_sound [OF xs rt v _ _ this] show ?thesis by simp
qed

end
