(* ===== verification/TrustChannel.thy ===== *)
theory TrustChannel
  imports Bytes
begin

text \<open>
  The encrypted channel to the marketplace: the wire primitives of
  app/services/trust_channel_protocol.py and the client of app/services/trust_channel_client.py.
  The cryptographic library (AES-GCM, HKDF, X25519, the signatures) and the JSON text form are
  arguments of the definitions; integers of the wire format are 64-bit words where the code
  works on their bits.
\<close>

unbundle bit_operations_syntax

section \<open>Wire primitives\<close>

datatype tc_error = ValueError string | ConnectionError string | RateLimited | PyTypeError

definition LIMIT :: int where
  "LIMIT = 2 ^ 63"

definition std_char :: "nat \<Rightarrow> nat" where
  "std_char n = (if n = 62 then 43 else if n = 63 then 47 else b64_char n)"

definition std_value :: "nat \<Rightarrow> nat option" where
  "std_value c = (if c = 45 \<or> c = 95 then None else b64_value c)"

definition b64encode :: "bytes \<Rightarrow> ustr" where
  "b64encode raw = map std_char (sextets raw) @ replicate ((3 - length raw mod 3) mod 3) 61"

definition decode_b64 :: "ustr option \<Rightarrow> nat option \<Rightarrow> tc_error + bytes" where
  "decode_b64 value len =
     (case value of None \<Rightarrow> Inl (ValueError ''Missing or invalid base64 field'')
      | Some v \<Rightarrow>
     (case Option.bind (option_list (map std_value (takeWhile (\<lambda>c. c \<noteq> 61) v))) unsextets of
        None \<Rightarrow> Inl (ValueError ''Invalid base64-encoded string'')
      | Some raw \<Rightarrow>
          (if b64encode raw \<noteq> v then Inl (ValueError ''Noncanonical base64 field'')
           else if len \<noteq> None \<and> len \<noteq> Some (length raw) then Inl (ValueError ''Expected field length'')
           else Inr raw)))"

text \<open>The device id is given by its UTF-8 bytes; \<^verbatim>\<open>struct.pack(">H", n)\<close> is \<open>be_bytes 2 n\<close>.\<close>

definition handshake_transcript ::
  "bytes \<Rightarrow> bytes \<Rightarrow> bytes \<Rightarrow> bytes \<Rightarrow> bytes \<Rightarrow> bytes \<Rightarrow> tc_error + bytes" where
  "handshake_transcript device_id ed_public x_public client_nonce server_nonce ephemeral =
     (let fields = [device_id, ed_public, x_public, client_nonce, server_nonce, ephemeral]
      in if \<not> list_all (\<lambda>v. length v \<le> 65535) fields then Inl (ValueError ''Transcript field too long'')
         else Inr (ascii ''ai.market trust channel v1 handshake'' @ concat (map (\<lambda>v. be_bytes 2 (length v) @ v) fields)))"

text \<open>\<open>exchange\<close> is the X25519 exchange of the device key, \<open>hkdf salt info\<close> the derivation of 32 bytes.\<close>

definition derive_keys ::
  "(bytes \<Rightarrow> bytes) \<Rightarrow> (bytes \<Rightarrow> bytes \<Rightarrow> bytes \<Rightarrow> bytes) \<Rightarrow> bytes \<Rightarrow> bytes \<Rightarrow> bytes \<Rightarrow> bytes \<times> bytes" where
  "derive_keys exchange hkdf ephemeral client_nonce server_nonce =
     (let shared = exchange ephemeral;
          key = (\<lambda>dir. hkdf (client_nonce @ server_nonce) (ascii ''ai.market trust channel v1 aes-256-gcm '' @ ascii dir) shared)
      in (key ''c2s'', key ''s2c''))"

text \<open>A sequence number that is absent or no integer is \<open>None\<close>.\<close>

definition validate_sequence :: "int option \<Rightarrow> tc_error + int" where
  "validate_sequence sequence =
     (case sequence of None \<Rightarrow> Inl (ValueError ''Trust Channel sequence out of range'')
      | Some s \<Rightarrow> (if 0 \<le> s \<and> s < LIMIT then Inr s else Inl (ValueError ''Trust Channel sequence out of range'')))"

definition iv_suffix :: "bytes \<Rightarrow> int \<Rightarrow> bool \<Rightarrow> 64 word" where
  "iv_suffix nonce sequence from_server =
     ((of_nat (be_value (drop 4 nonce)) XOR word_of_int sequence) AND mask 63) OR push_bit 63 (of_bool from_server)"

definition derive_iv :: "bytes \<Rightarrow> int \<Rightarrow> bool \<Rightarrow> tc_error + bytes" where
  "derive_iv nonce sequence from_server =
     res_bind (validate_sequence (Some sequence)) (\<lambda>s.
       if length nonce \<noteq> 12 then Inl (ValueError ''Server nonce must be 12 bytes'')
       else Inr (take 4 nonce @ be_bytes 8 (unat (iv_suffix nonce s from_server))))"

section \<open>JSON values\<close>

datatype json =
    JNull | JBool bool | JNum int | JReal real | JStr string | JArr "json list" | JObj "(string \<times> json) list"

type_synonym jobj = "(string \<times> json) list"

fun json_truthy :: "json \<Rightarrow> bool" where
  "json_truthy JNull = False"
| "json_truthy (JBool b) = b"
| "json_truthy (JNum n) = (n \<noteq> 0)"
| "json_truthy (JReal r) = (r \<noteq> 0)"
| "json_truthy (JStr s) = (s \<noteq> [])"
| "json_truthy (JArr xs) = (xs \<noteq> [])"
| "json_truthy (JObj m) = (m \<noteq> [])"

fun hashable :: "json \<Rightarrow> bool" where
  "hashable (JArr _) = False"
| "hashable (JObj _) = False"
| "hashable _ = True"

definition jget :: "jobj \<Rightarrow> string \<Rightarrow> json" where
  "jget m k = (case map_of m k of None \<Rightarrow> JNull | Some v \<Rightarrow> v)"

definition jget_or :: "jobj \<Rightarrow> string \<Rightarrow> json \<Rightarrow> json" where
  "jget_or m k d = (case map_of m k of None \<Rightarrow> d | Some v \<Rightarrow> v)"

section \<open>A traffic session\<close>

text \<open>
  A frame as parsed: the fields the client reads, each \<open>None\<close> when absent or of the wrong type.
\<close>

record tframe =
  tf_type :: string
  tf_sequence :: "int option"
  tf_ciphertext :: "ustr option"
  tf_tag :: "ustr option"
  tf_payload :: json
  tf_event_id :: "json option"
  tf_retry_ms :: "real option"

record traffic =
  ts_c2s :: bytes
  ts_s2c :: bytes
  ts_nonce :: bytes
  ts_outbound :: int
  ts_inbound :: int

definition TrafficSession :: "bytes \<Rightarrow> bytes \<Rightarrow> bytes \<Rightarrow> traffic" where
  "TrafficSession c2s s2c nonce = \<lparr>ts_c2s = c2s, ts_s2c = s2c, ts_nonce = nonce, ts_outbound = 0, ts_inbound = -1\<rparr>"

text \<open>
  AES-GCM and the JSON text form: \<open>seal key iv plaintext\<close> is the ciphertext with its tag,
  \<open>unseal\<close> its inverse or a refusal, \<open>loads\<close> the value of a text or a refusal.
\<close>

record channel_env =
  seal :: "bytes \<Rightarrow> bytes \<Rightarrow> bytes \<Rightarrow> bytes"
  unseal :: "bytes \<Rightarrow> bytes \<Rightarrow> bytes \<Rightarrow> bytes option"
  dumps :: "jobj \<Rightarrow> bytes"
  loads :: "bytes \<Rightarrow> json option"
  py_str :: "json \<Rightarrow> string"

record data_frame =
  df_sequence :: int
  df_ciphertext :: ustr
  df_tag :: ustr

definition encrypt :: "channel_env \<Rightarrow> jobj \<Rightarrow> traffic \<Rightarrow> (tc_error + data_frame) \<times> traffic" where
  "encrypt env message ses =
     (let sequence = ts_outbound ses in
      case derive_iv (ts_nonce ses) sequence False of Inl e \<Rightarrow> (Inl e, ses)
      | Inr iv \<Rightarrow>
          (let encrypted = seal env (ts_c2s ses) iv (dumps env message)
           in (Inr \<lparr>df_sequence = sequence,
                    df_ciphertext = b64encode (take (length encrypted - 16) encrypted),
                    df_tag = b64encode (drop (length encrypted - 16) encrypted)\<rparr>,
               ses\<lparr>ts_outbound := ts_outbound ses + 1\<rparr>)))"

definition open_payload :: "channel_env \<Rightarrow> tframe \<Rightarrow> int \<Rightarrow> traffic \<Rightarrow> tc_error + json" where
  "open_payload env frame sequence ses =
     (if tf_type frame = ''data'' then
        res_bind (derive_iv (ts_nonce ses) sequence True) (\<lambda>iv.
        res_bind (decode_b64 (tf_ciphertext frame) None) (\<lambda>body.
        res_bind (decode_b64 (tf_tag frame) (Some 16)) (\<lambda>tag.
          case Option.bind (unseal env (ts_s2c ses) iv (body @ tag)) (loads env) of
            None \<Rightarrow> Inl (ValueError ''invalid ciphertext or text'')
          | Some j \<Rightarrow> Inr j)))
      else Inr (tf_payload frame))"

definition receive_frame :: "channel_env \<Rightarrow> tframe \<Rightarrow> traffic \<Rightarrow> (tc_error + jobj) \<times> traffic" where
  "receive_frame env frame ses =
     (case validate_sequence (tf_sequence frame) of Inl e \<Rightarrow> (Inl e, ses)
      | Inr sequence \<Rightarrow>
          (if sequence \<le> ts_inbound ses then (Inl (ValueError ''Replayed or older Trust Channel sequence''), ses)
           else case open_payload env frame sequence ses of Inl e \<Rightarrow> (Inl e, ses)
           | Inr (JObj m) \<Rightarrow> (Inr m, ses\<lparr>ts_inbound := sequence\<rparr>)
           | Inr _ \<Rightarrow> (Inl (ValueError ''Trust Channel application payload must be an object''), ses)))"

section \<open>The base64 fields\<close>

lemma std_value_char [simp]: "n < 64 \<Longrightarrow> std_value (std_char n) = Some n"
  by (auto simp: std_value_def std_char_def b64_value_def b64_char_def)

lemma std_char_not_pad: "n < 64 \<Longrightarrow> std_char n \<noteq> 61"
  by (auto simp: std_char_def b64_char_def)

lemma takeWhile_pad: "takeWhile (\<lambda>c. c \<noteq> 61) (b64encode raw) = map std_char (sextets raw)"
proof -
  have "\<forall>c\<in>set (map std_char (sextets raw)). c \<noteq> 61"
    using sextets_range [of raw] std_char_not_pad by auto
  then show ?thesis
    by (cases "(3 - length raw mod 3) mod 3") (simp_all add: b64encode_def takeWhile_append)
qed

lemma decode_b64_iff: "decode_b64 (Some v) len = Inr raw \<longleftrightarrow> v = b64encode raw \<and> (\<forall>n. len = Some n \<longrightarrow> length raw = n)"
proof
  assume "decode_b64 (Some v) len = Inr raw"
  then show "v = b64encode raw \<and> (\<forall>n. len = Some n \<longrightarrow> length raw = n)"
    by (auto simp: decode_b64_def split: option.splits if_splits)
next
  assume v: "v = b64encode raw \<and> (\<forall>n. len = Some n \<longrightarrow> length raw = n)"
  have "map std_value (map std_char (sextets raw)) = map Some (sextets raw)"
    using sextets_range [of raw] by simp
  moreover have "option_list (map Some (sextets raw)) = Some (sextets raw)"
    using option_list_map [of "sextets raw" Some id] by simp
  ultimately have "Option.bind (option_list (map std_value (takeWhile (\<lambda>c. c \<noteq> 61) (b64encode raw)))) unsextets = Some raw"
    unfolding takeWhile_pad by (simp only: bind.bind_lunit unsextets_sextets)
  then show "decode_b64 (Some v) len = Inr raw" using v by (cases len) (simp_all add: decode_b64_def)
qed

section \<open>Initialisation vectors\<close>

lemma iv_suffix_bit:
  "bit (iv_suffix nonce s b) n \<longleftrightarrow>
     (if n < 63 then bit (of_nat (be_value (drop 4 nonce)) :: 64 word) n \<noteq> bit (word_of_int s :: 64 word) n else n = 63 \<and> b)"
  by (auto simp: iv_suffix_def bit_simps)

lemma word_below_limit:
  assumes "0 \<le> s" and "s < LIMIT"
  shows "uint (word_of_int s :: 64 word) = s"
  using assms by (simp add: LIMIT_def uint_word_of_int)

lemma iv_suffix_inj:
  assumes "0 \<le> s" "s < LIMIT" "0 \<le> t" "t < LIMIT" and eq: "iv_suffix nonce s a = iv_suffix nonce t b"
  shows "s = t \<and> a = b"
proof -
  have ab: "a = b" using arg_cong [OF eq, of "\<lambda>w. bit w 63"] by (simp add: iv_suffix_bit)
  have "bit (word_of_int s :: 64 word) n = bit (word_of_int t :: 64 word) n" for n
  proof (cases "n < 63")
    case True
    then show ?thesis using arg_cong [OF eq, of "\<lambda>w. bit w n"] unfolding iv_suffix_bit by (simp only: if_True) blast
  next
    case False
    have "\<not> bit (word_of_int u :: 64 word) n" if "0 \<le> u" "u < LIMIT" for u :: int
    proof -
      have "u < 2 ^ n" using that(2) False power_increasing [of 63 n "2 :: int"] by (simp add: LIMIT_def)
      then have "u div 2 ^ n = 0" using that(1) by simp
      then have "\<not> bit u n" by (simp add: bit_iff_odd [of u])
      then show ?thesis by (simp add: bit_word_of_int_iff)
    qed
    then show ?thesis using assms by blast
  qed
  then have "(word_of_int s :: 64 word) = word_of_int t" by (simp add: bit_eq_iff)
  then show ?thesis using ab word_below_limit assms by metis
qed

lemma derive_iv_Inr:
  "derive_iv nonce s b = Inr iv \<longleftrightarrow>
     0 \<le> s \<and> s < LIMIT \<and> length nonce = 12 \<and> iv = take 4 nonce @ be_bytes 8 (unat (iv_suffix nonce s b))"
  by (auto simp: derive_iv_def validate_sequence_def split: if_splits)

lemma derive_iv_inj:
  assumes "derive_iv nonce s a = Inr iv" and "derive_iv nonce t b = Inr iv"
  shows "s = t \<and> a = b"
proof -
  have "be_bytes 8 (unat (iv_suffix nonce s a)) = be_bytes 8 (unat (iv_suffix nonce t b))"
    using assms by (simp add: derive_iv_Inr)
  moreover have "unat (w :: 64 word) < 256 ^ 8" for w using unsigned_less [of w] by simp
  ultimately have "unat (iv_suffix nonce s a) = unat (iv_suffix nonce t b)" by (intro be_bytes_inj [of _ 8])
  then have "iv_suffix nonce s a = iv_suffix nonce t b" by (simp only: word_unat_eq_iff)
  then show ?thesis using iv_suffix_inj [of s t nonce a b] assms by (simp add: derive_iv_Inr)
qed

section \<open>Runs of a session\<close>

datatype tc_op = SendFrame jobj | RecvFrame tframe

fun tc_step :: "channel_env \<Rightarrow> traffic \<Rightarrow> tc_op \<Rightarrow> traffic" where
  "tc_step env ses (SendFrame m) = snd (encrypt env m ses)"
| "tc_step env ses (RecvFrame f) = snd (receive_frame env f ses)"

text \<open>The vectors the client encrypts under, the numbers of the frames it sends, and of those it accepts.\<close>

fun tc_ivs :: "channel_env \<Rightarrow> traffic \<Rightarrow> tc_op list \<Rightarrow> bytes list" where
  "tc_ivs env ses [] = []"
| "tc_ivs env ses (x # xs) =
     (case x of SendFrame m \<Rightarrow> (case derive_iv (ts_nonce ses) (ts_outbound ses) False of Inr iv \<Rightarrow> [iv] | Inl e \<Rightarrow> [])
      | RecvFrame f \<Rightarrow> []) @ tc_ivs env (tc_step env ses x) xs"

fun tc_sent :: "channel_env \<Rightarrow> traffic \<Rightarrow> tc_op list \<Rightarrow> int list" where
  "tc_sent env ses [] = []"
| "tc_sent env ses (x # xs) =
     (case x of SendFrame m \<Rightarrow> (case fst (encrypt env m ses) of Inr f \<Rightarrow> [df_sequence f] | Inl e \<Rightarrow> [])
      | RecvFrame f \<Rightarrow> []) @ tc_sent env (tc_step env ses x) xs"

fun tc_accepted :: "channel_env \<Rightarrow> traffic \<Rightarrow> tc_op list \<Rightarrow> int list" where
  "tc_accepted env ses [] = []"
| "tc_accepted env ses (x # xs) =
     (case x of SendFrame m \<Rightarrow> []
      | RecvFrame f \<Rightarrow> (case fst (receive_frame env f ses) of Inr m \<Rightarrow> [the (tf_sequence f)] | Inl e \<Rightarrow> []))
     @ tc_accepted env (tc_step env ses x) xs"

lemma encrypt_cases:
  "(\<exists>e. encrypt env m ses = (Inl e, ses) \<and> derive_iv (ts_nonce ses) (ts_outbound ses) False = Inl e)
   \<or> (\<exists>iv f. encrypt env m ses = (Inr f, ses\<lparr>ts_outbound := ts_outbound ses + 1\<rparr>) \<and> df_sequence f = ts_outbound ses
        \<and> derive_iv (ts_nonce ses) (ts_outbound ses) False = Inr iv)"
  by (cases "derive_iv (ts_nonce ses) (ts_outbound ses) False") (simp_all add: encrypt_def Let_def)

lemma receive_cases:
  "(\<exists>e. receive_frame env f ses = (Inl e, ses))
   \<or> (\<exists>m s. receive_frame env f ses = (Inr m, ses\<lparr>ts_inbound := s\<rparr>) \<and> tf_sequence f = Some s \<and> ts_inbound ses < s \<and> s < LIMIT
        \<and> open_payload env f s ses = Inr (JObj m))"
  by (auto simp: receive_frame_def validate_sequence_def split: sum.split json.split option.splits if_splits)

lemma tc_nonce [simp]: "ts_nonce (tc_step env ses x) = ts_nonce ses"
proof (cases x)
  case (SendFrame m)
  then show ?thesis using encrypt_cases [of env m ses] by auto
next
  case (RecvFrame f)
  then show ?thesis using receive_cases [of env f ses] by auto
qed

lemma tc_sent_from:
  "\<exists>k. tc_sent env ses xs = map (\<lambda>i. ts_outbound ses + int i) [0..<k]
     \<and> list_all2 (\<lambda>iv s. derive_iv (ts_nonce ses) s False = Inr iv) (tc_ivs env ses xs) (tc_sent env ses xs)"
proof (induction xs arbitrary: ses)
  case (Cons x xs)
  obtain k where k: "tc_sent env (tc_step env ses x) xs = map (\<lambda>i. ts_outbound (tc_step env ses x) + int i) [0..<k]"
      "list_all2 (\<lambda>iv s. derive_iv (ts_nonce ses) s False = Inr iv) (tc_ivs env (tc_step env ses x) xs) (tc_sent env (tc_step env ses x) xs)"
    using Cons.IH [of "tc_step env ses x"] by auto
  show ?case
  proof (cases x)
    case (SendFrame m)
    from encrypt_cases [of env m ses] show ?thesis
    proof (elim disjE exE conjE)
      fix e assume "encrypt env m ses = (Inl e, ses)" "derive_iv (ts_nonce ses) (ts_outbound ses) False = Inl e"
      then show ?thesis using k by (intro exI [of _ k]) (simp add: SendFrame)
    next
      fix iv f
      assume e: "encrypt env m ses = (Inr f, ses\<lparr>ts_outbound := ts_outbound ses + 1\<rparr>)" "df_sequence f = ts_outbound ses"
        "derive_iv (ts_nonce ses) (ts_outbound ses) False = Inr iv"
      have "map (\<lambda>i. ts_outbound ses + int i) [0..<Suc k]
          = ts_outbound ses # map (\<lambda>i. ts_outbound ses + 1 + int i) [0..<k]"
        unfolding upt_conv_Cons [OF zero_less_Suc] map_Suc_upt [symmetric] by simp
      then show ?thesis using k e by (intro exI [of _ "Suc k"]) (simp add: SendFrame del: upt_Suc)
    qed
  next
    case (RecvFrame f)
    then show ?thesis using k receive_cases [of env f ses] by (intro exI [of _ k]) auto
  qed
qed simp


definition env0 :: channel_env where
  "env0 = \<lparr>seal = (\<lambda>_ _ p. p), unseal = (\<lambda>_ _ c. Some c), dumps = (\<lambda>_. replicate 20 0), loads = (\<lambda>_. Some (JObj [])),
     py_str = (\<lambda>_. [])\<rparr>"


lemma tc_accepted_above:
  "sorted_wrt (<) (tc_accepted env ses xs) \<and> (\<forall>s\<in>set (tc_accepted env ses xs). ts_inbound ses < s \<and> s < LIMIT)"
proof (induction xs arbitrary: ses)
  case (Cons x xs)
  show ?case
  proof (cases x)
    case (SendFrame m)
    then show ?thesis using Cons.IH [of "tc_step env ses x"] encrypt_cases [of env m ses] by auto
  next
    case (RecvFrame f)
    from receive_cases [of env f ses] show ?thesis
    proof (elim disjE exE conjE)
      fix e assume "receive_frame env f ses = (Inl e, ses)"
      then show ?thesis using Cons.IH [of ses] by (simp add: RecvFrame)
    next
      fix m s assume r: "receive_frame env f ses = (Inr m, ses\<lparr>ts_inbound := s\<rparr>)" "tf_sequence f = Some s" "ts_inbound ses < s" "s < LIMIT"
      then show ?thesis using Cons.IH [of "ses\<lparr>ts_inbound := s\<rparr>"] by (force simp: RecvFrame)
    qed
  qed
qed simp

text \<open>
  C40. Nothing is accepted twice: in every run the numbers of the accepted frames strictly increase;
  a frame that is refused leaves the session as it was; and an accepted data frame has a
  ciphertext and a tag of 16 bytes that the cipher opens under the vector of its own number.
\<close>

theorem replays_refused:
  shows "sorted_wrt (<) (tc_accepted env ses xs)
    \<and> (fst (receive_frame env f ses) = Inl e \<longrightarrow> snd (receive_frame env f ses) = ses)
    \<and> (receive_frame env f ses = (Inr m, ses') \<longrightarrow>
         (\<exists>s. tf_sequence f = Some s \<and> ts_inbound ses < s \<and> ts_inbound ses' = s
           \<and> (\<forall>g. tf_sequence g = Some s \<longrightarrow> (\<exists>e. receive_frame env g ses' = (Inl e, ses')))
           \<and> (tf_type f = ''data'' \<longrightarrow> (\<exists>iv body tag plain. derive_iv (ts_nonce ses) s True = Inr iv
                \<and> tf_ciphertext f = Some (b64encode body) \<and> tf_tag f = Some (b64encode tag) \<and> length tag = 16
                \<and> unseal env (ts_s2c ses) iv (body @ tag) = Some plain \<and> loads env plain = Some (JObj m)))))"
proof (intro conjI impI)
  show "sorted_wrt (<) (tc_accepted env ses xs)" using tc_accepted_above by blast
  show "snd (receive_frame env f ses) = ses" if "fst (receive_frame env f ses) = Inl e"
    using receive_cases [of env f ses] that by auto
  assume r: "receive_frame env f ses = (Inr m, ses')"
  then obtain s where s: "ses' = ses\<lparr>ts_inbound := s\<rparr>" "tf_sequence f = Some s" "ts_inbound ses < s"
      "open_payload env f s ses = Inr (JObj m)"
    using receive_cases [of env f ses] by auto
  have again: "\<exists>e. receive_frame env g ses' = (Inl e, ses')" if "tf_sequence g = Some s" for g
    using receive_cases [of env g ses'] that s(1) by auto
  have "\<exists>iv body tag plain. derive_iv (ts_nonce ses) s True = Inr iv
        \<and> tf_ciphertext f = Some (b64encode body) \<and> tf_tag f = Some (b64encode tag) \<and> length tag = 16
        \<and> unseal env (ts_s2c ses) iv (body @ tag) = Some plain \<and> loads env plain = Some (JObj m)"
    if d: "tf_type f = ''data''"
  proof -
    obtain iv body tag where o: "derive_iv (ts_nonce ses) s True = Inr iv" "decode_b64 (tf_ciphertext f) None = Inr body"
        "decode_b64 (tf_tag f) (Some 16) = Inr tag" "Option.bind (unseal env (ts_s2c ses) iv (body @ tag)) (loads env) = Some (JObj m)"
      using s(4) d by (auto simp: open_payload_def split: option.splits)
    obtain c where c: "tf_ciphertext f = Some c" using o(2) by (cases "tf_ciphertext f") (auto simp: decode_b64_def)
    obtain u where u: "tf_tag f = Some u" using o(3) by (cases "tf_tag f") (auto simp: decode_b64_def)
    show ?thesis using o c u by (auto simp: decode_b64_iff Option.bind_eq_Some_conv)
  qed
  then show "\<exists>s. tf_sequence f = Some s \<and> ts_inbound ses < s \<and> ts_inbound ses' = s
           \<and> (\<forall>g. tf_sequence g = Some s \<longrightarrow> (\<exists>e. receive_frame env g ses' = (Inl e, ses')))
           \<and> (tf_type f = ''data'' \<longrightarrow> (\<exists>iv body tag plain. derive_iv (ts_nonce ses) s True = Inr iv
                \<and> tf_ciphertext f = Some (b64encode body) \<and> tf_tag f = Some (b64encode tag) \<and> length tag = 16
                \<and> unseal env (ts_s2c ses) iv (body @ tag) = Some plain \<and> loads env plain = Some (JObj m)))"
    using s again by auto
qed

definition event3 :: tframe where
  "event3 = \<lparr>tf_type = ''event'', tf_sequence = Some 3, tf_ciphertext = None, tf_tag = None, tf_payload = JObj [],
     tf_event_id = None, tf_retry_ms = None\<rparr>"

theorem replays_refused_witness:
  "\<exists>ses' e. receive_frame env0 event3 (TrafficSession [] [] []) = (Inr [], ses') \<and> receive_frame env0 event3 ses' = (Inl e, ses')"
proof -
  obtain ses' where r: "receive_frame env0 event3 (TrafficSession [] [] []) = (Inr [], ses')"
    by (simp add: receive_frame_def event3_def validate_sequence_def LIMIT_def TrafficSession_def open_payload_def)
  have s: "tf_sequence event3 = Some 3" by (simp add: event3_def)
  from replays_refused [of env0 "TrafficSession [] [] []" "[]" event3 undefined "[]" ses'] r s
  obtain e where "receive_frame env0 event3 ses' = (Inl e, ses')" by auto
  with r show ?thesis by blast
qed

section \<open>The handshake transcript\<close>

lemma be_bytes_2_inj: "m \<le> 65535 \<Longrightarrow> n \<le> 65535 \<Longrightarrow> be_bytes 2 m = be_bytes 2 n \<Longrightarrow> m = n"
  by (rule be_bytes_inj [of m 2 n]) simp_all

lemma length_prefixed_inj:
  assumes "list_all (\<lambda>v. length v \<le> 65535) xs" and "list_all (\<lambda>v. length v \<le> 65535) ys" and "length xs = length ys"
    and "concat (map (\<lambda>v. be_bytes 2 (length v) @ v) xs) = concat (map (\<lambda>v. be_bytes 2 (length v) @ v) ys)"
  shows "xs = ys"
  using assms
proof (induction xs arbitrary: ys)
  case (Cons x xs)
  obtain y ys' where ys: "ys = y # ys'" using Cons.prems(3) by (cases ys) auto
  have "be_bytes 2 (length x) = be_bytes 2 (length y)"
      and r: "x @ concat (map (\<lambda>v. be_bytes 2 (length v) @ v) xs) = y @ concat (map (\<lambda>v. be_bytes 2 (length v) @ v) ys')"
    using Cons.prems(4) by (auto simp: ys append_eq_append_conv dest: arg_cong [of _ _ length])
  then have "length x = length y" using Cons.prems(1,2) be_bytes_2_inj by (simp add: ys)
  then have "x = y" "concat (map (\<lambda>v. be_bytes 2 (length v) @ v) xs) = concat (map (\<lambda>v. be_bytes 2 (length v) @ v) ys')"
    using r by simp_all
  then show ?case using Cons by (simp add: ys)
qed simp

text \<open>
  What the device signs and what it parses is unambiguous: two handshakes with the same
  transcript agree in all six fields, and a base64 field is accepted exactly when it is the
  encoding of the bytes returned, which have the length asked for.
\<close>

theorem transcript_unambiguous:
  shows "(handshake_transcript d e x c n p = Inr t \<and> handshake_transcript d' e' x' c' n' p' = Inr t
            \<longrightarrow> d = d' \<and> e = e' \<and> x = x' \<and> c = c' \<and> n = n' \<and> p = p')
    \<and> (decode_b64 (Some v) len = Inr raw \<longleftrightarrow> v = b64encode raw \<and> (\<forall>k. len = Some k \<longrightarrow> length raw = k))"
proof -
  have "[d, e, x, c, n, p] = [d', e', x', c', n', p']"
    if "handshake_transcript d e x c n p = Inr t" "handshake_transcript d' e' x' c' n' p' = Inr t"
    by (rule length_prefixed_inj)
      (use that in \<open>auto simp: handshake_transcript_def Let_def split: if_split_asm\<close>)
  then show ?thesis using decode_b64_iff by simp
qed

theorem transcript_unambiguous_witness:
  "handshake_transcript [1] [] [] [] [] [] \<noteq> handshake_transcript [] [1] [] [] [] []
   \<and> decode_b64 (Some (b64encode [7])) (Some 1) = Inr [7]"
proof -
  obtain t where t: "handshake_transcript [1] [] [] [] [] [] = Inr t" by (simp add: handshake_transcript_def)
  have "handshake_transcript [] [1] [] [] [] [] \<noteq> Inr t"
    using transcript_unambiguous [of "[1]" "[]" "[]" "[]" "[]" "[]" t "[]" "[1]" "[]" "[]" "[]" "[]" "[]" None "[]"] t by auto
  moreover have "decode_b64 (Some (b64encode [7])) (Some 1) = Inr [7]" by (simp add: decode_b64_iff)
  ultimately show ?thesis using t by simp
qed

end
