(* ===== verification/TrustClient.thy ===== *)
theory TrustClient
  imports TrustChannel
begin

text \<open>
  The client of the encrypted channel (app/services/trust_channel_client.py): the handshake,
  sending, the message loop with its dispatch, and the reconnection delays.  Each coroutine is cut
  at its awaits into functions on the client's state; the network's answers, fresh request ids and
  the clock are arguments.  A future is an index into \<open>cl_futures\<close>.  JSON values of different
  types are different values.
\<close>

section \<open>The handshake\<close>

definition hex_value :: "nat \<Rightarrow> nat option" where
  "hex_value c = (if 48 \<le> c \<and> c \<le> 57 then Some (c - 48) else if 97 \<le> c \<and> c \<le> 102 then Some (c - 87)
     else if 65 \<le> c \<and> c \<le> 70 then Some (c - 55) else None)"

fun fromhex :: "ustr \<Rightarrow> bytes option" where
  "fromhex [] = Some []"
| "fromhex [c] = None"
| "fromhex (c # d # r) =
     (case (hex_value c, hex_value d, fromhex r) of
        (Some x, Some y, Some bs) \<Rightarrow> Some (of_nat (16 * x + y) # bs)
      | _ \<Rightarrow> None)"

definition hex_digit :: "nat \<Rightarrow> nat" where
  "hex_digit n = (if n < 10 then 48 + n else 87 + n)"

definition hex_of :: "bytes \<Rightarrow> ustr" where
  "hex_of bs = concat (map (\<lambda>b. [hex_digit (unat b div 16), hex_digit (unat b mod 16)]) bs)"

definition ascii_lower :: "ustr \<Rightarrow> ustr" where
  "ascii_lower = map (\<lambda>c. if 65 \<le> c \<and> c \<le> 90 then c + 32 else c)"

definition text_field :: "jobj \<Rightarrow> string \<Rightarrow> ustr option" where
  "text_field m k = (case jget m k of JStr s \<Rightarrow> Some (text_of s) | _ \<Rightarrow> None)"

text \<open>
  The registered device: its id as UTF-8 and its keys; \<open>dv_platform\<close> verifies a platform
  signature, if the client was given the platform's key.
\<close>

record device =
  dv_id :: bytes
  dv_ed :: bytes
  dv_x :: bytes
  dv_exchange :: "bytes \<Rightarrow> bytes"
  dv_hkdf :: "bytes \<Rightarrow> bytes \<Rightarrow> bytes \<Rightarrow> bytes"
  dv_sign :: "bytes \<Rightarrow> bytes"
  dv_platform :: "(bytes \<Rightarrow> bytes \<Rightarrow> bool) option"

definition check_error :: "jobj \<Rightarrow> tc_error + unit" where
  "check_error frame = (if jget frame ''type'' = JStr ''error'' then Inl (ConnectionError ''Trust Channel error'') else Inr ())"

definition expect_frame :: "string \<Rightarrow> jobj \<Rightarrow> tc_error + jobj" where
  "expect_frame expected frame =
     res_bind (check_error frame) (\<lambda>_.
       if jget frame ''type'' \<noteq> JStr expected then Inl (ValueError ''Expected Trust Channel frame'') else Inr frame)"

definition server_nonce_of :: "jobj \<Rightarrow> tc_error + ustr \<times> bytes" where
  "server_nonce_of challenge =
     (case text_field challenge ''server_nonce'' of None \<Rightarrow> Inl (ValueError ''Server nonce must be 12 bytes of hex'')
      | Some h \<Rightarrow>
          (if length h \<noteq> 24 then Inl (ValueError ''Server nonce must be 12 bytes of hex'')
           else case fromhex h of None \<Rightarrow> Inl (ValueError ''non-hexadecimal number found'')
           | Some nonce \<Rightarrow>
               (if length nonce \<noteq> 12 \<or> hex_of nonce \<noteq> ascii_lower h then Inl (ValueError ''Invalid server nonce'')
                else Inr (h, nonce))))"

definition check_platform :: "device \<Rightarrow> bytes \<Rightarrow> ustr \<Rightarrow> jobj \<Rightarrow> tc_error + unit" where
  "check_platform dev client_nonce nonce_hex challenge =
     (case dv_platform dev of None \<Rightarrow> Inr ()
      | Some vrfy \<Rightarrow>
          res_bind (decode_b64 (text_field challenge ''platform_signature'') None) (\<lambda>sig.
            if vrfy sig (map of_nat (hex_of client_nonce @ nonce_hex)) then Inr ()
            else Inl (ValueError ''InvalidSignature'')))"

text \<open>The answer to the challenge: the signed transcript that is sent, and the session to be.\<close>

definition answer_challenge :: "device \<Rightarrow> bytes \<Rightarrow> jobj \<Rightarrow> tc_error + ustr \<times> traffic" where
  "answer_challenge dev client_nonce frame =
     res_bind (expect_frame ''challenge'' frame) (\<lambda>challenge.
     res_bind (server_nonce_of challenge) (\<lambda>(nonce_hex, nonce).
     res_bind (decode_b64 (text_field challenge ''server_ephemeral_x25519'') (Some 32)) (\<lambda>ephemeral.
     res_bind (check_platform dev client_nonce nonce_hex challenge) (\<lambda>_.
     res_bind (handshake_transcript (dv_id dev) (dv_ed dev) (dv_x dev) client_nonce nonce ephemeral) (\<lambda>transcript.
       let (c2s, s2c) = derive_keys (dv_exchange dev) (dv_hkdf dev) ephemeral client_nonce nonce
       in Inr (b64encode (dv_sign dev transcript), TrafficSession c2s s2c nonce))))))"

definition finish_handshake :: "traffic \<Rightarrow> jobj \<Rightarrow> tc_error + traffic" where
  "finish_handshake ses frame =
     res_bind (expect_frame ''established'' frame) (\<lambda>established.
       if \<not> json_truthy (jget established ''session_id'') \<or> text_field established ''expires_at'' = None
       then Inl (ValueError ''Malformed ESTABLISHED frame'') else Inr ses)"

section \<open>The client's state\<close>

datatype future = Pending | Resolved jobj | FutureFailed tc_error

record inbox =
  in_pending :: "json set"
  in_queue :: "(tc_error + jobj) list"
  in_transfer :: json

text \<open>\<open>cl_session\<close> is the session object of the connection; \<open>cl_established\<close> says that \<^verbatim>\<open>_ws\<close> and \<^verbatim>\<open>_session\<close> are set.\<close>

record client =
  cl_session :: traffic
  cl_established :: bool
  cl_resume_at :: real
  cl_futures :: "future list"
  cl_waiters :: "string \<rightharpoonup> nat"
  cl_response_waiters :: "nat set"
  cl_inbox :: "inbox option"
  cl_handlers :: "json set"
  cl_started :: "(json \<times> jobj) list"

definition set_future :: "nat \<Rightarrow> future \<Rightarrow> client \<Rightarrow> client" where
  "set_future i v c = c\<lparr>cl_futures := (cl_futures c)[i := v]\<rparr>"

definition open_future :: "client \<Rightarrow> nat \<Rightarrow> bool" where
  "open_future c i \<longleftrightarrow> i < length (cl_futures c) \<and> cl_futures c ! i = Pending"

definition fail_futures :: "(nat \<Rightarrow> bool) \<Rightarrow> tc_error \<Rightarrow> client \<Rightarrow> client" where
  "fail_futures P e c =
     c\<lparr>cl_futures := map (\<lambda>i. if P i \<and> open_future c i then FutureFailed e else cl_futures c ! i) [0..<length (cl_futures c)]\<rparr>"

section \<open>Sending\<close>

definition jput :: "jobj \<Rightarrow> string \<Rightarrow> json \<Rightarrow> jobj" where
  "jput m k v = (if k \<in> fst ` set m then map (\<lambda>p. if fst p = k then (k, v) else p) m else m @ [(k, v)])"

definition setdefault :: "jobj \<Rightarrow> string \<Rightarrow> json \<Rightarrow> jobj" where
  "setdefault m k v = (if k \<in> fst ` set m then m else m @ [(k, v)])"

definition FULFILLMENT_ACTIONS :: "string list" where
  "FULFILLMENT_ACTIONS =
     [''vai.fulfillment.metadata'', ''vai.fulfillment.chunk'', ''vai.fulfillment.complete'',
      ''vai.fulfillment.error'', ''vai.fulfillment.response'']"

definition envelope :: "jobj \<Rightarrow> string \<Rightarrow> jobj" where
  "envelope message rid =
     (let payload = setdefault message ''request_id'' (JStr rid);
          action = jget payload ''action'';
          params = filter (\<lambda>p. fst p \<notin> {''action'', ''request_id'', ''action_version'', ''hitl_token''}) message;
          params' = (if action = JStr ''vai.fulfillment.response''
                     then jput params ''request_id'' (jget payload ''request_id'') else params)
      in if action \<in> JStr ` set FULFILLMENT_ACTIONS then jput payload ''parameters'' (JObj params') else payload)"

text \<open>
  \<open>same\<close> says whether the connection is still the same after the pause a rate limit asks for,
  \<open>sent\<close> whether the socket took the frame; a failed send drops the session.
\<close>

definition send_action ::
  "channel_env \<Rightarrow> jobj \<Rightarrow> string \<Rightarrow> real \<Rightarrow> bool \<Rightarrow> bool \<Rightarrow> client \<Rightarrow> (tc_error + data_frame) \<times> client" where
  "send_action env message rid now same sent c =
     (if \<not> cl_established c then (Inl (ConnectionError ''Trust Channel not established''), c)
      else if cl_resume_at c > now \<and> \<not> same then (Inl (ConnectionError ''Trust Channel disconnected while rate limited''), c)
      else if ts_outbound (cl_session c) \<ge> LIMIT then (Inl (ConnectionError ''Trust Channel sequence exhausted''), c)
      else if \<not> hashable (jget message ''action'') then (Inl PyTypeError, c\<lparr>cl_established := False\<rparr>)
      else case encrypt env (envelope message rid) (cl_session c) of
        (Inl e, ses) \<Rightarrow> (Inl e, c\<lparr>cl_session := ses, cl_established := False\<rparr>)
      | (Inr frame, ses) \<Rightarrow>
          (if sent then (Inr frame, c\<lparr>cl_session := ses\<rparr>)
           else (Inl (ConnectionError ''send failed''), c\<lparr>cl_session := ses, cl_established := False\<rparr>)))"

text \<open>\<^verbatim>\<open>wait_for_action\<close>: the waiter that is registered before the message goes out, and its removal.\<close>

definition begin_wait :: "channel_env \<Rightarrow> json \<Rightarrow> json \<Rightarrow> jobj option \<Rightarrow> client \<Rightarrow> nat \<times> client" where
  "begin_wait env action transfer_id message c =
     (let i = length (cl_futures c);
          is_response = (case message of None \<Rightarrow> False | Some m \<Rightarrow> jget m ''action'' = JStr ''vai.fulfillment.response'');
          key = py_str env action @ '':'' @ py_str env transfer_id
      in (i, c\<lparr>cl_futures := cl_futures c @ [Pending], cl_waiters := (cl_waiters c)(key \<mapsto> i),
               cl_response_waiters := (if is_response then insert i (cl_response_waiters c) else cl_response_waiters c)\<rparr>))"

definition end_wait :: "channel_env \<Rightarrow> json \<Rightarrow> json \<Rightarrow> nat \<Rightarrow> client \<Rightarrow> client" where
  "end_wait env action transfer_id i c =
     c\<lparr>cl_response_waiters := cl_response_waiters c - {i},
       cl_waiters := (cl_waiters c)(py_str env action @ '':'' @ py_str env transfer_id := None)\<rparr>"

section \<open>Dispatch\<close>

definition inbox_dispatch :: "jobj \<Rightarrow> inbox \<Rightarrow> (tc_error + bool) \<times> inbox" where
  "inbox_dispatch message ib =
     (let rid = jget message ''request_id'';
          action = (case jget message ''data'' of JObj d \<Rightarrow> d | _ \<Rightarrow> message)
      in if \<not> hashable rid then (Inl PyTypeError, ib)
         else if rid \<in> in_pending ib
         then (Inr True, ib\<lparr>in_pending := in_pending ib - {rid}, in_queue := in_queue ib @ [Inr message]\<rparr>)
         else if jget action ''action'' \<noteq> JStr ''vai.fulfillment.ack'' \<or> jget action ''transfer_id'' \<noteq> in_transfer ib
         then (Inr False, ib)
         else (Inr True, ib\<lparr>in_queue := in_queue ib @ [Inr message]\<rparr>))"

definition message_failed :: "jobj \<Rightarrow> bool" where
  "message_failed m \<longleftrightarrow>
     json_truthy (jget m ''error'') \<or> jget m ''type'' = JStr ''error'' \<or> jget m ''success'' = JBool False"

definition waiter_open :: "string \<Rightarrow> client \<Rightarrow> nat option" where
  "waiter_open key c = (case cl_waiters c key of None \<Rightarrow> None | Some i \<Rightarrow> if open_future c i then Some i else None)"

definition dispatch_action :: "channel_env \<Rightarrow> jobj \<Rightarrow> client \<Rightarrow> (tc_error + unit) \<times> client" where
  "dispatch_action env message c =
     (let action = jget_or message ''action'' (JStr []);
          transfer_id = jget_or message ''transfer_id'' (JStr [])
      in case waiter_open (py_str env action @ '':'' @ py_str env transfer_id) c of
           Some i \<Rightarrow> (Inr (), set_future i (Resolved message) c)
         | None \<Rightarrow>
             (if \<not> hashable action then (Inl PyTypeError, c)
              else if action \<in> cl_handlers c then (Inr (), c\<lparr>cl_started := cl_started c @ [(action, message)]\<rparr>)
              else (Inr (), c)))"

definition dispatch_direct :: "channel_env \<Rightarrow> jobj \<Rightarrow> client \<Rightarrow> (tc_error + unit) \<times> client" where
  "dispatch_direct env message c =
     (if json_truthy (jget message ''action'') then dispatch_action env message c
      else let rid = jget message ''request_id'' in
        if message_failed message
        then (Inr (), fail_futures
               (\<lambda>i. if json_truthy rid then cl_waiters c ('':'' @ py_str env rid) = Some i else i \<in> ran (cl_waiters c))
               (ConnectionError ''Trust Channel rejected delivery'') c)
        else case (if json_truthy rid then waiter_open ('':'' @ py_str env rid) c else None) of
          Some i \<Rightarrow> (Inr (), set_future i (Resolved message) c)
        | None \<Rightarrow> dispatch_action env (case jget message ''data'' of JObj d \<Rightarrow> d | _ \<Rightarrow> message) c)"

definition dispatch :: "channel_env \<Rightarrow> jobj \<Rightarrow> client \<Rightarrow> (tc_error + unit) \<times> client" where
  "dispatch env message c =
     (case cl_inbox c of None \<Rightarrow> dispatch_direct env message c
      | Some ib \<Rightarrow>
          (case inbox_dispatch message ib of
             (Inl e, ib') \<Rightarrow> (Inl e, c)
           | (Inr taken, ib') \<Rightarrow>
               (if taken then (Inr (), c\<lparr>cl_inbox := Some ib'\<rparr>) else dispatch_direct env message c)))"

section \<open>The message loop\<close>

definition tframe_of :: "jobj \<Rightarrow> tframe" where
  "tframe_of m =
     \<lparr>tf_type = (case jget m ''type'' of JStr s \<Rightarrow> s | _ \<Rightarrow> []),
      tf_sequence = (case jget m ''sequence'' of JNum n \<Rightarrow> Some n | _ \<Rightarrow> None),
      tf_ciphertext = text_field m ''ciphertext'', tf_tag = text_field m ''auth_tag'',
      tf_payload = jget m ''payload'', tf_event_id = map_of m ''event_id'',
      tf_retry_ms = (case jget m ''retry_after_ms'' of JNum n \<Rightarrow> Some (real_of_int n) | JReal r \<Rightarrow> Some r | _ \<Rightarrow> None)\<rparr>"

definition handle_rate_limit :: "tframe \<Rightarrow> real \<Rightarrow> client \<Rightarrow> client" where
  "handle_rate_limit frame now c =
     (case tf_retry_ms frame of None \<Rightarrow> c
      | Some delay \<Rightarrow>
          (if delay < 0 then c
           else fail_futures (\<lambda>i. i \<in> cl_response_waiters c) RateLimited
                  (c\<lparr>cl_resume_at := max (cl_resume_at c) (now + delay / 1000)\<rparr>)))"

definition listen_step :: "channel_env \<Rightarrow> real \<Rightarrow> jobj \<Rightarrow> client \<Rightarrow> (tc_error + jobj list) \<times> client" where
  "listen_step env now frame c =
     (case check_error frame of Inl e \<Rightarrow> (Inl e, c)
      | Inr _ \<Rightarrow>
     (let f = tframe_of frame in
      if tf_type f = ''ping'' then (Inr [[(''type'', JStr ''pong'')]], c)
      else if tf_type f = ''rate_limit'' then (Inr [], handle_rate_limit f now c)
      else if tf_type f \<noteq> ''data'' \<and> tf_type f \<noteq> ''event'' then (Inr [], c)
      else case receive_frame env f (cl_session c) of (Inl e, ses) \<Rightarrow> (Inl e, c)
      | (Inr message, ses) \<Rightarrow>
          (case dispatch env message (c\<lparr>cl_session := ses\<rparr>) of
             (Inl e, c') \<Rightarrow> (Inl e, c')
           | (Inr _, c') \<Rightarrow>
               (Inr (case tf_event_id f of
                       Some i \<Rightarrow> (if tf_type f = ''event'' then [[(''type'', JStr ''ack''), (''event_id'', i)]] else [])
                     | None \<Rightarrow> []), c'))))"

text \<open>What the end of a connection does, whatever ended it.\<close>

definition disconnect :: "client \<Rightarrow> client" where
  "disconnect c =
     fail_futures (\<lambda>i. i \<in> ran (cl_waiters c)) (ConnectionError ''Trust Channel disconnected'')
       (c\<lparr>cl_resume_at := 0, cl_established := False,
          cl_inbox := map_option (\<lambda>ib. ib\<lparr>in_queue := in_queue ib @ [Inl (ConnectionError ''Trust Channel disconnected'')]\<rparr>) (cl_inbox c)\<rparr>)"

section \<open>Reconnection\<close>

definition INITIAL_BACKOFF_S :: real where "INITIAL_BACKOFF_S = 2"
definition MAX_BACKOFF_S :: real where "MAX_BACKOFF_S = 60"
definition BACKOFF_MULTIPLIER :: real where "BACKOFF_MULTIPLIER = 2"

datatype conn_end = ReturnedNormally | Disconnected | RejectedStatus int | UnexpectedError

definition after_connection :: "conn_end \<Rightarrow> real \<Rightarrow> real" where
  "after_connection e backoff =
     (case e of ReturnedNormally \<Rightarrow> INITIAL_BACKOFF_S
      | RejectedStatus code \<Rightarrow>
          (if code = 401 \<or> code = 403 then min (backoff * BACKOFF_MULTIPLIER) MAX_BACKOFF_S else backoff)
      | _ \<Rightarrow> backoff)"

text \<open>The delays slept between the connections of a run that end as listed.\<close>

fun reconnect_delays :: "real \<Rightarrow> conn_end list \<Rightarrow> real list" where
  "reconnect_delays backoff [] = []"
| "reconnect_delays backoff (e # es) =
     (let b = after_connection e backoff in b # reconnect_delays (min (b * BACKOFF_MULTIPLIER) MAX_BACKOFF_S) es)"

section \<open>Delivery\<close>

lemma set_future_length [simp]: "length (cl_futures (set_future i v c)) = length (cl_futures c)"
  by (simp add: set_future_def)

lemma waiter_open_Some: "waiter_open key c = Some i \<longleftrightarrow> cl_waiters c key = Some i \<and> open_future c i"
  by (auto simp: waiter_open_def split: option.splits if_splits)

text \<open>
  The possible results of a dispatch that does not fail the waiters: one receiver, or none.
\<close>

definition one_receiver :: "channel_env \<Rightarrow> jobj \<Rightarrow> client \<Rightarrow> client \<Rightarrow> bool" where
  "one_receiver env message c c' \<longleftrightarrow>
     c' = c
     \<or> (\<exists>ib. c' = c\<lparr>cl_inbox := Some ib\<rparr> \<and> cl_inbox c \<noteq> None \<and> in_queue ib = in_queue (the (cl_inbox c)) @ [Inr message])
     \<or> (\<exists>i key m. open_future c i \<and> cl_waiters c key = Some i \<and> c' = set_future i (Resolved m) c
          \<and> (m = message \<or> jget message ''data'' = JObj m)
          \<and> (key = '':'' @ py_str env (jget message ''request_id'')
             \<or> key = py_str env (jget_or m ''action'' (JStr [])) @ '':'' @ py_str env (jget_or m ''transfer_id'' (JStr []))))
     \<or> (\<exists>a m. a \<in> cl_handlers c \<and> a = jget_or m ''action'' (JStr []) \<and> c' = c\<lparr>cl_started := cl_started c @ [(a, m)]\<rparr>
          \<and> (m = message \<or> jget message ''data'' = JObj m))"

lemma dispatch_action_receiver:
  assumes "m = message \<or> jget message ''data'' = JObj m"
  shows "one_receiver env message c (snd (dispatch_action env m c))"
proof -
  let ?key = "py_str env (jget_or m ''action'' (JStr [])) @ '':'' @ py_str env (jget_or m ''transfer_id'' (JStr []))"
  show ?thesis
  proof (cases "waiter_open ?key c")
    case (Some i)
    then have "snd (dispatch_action env m c) = set_future i (Resolved m) c" by (simp add: dispatch_action_def Let_def)
    then show ?thesis using Some assms unfolding one_receiver_def waiter_open_Some by blast
  next
    case None
    then have "snd (dispatch_action env m c) = c \<or>
        jget_or m ''action'' (JStr []) \<in> cl_handlers c
        \<and> snd (dispatch_action env m c) = c\<lparr>cl_started := cl_started c @ [(jget_or m ''action'' (JStr []), m)]\<rparr>"
      by (simp add: dispatch_action_def Let_def)
    then show ?thesis using assms unfolding one_receiver_def by blast
  qed
qed

lemma data_or_self:
  "(case jget message ''data'' of JObj d \<Rightarrow> d | _ \<Rightarrow> message) = message
   \<or> jget message ''data'' = JObj (case jget message ''data'' of JObj d \<Rightarrow> d | _ \<Rightarrow> message)"
  by (cases "jget message ''data''") simp_all

lemma dispatch_direct_receiver:
  assumes "json_truthy (jget message ''action'') \<or> \<not> message_failed message"
  shows "one_receiver env message c (snd (dispatch_direct env message c))"
proof (cases "json_truthy (jget message ''action'')")
  case True
  then show ?thesis using dispatch_action_receiver [of message message] by (simp add: dispatch_direct_def)
next
  case False
  let ?rid = "jget message ''request_id''"
  show ?thesis
  proof (cases "if json_truthy ?rid then waiter_open ('':'' @ py_str env ?rid) c else None")
    case (Some i)
    then have "waiter_open ('':'' @ py_str env ?rid) c = Some i" by (simp split: if_split_asm)
    moreover have "snd (dispatch_direct env message c) = set_future i (Resolved message) c"
      using False assms Some by (simp add: dispatch_direct_def Let_def)
    ultimately show ?thesis unfolding one_receiver_def waiter_open_Some by blast
  next
    case None
    then have "snd (dispatch_direct env message c)
        = snd (dispatch_action env (case jget message ''data'' of JObj d \<Rightarrow> d | _ \<Rightarrow> message) c)"
      using False assms by (simp add: dispatch_direct_def Let_def)
    then show ?thesis using dispatch_action_receiver [OF data_or_self] by simp
  qed
qed

lemma inbox_dispatch_True:
  "inbox_dispatch message ib = (Inr True, ib') \<Longrightarrow> in_queue ib' = in_queue ib @ [Inr message]"
  by (auto simp: inbox_dispatch_def Let_def split: if_split_asm)

lemma dispatch_receiver:
  assumes "json_truthy (jget message ''action'') \<or> \<not> message_failed message"
  shows "one_receiver env message c (snd (dispatch env message c))"
proof (cases "cl_inbox c")
  case None
  then show ?thesis using dispatch_direct_receiver [OF assms] by (simp add: dispatch_def)
next
  case (Some ib)
  obtain r ib' where r: "inbox_dispatch message ib = (r, ib')" by (cases "inbox_dispatch message ib")
  show ?thesis
  proof (cases r)
    case (Inl e)
    then show ?thesis using Some r by (simp add: dispatch_def one_receiver_def)
  next
    case (Inr taken)
    show ?thesis
    proof (cases taken)
      case True
      then show ?thesis using Some r Inr inbox_dispatch_True [of message ib ib']
        unfolding one_receiver_def by (simp add: dispatch_def) blast
    next
      case False
      then show ?thesis using Some r Inr dispatch_direct_receiver [OF assms] by (simp add: dispatch_def)
    qed
  qed
qed

text \<open>Every writer keeps the futures that are done.\<close>

definition futures_kept :: "client \<Rightarrow> client \<Rightarrow> bool" where
  "futures_kept c c' \<longleftrightarrow> (\<forall>i < length (cl_futures c).
     i < length (cl_futures c') \<and> (cl_futures c ! i \<noteq> Pending \<longrightarrow> cl_futures c' ! i = cl_futures c ! i))"

lemma futures_kept_refl [simp]: "futures_kept c c"
  by (simp add: futures_kept_def)

lemma futures_kept_trans: "futures_kept a b \<Longrightarrow> futures_kept b c \<Longrightarrow> futures_kept a c"
  by (auto simp: futures_kept_def)

lemma futures_kept_same: "cl_futures c' = cl_futures c \<Longrightarrow> futures_kept c c'"
  by (simp add: futures_kept_def)

lemma set_future_keeps: "open_future c i \<Longrightarrow> futures_kept c (set_future i v c)"
  by (auto simp: futures_kept_def set_future_def open_future_def nth_list_update)

lemma fail_futures_keeps: "futures_kept c (fail_futures P e c)"
  by (auto simp: futures_kept_def fail_futures_def open_future_def)

lemma dispatch_keeps: "futures_kept c (snd (dispatch env message c))"
proof (cases "json_truthy (jget message ''action'') \<or> \<not> message_failed message")
  case True
  from dispatch_receiver [OF this, of env c] show ?thesis
    unfolding one_receiver_def by (auto intro: set_future_keeps futures_kept_same)
next
  case False
  have d: "futures_kept c (snd (dispatch_direct env message c))" for c
    using False fail_futures_keeps by (simp add: dispatch_direct_def Let_def)
  show ?thesis
    by (cases "cl_inbox c") (auto simp: dispatch_def d futures_kept_same split: prod.split sum.split)
qed

text \<open>
  A message has one receiver: a message that is not a failure goes to the active transfer's
  queue, or completes one future that was still open and whose key is its request id or its action and
  transfer, or starts one registered handler, or is dropped; nothing else of the client changes.
  No dispatch, rate limit or disconnection ever changes a future that is done.
\<close>

theorem dispatch_delivers_once:
  shows "(json_truthy (jget message ''action'') \<or> \<not> message_failed message
           \<longrightarrow> one_receiver env message c (snd (dispatch env message c)))
    \<and> futures_kept c (snd (dispatch env message c))
    \<and> futures_kept c (snd (listen_step env now frame c)) \<and> futures_kept c (disconnect c)"
proof -
  have r: "futures_kept c (handle_rate_limit f now c)" for f
  proof (cases "tf_retry_ms f")
    case (Some delay)
    have "futures_kept c (c\<lparr>cl_resume_at := max (cl_resume_at c) (now + delay / 1000)\<rparr>)" by (rule futures_kept_same) simp
    then show ?thesis using Some fail_futures_keeps futures_kept_trans by (fastforce simp: handle_rate_limit_def)
  qed (simp add: handle_rate_limit_def)
  have d: "futures_kept c (snd (dispatch env m (c\<lparr>cl_session := ses\<rparr>)))" for m ses
    by (rule futures_kept_trans [OF futures_kept_same dispatch_keeps]) simp
  have "futures_kept c (snd (listen_step env now frame c))"
    using r d by (auto simp: listen_step_def Let_def split: sum.split prod.split) (metis snd_conv)+
  moreover have "futures_kept c (disconnect c)"
    unfolding disconnect_def by (rule futures_kept_trans [OF futures_kept_same fail_futures_keeps]) simp
  ultimately show ?thesis using dispatch_receiver dispatch_keeps by blast
qed

definition client0 :: client where
  "client0 = \<lparr>cl_session = TrafficSession [] [] [], cl_established = True, cl_resume_at = 0, cl_futures = [Pending],
     cl_waiters = [''a:t'' \<mapsto> 0], cl_response_waiters = {}, cl_inbox = None, cl_handlers = {}, cl_started = []\<rparr>"

definition str_env :: channel_env where
  "str_env = env0\<lparr>py_str := (\<lambda>j. case j of JStr s \<Rightarrow> s | _ \<Rightarrow> [])\<rparr>"

theorem dispatch_delivers_once_witness:
  "one_receiver str_env [(''action'', JStr ''a''), (''transfer_id'', JStr ''t'')] client0
     (snd (dispatch str_env [(''action'', JStr ''a''), (''transfer_id'', JStr ''t'')] client0))
   \<and> cl_futures (snd (dispatch str_env [(''action'', JStr ''a''), (''transfer_id'', JStr ''t'')] client0))
      = [Resolved [(''action'', JStr ''a''), (''transfer_id'', JStr ''t'')]]"
proof -
  let ?m = "[(''action'', JStr ''a''), (''transfer_id'', JStr ''t'')]"
  have a: "json_truthy (jget ?m ''action'')" by (simp add: jget_def)
  have "cl_futures (snd (dispatch str_env ?m client0)) = [Resolved ?m]"
    by (simp add: dispatch_def dispatch_direct_def dispatch_action_def client0_def str_env_def env0_def jget_def jget_or_def
        waiter_open_def open_future_def set_future_def Let_def)
  then show ?thesis using dispatch_delivers_once [of ?m str_env client0 0 "[]"] a by simp
qed

section \<open>Reconnection delays\<close>

lemma after_connection_ge:
  "e \<noteq> ReturnedNormally \<Longrightarrow> 0 \<le> b \<Longrightarrow> b \<le> 60 \<Longrightarrow> b \<le> after_connection e b \<and> after_connection e b \<le> 60"
  by (cases e) (auto simp: after_connection_def MAX_BACKOFF_S_def BACKOFF_MULTIPLIER_def min_def)

text \<open>
  The delay is never reset: the message loop ends only by raising, so however long each
  connection served, the \<open>k\<close>-th reconnection waits at least \<open>2 ^ (k + 1)\<close> seconds or the full 60,
  and from the sixth on every one waits 60 seconds.
\<close>

theorem backoff_never_resets:
  assumes "ReturnedNormally \<notin> set es" and "k < length es"
  shows "min 60 (2 * 2 ^ k) \<le> reconnect_delays INITIAL_BACKOFF_S es ! k
    \<and> reconnect_delays INITIAL_BACKOFF_S es ! k \<le> 60
    \<and> (5 \<le> k \<longrightarrow> reconnect_delays INITIAL_BACKOFF_S es ! k = 60)"
proof -
  have g: "min 60 (b * 2 ^ k) \<le> reconnect_delays b es ! k \<and> reconnect_delays b es ! k \<le> 60"
    if "0 \<le> b" "b \<le> 60" "ReturnedNormally \<notin> set es" "k < length es" for b :: real and k es
    using that
  proof (induction es arbitrary: b k)
    case (Cons e es)
    let ?b = "after_connection e b"
    have b: "b \<le> ?b" "?b \<le> 60" using after_connection_ge [of e b] Cons.prems by auto
    show ?case
    proof (cases k)
      case 0
      then show ?thesis using b by (simp add: Let_def min_def)
    next
      case (Suc j)
      let ?n = "min (?b * BACKOFF_MULTIPLIER) MAX_BACKOFF_S"
      have n: "0 \<le> ?n" "?n \<le> 60" using b Cons.prems by (simp_all add: BACKOFF_MULTIPLIER_def MAX_BACKOFF_S_def)
      have "min 60 (?n * 2 ^ j) \<le> reconnect_delays ?n es ! j \<and> reconnect_delays ?n es ! j \<le> 60"
        using Cons.IH [OF n] Cons.prems Suc by simp
      moreover have "min 60 (b * 2 ^ k) \<le> min 60 (?n * 2 ^ j)"
      proof (cases "?b * 2 \<le> 60")
        case True
        have "b * 2 ^ k \<le> ?b * 2 * 2 ^ j" using b(1) by (simp add: Suc)
        then show ?thesis using True by (simp add: BACKOFF_MULTIPLIER_def MAX_BACKOFF_S_def)
      next
        case False
        then have "?n = 60" by (simp add: BACKOFF_MULTIPLIER_def MAX_BACKOFF_S_def)
        then have "60 \<le> ?n * 2 ^ j" using one_le_power [of "2 :: real" j] by simp
        then show ?thesis by linarith
      qed
      moreover have "reconnect_delays b (e # es) ! k = reconnect_delays ?n es ! j" by (simp add: Suc Let_def)
      ultimately show ?thesis by linarith
    qed
  qed simp
  have "5 \<le> k \<Longrightarrow> (64 :: real) \<le> 2 * 2 ^ k"
    using power_increasing [of 5 k "2 :: real"] by simp
  then show ?thesis using g [OF _ _ assms, of 2] by (auto simp: INITIAL_BACKOFF_S_def)
qed

theorem backoff_never_resets_witness:
  "reconnect_delays INITIAL_BACKOFF_S (replicate 9 Disconnected) ! 7 = 60"
  using backoff_never_resets [of "replicate 9 Disconnected" 7] by simp

end
