(* ===== verification/Fulfillment.thy ===== *)
theory Fulfillment
  imports TrustClient
begin

text \<open>
  Delivery of a purchased dataset over the trust channel (app/services/fulfillment_service.py): a
  file goes out in chunks of 64 KB, four at a time, each window acknowledged before the next.  What
  the channel does is the argument \<open>env\<close>: the outcome of the k-th message sent, the answer to the
  k-th wait for an acknowledgement after the messages exchanged so far, and the answer to the completion.  The contents does not change
  during a delivery; the ids of a delivery, which all its messages carry, and the texts of errors
  are left out.  \<open>H\<close> is SHA-256.
\<close>

section \<open>Messages and state\<close>

definition CHUNK_SIZE :: nat where "CHUNK_SIZE = 65536"
definition WINDOW_SIZE :: nat where "WINDOW_SIZE = 4"
definition MAX_FILE_SIZE :: nat where "MAX_FILE_SIZE = 500 * 1024 * 1024"

datatype terr = TimeoutErr | ConnErr | OtherErr

record chunk_msg =
  chunk_index :: nat
  byte_offset :: nat
  payload_length :: nat
  chunk_sha256 :: ustr
  chunk_payload :: ustr

datatype tmsg =
    MetadataMsg nat nat ustr
  | ChunkMsg chunk_msg
  | CompleteMsg nat nat ustr
  | ResponseMsg string int "ustr option"
  | ErrorMsg string

text \<open>An acknowledgement; its index can be missing or no number.\<close>

datatype ack_index = AckInt int | AckMissing | AckOther

record ack =
  ack_status :: "string option"
  acked_through :: ack_index

text \<open>The final response: truth values are those the code tests, \<open>None\<close> is no dictionary.\<close>

record final_data =
  fd_success :: bool
  fd_error :: bool
  fd_token :: "string option"
  fd_status :: "string option"

record final_resp =
  fr_success :: bool
  fr_error :: bool
  fr_data :: "final_data option"

datatype tevent = Sent tmsg | Acked ack

record transfer_env =
  te_send :: "nat \<Rightarrow> terr option"
  te_ack :: "nat \<Rightarrow> tevent list \<Rightarrow> terr + ack"
  te_final :: "terr + final_resp option"

datatype fstatus = Received | Uploading | FCompleted | FFailed | TimedOut

record flog =
  fl_status :: fstatus
  fl_error :: "string option"
  fl_chunks :: "nat option"
  fl_size :: "int option"

record transfer =
  tr_events :: "tevent list"
  tr_sends :: nat
  tr_waits :: nat
  tr_log :: flog

type_synonym 'a fio = "transfer \<Rightarrow> (terr + 'a) \<times> transfer"

definition fio_return :: "'a \<Rightarrow> 'a fio" where
  "fio_return x s = (Inr x, s)"

definition fio_lift :: "terr + 'a \<Rightarrow> 'a fio" where
  "fio_lift r s = (r, s)"

definition fio_bind :: "'a fio \<Rightarrow> ('a \<Rightarrow> 'b fio) \<Rightarrow> 'b fio" where
  "fio_bind m f s = (case m s of (Inl e, s') \<Rightarrow> (Inl e, s') | (Inr x, s') \<Rightarrow> f x s')"

section \<open>Streaming\<close>

definition send_message :: "transfer_env \<Rightarrow> tmsg \<Rightarrow> unit fio" where
  "send_message env m s =
     (case te_send env (tr_sends s) of
        None \<Rightarrow> (Inr (), s\<lparr>tr_events := tr_events s @ [Sent m], tr_sends := tr_sends s + 1\<rparr>)
      | Some e \<Rightarrow> (Inl e, s\<lparr>tr_sends := tr_sends s + 1\<rparr>))"

fun send_all :: "transfer_env \<Rightarrow> tmsg list \<Rightarrow> unit fio" where
  "send_all env [] = fio_return ()"
| "send_all env (m # ms) = fio_bind (send_message env m) (\<lambda>_. send_all env ms)"

definition wait_for_ack :: "transfer_env \<Rightarrow> ack fio" where
  "wait_for_ack env s =
     (case te_ack env (tr_waits s) (tr_events s) of
        Inl e \<Rightarrow> (Inl e, s\<lparr>tr_waits := tr_waits s + 1\<rparr>)
      | Inr a \<Rightarrow> (Inr a, s\<lparr>tr_events := tr_events s @ [Acked a], tr_waits := tr_waits s + 1\<rparr>))"

definition validate_ack :: "ack \<Rightarrow> int \<Rightarrow> terr + unit" where
  "validate_ack a expected_ack_index =
     (if (case ack_status a of None \<Rightarrow> '''' | Some st \<Rightarrow> st) \<noteq> ''continue'' then Inl ConnErr
      else case acked_through a of
        AckOther \<Rightarrow> Inl OtherErr
      | AckMissing \<Rightarrow> if -1 < expected_ack_index then Inl ConnErr else Inr ()
      | AckInt i \<Rightarrow> if i < expected_ack_index then Inl ConnErr else Inr ())"

definition await_ack :: "transfer_env \<Rightarrow> int \<Rightarrow> unit fio" where
  "await_ack env expected = fio_bind (wait_for_ack env) (\<lambda>a. fio_lift (validate_ack a expected))"

definition chunk_data :: "bytes \<Rightarrow> nat \<Rightarrow> bytes" where
  "chunk_data contents i = take CHUNK_SIZE (drop (i * CHUNK_SIZE) contents)"

definition chunk_message :: "(bytes \<Rightarrow> bytes) \<Rightarrow> bytes \<Rightarrow> nat \<Rightarrow> tmsg" where
  "chunk_message H contents i = ChunkMsg
     \<lparr>chunk_index = i, byte_offset = i * CHUNK_SIZE, payload_length = length (chunk_data contents i),
      chunk_sha256 = hex_of (H (chunk_data contents i)), chunk_payload = b64encode (chunk_data contents i)\<rparr>"

text \<open>One window: a lost acknowledgement makes the window go out a second time, and no third.\<close>

definition stream_window :: "(bytes \<Rightarrow> bytes) \<Rightarrow> transfer_env \<Rightarrow> bytes \<Rightarrow> nat \<Rightarrow> nat \<Rightarrow> nat \<Rightarrow> unit fio" where
  "stream_window H env contents total_chunks window_start window_end =
     (let window_messages = map (chunk_message H contents) [window_start..<window_end];
          ack_index = int window_end - 1 in
      fio_bind (send_all env window_messages) (\<lambda>_.
        if window_end < total_chunks then
          (\<lambda>s. case await_ack env ack_index s of
             (Inl TimeoutErr, s') \<Rightarrow> fio_bind (send_all env window_messages) (\<lambda>_. await_ack env ack_index) s'
           | r \<Rightarrow> r)
        else fio_return ()))"

function stream_chunks :: "(bytes \<Rightarrow> bytes) \<Rightarrow> transfer_env \<Rightarrow> bytes \<Rightarrow> nat \<Rightarrow> nat \<Rightarrow> nat fio" where
  "stream_chunks H env contents total_chunks chunks_sent =
     (if chunks_sent < total_chunks then
        fio_bind (stream_window H env contents total_chunks chunks_sent (min (chunks_sent + WINDOW_SIZE) total_chunks))
          (\<lambda>_. stream_chunks H env contents total_chunks (min (chunks_sent + WINDOW_SIZE) total_chunks))
      else fio_return chunks_sent)"
  by pat_completeness auto
termination
  by (relation "measure (\<lambda>(H, env, contents, total_chunks, chunks_sent). total_chunks - chunks_sent)")
    (auto simp: WINDOW_SIZE_def)

declare stream_chunks.simps [simp del]

section \<open>A delivery\<close>

definition update_log :: "fstatus \<Rightarrow> nat option \<Rightarrow> string option \<Rightarrow> transfer \<Rightarrow> transfer" where
  "update_log status chunks code s = s\<lparr>tr_log := (tr_log s)\<lparr>fl_status := status,
     fl_chunks := (case chunks of None \<Rightarrow> fl_chunks (tr_log s) | Some n \<Rightarrow> Some n),
     fl_error := (case code of None \<Rightarrow> fl_error (tr_log s) | Some c \<Rightarrow> Some c)\<rparr>\<rparr>"

definition send_error :: "transfer_env \<Rightarrow> string \<Rightarrow> transfer \<Rightarrow> transfer" where
  "send_error env code s = snd (send_message env (ErrorMsg code) s)"

text \<open>An error reported to the marketplace and recorded.\<close>

definition refuse :: "transfer_env \<Rightarrow> string \<Rightarrow> unit fio" where
  "refuse env code s = (Inr (), update_log FFailed None (Some code) (send_error env code s))"

definition confirmed_result :: "final_resp option \<Rightarrow> terr + final_data" where
  "confirmed_result r =
     (case r of None \<Rightarrow> Inl ConnErr
      | Some a \<Rightarrow>
          (case fr_data a of
             Some d \<Rightarrow> if fr_success a \<and> \<not> fr_error a \<and> fd_success d \<and> \<not> fd_error d then Inr d else Inl ConnErr
           | None \<Rightarrow> Inl ConnErr))"

definition wait_for_final :: "transfer_env \<Rightarrow> tmsg \<Rightarrow> final_resp option fio" where
  "wait_for_final env m = fio_bind (send_message env m) (\<lambda>_. fio_lift (te_final env))"

definition begin_upload :: "int \<Rightarrow> unit fio" where
  "begin_upload n s = (Inr (), s\<lparr>tr_log := (tr_log s)\<lparr>fl_status := Uploading, fl_size := Some n\<rparr>\<rparr>)"

text \<open>Steps 8 and on of \<^verbatim>\<open>_handle_deliver\<close>: a completion that is rejected or not answered fails.\<close>

definition complete_local :: "(bytes \<Rightarrow> bytes) \<Rightarrow> transfer_env \<Rightarrow> bytes \<Rightarrow> nat \<Rightarrow> unit fio" where
  "complete_local H env contents chunks_sent s =
     (case fio_bind (wait_for_final env (CompleteMsg (length contents) chunks_sent (hex_of (H contents)))) (\<lambda>a.
             fio_bind (fio_lift (confirmed_result a)) (\<lambda>d.
               fio_lift (if truthy (fd_token d) then Inr () else Inl ConnErr))) s of
        (Inl OtherErr, s') \<Rightarrow> (Inl OtherErr, s')
      | (Inl _, s') \<Rightarrow> (Inr (), send_error env ''TRANSFER_ABORTED'' (update_log FFailed None (Some ''TRANSFER_ABORTED'') s'))
      | (Inr _, s') \<Rightarrow> (Inr (), update_log FCompleted (Some chunks_sent) None s'))"

definition chunk_count :: "bytes \<Rightarrow> nat" where
  "chunk_count contents = (if length contents > 0 then (length contents + CHUNK_SIZE - 1) div CHUNK_SIZE else 1)"

definition deliver_local :: "(bytes \<Rightarrow> bytes) \<Rightarrow> transfer_env \<Rightarrow> bytes option \<Rightarrow> unit fio" where
  "deliver_local H env file_path =
     (case file_path of
        None \<Rightarrow> refuse env ''FILE_READ_ERROR''
      | Some contents \<Rightarrow>
          if length contents > MAX_FILE_SIZE then refuse env ''FILE_TOO_LARGE''
          else fio_bind (begin_upload (int (length contents))) (\<lambda>_.
            fio_bind (send_message env (MetadataMsg (length contents) (chunk_count contents) (hex_of (H contents)))) (\<lambda>_.
            fio_bind (stream_chunks H env contents (chunk_count contents) 0) (\<lambda>chunks_sent.
              complete_local H env contents chunks_sent))))"

text \<open>The object of a bucket: the connection, what the broker answers, and the stored hashes.\<close>

datatype presign = Presigned string | PresignNotActivated | PresignError | PresignOther

record s3_source =
  s3_status :: string
  s3_role_arn :: "string option"
  s3_size :: int
  s3_presign :: presign
  s3_stored :: "(string \<Rightarrow> ustr option) option"

definition is_sha_text :: "ustr \<Rightarrow> bool" where
  "is_sha_text v \<longleftrightarrow> length v = 64 \<and> list_all (\<lambda>c. hex_value c \<noteq> None) v"

definition stored_hash :: "(string \<Rightarrow> ustr option) \<Rightarrow> ustr option" where
  "stored_hash stored =
     map_option ascii_lower
       (find is_sha_text (List.map_filter stored [''sha256_hash'', ''file_hash'', ''content_hash'']))"

definition complete_s3 :: "transfer_env \<Rightarrow> tmsg \<Rightarrow> unit fio" where
  "complete_s3 env response_message s =
     (case fio_bind (wait_for_final env response_message) (\<lambda>a.
             fio_bind (fio_lift (confirmed_result a)) (\<lambda>d.
               fio_lift (if fd_status d = Some ''delivered'' then Inr () else Inl ConnErr))) s of
        (Inl OtherErr, s') \<Rightarrow> (Inl OtherErr, s')
      | (Inl _, s') \<Rightarrow> (Inr (), update_log FFailed None (Some ''TRANSFER_ABORTED'') s')
      | (Inr _, s') \<Rightarrow> (Inr (), update_log FCompleted None None s'))"

definition deliver_s3_object :: "transfer_env \<Rightarrow> s3_source \<Rightarrow> unit fio" where
  "deliver_s3_object env src =
     fio_bind (begin_upload (s3_size src)) (\<lambda>_.
       if s3_status src \<notin> {''configured'', ''verified''} \<or> \<not> truthy (s3_role_arn src)
       then refuse env ''S3_CONNECTION_NOT_READY''
       else case s3_presign src of
         PresignNotActivated \<Rightarrow> refuse env ''S3_CONNECTION_NOT_READY''
       | PresignError \<Rightarrow> refuse env ''S3_PRESIGN_FAILED''
       | PresignOther \<Rightarrow> fio_lift (Inl OtherErr)
       | Presigned url \<Rightarrow>
          (case s3_stored src of
             None \<Rightarrow> fio_lift (Inl OtherErr)
           | Some stored \<Rightarrow> complete_s3 env (ResponseMsg url (s3_size src) (stored_hash stored))))"

text \<open>
  What the resolver answers: no artifact or a resolution error, another error, a file (\<open>None\<close> when
  it is not on disk), or an object of a bucket.
\<close>

datatype artifact = NoArtifact | ResolverFails | LocalFile "bytes option" | S3Object s3_source

definition deliver_artifact :: "(bytes \<Rightarrow> bytes) \<Rightarrow> transfer_env \<Rightarrow> artifact \<Rightarrow> unit fio" where
  "deliver_artifact H env art =
     (case art of
        NoArtifact \<Rightarrow> refuse env ''DATASET_NOT_FOUND''
      | ResolverFails \<Rightarrow> fio_lift (Inl OtherErr)
      | S3Object src \<Rightarrow> deliver_s3_object env src
      | LocalFile f \<Rightarrow> deliver_local H env f)"

definition new_transfer :: transfer where
  "new_transfer = \<lparr>tr_events = [], tr_sends = 0, tr_waits = 0,
     tr_log = \<lparr>fl_status = Received, fl_error = None, fl_chunks = None, fl_size = None\<rparr>\<rparr>"

text \<open>The handlers around the flow; \<open>body\<close> is the flow of an artifact or of a manifest.\<close>

definition guard_delivery :: "transfer_env \<Rightarrow> unit fio \<Rightarrow> transfer \<Rightarrow> transfer" where
  "guard_delivery env body s =
     (case body s of
        (Inr _, s') \<Rightarrow> s'
      | (Inl TimeoutErr, s') \<Rightarrow> update_log TimedOut None (Some ''TRANSFER_ABORTED'') (send_error env ''TRANSFER_ABORTED'' s')
      | (Inl ConnErr, s') \<Rightarrow> update_log FFailed None (Some ''TRANSFER_ABORTED'') s'
      | (Inl OtherErr, s') \<Rightarrow> update_log FFailed None (Some ''TRANSFER_ABORTED'') (send_error env ''TRANSFER_ABORTED'' s'))"

definition handle_deliver :: "(bytes \<Rightarrow> bytes) \<Rightarrow> transfer_env \<Rightarrow> artifact \<Rightarrow> transfer" where
  "handle_deliver H env art = guard_delivery env (deliver_artifact H env art) new_transfer"

section \<open>Effects of the operations\<close>

lemma stream_chunks_end: "n \<le> i \<Longrightarrow> stream_chunks H env contents n i = fio_return i"
  by (simp add: stream_chunks.simps)

lemma fio_bind_Inr: "fio_bind m f s = (Inr y, s') \<longleftrightarrow> (\<exists>x t. m s = (Inr x, t) \<and> f x t = (Inr y, s'))"
  by (cases "m s"; cases "fst (m s)") (auto simp: fio_bind_def)

lemma fio_bindE:
  assumes "fio_bind m f s = (r, s')"
  obtains (fails) e where "m s = (Inl e, s')" "r = Inl e" | (runs) x t where "m s = (Inr x, t)" "f x t = (r, s')"
proof (cases "m s")
  case (Pair a t)
  then show ?thesis using assms that by (cases a) (auto simp: fio_bind_def)
qed

lemma send_message_effect:
  assumes "send_message env m s = (r, s')"
  shows "tr_events s' = tr_events s @ (if r = Inr () then [Sent m] else []) \<and> tr_log s' = tr_log s \<and> tr_waits s' = tr_waits s"
  using assms by (auto simp: send_message_def split: option.splits)

lemma send_all_effect:
  assumes "send_all env ms s = (r, s')"
  shows "\<exists>k. tr_events s' = tr_events s @ map Sent (take k ms) \<and> (r = Inr () \<longrightarrow> length ms \<le> k)
    \<and> tr_log s' = tr_log s \<and> tr_waits s' = tr_waits s"
  using assms
proof (induction ms arbitrary: s)
  case Nil
  then show ?case by (simp add: fio_return_def)
next
  case (Cons m ms)
  from Cons.prems have "fio_bind (send_message env m) (\<lambda>_. send_all env ms) s = (r, s')" by simp
  then show ?case
  proof (cases rule: fio_bindE)
    case (fails e)
    then show ?thesis using send_message_effect [OF fails(1)] by (intro exI [of _ 0]) auto
  next
    case (runs x t)
    then obtain k where "tr_events s' = tr_events t @ map Sent (take k ms)" "r = Inr () \<longrightarrow> length ms \<le> k"
        "tr_log s' = tr_log t" "tr_waits s' = tr_waits t"
      using Cons.IH by blast
    then show ?thesis using send_message_effect [OF runs(1)] by (intro exI [of _ "Suc k"]) simp
  qed
qed

lemma send_all_Inr:
  "send_all env ms s = (Inr (), s') \<Longrightarrow> tr_events s' = tr_events s @ map Sent ms \<and> tr_log s' = tr_log s \<and> tr_waits s' = tr_waits s"
  using send_all_effect [of env ms s "Inr ()" s'] by auto

definition continues :: "ack \<Rightarrow> int \<Rightarrow> bool" where
  "continues a expected \<longleftrightarrow> ack_status a = Some ''continue'' \<and> (\<exists>n. acked_through a = AckInt n \<and> expected \<le> n)"

lemma validate_ack_Inr: "0 \<le> expected \<Longrightarrow> validate_ack a expected = Inr () \<longleftrightarrow> continues a expected"
  by (auto simp: validate_ack_def continues_def split: option.splits ack_index.splits if_splits)

lemma await_ack_effect:
  assumes "await_ack env expected s = (r, s')" and "0 \<le> expected"
  shows "\<exists>as. tr_events s' = tr_events s @ map Acked as \<and> (r = Inr () \<longrightarrow> (\<exists>a. as = [a] \<and> continues a expected))
    \<and> tr_log s' = tr_log s \<and> tr_waits s' = Suc (tr_waits s)"
proof -
  from assms(1) have "fio_bind (wait_for_ack env) (\<lambda>a. fio_lift (validate_ack a expected)) s = (r, s')"
    by (simp add: await_ack_def)
  then show ?thesis
  proof (cases rule: fio_bindE)
    case (fails e)
    then show ?thesis by (intro exI [of _ "[]"]) (auto simp: wait_for_ack_def split: sum.splits)
  next
    case (runs a t)
    then show ?thesis using validate_ack_Inr [OF assms(2), of a]
      by (intro exI [of _ "[a]"]) (auto simp: wait_for_ack_def fio_lift_def split: sum.splits)
  qed
qed

lemma await_ack_timeout:
  assumes "await_ack env expected s = (Inl TimeoutErr, s')"
  shows "s' = s\<lparr>tr_waits := Suc (tr_waits s)\<rparr> \<and> te_ack env (tr_waits s) (tr_events s) = Inl TimeoutErr"
  using assms
  by (auto simp: await_ack_def fio_bind_def wait_for_ack_def fio_lift_def validate_ack_def
      split: sum.splits prod.splits option.splits if_splits ack_index.splits)

section \<open>Flow control\<close>

text \<open>A chunk may go out when all windows before its own have been acknowledged.\<close>

definition window_of :: "nat \<Rightarrow> nat" where
  "window_of i = WINDOW_SIZE * (i div WINDOW_SIZE)"

definition released :: "tevent list \<Rightarrow> nat \<Rightarrow> bool" where
  "released evs i \<longleftrightarrow> window_of i = 0 \<or> (\<exists>a. Acked a \<in> set evs \<and> continues a (int (window_of i) - 1))"

definition paced :: "tevent list \<Rightarrow> bool" where
  "paced evs \<longleftrightarrow> (\<forall>before c after. evs = before @ Sent (ChunkMsg c) # after \<longrightarrow> released before (chunk_index c))"

lemma paced_Nil [simp]: "paced []"
  by (simp add: paced_def)

lemma paced_snoc: "paced (evs @ [e]) \<longleftrightarrow> paced evs \<and> (\<forall>c. e = Sent (ChunkMsg c) \<longrightarrow> released evs (chunk_index c))"
proof (rule iffI; (intro conjI allI impI)?)
  assume a: "paced (evs @ [e])"
  show "paced evs" unfolding paced_def
  proof (intro allI impI)
    fix before c after
    assume "evs = before @ Sent (ChunkMsg c) # after"
    then have "evs @ [e] = before @ Sent (ChunkMsg c) # (after @ [e])" by simp
    then show "released before (chunk_index c)" using a unfolding paced_def by blast
  qed
  show "released evs (chunk_index c)" if "e = Sent (ChunkMsg c)" for c
    using a that unfolding paced_def by blast
next
  assume a: "paced evs \<and> (\<forall>c. e = Sent (ChunkMsg c) \<longrightarrow> released evs (chunk_index c))"
  show "paced (evs @ [e])" unfolding paced_def
  proof (intro allI impI)
    fix before c after
    assume d: "evs @ [e] = before @ Sent (ChunkMsg c) # after"
    show "released before (chunk_index c)"
    proof (cases after rule: rev_cases)
      case Nil
      then show ?thesis using a d by simp
    next
      case (snoc rest y)
      then show ?thesis using a d unfolding paced_def by simp
    qed
  qed
qed

lemma released_append: "released evs i \<Longrightarrow> released (evs @ later) i"
  by (auto simp: released_def)

lemma paced_append_other:
  "paced evs \<Longrightarrow> (\<And>c. Sent (ChunkMsg c) \<notin> set later) \<Longrightarrow> paced (evs @ later)"
proof (induction later rule: rev_induct)
  case (snoc e later)
  then have "paced ((evs @ later) @ [e])" by (subst paced_snoc) auto
  then show ?case by simp
qed simp

lemma paced_append_chunks:
  assumes "paced evs" and "\<And>i. i \<in> set is \<Longrightarrow> released evs i"
  shows "paced (evs @ map (\<lambda>i. Sent (chunk_message H contents i)) is)"
  using assms(2)
proof (induction "is" rule: rev_induct)
  case Nil
  then show ?case using assms(1) by simp
next
  case (snoc i "is")
  have "paced (evs @ map (\<lambda>i. Sent (chunk_message H contents i)) is)" using snoc.IH snoc.prems by simp
  moreover have "released (evs @ map (\<lambda>i. Sent (chunk_message H contents i)) is) i"
    using snoc.prems by (simp add: released_append)
  ultimately show ?case
    by (simp flip: append_assoc add: paced_snoc chunk_message_def)
qed

lemma send_chunks_paced:
  assumes "send_all env (map (chunk_message H contents) is) s = (r, s')" and "paced (tr_events s)"
    and "\<And>i. i \<in> set is \<Longrightarrow> released (tr_events s) i"
  shows "paced (tr_events s')"
proof -
  obtain k where k: "tr_events s' = tr_events s @ map Sent (take k (map (chunk_message H contents) is))"
    using send_all_effect [OF assms(1)] by blast
  have "paced (tr_events s @ map (\<lambda>i. Sent (chunk_message H contents i)) (take k is))"
    by (rule paced_append_chunks) (use assms(2,3) in \<open>auto dest: in_set_takeD\<close>)
  then show ?thesis by (simp add: k take_map comp_def)
qed

text \<open>The runs of one window that went through: sent once, or a second time after a timeout.\<close>

lemma stream_window_Inr:
  assumes "stream_window H env contents n i j s = (Inr (), s')" and "i < j"
  shows "\<exists>m as. tr_events s' = tr_events s @ concat (replicate m (map (\<lambda>i. Sent (chunk_message H contents i)) [i..<j])) @ map Acked as
    \<and> 1 \<le> m \<and> (j < n \<longrightarrow> (\<exists>a\<in>set as. continues a (int j - 1))) \<and> tr_log s' = tr_log s"
proof -
  let ?ms = "map (chunk_message H contents) [i..<j]" and ?es = "map (\<lambda>i. Sent (chunk_message H contents i)) [i..<j]"
  have e: "0 \<le> int j - 1" using assms(2) by simp
  obtain t where t: "send_all env ?ms s = (Inr (), t)"
      "(if j < n then (\<lambda>s. case await_ack env (int j - 1) s of
             (Inl TimeoutErr, s') \<Rightarrow> fio_bind (send_all env ?ms) (\<lambda>_. await_ack env (int j - 1)) s'
           | r \<Rightarrow> r) else fio_return ()) t = (Inr (), s')"
    using assms(1) unfolding stream_window_def Let_def fio_bind_Inr by auto
  have ev: "tr_events t = tr_events s @ ?es" "tr_log t = tr_log s" using send_all_Inr [OF t(1)] by (simp_all add: comp_def)
  show ?thesis
  proof (cases "j < n")
    case False
    then show ?thesis using t(2) ev by (intro exI [of _ 1] exI [of _ "[]"]) (simp add: fio_return_def)
  next
    case True
    obtain r u where a: "await_ack env (int j - 1) t = (r, u)" by (cases "await_ack env (int j - 1) t")
    obtain as where as: "tr_events u = tr_events t @ map Acked as" "r = Inr () \<longrightarrow> (\<exists>a. as = [a] \<and> continues a (int j - 1))"
        "tr_log u = tr_log t"
      using await_ack_effect [OF a e] by blast
    show ?thesis
    proof (cases "r = Inl TimeoutErr")
      case False
      then have "r = Inr ()" "u = s'" using t(2) True a by (auto split: sum.splits terr.splits)
      then show ?thesis using as ev by (intro exI [of _ 1] exI [of _ as]) auto
    next
      case to: True
      then obtain v where v: "send_all env ?ms u = (Inr (), v)" "await_ack env (int j - 1) v = (Inr (), s')"
        using t(2) True a by (auto simp: fio_bind_Inr)
      have "tr_events u = tr_events t" using await_ack_timeout [of env "int j - 1" t u] a to by simp
      moreover obtain bs where "tr_events s' = tr_events v @ map Acked bs" "\<exists>b. bs = [b] \<and> continues b (int j - 1)"
          "tr_log s' = tr_log v"
        using await_ack_effect [OF v(2) e] by blast
      moreover have "tr_events v = tr_events u @ ?es" "tr_log v = tr_log u"
        using send_all_Inr [OF v(1)] by (simp_all add: comp_def)
      ultimately show ?thesis using ev as(3)
        by (intro exI [of _ 2] exI [of _ bs]) (auto simp: numeral_2_eq_2)
    qed
  qed
qed

lemma stream_window_acked:
  assumes "stream_window H env contents n i j s = (Inr (), s')" and "i < j" and "j < n"
  obtains a where "Acked a \<in> set (tr_events s')" and "continues a (int j - 1)"
proof -
  obtain m as where "tr_events s' = tr_events s @ concat (replicate m (map (\<lambda>i. Sent (chunk_message H contents i)) [i..<j])) @ map Acked as"
      "\<exists>a\<in>set as. continues a (int j - 1)"
    using stream_window_Inr [OF assms(1,2)] assms(3) by blast
  moreover from this(2) obtain a where "a \<in> set as" "continues a (int j - 1)" ..
  ultimately show ?thesis using that [of a] by simp
qed

lemma await_ack_paced:
  assumes "await_ack env (int j - 1) s = (r, s')" and "0 < j" and "paced (tr_events s)"
  shows "paced (tr_events s') \<and> (\<forall>i. released (tr_events s) i \<longrightarrow> released (tr_events s') i)"
proof -
  obtain as where "tr_events s' = tr_events s @ map Acked as"
    using await_ack_effect [OF assms(1)] assms(2) by auto
  then show ?thesis using assms(3) by (auto intro: paced_append_other released_append)
qed

lemma stream_window_paced:
  assumes "stream_window H env contents n i j s = (r, s')" and "i < j" and "paced (tr_events s)"
    and "\<And>k. k \<in> set [i..<j] \<Longrightarrow> released (tr_events s) k"
  shows "paced (tr_events s')"
proof -
  let ?ms = "map (chunk_message H contents) [i..<j]"
  from assms(1) have "fio_bind (send_all env ?ms) (\<lambda>_. if j < n then (\<lambda>s. case await_ack env (int j - 1) s of
             (Inl TimeoutErr, s') \<Rightarrow> fio_bind (send_all env ?ms) (\<lambda>_. await_ack env (int j - 1)) s'
           | r \<Rightarrow> r) else fio_return ()) s = (r, s')"
    by (simp add: stream_window_def Let_def)
  then show ?thesis
  proof (cases rule: fio_bindE)
    case (fails e)
    then show ?thesis using send_chunks_paced [OF fails(1) assms(3,4)] by simp
  next
    case (runs x t)
    note t = send_chunks_paced [OF runs(1) assms(3,4)]
    have tr: "released (tr_events t) k" if "k \<in> set [i..<j]" for k
      using send_all_effect [OF runs(1)] assms(4) [OF that] by (auto intro: released_append)
    show ?thesis
    proof (cases "j < n")
      case False
      then show ?thesis using runs(2) t by (simp add: fio_return_def)
    next
      case True
      obtain q u where a: "await_ack env (int j - 1) t = (q, u)" by (cases "await_ack env (int j - 1) t")
      note u = await_ack_paced [OF a _ t]
      show ?thesis
      proof (cases "q = Inl TimeoutErr")
        case False
        then have "u = s'" using runs(2) True a by (auto split: sum.splits terr.splits)
        then show ?thesis using u assms(2) by simp
      next
        case to: True
        then have "fio_bind (send_all env ?ms) (\<lambda>_. await_ack env (int j - 1)) u = (r, s')" using runs(2) True a by simp
        then show ?thesis
        proof (cases rule: fio_bindE)
          case (fails e)
          show ?thesis by (rule send_chunks_paced [OF fails(1)]) (use u tr assms(2) in auto)
        next
          case (runs y v)
          have "paced (tr_events v)" by (rule send_chunks_paced [OF runs(1)]) (use u tr assms(2) in auto)
          then show ?thesis using await_ack_paced [OF runs(2)] assms(2) by simp
        qed
      qed
    qed
  qed
qed

lemma stream_chunks_paced:
  assumes "stream_chunks H env contents n i s = (r, s')" and "paced (tr_events s)" and "WINDOW_SIZE dvd i"
    and "i < n \<longrightarrow> released (tr_events s) i"
  shows "paced (tr_events s')"
  using assms
proof (induction H env contents n i arbitrary: s rule: stream_chunks.induct)
  case (1 H env contents n i)
  let ?j = "min (i + WINDOW_SIZE) n"
  show ?case
  proof (cases "i < n")
    case False
    then show ?thesis using "1.prems" by (simp add: stream_chunks_end fio_return_def)
  next
    case True
    have ij: "i < ?j" using True by (simp add: WINDOW_SIZE_def)
    have rel: "released (tr_events s) k" if "k \<in> set [i..<?j]" for k
    proof -
      obtain q where q: "i = WINDOW_SIZE * q" using "1.prems"(3) by blast
      have "k div WINDOW_SIZE = q"
        by (rule div_nat_eqI) (use that q in \<open>auto simp: WINDOW_SIZE_def\<close>)
      then have "window_of k = window_of i" by (simp add: window_of_def q WINDOW_SIZE_def)
      then show ?thesis using "1.prems"(4) True by (simp add: released_def)
    qed
    from "1.prems"(1) True have "fio_bind (stream_window H env contents n i ?j)
        (\<lambda>_. stream_chunks H env contents n ?j) s = (r, s')" by (simp add: stream_chunks.simps [of H env contents n i])
    then show ?thesis
    proof (cases rule: fio_bindE)
      case (fails e)
      then show ?thesis using stream_window_paced [OF fails(1) ij "1.prems"(2) rel] by simp
    next
      case (runs x t)
      have p: "paced (tr_events t)" by (rule stream_window_paced [OF runs(1) ij "1.prems"(2) rel])
      have acked: "released (tr_events t) ?j" if jn: "?j < n"
      proof -
        obtain a where as: "Acked a \<in> set (tr_events t)" "continues a (int ?j - 1)"
          by (rule stream_window_acked [OF runs(1) [simplified] ij jn])
        have "window_of ?j \<le> ?j" unfolding window_of_def by (rule times_div_less_eq_dividend)
        then show ?thesis using as by (fastforce simp: released_def continues_def)
      qed
      have d: "WINDOW_SIZE dvd ?j" if "?j < n" using that "1.prems"(3) by (auto simp: min_def split: if_splits)
      show ?thesis
      proof (cases "?j < n")
        case True
        then show ?thesis using "1.IH" [OF \<open>i < n\<close> runs(2) p] acked d by simp
      next
        case False
        then show ?thesis using runs(2) p by (simp add: stream_chunks_end fio_return_def)
      qed
    qed
  qed
qed

section \<open>The receiver\<close>

text \<open>
  A receiver writes every chunk at its offset, without a gap, after checking its length and hash.
\<close>

definition store_chunk :: "(bytes \<Rightarrow> bytes) \<Rightarrow> chunk_msg \<Rightarrow> bytes \<Rightarrow> bytes option" where
  "store_chunk H c buf =
     (case decode_b64 (Some (chunk_payload c)) (Some (payload_length c)) of
        Inl _ \<Rightarrow> None
      | Inr raw \<Rightarrow>
          if hex_of (H raw) = chunk_sha256 c \<and> byte_offset c \<le> length buf
          then Some (take (byte_offset c) buf @ raw @ drop (byte_offset c + length raw) buf) else None)"

fun received :: "(bytes \<Rightarrow> bytes) \<Rightarrow> bytes \<Rightarrow> tevent list \<Rightarrow> bytes option" where
  "received H buf [] = Some buf"
| "received H buf (Sent (ChunkMsg c) # evs) = Option.bind (store_chunk H c buf) (\<lambda>b. received H b evs)"
| "received H buf (e # evs) = received H buf evs"

lemma received_append: "received H buf (xs @ ys) = Option.bind (received H buf xs) (\<lambda>b. received H b ys)"
proof (induction H buf xs rule: received.induct)
  case (2 H buf c evs)
  then show ?case by (cases "store_chunk H c buf") simp_all
qed simp_all

lemma received_acks [simp]: "received H buf (map Acked as) = Some buf"
  by (induction as) simp_all

lemma take_write:
  "take i xs @ take n (drop i xs) @ drop (i + length (take n (drop i xs))) (take k xs) = take (max k (i + n)) xs" if "i \<le> k"
proof -
  have "take i xs @ take n (drop i xs) = take (i + n) xs" by (simp add: take_add)
  moreover have "drop (i + length (take n (drop i xs))) (take k xs) = drop (i + n) (take k xs)"
    by (cases "length xs \<le> i + n") (auto simp: min_def)
  moreover have "take (i + n) xs @ drop (i + n) (take k xs) = take (max k (i + n)) xs"
    by (cases "i + n \<le> k") (simp_all add: max_def drop_take flip: take_add)
  ultimately show ?thesis by (metis append.assoc)
qed

lemma store_chunk_message:
  assumes "i \<le> k" and "i * CHUNK_SIZE \<le> length contents"
  shows "received H (take (k * CHUNK_SIZE) contents) [Sent (chunk_message H contents i)]
    = Some (take (max k (Suc i) * CHUNK_SIZE) contents)"
proof -
  let ?raw = "chunk_data contents i"
  have d: "decode_b64 (Some (b64encode ?raw)) (Some (length ?raw)) = Inr ?raw" by (simp add: decode_b64_iff)
  have o: "i * CHUNK_SIZE \<le> length (take (k * CHUNK_SIZE) contents)" using assms by simp
  have t: "take (i * CHUNK_SIZE) (take (k * CHUNK_SIZE) contents) = take (i * CHUNK_SIZE) contents"
    using assms(1) by (simp add: min_def)
  have "max (k * CHUNK_SIZE) (i * CHUNK_SIZE + CHUNK_SIZE) = max k (Suc i) * CHUNK_SIZE"
    by (simp add: max_def CHUNK_SIZE_def)
  then show ?thesis using o d take_write [where i = "i * CHUNK_SIZE" and k = "k * CHUNK_SIZE" and n = CHUNK_SIZE and xs = contents] assms(1)
    by (simp add: store_chunk_def chunk_message_def t chunk_data_def)
qed

lemma received_chunks:
  assumes "\<And>m. m \<in> set [i..<j] \<Longrightarrow> m * CHUNK_SIZE \<le> length contents" and "i \<le> k" and "i \<le> j"
  shows "received H (take (k * CHUNK_SIZE) contents) (map (\<lambda>i. Sent (chunk_message H contents i)) [i..<j])
    = Some (take (max k j * CHUNK_SIZE) contents)"
  using assms(1,3)
proof (induction j)
  case 0
  then show ?case using assms(2) by simp
next
  case (Suc j)
  show ?case
  proof (cases "i = Suc j")
    case True
    then show ?thesis using assms(2) by (simp add: max_def)
  next
    case False
    then have ij: "i \<le> j" using Suc.prems(2) by simp
    then have "received H (take (k * CHUNK_SIZE) contents) (map (\<lambda>i. Sent (chunk_message H contents i)) [i..<j])
        = Some (take (max k j * CHUNK_SIZE) contents)" using Suc.IH Suc.prems(1) by simp
    moreover have "received H (take (max k j * CHUNK_SIZE) contents) [Sent (chunk_message H contents j)]
        = Some (take (max (max k j) (Suc j) * CHUNK_SIZE) contents)"
      by (rule store_chunk_message) (use Suc.prems(1) ij in auto)
    moreover have "max (max k j) (Suc j) = max k (Suc j)" by simp
    ultimately show ?thesis using ij by (simp add: received_append)
  qed
qed

text \<open>A window that went through leaves the receiver with everything up to its end.\<close>

lemma received_window:
  assumes "stream_window H env contents n i j s = (Inr (), s')" and "i < j"
    and "\<And>m. m \<in> set [i..<j] \<Longrightarrow> m * CHUNK_SIZE \<le> length contents"
    and "received H [] (tr_events s) = Some (take (i * CHUNK_SIZE) contents)"
  shows "received H [] (tr_events s') = Some (take (j * CHUNK_SIZE) contents) \<and> tr_log s' = tr_log s
    \<and> (\<exists>evs. tr_events s' = tr_events s @ evs)"
proof -
  let ?es = "map (\<lambda>i. Sent (chunk_message H contents i)) [i..<j]"
  obtain m as where m: "tr_events s' = tr_events s @ concat (replicate m ?es) @ map Acked as" "1 \<le> m" "tr_log s' = tr_log s"
    using stream_window_Inr [OF assms(1,2)] by blast
  have again: "received H (take (j * CHUNK_SIZE) contents) (concat (replicate q ?es)) = Some (take (j * CHUNK_SIZE) contents)" for q
  proof (induction q)
    case (Suc q)
    show ?case using received_chunks [OF assms(3), where k = j and H = H] assms(2) Suc by (simp add: received_append)
  qed simp
  obtain q where q: "m = Suc q" using m(2) by (cases m) auto
  have "received H (take (i * CHUNK_SIZE) contents) ?es = Some (take (j * CHUNK_SIZE) contents)"
    using received_chunks [OF assms(3), where k = i and H = H] assms(2) by simp
  then show ?thesis using m again assms(4) by (simp add: q received_append)
qed

lemma received_stream:
  assumes "stream_chunks H env contents n i s = (Inr k, s')" and "i \<le> n"
    and "\<And>m. m < n \<Longrightarrow> m * CHUNK_SIZE \<le> length contents"
    and "received H [] (tr_events s) = Some (take (i * CHUNK_SIZE) contents)"
  shows "received H [] (tr_events s') = Some (take (n * CHUNK_SIZE) contents) \<and> k = n \<and> tr_log s' = tr_log s
    \<and> (\<exists>evs. tr_events s' = tr_events s @ evs)"
  using assms
proof (induction H env contents n i arbitrary: s rule: stream_chunks.induct)
  case (1 H env contents n i)
  let ?j = "min (i + WINDOW_SIZE) n"
  show ?case
  proof (cases "i < n")
    case False
    then show ?thesis using "1.prems" by (simp add: stream_chunks_end fio_return_def)
  next
    case True
    have ij: "i < ?j" using True by (simp add: WINDOW_SIZE_def)
    obtain t where t: "stream_window H env contents n i ?j s = (Inr (), t)" "stream_chunks H env contents n ?j t = (Inr k, s')"
      using "1.prems"(1) True by (auto simp: stream_chunks.simps [of H env contents n i] fio_bind_Inr)
    have "received H [] (tr_events t) = Some (take (?j * CHUNK_SIZE) contents) \<and> tr_log t = tr_log s
        \<and> (\<exists>evs. tr_events t = tr_events s @ evs)"
      by (rule received_window [OF t(1) ij _ "1.prems"(4)]) (use "1.prems"(3) in auto)
    then show ?thesis using "1.IH" [OF True t(2) _ "1.prems"(3)] by auto
  qed
qed

lemma chunk_count_covers:
  "length contents \<le> chunk_count contents * CHUNK_SIZE" "m < chunk_count contents \<Longrightarrow> m * CHUNK_SIZE \<le> length contents"
proof -
  have "length contents \<le> (length contents + CHUNK_SIZE - 1) div CHUNK_SIZE * CHUNK_SIZE"
    by (simp add: CHUNK_SIZE_def)
  then show "length contents \<le> chunk_count contents * CHUNK_SIZE" by (auto simp: chunk_count_def)
  show "m * CHUNK_SIZE \<le> length contents" if "m < chunk_count contents"
    using that by (auto simp: chunk_count_def CHUNK_SIZE_def split: if_splits)
qed

section \<open>Deliveries\<close>

lemma send_error_keeps [simp]: "tr_log (send_error env code s) = tr_log s"
  using send_message_effect [of env "ErrorMsg code" s] by (cases "send_message env (ErrorMsg code) s") (simp add: send_error_def)


definition keeps_paced :: "'a fio \<Rightarrow> bool" where
  "keeps_paced m \<longleftrightarrow> (\<forall>s. paced (tr_events s) \<longrightarrow> paced (tr_events (snd (m s))))"

definition keeps_log :: "'a fio \<Rightarrow> bool" where
  "keeps_log m \<longleftrightarrow> (\<forall>s. tr_log (snd (m s)) = tr_log s)"

named_theorems fio_keeps \<open>operations that keep the pace or the log\<close>

lemma snd_fio_bind: "snd (fio_bind m f s) = (case fst (m s) of Inl _ \<Rightarrow> snd (m s) | Inr x \<Rightarrow> snd (f x (snd (m s))))"
  by (auto simp: fio_bind_def split: prod.splits sum.splits)

lemma keeps_paced_bind [fio_keeps]: "keeps_paced m \<Longrightarrow> (\<And>x. keeps_paced (f x)) \<Longrightarrow> keeps_paced (fio_bind m f)"
  by (auto simp: keeps_paced_def snd_fio_bind split: sum.splits)

lemma keeps_log_bind [fio_keeps]: "keeps_log m \<Longrightarrow> (\<And>x. keeps_log (f x)) \<Longrightarrow> keeps_log (fio_bind m f)"
  by (auto simp: keeps_log_def snd_fio_bind split: sum.splits)

lemma keeps_pure [fio_keeps]: "keeps_paced (fio_return x)" "keeps_paced (fio_lift r)" "keeps_log (fio_return x)" "keeps_log (fio_lift r)"
  by (simp_all add: keeps_paced_def keeps_log_def fio_return_def fio_lift_def)

lemma keeps_send [fio_keeps]: "(\<And>c. m \<noteq> ChunkMsg c) \<Longrightarrow> keeps_paced (send_message env m)" "keeps_log (send_message env m)"
  by (auto simp: keeps_paced_def keeps_log_def send_message_def paced_snoc split: option.splits)

lemma keeps_send_all [fio_keeps]: "keeps_log (send_all env ms)"
  by (induction ms) (auto intro: fio_keeps)

lemma keeps_await [fio_keeps]: "keeps_log (await_ack env n)"
  unfolding await_ack_def by (intro fio_keeps) (auto simp: keeps_log_def wait_for_ack_def split: sum.splits)

lemma keeps_window [fio_keeps]: "keeps_log (stream_window H env contents n i j)"
proof -
  let ?ms = "map (chunk_message H contents) [i..<j]"
  have "keeps_log (\<lambda>s. case await_ack env a s of
             (Inl TimeoutErr, s') \<Rightarrow> fio_bind (send_all env ?ms) (\<lambda>_. await_ack env a) s' | r \<Rightarrow> r)" for a
  proof -
    have "keeps_log (fio_bind (send_all env ?ms) (\<lambda>_. await_ack env a))" by (intro fio_keeps)
    then show ?thesis using keeps_await [of env a]
      by (auto simp: keeps_log_def split: prod.splits sum.splits terr.splits) (metis snd_conv)+
  qed
  then show ?thesis unfolding stream_window_def Let_def by (auto intro!: fio_keeps)
qed

lemma keeps_stream [fio_keeps]: "keeps_log (stream_chunks H env contents n i)"
proof (induction H env contents n i rule: stream_chunks.induct)
  case (1 H env contents n i)
  then show ?case by (subst stream_chunks.simps) (auto intro!: fio_keeps)
qed

lemma keeps_stream_paced [fio_keeps]: "keeps_paced (stream_chunks H env contents n 0)"
proof -
  have "paced (tr_events s')" if "stream_chunks H env contents n 0 s = (r, s')" "paced (tr_events s)" for s r s'
    by (rule stream_chunks_paced [OF that]) (simp_all add: released_def window_of_def)
  then show ?thesis unfolding keeps_paced_def by (metis prod.collapse)
qed

lemma keeps_paced_update [simp]: "tr_events (update_log st n code s) = tr_events s"
  by (simp add: update_log_def)

lemma paced_send_error: "paced (tr_events s) \<Longrightarrow> paced (tr_events (send_error env code s))"
  using keeps_send(1) [of "ErrorMsg code" env] by (simp add: send_error_def keeps_paced_def)

lemma keeps_refuse [fio_keeps]: "keeps_paced (refuse env code)"
  by (simp add: keeps_paced_def refuse_def paced_send_error)

lemma keeps_begin [fio_keeps]: "keeps_paced (begin_upload n)"
  by (simp add: keeps_paced_def begin_upload_def)

lemma keeps_complete [fio_keeps]: "keeps_paced (complete_local H env contents n)"
proof -
  have "keeps_paced (fio_bind (wait_for_final env (CompleteMsg (length contents) n (hex_of (H contents)))) (\<lambda>a.
             fio_bind (fio_lift (confirmed_result a)) (\<lambda>d.
               fio_lift (if truthy (fd_token d) then Inr () else Inl ConnErr))))"
    unfolding wait_for_final_def by (intro fio_keeps) simp
  then show ?thesis
    by (auto simp: keeps_paced_def complete_local_def paced_send_error split: prod.splits sum.splits terr.splits)
qed

lemma keeps_s3 [fio_keeps]: "(\<And>c. m \<noteq> ChunkMsg c) \<Longrightarrow> keeps_paced (complete_s3 env m)"
proof -
  assume "\<And>c. m \<noteq> ChunkMsg c"
  then have "keeps_paced (fio_bind (wait_for_final env m) (\<lambda>a. fio_bind (fio_lift (confirmed_result a)) (\<lambda>d.
            fio_lift (if fd_status d = Some ''delivered'' then Inr () else Inl ConnErr))))"
    unfolding wait_for_final_def by (intro fio_keeps)
  then show ?thesis
    by (auto simp: keeps_paced_def complete_s3_def split: prod.splits sum.splits terr.splits)
qed

lemma keeps_deliver_s3 [fio_keeps]: "keeps_paced (deliver_s3_object env src)"
  unfolding deliver_s3_object_def by (auto intro!: fio_keeps split: presign.splits option.splits)

lemma keeps_deliver [fio_keeps]: "keeps_paced (deliver_artifact H env art)"
proof -
  have "keeps_paced (deliver_local H env f)" for f
    unfolding deliver_local_def by (auto intro!: fio_keeps split: option.splits)
  then show ?thesis unfolding deliver_artifact_def by (auto intro: fio_keeps split: artifact.splits)
qed

text \<open>
  C17. The window of four holds in every delivery, whatever the channel does: no chunk goes out
  before the marketplace has acknowledged every chunk of the windows before its own.
\<close>

theorem delivery_is_paced:
  assumes "tr_events (handle_deliver H env art) = before @ Sent (ChunkMsg c) # after"
  shows "released before (chunk_index c)"
proof -
  have "paced (tr_events (snd (deliver_artifact H env art new_transfer)))"
    using keeps_deliver [of H env art] by (simp add: keeps_paced_def new_transfer_def)
  then have "paced (tr_events (handle_deliver H env art))"
    by (auto simp: handle_deliver_def guard_delivery_def paced_send_error split: prod.splits sum.splits terr.splits)
  then show ?thesis using assms unfolding paced_def by blast
qed

definition settled :: "transfer_env \<Rightarrow> flog \<Rightarrow> bool" where
  "settled env l \<longleftrightarrow> fl_status l \<in> {FCompleted, FFailed, TimedOut} \<and> (fl_error l = None \<longleftrightarrow> fl_status l = FCompleted)
     \<and> (fl_status l = FCompleted \<longrightarrow> (\<exists>resp d. te_final env = Inr resp \<and> confirmed_result resp = Inr d))"

text \<open>A flow that returns leaves a settled entry when it began with no error recorded.\<close>

definition settles :: "transfer_env \<Rightarrow> unit fio \<Rightarrow> bool" where
  "settles env m \<longleftrightarrow> (\<forall>s s'. fl_error (tr_log s) = None \<longrightarrow> m s = (Inr (), s') \<longrightarrow> settled env (tr_log s'))"

lemma settles_bind: "keeps_log m \<Longrightarrow> (\<And>x. settles env (f x)) \<Longrightarrow> settles env (fio_bind m f)"
  unfolding settles_def fio_bind_Inr keeps_log_def by (metis snd_conv)

lemma settles_begin: "settles env m \<Longrightarrow> settles env (fio_bind (begin_upload n) (\<lambda>_. m))"
proof (unfold settles_def fio_bind_Inr, intro allI impI)
  fix s s'
  assume m: "\<forall>s s'. fl_error (tr_log s) = None \<longrightarrow> m s = (Inr (), s') \<longrightarrow> settled env (tr_log s')"
    and s: "fl_error (tr_log s) = None" "\<exists>x t. begin_upload n s = (Inr x, t) \<and> m t = (Inr (), s')"
  then obtain t where t: "begin_upload n s = (Inr (), t)" "m t = (Inr (), s')" by auto
  then have "fl_error (tr_log t) = None" using s(1) by (auto simp: begin_upload_def)
  then show "settled env (tr_log s')" using m t(2) by blast
qed

lemma settles_refuse: "settles env (refuse env code)"
  by (auto simp: settles_def settled_def refuse_def update_log_def)

lemma final_confirmed:
  assumes "fio_bind (wait_for_final env m) (\<lambda>a. fio_bind (fio_lift (confirmed_result a)) (\<lambda>d. fio_lift (check d))) s = (r, s')"
  shows "tr_log s' = tr_log s \<and> (\<forall>x. r = Inr x \<longrightarrow> (\<exists>resp d. te_final env = Inr resp \<and> confirmed_result resp = Inr d \<and> check d = Inr x))"
proof -
  have "keeps_log (fio_bind (wait_for_final env m) (\<lambda>a. fio_bind (fio_lift (confirmed_result a)) (\<lambda>d. fio_lift (check d))))"
    unfolding wait_for_final_def by (intro fio_keeps)
  then have "tr_log s' = tr_log s" using assms unfolding keeps_log_def by (metis snd_conv)
  then show ?thesis using assms by (auto simp: fio_bind_Inr wait_for_final_def fio_lift_def)
qed

lemma settles_complete: "settles env (complete_local H env contents n)"
  unfolding settles_def
proof (intro allI impI)
  fix s s'
  assume e: "fl_error (tr_log s) = None" and c: "complete_local H env contents n s = (Inr (), s')"
  let ?check = "\<lambda>d. if truthy (fd_token d) then Inr () else Inl ConnErr"
  let ?final = "fio_bind (wait_for_final env (CompleteMsg (length contents) n (hex_of (H contents)))) (\<lambda>a.
      fio_bind (fio_lift (confirmed_result a)) (\<lambda>d. fio_lift (?check d)))"
  obtain r t where f: "?final s = (r, t)" by (cases "?final s")
  note k = final_confirmed [OF f]
  show "settled env (tr_log s')"
    using c k e unfolding complete_local_def f
    by (cases r) (auto simp: settled_def update_log_def split: terr.splits)
qed

lemma settles_complete_s3: "settles env (complete_s3 env m)"
  unfolding settles_def
proof (intro allI impI)
  fix s s'
  assume e: "fl_error (tr_log s) = None" and c: "complete_s3 env m s = (Inr (), s')"
  let ?final = "fio_bind (wait_for_final env m) (\<lambda>a. fio_bind (fio_lift (confirmed_result a)) (\<lambda>d.
      fio_lift (if fd_status d = Some ''delivered'' then Inr () else Inl ConnErr)))"
  obtain r t where f: "?final s = (r, t)" by (cases "?final s")
  show "settled env (tr_log s')" using c final_confirmed [OF f] e unfolding complete_s3_def f
    by (cases r) (auto simp: settled_def update_log_def split: terr.splits)
qed

lemma settles_s3: "settles env (deliver_s3_object env src)"
proof -
  have "settles env (fio_lift (Inl e))" for e by (simp add: settles_def fio_lift_def)
  then show ?thesis unfolding deliver_s3_object_def
    by (auto intro!: settles_begin settles_refuse settles_complete_s3 split: presign.splits option.splits)
qed

lemma settles_deliver: "settles env (deliver_artifact H env art)"
proof -
  have "settles env (fio_lift (Inl e))" for e by (simp add: settles_def fio_lift_def)
  moreover have "settles env (deliver_local H env f)" for f
    unfolding deliver_local_def
    by (auto intro!: settles_begin settles_refuse settles_bind settles_complete keeps_send keeps_stream split: option.splits)
  ultimately show ?thesis unfolding deliver_artifact_def
    by (auto intro: settles_refuse settles_s3 split: artifact.splits)
qed


section \<open>A responsive channel\<close>

definition sent_indices :: "tevent list \<Rightarrow> nat set" where
  "sent_indices evs = {chunk_index c | c. Sent (ChunkMsg c) \<in> set evs}"

text \<open>
  Every message goes out; an answer acknowledges all that was sent, and of two waits in a row one at
  least is answered.
\<close>

definition responsive :: "transfer_env \<Rightarrow> bool" where
  "responsive env \<longleftrightarrow> (\<forall>k. te_send env k = None)
     \<and> (\<forall>k evs. te_ack env k evs = Inl TimeoutErr
          \<or> (\<exists>a. te_ack env k evs = Inr a \<and> (\<forall>i\<in>sent_indices evs. continues a (int i))))
     \<and> (\<forall>k evs evs'. te_ack env k evs = Inl TimeoutErr \<longrightarrow> te_ack env (Suc k) evs' \<noteq> Inl TimeoutErr)"

lemma send_all_responsive:
  assumes "\<forall>k. te_send env k = None"
  obtains s' where "send_all env ms s = (Inr (), s')" "tr_events s' = tr_events s @ map Sent ms"
    "tr_waits s' = tr_waits s" "tr_log s' = tr_log s"
proof -
  have "fst (send_all env ms s) = Inr ()" for s
    using assms by (induction ms arbitrary: s) (simp_all add: fio_return_def fio_bind_def send_message_def)
  then have "send_all env ms s = (Inr (), snd (send_all env ms s))" by (metis prod.collapse)
  then show ?thesis using that send_all_Inr by blast
qed

lemma send_all_waits: "\<forall>k. te_send env k = None \<Longrightarrow> \<exists>t. send_all env ms s = (Inr (), t) \<and> tr_waits t = tr_waits s"
  by (rule send_all_responsive [of env ms s]) auto

lemma await_responsive:
  assumes "responsive env" and "j - 1 \<in> sent_indices (tr_events s)" and "0 < j"
  shows "(\<exists>s'. await_ack env (int j - 1) s = (Inr (), s'))
    \<or> await_ack env (int j - 1) s = (Inl TimeoutErr, s\<lparr>tr_waits := Suc (tr_waits s)\<rparr>)
       \<and> (\<forall>evs. te_ack env (Suc (tr_waits s)) evs \<noteq> Inl TimeoutErr)"
proof -
  have r: "\<forall>k evs. te_ack env k evs = Inl TimeoutErr
          \<or> (\<exists>a. te_ack env k evs = Inr a \<and> (\<forall>i\<in>sent_indices evs. continues a (int i)))"
      "\<forall>k evs evs'. te_ack env k evs = Inl TimeoutErr \<longrightarrow> te_ack env (Suc k) evs' \<noteq> Inl TimeoutErr"
    using assms(1) unfolding responsive_def by blast+
  show ?thesis
  proof (cases "te_ack env (tr_waits s) (tr_events s) = Inl TimeoutErr")
    case True
    then have "\<forall>evs. te_ack env (Suc (tr_waits s)) evs \<noteq> Inl TimeoutErr" using r(2) by blast
    then show ?thesis using True by (simp add: await_ack_def fio_bind_def wait_for_ack_def)
  next
    case False
    then obtain a where a: "te_ack env (tr_waits s) (tr_events s) = Inr a" "continues a (int (j - 1))"
      using r(1) assms(2) by blast
    have "int (j - 1) = int j - 1" using assms(3) by simp
    then have "validate_ack a (int j - 1) = Inr ()" using a(2) validate_ack_Inr [of "int j - 1" a] assms(3) by simp
    then show ?thesis using a(1) by (simp add: await_ack_def fio_bind_def wait_for_ack_def fio_lift_def)
  qed
qed

lemma stream_window_responsive:
  assumes "responsive env" and "i < j"
  obtains s' where "stream_window H env contents n i j s = (Inr (), s')"
proof -
  let ?ms = "map (chunk_message H contents) [i..<j]"
  have sends: "\<forall>k. te_send env k = None" using assms(1) by (simp add: responsive_def)
  have mem: "j - 1 \<in> sent_indices (evs @ map Sent ?ms)" for evs
  proof -
    have "Sent (chunk_message H contents (j - 1)) \<in> set (evs @ map Sent ?ms)" using assms(2) by auto
    then show ?thesis unfolding sent_indices_def chunk_message_def by force
  qed
  obtain t where t: "send_all env ?ms s = (Inr (), t)" "tr_events t = tr_events s @ map Sent ?ms"
    using send_all_responsive [OF sends] by blast
  have jp: "0 < j" using assms(2) by simp
  consider (answered) u where "await_ack env (int j - 1) t = (Inr (), u)"
    | (late) "await_ack env (int j - 1) t = (Inl TimeoutErr, t\<lparr>tr_waits := Suc (tr_waits t)\<rparr>)"
        "\<forall>evs. te_ack env (Suc (tr_waits t)) evs \<noteq> Inl TimeoutErr"
    using await_responsive [OF assms(1) _ jp, of t] mem t(2) by fastforce
  then show ?thesis
  proof cases
    case answered
    show ?thesis by (rule that [of "if j < n then u else t"])
        (use t(1) answered in \<open>simp add: stream_window_def fio_bind_def fio_return_def Let_def\<close>)
  next
    case late
    obtain v where v: "send_all env ?ms (t\<lparr>tr_waits := Suc (tr_waits t)\<rparr>) = (Inr (), v)"
        "tr_events v = tr_events t @ map Sent ?ms" "tr_waits v = Suc (tr_waits t)"
      using send_all_responsive [OF sends, of ?ms "t\<lparr>tr_waits := Suc (tr_waits t)\<rparr>"] by auto
    have "\<exists>w. await_ack env (int j - 1) v = (Inr (), w)"
      using await_responsive [OF assms(1) _ jp, of v] mem v(2,3) late(2)
      by (auto simp: await_ack_timeout dest!: await_ack_timeout)
    then obtain w where w: "await_ack env (int j - 1) v = (Inr (), w)" by blast
    show ?thesis by (rule that [of "if j < n then w else t"])
        (use t(1) late(1) v(1) w in \<open>simp add: stream_window_def fio_bind_def fio_return_def Let_def\<close>)
  qed
qed

lemma stream_window_goes:
  assumes "responsive env" and "i < j"
  shows "\<exists>s'. stream_window H env contents n i j s = (Inr (), s')"
  by (rule stream_window_responsive [OF assms, where H = H and contents = contents and n = n and s = s]) (erule exI)

lemma stream_chunks_responsive:
  assumes "responsive env"
  shows "\<exists>k s'. stream_chunks H env contents n i s = (Inr k, s')"
  using assms
proof (induction H env contents n i arbitrary: s rule: stream_chunks.induct)
  case (1 H env contents n i)
  let ?j = "min (i + WINDOW_SIZE) n"
  show ?case
  proof (cases "i < n")
    case True
    then have ij: "i < ?j" by (simp add: WINDOW_SIZE_def)
    have "\<exists>t. stream_window H env contents n i ?j s = (Inr (), t)" by (rule stream_window_goes [OF "1.prems" ij])
    then obtain t where t: "stream_window H env contents n i ?j s = (Inr (), t)" ..
    then show ?thesis using "1.IH" [OF True "1.prems", of t] True by (simp add: stream_chunks.simps [of H env contents n i] fio_bind_def)
  qed (simp add: stream_chunks_end fio_return_def)
qed



section \<open>Witnesses\<close>

text \<open>A receiver that acknowledges all it got, and one that is slow at first.\<close>

definition confirming :: final_resp where
  "confirming = \<lparr>fr_success = True, fr_error = False,
     fr_data = Some \<lparr>fd_success = True, fd_error = False, fd_token = Some ''t'', fd_status = None\<rparr>\<rparr>"

definition prompt_env :: transfer_env where
  "prompt_env = \<lparr>te_send = (\<lambda>_. None),
     te_ack = (\<lambda>_ evs. Inr \<lparr>ack_status = Some ''continue'', acked_through = AckInt (int (Max (sent_indices evs)))\<rparr>),
     te_final = Inr (Some confirming)\<rparr>"

definition slow_env :: transfer_env where
  "slow_env = \<lparr>te_send = (\<lambda>_. None),
     te_ack = (\<lambda>k _. if k = 0 then Inl TimeoutErr else Inr \<lparr>ack_status = Some ''continue'', acked_through = AckInt 3\<rparr>),
     te_final = Inr (Some confirming)\<rparr>"

lemma confirming: "confirmed_result (Some confirming) = Inr (the (fr_data confirming))" "truthy (fd_token (the (fr_data confirming)))"
  by (simp_all add: confirmed_result_def confirming_def)

lemma finite_sent [simp]: "finite (sent_indices evs)"
proof (rule finite_subset)
  show "sent_indices evs \<subseteq> (\<lambda>e. case e of Sent (ChunkMsg c) \<Rightarrow> chunk_index c | _ \<Rightarrow> 0) ` set evs"
    unfolding sent_indices_def by (auto intro!: image_eqI)
qed simp

lemma prompt_responsive: "responsive prompt_env"
  by (auto simp: responsive_def prompt_env_def continues_def)


lemma empty_delivery:
  "fl_status (tr_log (handle_deliver id prompt_env (LocalFile (Some [])))) = FCompleted"
  "tr_events (handle_deliver id prompt_env (LocalFile (Some []))) =
     [Sent (MetadataMsg 0 1 (hex_of []))] @ Sent (chunk_message id [] 0) # [Sent (CompleteMsg 0 1 (hex_of []))]"
  by (simp_all add: handle_deliver_def guard_delivery_def deliver_artifact_def deliver_local_def fio_bind_def begin_upload_def
      send_message_def complete_local_def wait_for_final_def fio_lift_def update_log_def chunk_count_def fio_return_def
      stream_chunks.simps stream_window_def Let_def WINDOW_SIZE_def upt_rec prompt_env_def confirming new_transfer_def)


theorem delivery_is_paced_witness:
  "released [Sent (MetadataMsg 0 1 (hex_of []))] 0"
  using delivery_is_paced [OF empty_delivery(2) [unfolded chunk_message_def]] by simp




end
