(* ===== verification/Manifest.thy ===== *)
theory Manifest
  imports Json Fulfillment
begin

text \<open>
  The manifest of a dataset of several files (app/services/dataset_manifest.py, with the serialiser
  of app/services/marketplace_action_signer.py) and the plan of a transfer made from a retained
  manifest (\<^verbatim>\<open>load_plan\<close> of app/services/manifest_fulfillment.py).  A \<^verbatim>\<open>ValueError\<close> is its message.
  The argument \<open>nf\<close> is Unicode normalisation to NFC, \<open>cf\<close> is \<^verbatim>\<open>str.casefold\<close>, \<open>H\<close> is SHA-256.
\<close>

section \<open>Members\<close>

definition PROCESSABLE_TYPES :: "string list" where
  "PROCESSABLE_TYPES =
     [''csv'', ''tsv'', ''json'', ''parquet'', ''pdf'', ''docx'', ''doc'', ''pptx'', ''ppt'', ''rtf'', ''odt'', ''ods'',
      ''odp'', ''epub'', ''eml'', ''msg'', ''mbox'', ''xml'', ''rss'', ''ics'', ''vcf'', ''xlsx'', ''xls'', ''txt'',
      ''md'', ''html'', ''htm'']"

definition ROLES :: "string list" where
  "ROLES = [''data'', ''documentation'', ''other'']"

text \<open>A member as stored: a field is \<open>None\<close> when it is not of the type the code asks for.\<close>

record member =
  mb_index :: "int option"
  mb_path :: ustr
  mb_size :: "int option"
  mb_sha256 :: "ustr option"
  mb_type :: "string option"
  mb_role :: "string option"
  mb_sample :: "bool option"

record mrow =
  r_index :: nat
  r_path :: ustr
  r_size :: nat
  r_sha256 :: ustr
  r_type :: string
  r_role :: string
  r_sample :: bool

fun split_on :: "nat \<Rightarrow> ustr \<Rightarrow> ustr list" where
  "split_on c [] = [[]]"
| "split_on c (x # xs) =
     (if x = c then [] # split_on c xs
      else case split_on c xs of p # ps \<Rightarrow> (x # p) # ps | [] \<Rightarrow> [[x]])"

definition control_char :: "nat \<Rightarrow> bool" where
  "control_char c \<longleftrightarrow> c < 32 \<or> 127 \<le> c \<and> c < 160"

definition canonical_path :: "(ustr \<Rightarrow> ustr) \<Rightarrow> ustr \<Rightarrow> cerror + ustr" where
  "canonical_path nf path =
     (if \<not> list_all scalar_value path then Inl ''Non-UTF-8 relative_path''
      else let normalized = nf path in
        if normalized = [] \<or> 92 \<in> set normalized \<or> take 1 normalized = [47]
           \<or> list_ex (\<lambda>p. p \<in> {[], [46], [46, 46]}) (split_on 47 normalized)
           \<or> list_ex control_char normalized
        then Inl ''Invalid relative_path''
        else res_bind (encode_utf8 normalized) (\<lambda>b.
          if length b > 1024 then Inl ''relative_path exceeds 1024 UTF-8 bytes'' else Inr normalized))"

definition is_sha256_hex :: "ustr \<Rightarrow> bool" where
  "is_sha256_hex s \<longleftrightarrow> length s = 64 \<and> list_all (\<lambda>c. 48 \<le> c \<and> c \<le> 57 \<or> 97 \<le> c \<and> c \<le> 102) s"

definition member_tuple :: "(ustr \<Rightarrow> ustr) \<Rightarrow> member \<Rightarrow> cerror + mrow" where
  "member_tuple nf m =
     res_bind (canonical_path nf (mb_path m)) (\<lambda>p.
       if p \<noteq> mb_path m then Inl ''relative_path must be NFC''
       else case mb_index m of None \<Rightarrow> Inl ''Invalid member index'' | Some i \<Rightarrow>
         if i < 0 then Inl ''Invalid member index''
         else case mb_size m of None \<Rightarrow> Inl ''Invalid member size'' | Some n \<Rightarrow>
           if n < 0 then Inl ''Invalid member size''
           else case mb_sha256 m of None \<Rightarrow> Inl ''Missing or invalid member sha256'' | Some h \<Rightarrow>
             if \<not> is_sha256_hex h then Inl ''Missing or invalid member sha256''
             else case mb_type m of None \<Rightarrow> Inl ''Invalid detected_type'' | Some t \<Rightarrow>
               if t \<notin> set PROCESSABLE_TYPES \<union> {''unsupported''} then Inl ''Invalid detected_type''
               else case mb_role m of None \<Rightarrow> Inl ''Invalid role or is_sample'' | Some ro \<Rightarrow>
                 if ro \<notin> set ROLES then Inl ''Invalid role or is_sample''
                 else case mb_sample m of None \<Rightarrow> Inl ''Invalid role or is_sample'' | Some sa \<Rightarrow>
                   if sa \<and> ro \<noteq> ''data'' then Inl ''is_sample requires role=data''
                   else Inr \<lparr>r_index = nat i, r_path = p, r_size = nat n, r_sha256 = h, r_type = t, r_role = ro,
                             r_sample = sa\<rparr>)"

section \<open>The manifest\<close>

text \<open>\<^verbatim>\<open>json.dumps\<close> with \<^verbatim>\<open>sort_keys=True\<close> on values with string keys.\<close>

fun sorted_keys :: "pyval \<Rightarrow> pyval" where
  "sorted_keys (PList xs) = PList (map sorted_keys xs)"
| "sorted_keys (PDict kvs) = PDict (sort_key (\<lambda>kv. the (fst kv)) (map (\<lambda>kv. (fst kv, sorted_keys (snd kv))) kvs))"
| "sorted_keys v = v"

definition signer_json_bytes :: "pyval \<Rightarrow> cerror + bytes" where
  "signer_json_bytes v = encode_utf8 (Json.dumps (sorted_keys v))"

definition row_json :: "mrow \<Rightarrow> pyval" where
  "row_json r = PDict
     [(Some (text_of ''index''), PInt (int (r_index r))), (Some (text_of ''relative_path''), PStr (r_path r)),
      (Some (text_of ''size_bytes''), PInt (int (r_size r))), (Some (text_of ''sha256''), PStr (r_sha256 r)),
      (Some (text_of ''detected_type''), PStr (text_of (r_type r))), (Some (text_of ''role''), PStr (text_of (r_role r))),
      (Some (text_of ''is_sample''), PBool (r_sample r))]"

record manifest =
  mf_members :: "mrow list"
  mf_member_count :: nat
  mf_data_member_count :: nat
  mf_sample_member_count :: nat
  mf_total_data_bytes :: nat
  mf_manifest_hash :: ustr

definition build_manifest :: "(ustr \<Rightarrow> ustr) \<Rightarrow> (ustr \<Rightarrow> ustr) \<Rightarrow> (bytes \<Rightarrow> bytes) \<Rightarrow> member list \<Rightarrow> cerror + manifest" where
  "build_manifest nf cf H members =
     res_bind (res_map (member_tuple nf) members) (\<lambda>rows.
       if \<not> distinct (map r_index rows) then Inl ''Duplicate member index''
       else if \<not> distinct (map (\<lambda>r. cf (r_path r)) rows) then Inl ''Duplicate member path''
       else res_bind (signer_json_bytes (PList (map row_json rows))) (\<lambda>b.
         Inr \<lparr>mf_members = rows, mf_member_count = length rows,
              mf_data_member_count = length (filter (\<lambda>r. r_role r = ''data'') rows),
              mf_sample_member_count = length (filter r_sample rows),
              mf_total_data_bytes = sum_list (map r_size (filter (\<lambda>r. r_role r = ''data'') rows)),
              mf_manifest_hash = hex_of (H b)\<rparr>))"

text \<open>
  The content of the data members, in the order of their paths; \<^verbatim>\<open>to_bytes(8, ...)\<close> raises on sizes
  beyond 64 bits.
\<close>

definition content_entry :: "mrow \<Rightarrow> cerror + bytes" where
  "content_entry r =
     res_bind (encode_utf8 (r_path r)) (\<lambda>path.
       if length path \<ge> 2 ^ 64 \<or> r_size r \<ge> 2 ^ 64 then Inl ''OverflowError''
       else case fromhex (r_sha256 r) of
         None \<Rightarrow> Inl ''ValueError''
       | Some h \<Rightarrow> Inr (be_bytes 8 (length path) @ path @ be_bytes 8 (r_size r) @ h))"

definition content_preimage :: "mrow list \<Rightarrow> cerror + bytes" where
  "content_preimage rows =
     res_bind (res_map content_entry (sort_key r_path (filter (\<lambda>r. r_role r = ''data'') rows))) (\<lambda>es. Inr (concat es))"

definition directory_content_sha256 :: "(bytes \<Rightarrow> bytes) \<Rightarrow> mrow list \<Rightarrow> cerror + ustr" where
  "directory_content_sha256 H rows = res_bind (content_preimage rows) (\<lambda>b. Inr (hex_of (H b)))"

section \<open>The plan of a transfer\<close>

record transfer_limits =
  dataset_max_members :: nat
  transfer_max_member_bytes :: nat
  dataset_max_bytes :: nat

text \<open>The retained manifest; the registration mapping has its values in dictionary order.\<close>

record retained =
  rt_members :: "member list"
  rt_mapping :: "int option list"
  rt_root_path :: ustr

record plan_member =
  pm_index :: nat
  pm_path :: "ustr list"
  pm_size :: nat
  pm_sha256 :: ustr
  pm_start_chunk :: nat
  pm_start_byte :: nat
  pm_chunks :: nat

datatype plan_error = MissingManifest | PlanValueError string

definition lift_value_error :: "cerror + 'a \<Rightarrow> plan_error + 'a" where
  "lift_value_error r = (case r of Inl e \<Rightarrow> Inl (PlanValueError e) | Inr x \<Rightarrow> Inr x)"

definition member_chunks :: "nat \<Rightarrow> nat" where
  "member_chunks n = max 1 ((n + CHUNK_SIZE - 1) div CHUNK_SIZE)"

fun plan_rows :: "transfer_limits \<Rightarrow> mrow list \<Rightarrow> nat \<Rightarrow> nat \<Rightarrow> plan_error + plan_member list \<times> nat \<times> nat" where
  "plan_rows cfg [] chunk_offset byte_pos = Inr ([], chunk_offset, byte_pos)"
| "plan_rows cfg (r # rows) chunk_offset byte_pos =
     (if r_role r \<noteq> ''data'' then plan_rows cfg rows chunk_offset byte_pos
      else if r_size r > transfer_max_member_bytes cfg then Inl (PlanValueError ''TRANSFER_MAX_MEMBER_BYTES'')
      else res_bind (plan_rows cfg rows (chunk_offset + member_chunks (r_size r)) (byte_pos + r_size r))
        (\<lambda>(plan, c, b). Inr (\<lparr>pm_index = r_index r, pm_path = split_on 47 (r_path r), pm_size = r_size r,
           pm_sha256 = r_sha256 r, pm_start_chunk = chunk_offset, pm_start_byte = byte_pos,
           pm_chunks = member_chunks (r_size r)\<rparr> # plan, c, b)))"

definition load_plan ::
  "(ustr \<Rightarrow> ustr) \<Rightarrow> (ustr \<Rightarrow> ustr) \<Rightarrow> (bytes \<Rightarrow> bytes) \<Rightarrow> transfer_limits \<Rightarrow> retained option \<Rightarrow> ustr
     \<Rightarrow> plan_error + plan_member list \<times> nat \<times> nat" where
  "load_plan nf cf H cfg stored manifest_hash =
     (case stored of None \<Rightarrow> Inl MissingManifest
      | Some rt \<Rightarrow>
        res_bind (lift_value_error (build_manifest nf cf H (rt_members rt))) (\<lambda>mf.
          let rows = mf_members mf in
          if mf_manifest_hash mf \<noteq> manifest_hash then Inl (PlanValueError ''Retained manifest hash mismatch'')
          else if length rows > dataset_max_members cfg then Inl (PlanValueError ''DATASET_MAX_MEMBERS'')
          else if map r_index rows \<noteq> [0..<length rows] then Inl (PlanValueError ''Retained published indices are not dense'')
          else if length (rt_mapping rt) \<noteq> length rows \<or> set (rt_mapping rt) \<noteq> (Some \<circ> int) ` set [0..<length rows]
          then Inl (PlanValueError ''Retained registration mapping is invalid'')
          else if take 1 (rt_root_path rt) \<noteq> [47] then Inl (PlanValueError ''Retained root must be absolute'')
          else res_bind (plan_rows cfg rows 0 0) (\<lambda>(plan, chunk_offset, byte_pos).
            if plan = [] \<or> byte_pos > dataset_max_bytes cfg then Inl (PlanValueError ''DATASET_MAX_BYTES'')
            else Inr (plan, chunk_offset, byte_pos))))"

section \<open>Lemmas on the texts\<close>

lemma hex_digit_value: "n < 16 \<Longrightarrow> hex_value (TrustClient.hex_digit n) = Some n"
  by (simp add: TrustClient.hex_digit_def hex_value_def)

lemma fromhex_hex_of [simp]: "fromhex (hex_of bs) = Some bs"
proof (induction bs)
  case (Cons b bs)
  have u: "unat b < 256" by simp
  then have "unat b div 16 < 16" by (simp add: less_mult_imp_div_less)
  moreover have "of_nat (16 * (unat b div 16) + unat b mod 16) = b" by simp
  ultimately show ?case using Cons by (simp add: hex_of_def hex_digit_value)
qed (simp add: hex_of_def)

lemma hex_of_inj: "hex_of a = hex_of b \<longleftrightarrow> a = b"
  by (metis fromhex_hex_of option.inject)

lemma row_json_sorted: "sorted_keys (row_json r) = PDict
     [(Some (text_of ''detected_type''), PStr (text_of (r_type r))), (Some (text_of ''index''), PInt (int (r_index r))),
      (Some (text_of ''is_sample''), PBool (r_sample r)), (Some (text_of ''relative_path''), PStr (r_path r)),
      (Some (text_of ''role''), PStr (text_of (r_role r))), (Some (text_of ''sha256''), PStr (r_sha256 r)),
      (Some (text_of ''size_bytes''), PInt (int (r_size r)))]"
  by (simp add: row_json_def text_of_def sort_key_def)

lemma row_json_inj: "sorted_keys (row_json r) = sorted_keys (row_json q) \<longleftrightarrow> r = q"
  by (cases r; cases q) (auto simp: row_json_sorted text_of_inj)

lemma rows_json_inj: "sorted_keys (PList (map row_json rs)) = sorted_keys (PList (map row_json qs)) \<longleftrightarrow> rs = qs"
proof -
  have "inj (\<lambda>r. sorted_keys (row_json r))" using row_json_inj by (auto intro: injI)
  then show ?thesis by (simp add: comp_def inj_map_eq_map)
qed

lemma has_text_rows: "has_text (sorted_keys (PList (map row_json rs)))"
  by (simp add: row_json_sorted)

lemma signer_bytes_identify:
  assumes "signer_json_bytes (PList (map row_json rs)) = Inr b" and "signer_json_bytes (PList (map row_json qs)) = Inr b"
  shows "rs = qs"
proof -
  let ?j = "\<lambda>rs. sorted_keys (PList (map row_json rs))"
  have b: "list_all scalar_value (Json.dumps (?j rs))" "utf8 (Json.dumps (?j rs)) = b"
      "list_all scalar_value (Json.dumps (?j qs))" "utf8 (Json.dumps (?j qs)) = b"
    using assms unfolding signer_json_bytes_def encode_utf8_def by (simp_all split: if_split_asm)
  then have "Json.dumps (?j rs) = Json.dumps (?j qs)" by (intro utf8_inj) simp_all
  then have "?j rs = ?j qs"
    using prefix_freeD [OF dumps_prefix_free [OF has_text_rows], of "?j qs" rs "[]" "[]"] has_text_rows by simp
  then show ?thesis by (simp only: rows_json_inj)
qed

section \<open>Validated rows\<close>

definition valid_row :: "(ustr \<Rightarrow> ustr) \<Rightarrow> mrow \<Rightarrow> bool" where
  "valid_row nf r \<longleftrightarrow> canonical_path nf (r_path r) = Inr (r_path r) \<and> is_sha256_hex (r_sha256 r)
     \<and> r_role r \<in> set ROLES \<and> (r_sample r \<longrightarrow> r_role r = ''data'')"

lemma member_tuple_valid: "member_tuple nf m = Inr r \<Longrightarrow> valid_row nf r"
  by (auto simp: member_tuple_def valid_row_def split: if_splits option.splits)

lemma res_map_valid: "res_map (member_tuple nf) ms = Inr rows \<Longrightarrow> list_all (valid_row nf) rows"
  by (induction ms arbitrary: rows) (auto dest: member_tuple_valid)

lemma build_manifest_rows:
  assumes "build_manifest nf cf H ms = Inr mf"
  shows "\<exists>b. res_map (member_tuple nf) ms = Inr (mf_members mf) \<and> distinct (map r_index (mf_members mf))
    \<and> distinct (map (\<lambda>r. cf (r_path r)) (mf_members mf)) \<and> list_all (valid_row nf) (mf_members mf)
    \<and> signer_json_bytes (PList (map row_json (mf_members mf))) = Inr b \<and> mf_manifest_hash mf = hex_of (H b)"
proof -
  obtain rows where rows: "res_map (member_tuple nf) ms = Inr rows"
    and g: "(if \<not> distinct (map r_index rows) then Inl ''Duplicate member index''
       else if \<not> distinct (map (\<lambda>r. cf (r_path r)) rows) then Inl ''Duplicate member path''
       else res_bind (signer_json_bytes (PList (map row_json rows))) (\<lambda>b.
         Inr \<lparr>mf_members = rows, mf_member_count = length rows,
              mf_data_member_count = length (filter (\<lambda>r. r_role r = ''data'') rows),
              mf_sample_member_count = length (filter r_sample rows),
              mf_total_data_bytes = sum_list (map r_size (filter (\<lambda>r. r_role r = ''data'') rows)),
              mf_manifest_hash = hex_of (H b)\<rparr>)) = Inr mf"
    using assms unfolding build_manifest_def by (rule res_bindE)
  have d: "distinct (map r_index rows)" "distinct (map (\<lambda>r. cf (r_path r)) rows)"
    using g by (auto split: if_split_asm)
  then obtain b where b: "signer_json_bytes (PList (map row_json rows)) = Inr b" "mf_members mf = rows" "mf_manifest_hash mf = hex_of (H b)"
    using g by auto
  have "list_all (valid_row nf) rows" using rows by (rule res_map_valid)
  then show ?thesis using rows d b by (intro exI [of _ b]) simp
qed

text \<open>The manifest is a function of its members.\<close>

lemma build_manifest_members:
  assumes "build_manifest nf cf H ms = Inr mf" and "build_manifest nf cf H ms' = Inr mf'" and "mf_members mf = mf_members mf'"
  shows "mf = mf'"
proof -
  have "res_map (member_tuple nf) ms = res_map (member_tuple nf) ms'"
    using build_manifest_rows [OF assms(1)] build_manifest_rows [OF assms(2)] assms(3) by auto
  then have "build_manifest nf cf H ms = build_manifest nf cf H ms'" by (simp add: build_manifest_def)
  then show ?thesis using assms(1,2) by simp
qed

text \<open>
  C15. A manifest hash names one manifest: two lists of members whose manifests have the same hash
  give the same manifest, member by member in the same order and with the same counts, or the two
  signed texts are different and collide under the hash.
\<close>

theorem manifest_hash_identifies:
  assumes "build_manifest nf cf H ms = Inr mf" and "build_manifest nf cf H ms' = Inr mf'"
    and "mf_manifest_hash mf = mf_manifest_hash mf'"
  shows "mf = mf' \<or> (\<exists>b b'. signer_json_bytes (PList (map row_json (mf_members mf))) = Inr b
    \<and> signer_json_bytes (PList (map row_json (mf_members mf'))) = Inr b' \<and> b \<noteq> b' \<and> H b = H b')"
proof -
  obtain b b' where b: "signer_json_bytes (PList (map row_json (mf_members mf))) = Inr b" "mf_manifest_hash mf = hex_of (H b)"
      "signer_json_bytes (PList (map row_json (mf_members mf'))) = Inr b'" "mf_manifest_hash mf' = hex_of (H b')"
    using build_manifest_rows [OF assms(1)] build_manifest_rows [OF assms(2)] by blast
  have h: "H b = H b'" using assms(3) b(2,4) by (simp add: hex_of_inj)
  show ?thesis
  proof (cases "b = b'")
    case True
    then have "mf_members mf = mf_members mf'" using signer_bytes_identify b(1,3) by blast
    then show ?thesis using build_manifest_members [OF assms(1,2)] by simp
  qed (use b h in blast)
qed

section \<open>The content of a directory\<close>

lemma lower_hex_char: "48 \<le> c \<and> c \<le> 57 \<or> 97 \<le> c \<and> c \<le> 102 \<Longrightarrow> hex_value c = Some n \<Longrightarrow> n < 16 \<and> TrustClient.hex_digit n = c"
  by (auto simp: hex_value_def TrustClient.hex_digit_def split: if_split_asm)

lemma fromhex_lower:
  "fromhex s = Some bs \<Longrightarrow> list_all (\<lambda>c. 48 \<le> c \<and> c \<le> 57 \<or> 97 \<le> c \<and> c \<le> 102) s \<Longrightarrow> hex_of bs = s \<and> 2 * length bs = length s"
proof (induction s arbitrary: bs rule: fromhex.induct)
  case (3 c d r)
  obtain x y rest where x: "hex_value c = Some x" "hex_value d = Some y" "fromhex r = Some rest"
      and bs: "bs = of_nat (16 * x + y) # rest"
    using "3.prems"(1) by (auto split: option.splits)
  have n: "x < 16" "TrustClient.hex_digit x = c" "y < 16" "TrustClient.hex_digit y = d"
    using lower_hex_char [OF _ x(1)] lower_hex_char [OF _ x(2)] "3.prems"(2) by simp_all
  have "unat (of_nat (16 * x + y) :: 8 word) = 16 * x + y" using n(1,3) by (subst unat_of_nat) simp
  then have "hex_of bs = c # d # hex_of rest" using n by (simp add: bs hex_of_def)
  then show ?case using "3.IH" x "3.prems"(2) by (simp add: bs)
qed (simp_all add: hex_of_def)

lemma content_entry_Inr:
  assumes "content_entry r = Inr e" and "is_sha256_hex (r_sha256 r)"
  shows "\<exists>h. list_all scalar_value (r_path r) \<and> e = be_bytes 8 (length (utf8 (r_path r))) @ utf8 (r_path r) @ be_bytes 8 (r_size r) @ h
    \<and> hex_of h = r_sha256 r \<and> length h = 32 \<and> length (utf8 (r_path r)) < 2 ^ 64 \<and> r_size r < 2 ^ 64"
proof -
  obtain h where h: "list_all scalar_value (r_path r)" "fromhex (r_sha256 r) = Some h"
      "e = be_bytes 8 (length (utf8 (r_path r))) @ utf8 (r_path r) @ be_bytes 8 (r_size r) @ h"
      "length (utf8 (r_path r)) < 2 ^ 64" "r_size r < 2 ^ 64"
    using assms(1) unfolding content_entry_def res_bind_eq_Inr encode_utf8_def
    by (auto split: if_split_asm option.splits)
  have l: "length (r_sha256 r) = 64" "list_all (\<lambda>c. 48 \<le> c \<and> c \<le> 57 \<or> 97 \<le> c \<and> c \<le> 102) (r_sha256 r)"
    using assms(2) by (simp_all add: is_sha256_hex_def)
  show ?thesis using h fromhex_lower [OF h(2) l(2)] l(1) by (intro exI [of _ h]) simp
qed

definition content_of :: "mrow \<Rightarrow> ustr \<times> nat \<times> ustr" where
  "content_of r = (r_path r, r_size r, r_sha256 r)"

lemma fromhex_defined:
  "even (length s) \<Longrightarrow> list_all (\<lambda>c. 48 \<le> c \<and> c \<le> 57 \<or> 97 \<le> c \<and> c \<le> 102) s \<Longrightarrow> \<exists>bs. fromhex s = Some bs"
proof (induction s rule: fromhex.induct)
  case (3 c d r)
  have v: "\<exists>n. hex_value x = Some n" if "48 \<le> x \<and> x \<le> 57 \<or> 97 \<le> x \<and> x \<le> 102" for x
    using that by (auto simp: hex_value_def)
  have l: "48 \<le> c \<and> c \<le> 57 \<or> 97 \<le> c \<and> c \<le> 102" "48 \<le> d \<and> d \<le> 57 \<or> 97 \<le> d \<and> d \<le> 102"
      "list_all (\<lambda>c. 48 \<le> c \<and> c \<le> 57 \<or> 97 \<le> c \<and> c \<le> 102) r" "even (length r)"
    using "3.prems" by simp_all
  obtain x where x: "hex_value c = Some x" using v [OF l(1)] ..
  obtain y where y: "hex_value d = Some y" using v [OF l(2)] ..
  obtain bs where "fromhex r = Some bs" using "3.IH" [OF l(4,3)] ..
  then show ?case using x y by simp
qed simp_all

lemma content_entry_defined:
  assumes "valid_row nf r" and "r_size r < 2 ^ 64"
  shows "\<exists>e. content_entry r = Inr e"
proof -
  obtain b where b: "encode_utf8 (r_path r) = Inr b" "length b \<le> 1024"
    using assms(1) by (auto simp: valid_row_def canonical_path_def Let_def split: if_split_asm)
  obtain h where "fromhex (r_sha256 r) = Some h"
    using assms(1) fromhex_defined [of "r_sha256 r"] by (auto simp: valid_row_def is_sha256_hex_def)
  then show ?thesis using b assms(2) by (simp add: content_entry_def)
qed

lemma content_entry_prefix:
  assumes "content_entry r = Inr e" and "content_entry q = Inr f" and "is_sha256_hex (r_sha256 r)" and "is_sha256_hex (r_sha256 q)"
    and "e @ rest = f @ rest'"
  shows "content_of r = content_of q \<and> rest = rest'"
proof -
  obtain h where h: "list_all scalar_value (r_path r)" "e = be_bytes 8 (length (utf8 (r_path r))) @ utf8 (r_path r) @ be_bytes 8 (r_size r) @ h"
      "hex_of h = r_sha256 r" "length h = 32" "length (utf8 (r_path r)) < 2 ^ 64" "r_size r < 2 ^ 64"
    using content_entry_Inr [OF assms(1,3)] by blast
  obtain k where k: "list_all scalar_value (r_path q)" "f = be_bytes 8 (length (utf8 (r_path q))) @ utf8 (r_path q) @ be_bytes 8 (r_size q) @ k"
      "hex_of k = r_sha256 q" "length k = 32" "length (utf8 (r_path q)) < 2 ^ 64" "r_size q < 2 ^ 64"
    using content_entry_Inr [OF assms(2,4)] by blast
  have n: "be_bytes 8 (length (utf8 (r_path r))) = be_bytes 8 (length (utf8 (r_path q)))"
      "utf8 (r_path r) @ be_bytes 8 (r_size r) @ h @ rest = utf8 (r_path q) @ be_bytes 8 (r_size q) @ k @ rest'"
    using assms(5) unfolding h(2) k(2) by simp_all
  have "length (utf8 (r_path r)) = length (utf8 (r_path q))" using be_bytes_inj [OF _ _ n(1)] h(5) k(5) by simp
  then have p: "utf8 (r_path r) = utf8 (r_path q)" "be_bytes 8 (r_size r) @ h @ rest = be_bytes 8 (r_size q) @ k @ rest'"
    using n(2) by simp_all
  then have s: "be_bytes 8 (r_size r) = be_bytes 8 (r_size q)" "h = k" "rest = rest'"
    using h(4) k(4) by simp_all
  show ?thesis using utf8_inj [OF h(1) k(1) p(1)] be_bytes_inj [OF _ _ s(1)] h(3,6) k(3,6) s(2,3)
    by (simp add: content_of_def)
qed

lemma content_entries_inj:
  assumes "res_map content_entry rs = Inr es" and "res_map content_entry qs = Inr fs"
    and "list_all (\<lambda>r. is_sha256_hex (r_sha256 r)) rs" and "list_all (\<lambda>r. is_sha256_hex (r_sha256 r)) qs"
    and "concat es = concat fs"
  shows "map content_of rs = map content_of qs"
  using assms
proof (induction rs arbitrary: qs es fs)
  case Nil
  show ?case
  proof (cases qs)
    case (Cons q qs')
    then obtain f fs' where f: "content_entry q = Inr f" "fs = f # fs'" using Nil.prems(2) by auto
    have "f \<noteq> []" using content_entry_Inr [OF f(1)] Nil.prems(4) Cons by auto
    then show ?thesis using Nil.prems f(2) by simp
  qed simp
next
  case (Cons r rs)
  obtain e es' where e: "content_entry r = Inr e" "res_map content_entry rs = Inr es'" "es = e # es'"
    using Cons.prems(1) by auto
  have he: "e \<noteq> []" using content_entry_Inr [OF e(1)] Cons.prems(3) by auto
  obtain q qs' where q: "qs = q # qs'" using Cons.prems(2,5) e(3) he by (cases qs) auto
  obtain f fs' where f: "content_entry q = Inr f" "res_map content_entry qs' = Inr fs'" "fs = f # fs'"
    using Cons.prems(2) q by auto
  have "content_of r = content_of q \<and> concat es' = concat fs'"
    by (rule content_entry_prefix [OF e(1) f(1)]) (use Cons.prems q e(3) f(3) in simp_all)
  then show ?case using Cons.IH [OF e(2) f(2)] Cons.prems(3,4) q by simp
qed

definition data_rows :: "mrow list \<Rightarrow> mrow list" where
  "data_rows rows = sort_key r_path (filter (\<lambda>r. r_role r = ''data'') rows)"

text \<open>
  C16. The content hash of a directory names its data: two lists of validated rows with the same
  content hash have data members with the same paths, sizes and hashes, or the two hashed texts are
  different and collide; other members do not enter the hash.
\<close>

theorem directory_hash_identifies:
  assumes "list_all (valid_row nf) rows" and "list_all (valid_row nf) rows'"
    and "directory_content_sha256 H rows = Inr d" and "directory_content_sha256 H rows' = Inr d"
  shows "map content_of (data_rows rows) = map content_of (data_rows rows')
    \<or> (\<exists>b b'. content_preimage rows = Inr b \<and> content_preimage rows' = Inr b' \<and> b \<noteq> b' \<and> H b = H b')"
proof -
  obtain b b' where b: "content_preimage rows = Inr b" "content_preimage rows' = Inr b'" "H b = H b'"
    using assms(3,4) by (auto simp: directory_content_sha256_def hex_of_inj)
  obtain es fs where es: "res_map content_entry (data_rows rows) = Inr es" "b = concat es"
      "res_map content_entry (data_rows rows') = Inr fs" "b' = concat fs"
    using b(1,2) by (auto simp: content_preimage_def data_rows_def)
  have v: "list_all (\<lambda>r. is_sha256_hex (r_sha256 r)) (data_rows rows)" "list_all (\<lambda>r. is_sha256_hex (r_sha256 r)) (data_rows rows')"
    using assms(1,2) by (auto simp: data_rows_def list_all_iff valid_row_def)
  show ?thesis
  proof (cases "b = b'")
    case True
    then show ?thesis using content_entries_inj [OF es(1,3) v] es(2,4) by simp
  qed (use b in blast)
qed

section \<open>Plans\<close>

lemma plan_rows_partition:
  assumes "plan_rows cfg rows c b = Inr (plan, c', b')"
  shows "concat (map (\<lambda>m. [pm_start_chunk m..<pm_start_chunk m + pm_chunks m]) plan) = [c..<c'] \<and> c \<le> c'
    \<and> b' = b + sum_list (map pm_size plan)
    \<and> map (\<lambda>m. (pm_index m, pm_path m, pm_size m, pm_sha256 m)) plan
       = map (\<lambda>r. (r_index r, split_on 47 (r_path r), r_size r, r_sha256 r)) (filter (\<lambda>r. r_role r = ''data'') rows)
    \<and> list_all (\<lambda>m. pm_size m \<le> transfer_max_member_bytes cfg \<and> pm_chunks m = member_chunks (pm_size m)) plan
    \<and> (\<forall>k<length plan. pm_start_byte (plan ! k) = b + sum_list (map pm_size (take k plan)))"
  using assms
proof (induction rows arbitrary: c b plan)
  case Nil
  then show ?case by simp
next
  case (Cons r rows)
  show ?case
  proof (cases "r_role r = ''data''")
    case False
    then show ?thesis using Cons by simp
  next
    case True
    then have s: "r_size r \<le> transfer_max_member_bytes cfg" using Cons.prems by (simp split: if_split_asm)
    obtain rest where rest: "plan_rows cfg rows (c + member_chunks (r_size r)) (b + r_size r) = Inr (rest, c', b')"
        and plan: "plan = \<lparr>pm_index = r_index r, pm_path = split_on 47 (r_path r), pm_size = r_size r,
           pm_sha256 = r_sha256 r, pm_start_chunk = c, pm_start_byte = b, pm_chunks = member_chunks (r_size r)\<rparr> # rest"
      using Cons.prems True s by auto
    note ih = Cons.IH [OF rest]
    have "[c..<c + member_chunks (r_size r)] @ [c + member_chunks (r_size r)..<c'] = [c..<c']"
    proof -
      obtain k where "c' = c + member_chunks (r_size r) + k" using ih le_Suc_ex by blast
      then show ?thesis using upt_add_eq_append [of c "c + member_chunks (r_size r)" k] by simp
    qed
    then show ?thesis using ih s True by (auto simp: plan nth_Cons split: nat.splits)
  qed
qed

lemma member_chunks_cover: "n \<le> member_chunks n * CHUNK_SIZE" "1 < member_chunks n \<Longrightarrow> (member_chunks n - 1) * CHUNK_SIZE < n"
  by (auto simp: member_chunks_def CHUNK_SIZE_def max_def split: if_splits)

text \<open>
  C14. A plan partitions the transfer: it has the data members of the retained manifest in its order,
  whose hash is the one that was bought; their chunk ranges follow one another from 0 to the total,
  so every chunk index belongs to exactly one member, their bytes start at the sums of the sizes
  before them, each range covers its member, and all limits hold.
\<close>

theorem plan_partitions:
  assumes "load_plan nf cf H cfg (Some rt) hash = Inr (plan, chunks, volume)"
  shows "\<exists>mf. build_manifest nf cf H (rt_members rt) = Inr mf \<and> mf_manifest_hash mf = hash
    \<and> map r_index (mf_members mf) = [0..<length (mf_members mf)] \<and> length (mf_members mf) \<le> dataset_max_members cfg
    \<and> map (\<lambda>m. (pm_index m, pm_path m, pm_size m, pm_sha256 m)) plan
       = map (\<lambda>r. (r_index r, split_on 47 (r_path r), r_size r, r_sha256 r)) (filter (\<lambda>r. r_role r = ''data'') (mf_members mf))
    \<and> concat (map (\<lambda>m. [pm_start_chunk m..<pm_start_chunk m + pm_chunks m]) plan) = [0..<chunks]
    \<and> (\<forall>k<length plan. pm_start_byte (plan ! k) = sum_list (map pm_size (take k plan)))
    \<and> volume = mf_total_data_bytes mf \<and> volume \<le> dataset_max_bytes cfg \<and> plan \<noteq> []
    \<and> list_all (\<lambda>m. pm_size m \<le> transfer_max_member_bytes cfg \<and> pm_size m \<le> pm_chunks m * CHUNK_SIZE) plan"
proof -
  obtain mf where mf: "build_manifest nf cf H (rt_members rt) = Inr mf"
    using assms by (cases "build_manifest nf cf H (rt_members rt)") (simp_all add: load_plan_def lift_value_error_def)
  let ?rows = "mf_members mf"
  have g: "mf_manifest_hash mf = hash" "length ?rows \<le> dataset_max_members cfg" "map r_index ?rows = [0..<length ?rows]"
    using assms mf by (simp_all add: load_plan_def lift_value_error_def Let_def split: if_split_asm)
  obtain b where pl: "plan_rows cfg ?rows 0 0 = Inr (plan, chunks, volume)" "plan \<noteq> []" "volume \<le> dataset_max_bytes cfg"
    using assms mf by (auto simp: load_plan_def lift_value_error_def Let_def split: if_split_asm)
  note p = plan_rows_partition [OF pl(1)]
  have "mf_total_data_bytes mf = sum_list (map r_size (filter (\<lambda>r. r_role r = ''data'') ?rows))"
    using mf unfolding build_manifest_def by (auto split: if_split_asm)
  moreover have "map pm_size plan = map r_size (filter (\<lambda>r. r_role r = ''data'') ?rows)"
  proof -
    have "map pm_size plan = map (\<lambda>(i, p, n, h). n) (map (\<lambda>m. (pm_index m, pm_path m, pm_size m, pm_sha256 m)) plan)"
      by (simp add: comp_def case_prod_beta)
    also have "\<dots> = map r_size (filter (\<lambda>r. r_role r = ''data'') ?rows)" using p by (simp add: comp_def)
    finally show ?thesis .
  qed
  moreover have "list_all (\<lambda>m. pm_size m \<le> transfer_max_member_bytes cfg \<and> pm_size m \<le> pm_chunks m * CHUNK_SIZE) plan"
    using p member_chunks_cover(1) by (auto simp: list_all_iff)
  ultimately show ?thesis using mf g pl(2,3) p by (intro exI [of _ mf]) simp
qed

text \<open>A small directory: a table, its description, and another table.\<close>

definition demo_members :: "member list" where
  "demo_members =
     [\<lparr>mb_index = Some 0, mb_path = text_of ''b.csv'', mb_size = Some 70000, mb_sha256 = Some (replicate 64 97),
       mb_type = Some ''csv'', mb_role = Some ''data'', mb_sample = Some True\<rparr>,
      \<lparr>mb_index = Some 1, mb_path = text_of ''readme'', mb_size = Some 5, mb_sha256 = Some (replicate 64 98),
       mb_type = Some ''txt'', mb_role = Some ''documentation'', mb_sample = Some False\<rparr>,
      \<lparr>mb_index = Some 2, mb_path = text_of ''a.csv'', mb_size = Some 0, mb_sha256 = Some (replicate 64 99),
       mb_type = Some ''csv'', mb_role = Some ''data'', mb_sample = Some False\<rparr>]"

definition demo_rows :: "mrow list" where
  "demo_rows =
     [\<lparr>r_index = 0, r_path = text_of ''b.csv'', r_size = 70000, r_sha256 = replicate 64 97, r_type = ''csv'',
       r_role = ''data'', r_sample = True\<rparr>,
      \<lparr>r_index = 1, r_path = text_of ''readme'', r_size = 5, r_sha256 = replicate 64 98, r_type = ''txt'',
       r_role = ''documentation'', r_sample = False\<rparr>,
      \<lparr>r_index = 2, r_path = text_of ''a.csv'', r_size = 0, r_sha256 = replicate 64 99, r_type = ''csv'',
       r_role = ''data'', r_sample = False\<rparr>]"

lemma demo_tuple: "res_map (member_tuple id) demo_members = Inr demo_rows"
  by (simp add: demo_members_def demo_rows_def member_tuple_def canonical_path_def text_of_def encode_utf8_def scalar_value_def
      utf8_def utf8_char_def control_char_def is_sha256_hex_def PROCESSABLE_TYPES_def ROLES_def list_all_iff)

lemma scalar_text_of: "list_all scalar_value (text_of s)"
proof -
  have "of_char c < (256 :: nat)" for c :: char by simp
  moreover have "scalar_value n" if "n < 256" for n using that by (simp add: scalar_value_def)
  ultimately have "scalar_value (of_char c)" for c :: char by blast
  then show ?thesis by (induction s) (simp_all add: text_of_def)
qed

text \<open>The signed text of validated rows always has bytes.\<close>

lemma rows_have_bytes:
  assumes "list_all (valid_row nf) rows"
  shows "\<exists>b. signer_json_bytes (PList (map row_json rows)) = Inr b"
proof -
  have "list_all scalar_value (Json.dumps (sorted_keys (row_json r)))" if "r \<in> set rows" for r
  proof -
    have v: "valid_row nf r" using assms that by (simp add: list_all_iff)
    have p: "list_all scalar_value (r_path r)"
      using v by (simp add: valid_row_def canonical_path_def split: if_split_asm)
    have h: "list_all scalar_value (r_sha256 r)"
      using v by (auto simp: valid_row_def is_sha256_hex_def list_all_iff scalar_value_def)
    show ?thesis
      by (simp add: row_json_sorted scalar_quote scalar_text_of p h scalar_ascii scalar_int_text)
  qed
  then have "list_all (list_all scalar_value) (map Json.dumps (map sorted_keys (map row_json rows)))"
    by (simp add: list_all_iff)
  then have "list_all scalar_value (Json.dumps (sorted_keys (PList (map row_json rows))))"
    using scalar_comma_list [of _ 93] by (simp add: scalar_ascii)
  then show ?thesis by (simp add: signer_json_bytes_def encode_utf8_def)
qed

lemma demo_manifest: "\<exists>mf. build_manifest id id H demo_members = Inr mf \<and> mf_members mf = demo_rows \<and> mf_total_data_bytes mf = 70000"
proof -
  have v: "list_all (valid_row id) demo_rows"
    using demo_tuple by (rule res_map_valid)
  obtain b where b: "signer_json_bytes (PList (map row_json demo_rows)) = Inr b" using rows_have_bytes [OF v] by blast
  show ?thesis using b demo_tuple by (simp add: build_manifest_def demo_rows_def text_of_inj)
qed

theorem manifest_hash_identifies_witness:
  "\<exists>mf. build_manifest id id (\<lambda>_. []) demo_members = Inr mf \<and> (\<exists>mf'. build_manifest id id (\<lambda>_. []) [] = Inr mf'
     \<and> (mf = mf' \<or> (\<exists>b b'. signer_json_bytes (PList (map row_json (mf_members mf))) = Inr b
       \<and> signer_json_bytes (PList (map row_json (mf_members mf'))) = Inr b' \<and> b \<noteq> b')))"
proof -
  obtain mf where mf: "build_manifest id id (\<lambda>_. []) demo_members = Inr mf" using demo_manifest by blast
  obtain b where "signer_json_bytes (PList (map row_json [])) = Inr b" using rows_have_bytes [of id "[]"] by auto
  then obtain mf' where mf': "build_manifest id id (\<lambda>_. []) [] = Inr mf'" by (auto simp: build_manifest_def)
  have "mf_manifest_hash mf = mf_manifest_hash mf'" using build_manifest_rows [OF mf] build_manifest_rows [OF mf'] by auto
  from manifest_hash_identifies [OF mf mf' this] show ?thesis using mf mf' by blast
qed

theorem directory_hash_identifies_witness:
  "map content_of (data_rows demo_rows) = map content_of (data_rows (rev demo_rows))"
proof -
  have v: "list_all (valid_row id) demo_rows"
    using demo_tuple by (rule res_map_valid)
  then have v': "list_all (valid_row id) (rev demo_rows)" by simp
  have srt: "data_rows (rev demo_rows) = data_rows demo_rows"
    by (simp add: data_rows_def demo_rows_def text_of_def sort_key_def)
  have "\<exists>e. content_entry r = Inr e" if "r \<in> set (data_rows demo_rows)" for r
  proof (rule content_entry_defined [of id])
    have r: "r \<in> set demo_rows" using that by (simp add: data_rows_def)
    then show "valid_row id r" using v by (simp add: list_all_iff)
    have "list_all (\<lambda>r. r_size r < 2 ^ 64) demo_rows" by (simp add: demo_rows_def)
    then show "r_size r < 2 ^ 64" using r by (simp add: list_all_iff)
  qed
  then have "\<exists>es. res_map content_entry (data_rows demo_rows) = Inr es"
    using res_map_Inr [of "data_rows demo_rows" content_entry "\<lambda>r. projr (content_entry r)"] by force
  then obtain b where b: "content_preimage demo_rows = Inr b" "content_preimage (rev demo_rows) = Inr b"
    using srt by (auto simp: content_preimage_def data_rows_def)
  from directory_hash_identifies [OF v v', of "\<lambda>b. b"] show ?thesis using b
    by (auto simp: directory_content_sha256_def)
qed

theorem plan_partitions_witness:
  "\<exists>hash plan. load_plan id id (\<lambda>_. []) \<lparr>dataset_max_members = 3, transfer_max_member_bytes = 100000, dataset_max_bytes = 100000\<rparr>
     (Some \<lparr>rt_members = demo_members, rt_mapping = [Some 2, Some 0, Some 1], rt_root_path = text_of ''/d''\<rparr>) hash = Inr (plan, 3, 70000)
   \<and> concat (map (\<lambda>m. [pm_start_chunk m..<pm_start_chunk m + pm_chunks m]) plan) = [0..<3]"
proof -
  obtain mf where mf: "build_manifest id id (\<lambda>_. []) demo_members = Inr mf" "mf_members mf = demo_rows" using demo_manifest by blast
  obtain plan where "load_plan id id (\<lambda>_. []) \<lparr>dataset_max_members = 3, transfer_max_member_bytes = 100000, dataset_max_bytes = 100000\<rparr>
     (Some \<lparr>rt_members = demo_members, rt_mapping = [Some 2, Some 0, Some 1], rt_root_path = text_of ''/d''\<rparr>) (mf_manifest_hash mf)
     = Inr (plan, 3, 70000)"
    using mf by (auto simp: load_plan_def lift_value_error_def demo_rows_def text_of_def member_chunks_def CHUNK_SIZE_def upt_rec insert_commute)
  from this plan_partitions [OF this] show ?thesis by blast
qed


end
