(* ===== verification/ManifestTransfer.thy ===== *)
theory ManifestTransfer
  imports Manifest
begin

text \<open>
  The sender of a retained manifest (app/services/manifest_fulfillment.py, \<^verbatim>\<open>ManifestSender\<close>).  What a
  member's file holds is the argument \<open>opened\<close>: an error of the path walk, or the size \<^verbatim>\<open>fstat\<close>
  reports and the bytes that are read.  What the channel does is given per window and per round:
  the outcome of each send, the replies in the inbox after it, and those that arrive before the
  deadline.  The clock is present only through the deadlines it makes pass.
\<close>

section \<open>Replies\<close>

datatype serr = Refusal string | STimeout | SConn | SValue | SOs

definition mk_refusal :: "json \<Rightarrow> serr" where
  "mk_refusal code = (case code of JStr s \<Rightarrow> Refusal s | _ \<Rightarrow> Refusal ''delivery_rejected'')"

definition json_or :: "json \<Rightarrow> json \<Rightarrow> json" where
  "json_or x y = (if json_truthy x then x else y)"

definition result_of :: "json \<Rightarrow> serr + jobj" where
  "result_of message =
     (case message of
        JObj m \<Rightarrow>
          (case jget_or m ''data'' message of
             JObj d \<Rightarrow>
               (let error = json_or (jget d ''error'') (jget m ''error'') in
                if json_truthy error \<or> jget m ''success'' = JBool False \<or> jget d ''success'' = JBool False
                then Inl (mk_refusal (json_or error (JStr ''delivery_rejected'')))
                else if ''data'' \<in> fst ` set m \<and> jget m ''success'' \<noteq> JBool True then Inl (Refusal ''malformed_response'')
                else Inr d)
           | _ \<Rightarrow> Inl (mk_refusal (json_or (jget m ''error'') (JStr ''malformed_response''))))
      | _ \<Rightarrow> Inl (Refusal ''malformed_response''))"

definition has_grant :: "jobj \<Rightarrow> bool" where
  "has_grant d \<longleftrightarrow> jget d ''success'' = JBool True
     \<and> (case jget d ''token_id'' of JStr s \<Rightarrow> s \<noteq> [] | _ \<Rightarrow> False)"

section \<open>Chunks\<close>

record mchunk =
  mc_member :: nat
  mc_index :: nat
  mc_offset :: nat
  mc_length :: nat
  mc_sha256 :: ustr
  mc_payload :: ustr

definition piece_size :: "plan_member \<Rightarrow> nat \<Rightarrow> nat" where
  "piece_size m i = min CHUNK_SIZE (pm_size m - i * CHUNK_SIZE)"

definition piece :: "plan_member \<Rightarrow> bytes \<Rightarrow> nat \<Rightarrow> bytes" where
  "piece m contents i = take (piece_size m i) (drop (i * CHUNK_SIZE) contents)"

definition piece_message :: "(bytes \<Rightarrow> bytes) \<Rightarrow> plan_member \<Rightarrow> bytes \<Rightarrow> nat \<Rightarrow> mchunk" where
  "piece_message H m contents i =
     \<lparr>mc_member = pm_index m, mc_index = pm_start_chunk m + i, mc_offset = pm_start_byte m + i * CHUNK_SIZE,
      mc_length = length (piece m contents i), mc_sha256 = hex_of (H (piece m contents i)),
      mc_payload = b64encode (piece m contents i)\<rparr>"

text \<open>A generator is what it yields and the error that ends it, if any.\<close>

fun local_chunks :: "(bytes \<Rightarrow> bytes) \<Rightarrow> plan_member \<Rightarrow> bytes \<Rightarrow> nat list \<Rightarrow> mchunk list \<times> serr option" where
  "local_chunks H m contents [] =
     ([], if length contents > pm_size m \<or> hex_of (H (take (pm_size m) contents)) \<noteq> pm_sha256 m then Some SValue else None)"
| "local_chunks H m contents (i # is) =
     (if length (piece m contents i) \<noteq> piece_size m i then ([], Some SValue)
      else let (ms, e) = local_chunks H m contents is in (piece_message H m contents i # ms, e))"

definition member_stream :: "(bytes \<Rightarrow> bytes) \<Rightarrow> (plan_member \<Rightarrow> serr + nat \<times> bytes) \<Rightarrow> plan_member \<Rightarrow> mchunk list \<times> serr option" where
  "member_stream H opened m =
     (case opened m of
        Inl e \<Rightarrow> ([], Some e)
      | Inr (st_size, contents) \<Rightarrow>
          if st_size \<noteq> pm_size m then ([], Some SValue) else local_chunks H m contents [0..<pm_chunks m])"

fun chunks_of :: "(bytes \<Rightarrow> bytes) \<Rightarrow> (plan_member \<Rightarrow> serr + nat \<times> bytes) \<Rightarrow> nat set \<Rightarrow> plan_member list \<Rightarrow> mchunk list \<times> serr option" where
  "chunks_of H opened verified [] = ([], None)"
| "chunks_of H opened verified (m # ms) =
     (if pm_index m \<in> verified then chunks_of H opened verified ms
      else case member_stream H opened m of
        (cs, Some e) \<Rightarrow> (cs, Some e)
      | (cs, None) \<Rightarrow> (let (ds, e) = chunks_of H opened verified ms in (cs @ ds, e)))"

section \<open>Windows\<close>

text \<open>
  The windows the loop of \<^verbatim>\<open>stream\<close> hands on, each with its demand for an acknowledgement, and the
  chunks left over.
\<close>

fun cut_windows :: "nat \<Rightarrow> nat \<Rightarrow> mchunk list \<Rightarrow> mchunk list \<Rightarrow> (mchunk list \<times> bool) list \<times> mchunk list" where
  "cut_windows n origin win [] = ([], win)"
| "cut_windows n origin win (c # cs) =
     (let win' = win @ [c];
          boundary = ((int (mc_index c) - int origin) mod int WINDOW_SIZE = int WINDOW_SIZE - 1 \<or> mc_index c + 1 = n)
      in if boundary \<or> length win' = WINDOW_SIZE
         then let (ws, rest) = cut_windows n origin [] cs in ((win', boundary) # ws, rest)
         else cut_windows n origin win' cs)"

record attempt_env =
  ae_budget :: bool
  ae_send :: "nat \<Rightarrow> serr option"
  ae_inbox :: "nat \<Rightarrow> (serr + json) list"
  ae_later :: "(serr + json) list"

text \<open>The request ids not yet answered, and whether an acknowledgement is still needed.\<close>

record wait_state =
  ws_pending :: "json set"
  ws_ack_needed :: bool

definition consume :: "json \<Rightarrow> nat \<Rightarrow> nat \<Rightarrow> json \<Rightarrow> wait_state \<Rightarrow> serr + wait_state" where
  "consume transfer_id n expected reply w =
     res_bind (result_of reply) (\<lambda>d.
       let w' = w\<lparr>ws_pending := ws_pending w - (case reply of JObj m \<Rightarrow> {jget m ''request_id''} | _ \<Rightarrow> {})\<rparr> in
       if jget d ''action'' = JStr ''vai.fulfillment.ack'' then
         (if jget d ''transfer_id'' \<noteq> transfer_id then Inl (Refusal ''wrong_ack_transfer'')
          else case jget d ''acked_through_index'' of
            JNum i \<Rightarrow>
              if i < 0 \<or> i \<ge> int n then Inl (Refusal ''invalid_ack'')
              else if i < int expected then Inr w'
              else if jget d ''status'' \<noteq> JStr ''continue'' then Inl (Refusal ''invalid_ack'')
              else Inr (w'\<lparr>ws_pending := {}, ws_ack_needed := False\<rparr>)
          | _ \<Rightarrow> Inl (Refusal ''invalid_ack''))
       else if jget d ''success'' \<noteq> JBool True then Inl (Refusal ''invalid_chunk_response'')
       else Inr w')"

fun consume_all :: "json \<Rightarrow> nat \<Rightarrow> nat \<Rightarrow> (serr + json) list \<Rightarrow> wait_state \<Rightarrow> serr + wait_state" where
  "consume_all transfer_id n expected [] w = Inr w"
| "consume_all transfer_id n expected (r # rs) w =
     res_bind r (\<lambda>reply. res_bind (consume transfer_id n expected reply w) (\<lambda>w'. consume_all transfer_id n expected rs w'))"

fun send_window :: "json \<Rightarrow> nat \<Rightarrow> nat \<Rightarrow> (mchunk \<Rightarrow> json) \<Rightarrow> attempt_env \<Rightarrow> nat \<Rightarrow> mchunk list \<Rightarrow> wait_state \<Rightarrow> serr + wait_state" where
  "send_window transfer_id n expected rid ae k [] w = Inr w"
| "send_window transfer_id n expected rid ae k (c # cs) w =
     (case ae_send ae k of
        Some e \<Rightarrow> Inl e
      | None \<Rightarrow> res_bind (consume_all transfer_id n expected (ae_inbox ae k) (w\<lparr>ws_pending := insert (rid c) (ws_pending w)\<rparr>))
          (\<lambda>w'. send_window transfer_id n expected rid ae (k + 1) cs w'))"

text \<open>The replies before the deadline; none left means that it passes.\<close>

fun await_replies :: "json \<Rightarrow> nat \<Rightarrow> nat \<Rightarrow> (serr + json) list \<Rightarrow> wait_state \<Rightarrow> serr + wait_state" where
  "await_replies transfer_id n expected rs w =
     (if ws_pending w = {} \<and> \<not> ws_ack_needed w then Inr w
      else case rs of
        [] \<Rightarrow> Inl STimeout
      | r # rs' \<Rightarrow> res_bind r (\<lambda>reply. res_bind (consume transfer_id n expected reply w)
          (\<lambda>w'. await_replies transfer_id n expected rs' w')))"

declare await_replies.simps [simp del]

definition window_attempt :: "json \<Rightarrow> nat \<Rightarrow> (mchunk \<Rightarrow> json) \<Rightarrow> mchunk list \<Rightarrow> bool \<Rightarrow> attempt_env \<Rightarrow> serr + unit" where
  "window_attempt transfer_id n rid messages require_ack ae =
     (let expected = mc_index (last messages) in
      res_bind (send_window transfer_id n expected rid ae 0 messages \<lparr>ws_pending = {}, ws_ack_needed = require_ack\<rparr>) (\<lambda>w.
      res_bind (await_replies transfer_id n expected (ae_later ae) w) (\<lambda>_. Inr ())))"

definition send_window_twice ::
  "json \<Rightarrow> nat \<Rightarrow> (mchunk \<Rightarrow> json) \<Rightarrow> mchunk list \<times> bool \<Rightarrow> attempt_env \<times> attempt_env \<Rightarrow> serr + unit" where
  "send_window_twice transfer_id n rid wr aes =
     (let (messages, require_ack) = wr; (first, second) = aes in
      if \<not> ae_budget first then Inl STimeout
      else case window_attempt transfer_id n rid messages require_ack first of
        Inl STimeout \<Rightarrow>
          if \<not> ae_budget second then Inl STimeout else window_attempt transfer_id n rid messages require_ack second
      | r \<Rightarrow> r)"

fun send_windows ::
  "json \<Rightarrow> nat \<Rightarrow> (mchunk \<Rightarrow> json) \<Rightarrow> (nat \<Rightarrow> attempt_env \<times> attempt_env) \<Rightarrow> nat \<Rightarrow> (mchunk list \<times> bool) list \<Rightarrow> serr + unit" where
  "send_windows transfer_id n rid env k [] = Inr ()"
| "send_windows transfer_id n rid env k (w # ws) =
     res_bind (send_window_twice transfer_id n rid w (env k)) (\<lambda>_. send_windows transfer_id n rid env (k + 1) ws)"

definition stream_manifest ::
  "(bytes \<Rightarrow> bytes) \<Rightarrow> (plan_member \<Rightarrow> serr + nat \<times> bytes) \<Rightarrow> plan_member list \<Rightarrow> nat \<Rightarrow> nat set \<Rightarrow> json
     \<Rightarrow> (mchunk \<Rightarrow> json) \<Rightarrow> (nat \<Rightarrow> attempt_env \<times> attempt_env) \<Rightarrow> serr + unit" where
  "stream_manifest H opened plan n verified transfer_id rid env =
     (let (cs, e) = chunks_of H opened verified plan;
          origin = (case cs of [] \<Rightarrow> 0 | c # _ \<Rightarrow> mc_index c);
          (ws, rest) = cut_windows n origin [] cs
      in res_bind (send_windows transfer_id n rid env 0 ws) (\<lambda>_.
           case e of
             Some x \<Rightarrow> Inl x
           | None \<Rightarrow> if rest = [] then Inr () else send_window_twice transfer_id n rid (rest, False) (env (length ws))))"

section \<open>The rounds of a delivery\<close>

text \<open>
  What a round meets: the reply to the metadata, the windows of its stream, the reply to the
  completion, and whether a pause ends within the budget (or a retry without one is still in it).
\<close>

record round_env =
  re_metadata :: "serr + json"
  re_rid :: "mchunk \<Rightarrow> json"
  re_windows :: "nat \<Rightarrow> attempt_env \<times> attempt_env"
  re_complete :: "serr + json"
  re_in_budget :: bool

datatype stage = MetadataStage | ChunkStage | CompleteStage

record sender =
  sd_need_metadata :: bool
  sd_verified :: "nat set"
  sd_transfer_id :: json

datatype outcome = Returned jobj | Raised serr | Again

definition nat_indices :: "json \<Rightarrow> nat list option" where
  "nat_indices v = (case v of JArr xs \<Rightarrow>
     option_list (map (\<lambda>x. case x of JNum i \<Rightarrow> if 0 \<le> i then Some (nat i) else None | _ \<Rightarrow> None) xs) | _ \<Rightarrow> None)"

definition accept_metadata :: "plan_member list \<Rightarrow> jobj \<Rightarrow> serr + json \<times> nat set" where
  "accept_metadata plan d =
     (case (jget d ''transfer_id'', nat_indices (jget d ''verified_member_indices'')) of
        (JStr t, Some is) \<Rightarrow>
          if t = [] \<or> \<not> set is \<subseteq> set (map pm_index plan) \<or> \<not> distinct is then Inl (Refusal ''invalid_metadata_response'')
          else Inr (JStr t, set is)
      | _ \<Rightarrow> Inl (Refusal ''invalid_metadata_response''))"

text \<open>The metadata part: a grant ends the delivery, else what the marketplace lacks is streamed.\<close>

definition metadata_part ::
  "(bytes \<Rightarrow> bytes) \<Rightarrow> (plan_member \<Rightarrow> serr + nat \<times> bytes) \<Rightarrow> plan_member list \<Rightarrow> nat \<Rightarrow> round_env \<Rightarrow> sender
     \<Rightarrow> (stage \<times> serr + jobj option) \<times> sender" where
  "metadata_part H opened plan n re s =
     (case res_bind (re_metadata re) result_of of
        Inl e \<Rightarrow> (Inl (MetadataStage, e), s)
      | Inr d \<Rightarrow>
          if has_grant d then (Inr (Some d), s)
          else case accept_metadata plan d of
            Inl e \<Rightarrow> (Inl (MetadataStage, e), s)
          | Inr (t, verified) \<Rightarrow>
              (let s' = s\<lparr>sd_transfer_id := t, sd_verified := verified\<rparr> in
               case stream_manifest H opened plan n verified t (re_rid re) (re_windows re) of
                 Inl e \<Rightarrow> (Inl (ChunkStage, e), s')
               | Inr _ \<Rightarrow> (Inr None, s'\<lparr>sd_need_metadata := False\<rparr>)))"

definition complete_part :: "round_env \<Rightarrow> stage \<times> serr + jobj" where
  "complete_part re =
     (case res_bind (re_complete re) result_of of
        Inl e \<Rightarrow> Inl (CompleteStage, e)
      | Inr d \<Rightarrow> if has_grant d then Inr d else Inl (CompleteStage, Refusal ''completion_not_confirmed''))"

text \<open>The handlers: which errors make another round, and whether it begins with the metadata.\<close>

definition handle_error :: "round_env \<Rightarrow> stage \<Rightarrow> serr \<Rightarrow> sender \<Rightarrow> outcome \<times> sender" where
  "handle_error re st e s =
     (case e of
        Refusal code \<Rightarrow>
          if code \<notin> {''listener_busy'', ''out_of_window'', ''member_reset'', ''finalizing''} then (Raised e, s)
          else if code \<in> {''listener_busy'', ''finalizing''} \<and> \<not> re_in_budget re then (Raised STimeout, s)
          else (Again, s\<lparr>sd_need_metadata := \<not> (st = CompleteStage \<and> code = ''finalizing'')\<rparr>)
      | STimeout \<Rightarrow>
          if st = ChunkStage then (Raised e, s)
          else if \<not> re_in_budget re then (Raised STimeout, s)
          else (Again, s\<lparr>sd_need_metadata := (st = MetadataStage)\<rparr>)
      | SConn \<Rightarrow> if \<not> re_in_budget re then (Raised STimeout, s) else (Again, s\<lparr>sd_need_metadata := True\<rparr>)
      | _ \<Rightarrow> (Raised e, s))"

definition delivery_round ::
  "(bytes \<Rightarrow> bytes) \<Rightarrow> (plan_member \<Rightarrow> serr + nat \<times> bytes) \<Rightarrow> plan_member list \<Rightarrow> nat \<Rightarrow> round_env \<Rightarrow> sender \<Rightarrow> outcome \<times> sender" where
  "delivery_round H opened plan n re s =
     (let (r, s1) = (if sd_need_metadata s then metadata_part H opened plan n re s else (Inr None, s)) in
      case r of
        Inl (st, e) \<Rightarrow> handle_error re st e s1
      | Inr (Some d) \<Rightarrow> (Returned d, s1)
      | Inr None \<Rightarrow>
          (case complete_part re of
             Inl (st, e) \<Rightarrow> handle_error re st e s1
           | Inr d \<Rightarrow> (Returned d, s1)))"

text \<open>The loop over the rounds met; \<open>Again\<close> when it is still running after them.\<close>

fun run_rounds ::
  "(bytes \<Rightarrow> bytes) \<Rightarrow> (plan_member \<Rightarrow> serr + nat \<times> bytes) \<Rightarrow> plan_member list \<Rightarrow> nat \<Rightarrow> round_env list \<Rightarrow> sender \<Rightarrow> outcome \<times> sender" where
  "run_rounds H opened plan n [] s = (Again, s)"
| "run_rounds H opened plan n (re # res) s =
     (case delivery_round H opened plan n re s of
        (Again, s') \<Rightarrow> run_rounds H opened plan n res s'
      | r \<Rightarrow> r)"

text \<open>
  \<^verbatim>\<open>deliver_manifest\<close> as the body of a delivery; the count of chunks in the log is left out.  A run
  that has not ended after the given rounds leaves the entry uploading.
\<close>

definition manifest_body ::
  "(ustr \<Rightarrow> ustr) \<Rightarrow> (ustr \<Rightarrow> ustr) \<Rightarrow> (bytes \<Rightarrow> bytes) \<Rightarrow> transfer_limits \<Rightarrow> retained option \<Rightarrow> ustr
     \<Rightarrow> (plan_member \<Rightarrow> serr + nat \<times> bytes) \<Rightarrow> round_env list \<Rightarrow> json \<Rightarrow> transfer_env \<Rightarrow> unit fio" where
  "manifest_body nf cf H cfg stored manifest_hash opened rounds transfer_id env =
     (case load_plan nf cf H cfg stored manifest_hash of
        Inl MissingManifest \<Rightarrow> refuse env ''MANIFEST_NOT_FOUND''
      | Inl (PlanValueError _) \<Rightarrow> fio_lift (Inl OtherErr)
      | Inr (plan, total_chunks, total_bytes) \<Rightarrow>
          fio_bind (begin_upload (int total_bytes)) (\<lambda>_.
            case fst (run_rounds H opened plan total_chunks rounds
                   \<lparr>sd_need_metadata = True, sd_verified = {}, sd_transfer_id = transfer_id\<rparr>) of
              Returned _ \<Rightarrow> (\<lambda>s. (Inr (), update_log FCompleted None None s))
            | Raised _ \<Rightarrow> refuse env ''TRANSFER_ABORTED''
            | Again \<Rightarrow> fio_return ()))"

definition handle_deliver_manifest ::
  "(ustr \<Rightarrow> ustr) \<Rightarrow> (ustr \<Rightarrow> ustr) \<Rightarrow> (bytes \<Rightarrow> bytes) \<Rightarrow> transfer_limits \<Rightarrow> retained option \<Rightarrow> ustr
     \<Rightarrow> (plan_member \<Rightarrow> serr + nat \<times> bytes) \<Rightarrow> round_env list \<Rightarrow> json \<Rightarrow> transfer_env \<Rightarrow> transfer" where
  "handle_deliver_manifest nf cf H cfg stored manifest_hash opened rounds transfer_id env =
     guard_delivery env (manifest_body nf cf H cfg stored manifest_hash opened rounds transfer_id env) new_transfer"

section \<open>What is streamed\<close>

lemma local_chunks_error:
  "snd (local_chunks H m contents is) = None \<longleftrightarrow>
     (\<forall>i\<in>set is. length (piece m contents i) = piece_size m i)
     \<and> length contents \<le> pm_size m \<and> hex_of (H contents) = pm_sha256 m"
  by (induction "is") (auto split: prod.split)

lemma local_chunks_fst:
  "snd (local_chunks H m contents is) = None \<Longrightarrow> fst (local_chunks H m contents is) = map (piece_message H m contents) is"
  by (induction "is") (auto split: prod.splits if_split_asm)

lemma local_chunks_ok:
  assumes "local_chunks H m contents is = (cs, None)"
  shows "cs = map (piece_message H m contents) is" "\<forall>i\<in>set is. length (piece m contents i) = piece_size m i"
    "length contents \<le> pm_size m" "hex_of (H contents) = pm_sha256 m"
  using local_chunks_error [of H m contents "is"] local_chunks_fst [of H m contents "is"] assms by simp_all

text \<open>Pieces of full size put together are the file.\<close>

lemma pieces_concat:
  assumes "length contents \<le> pm_size m"
    and "\<And>i. i < k \<Longrightarrow> length (piece m contents i) = piece_size m i"
  shows "concat (map (piece m contents) [0..<k]) = take (min (k * CHUNK_SIZE) (pm_size m)) contents"
  using assms(2)
proof (induction k)
  case (Suc k)
  have ih: "concat (map (piece m contents) [0..<k]) = take (min (k * CHUNK_SIZE) (pm_size m)) contents"
    using Suc by simp
  show ?case
  proof (cases "k * CHUNK_SIZE \<le> pm_size m")
    case True
    then have "min (Suc k * CHUNK_SIZE) (pm_size m) = k * CHUNK_SIZE + piece_size m k"
      by (auto simp: piece_size_def min_def)
    moreover have "concat (map (piece m contents) [0..<k]) = take (k * CHUNK_SIZE) contents" using ih True by (simp add: min_def)
    ultimately show ?thesis by (simp add: piece_def [of m contents k] take_add del: mult_Suc)
  next
    case False
    then have "piece_size m k = 0" by (simp add: piece_size_def)
    then show ?thesis using ih False by (simp add: piece_def [of m contents k] min_def)
  qed
qed simp

lemma pieces_whole:
  assumes "local_chunks H m contents [0..<pm_chunks m] = (cs, None)" and "pm_chunks m = member_chunks (pm_size m)"
  shows "length contents = pm_size m \<and> concat (map (piece m contents) [0..<pm_chunks m]) = contents"
proof -
  have l: "length contents \<le> pm_size m" "\<And>i. i < pm_chunks m \<Longrightarrow> length (piece m contents i) = piece_size m i"
    using local_chunks_ok(2,3) [OF assms(1)] by simp_all
  have cover: "pm_size m \<le> pm_chunks m * CHUNK_SIZE" using assms(2) member_chunks_cover(1) by simp
  have c: "concat (map (piece m contents) [0..<pm_chunks m]) = contents"
    using pieces_concat [OF l] cover l(1) by (simp add: min_def)
  let ?k = "pm_chunks m - 1"
  have k: "?k < pm_chunks m" using assms(2) by (simp add: member_chunks_def)
  have "length (piece m contents ?k) = piece_size m ?k" by (rule l(2) [OF k])
  moreover have "pm_size m \<noteq> 0 \<Longrightarrow> ?k * CHUNK_SIZE < pm_size m"
    using member_chunks_cover(2) [of "pm_size m"] assms(2) by (cases "pm_chunks m = 1") (auto simp: member_chunks_def max_def split: if_split_asm)
  moreover have "piece_size m ?k = pm_size m - ?k * CHUNK_SIZE"
    using cover k by (simp add: piece_size_def diff_mult_distrib)
  ultimately have "pm_size m \<le> length contents" by (cases "pm_size m = 0") (simp_all add: piece_def min_def split: if_split_asm)
  then show ?thesis using c l(1) by simp
qed

text \<open>What a receiver reads from the chunks of a member, in order.\<close>

definition payloads :: "mchunk list \<Rightarrow> bytes" where
  "payloads cs = concat (map (\<lambda>c. case decode_b64 (Some (mc_payload c)) (Some (mc_length c)) of Inr raw \<Rightarrow> raw | Inl _ \<Rightarrow> []) cs)"

lemma payloads_pieces: "payloads (map (piece_message H m contents) is) = concat (map (piece m contents) is)"
proof -
  have d: "decode_b64 (Some (b64encode raw)) (Some (length raw)) = Inr raw" for raw by (simp add: decode_b64_iff)
  show ?thesis by (induction "is") (simp_all add: payloads_def piece_message_def d)
qed

definition delivered :: "(bytes \<Rightarrow> bytes) \<Rightarrow> plan_member \<Rightarrow> mchunk list \<Rightarrow> bool" where
  "delivered H m cs \<longleftrightarrow>
     (let mine = filter (\<lambda>c. mc_member c = pm_index m) cs in
      map mc_index mine = [pm_start_chunk m..<pm_start_chunk m + pm_chunks m]
      \<and> map mc_offset mine = map (\<lambda>i. pm_start_byte m + i * CHUNK_SIZE) [0..<pm_chunks m]
      \<and> length (payloads mine) = pm_size m \<and> hex_of (H (payloads mine)) = pm_sha256 m)"

lemma member_stream_delivers:
  assumes "member_stream H opened m = (cs, None)" and "pm_chunks m = member_chunks (pm_size m)"
  shows "delivered H m cs \<and> (\<forall>c\<in>set cs. mc_member c = pm_index m)"
proof -
  obtain contents where c: "local_chunks H m contents [0..<pm_chunks m] = (cs, None)"
    using assms(1) by (auto simp: member_stream_def split: sum.splits if_split_asm)
  note w = pieces_whole [OF c assms(2)]
  have cs: "cs = map (piece_message H m contents) [0..<pm_chunks m]" "hex_of (H contents) = pm_sha256 m"
    using local_chunks_ok(1,4) [OF c] by simp_all
  have mine: "filter (\<lambda>c. mc_member c = pm_index m) cs = cs" by (simp add: cs(1) piece_message_def filter_map comp_def)
  have "map mc_index cs = map (\<lambda>i. pm_start_chunk m + i) [0..<pm_chunks m]" by (simp add: cs(1) piece_message_def comp_def)
  also have "\<dots> = [pm_start_chunk m..<pm_start_chunk m + pm_chunks m]" by (simp add: map_add_upt add.commute)
  finally have "map mc_index cs = [pm_start_chunk m..<pm_start_chunk m + pm_chunks m]" .
  moreover have "payloads cs = contents" using w payloads_pieces [of H m contents "[0..<pm_chunks m]"] cs(1) by simp
  ultimately show ?thesis using w cs(2) mine unfolding delivered_def
    by (simp add: Let_def) (simp add: cs(1) piece_message_def comp_def)
qed

lemma delivered_append_other:
  "(\<And>c. c \<in> set ds \<Longrightarrow> mc_member c \<noteq> pm_index m) \<Longrightarrow> delivered H m (cs @ ds) = delivered H m cs"
  "(\<And>c. c \<in> set ds \<Longrightarrow> mc_member c \<noteq> pm_index m) \<Longrightarrow> delivered H m (ds @ cs) = delivered H m cs"
proof -
  assume "\<And>c. c \<in> set ds \<Longrightarrow> mc_member c \<noteq> pm_index m"
  then have "filter (\<lambda>c. mc_member c = pm_index m) ds = []" by (simp add: filter_empty_conv)
  then show "delivered H m (cs @ ds) = delivered H m cs" "delivered H m (ds @ cs) = delivered H m cs"
    by (simp_all add: delivered_def)
qed

text \<open>A stream that ends without an error: every member that is not verified is delivered, no other sent.\<close>

lemma chunks_of_delivers:
  assumes "chunks_of H opened verified plan = (cs, None)" and "distinct (map pm_index plan)"
    and "list_all (\<lambda>m. pm_chunks m = member_chunks (pm_size m)) plan"
  shows "(\<forall>m\<in>set plan. pm_index m \<notin> verified \<longrightarrow> delivered H m cs) \<and> mc_member ` set cs \<subseteq> pm_index ` set plan - verified"
  using assms
proof (induction plan arbitrary: cs)
  case Nil
  then show ?case by simp
next
  case (Cons m plan)
  show ?case
  proof (cases "pm_index m \<in> verified")
    case True
    then have "chunks_of H opened verified plan = (cs, None)" using Cons.prems(1) by simp
    note c = this
    have ih: "\<forall>m\<in>set plan. pm_index m \<notin> verified \<longrightarrow> delivered H m cs" "mc_member ` set cs \<subseteq> pm_index ` set plan - verified"
      using Cons.IH [OF c] Cons.prems(2,3) by simp_all
    have "delivered H q cs" if "q \<in> set (m # plan)" "pm_index q \<notin> verified" for q
      using that True ih(1) by (cases "q = m") simp_all
    moreover have "mc_member ` set cs \<subseteq> pm_index ` set (m # plan) - verified" using ih(2) by (rule order_trans) auto
    ultimately show ?thesis by blast
  next
    case False
    obtain cs1 cs2 where c: "member_stream H opened m = (cs1, None)" "chunks_of H opened verified plan = (cs2, None)" "cs = cs1 @ cs2"
      using Cons.prems(1) False by (auto split: prod.splits option.splits)
    have d: "delivered H m cs1" "\<forall>c\<in>set cs1. mc_member c = pm_index m"
      using member_stream_delivers [OF c(1)] Cons.prems(3) by simp_all
    have ih: "\<forall>m\<in>set plan. pm_index m \<notin> verified \<longrightarrow> delivered H m cs2" "mc_member ` set cs2 \<subseteq> pm_index ` set plan - verified"
      using Cons.IH [OF c(2)] Cons.prems(2,3) by simp_all
    have fresh: "pm_index m \<notin> pm_index ` set plan" using Cons.prems(2) by simp
    have "delivered H q cs" if q: "q \<in> set (m # plan)" "pm_index q \<notin> verified" for q
    proof (cases "q = m")
      case True
      have "mc_member c \<noteq> pm_index m" if cc: "c \<in> set cs2" for c
      proof
        assume "mc_member c = pm_index m"
        moreover have "mc_member c \<in> pm_index ` set plan" using subsetD [OF ih(2) imageI [OF cc]] by simp
        ultimately show False using fresh by simp
      qed
      then show ?thesis using d(1) by (simp add: True c(3) delivered_append_other(1))
    next
      case F: False
      then have qp: "q \<in> set plan" using q(1) by simp
      then have "pm_index q \<noteq> pm_index m" using fresh imageI [OF qp, of pm_index] by metis
      then have "mc_member c \<noteq> pm_index q" if "c \<in> set cs1" for c using d(2) that by simp
      then show ?thesis using ih(1) qp q(2) by (simp add: c(3) delivered_append_other(2))
    qed
    moreover have "mc_member ` set cs1 \<subseteq> {pm_index m}" using d(2) by blast
    then have "mc_member ` set cs \<subseteq> pm_index ` set (m # plan) - verified" using ih(2) False unfolding c(3) by fastforce
    ultimately show ?thesis by blast
  qed
qed

section \<open>What is confirmed\<close>

text \<open>A reply that was no refusal and answers the chunk, or acknowledges it.\<close>

definition confirms :: "json \<Rightarrow> (mchunk \<Rightarrow> json) \<Rightarrow> serr + json \<Rightarrow> mchunk \<Rightarrow> bool" where
  "confirms transfer_id rid r c \<longleftrightarrow>
     (\<exists>m d. r = Inr (JObj m) \<and> result_of (JObj m) = Inr d
       \<and> (jget m ''request_id'' = rid c
          \<or> jget d ''action'' = JStr ''vai.fulfillment.ack'' \<and> jget d ''transfer_id'' = transfer_id
            \<and> jget d ''status'' = JStr ''continue'' \<and> (\<exists>i. jget d ''acked_through_index'' = JNum i \<and> int (mc_index c) \<le> i)))"

lemma consume_confirms:
  assumes "consume transfer_id n expected reply w = Inr w'" and "rid c \<in> ws_pending w" and "mc_index c \<le> expected"
  shows "rid c \<in> ws_pending w' \<or> confirms transfer_id rid (Inr reply) c"
proof -
  obtain d where d: "result_of reply = Inr d" using assms(1) by (auto simp: consume_def)
  obtain m where m: "reply = JObj m" using d by (cases reply) (simp_all add: result_of_def)
  show ?thesis using assms d m
    by (auto simp: consume_def confirms_def Let_def split: if_split_asm json.splits)
qed

lemma consume_all_confirms:
  assumes "consume_all transfer_id n expected rs w = Inr w'" and "mc_index c \<le> expected"
    and "rid c \<in> ws_pending w \<or> (\<exists>r\<in>A. confirms transfer_id rid r c)"
  shows "rid c \<in> ws_pending w' \<or> (\<exists>r\<in>A \<union> set rs. confirms transfer_id rid r c)"
  using assms
proof (induction rs arbitrary: w A)
  case (Cons r rs)
  obtain reply v where r: "r = Inr reply" "consume transfer_id n expected reply w = Inr v" "consume_all transfer_id n expected rs v = Inr w'"
    using Cons.prems(1) by (cases r) auto
  have "rid c \<in> ws_pending v \<or> (\<exists>q\<in>insert r A. confirms transfer_id rid q c)"
    using consume_confirms [where rid = rid and c = c, OF r(2)] Cons.prems(2,3) r(1) by blast
  then show ?case using Cons.IH [OF r(3) Cons.prems(2), of "insert r A"] by simp
qed simp

lemma send_window_confirms:
  assumes "send_window transfer_id n expected rid ae k cs w = Inr w'" and "\<And>c. c \<in> set cs \<Longrightarrow> mc_index c \<le> expected"
    and "mc_index c \<le> expected" and "c \<in> set cs \<or> rid c \<in> ws_pending w \<or> (\<exists>r\<in>A. confirms transfer_id rid r c)"
    and "\<And>i. k \<le> i \<Longrightarrow> set (ae_inbox ae i) \<subseteq> B" and "A \<subseteq> B"
  shows "rid c \<in> ws_pending w' \<or> (\<exists>r\<in>B. confirms transfer_id rid r c)"
  using assms
proof (induction cs arbitrary: k w A)
  case Nil
  then show ?case by auto
next
  case (Cons x cs)
  obtain v where v: "consume_all transfer_id n expected (ae_inbox ae k) (w\<lparr>ws_pending := insert (rid x) (ws_pending w)\<rparr>) = Inr v"
      "send_window transfer_id n expected rid ae (k + 1) cs v = Inr w'"
    using Cons.prems(1) by (auto split: option.splits)
  have "c \<in> set cs \<or> rid c \<in> ws_pending v \<or> (\<exists>r\<in>B. confirms transfer_id rid r c)"
  proof (cases "c \<in> set cs")
    case False
    then have "rid c \<in> ws_pending (w\<lparr>ws_pending := insert (rid x) (ws_pending w)\<rparr>) \<or> (\<exists>r\<in>A. confirms transfer_id rid r c)"
      using Cons.prems(4) by auto
    from consume_all_confirms [OF v(1) Cons.prems(3) this] show ?thesis using Cons.prems(5) [of k] Cons.prems(6) by blast
  qed simp
  then show ?case using Cons.IH [OF v(2) _ Cons.prems(3), of B] Cons.prems(2,5) by simp
qed

lemma await_replies_confirms:
  assumes "await_replies transfer_id n expected rs w = Inr w'" and "mc_index c \<le> expected"
    and "rid c \<in> ws_pending w \<or> (\<exists>r\<in>A. confirms transfer_id rid r c)"
  shows "\<exists>r\<in>A \<union> set rs. confirms transfer_id rid r c"
  using assms
proof (induction rs arbitrary: w A)
  case Nil
  then show ?case by (auto simp: await_replies.simps split: if_split_asm)
next
  case (Cons r rs)
  show ?case
  proof (cases "ws_pending w = {} \<and> \<not> ws_ack_needed w")
    case True
    then show ?thesis using Cons.prems(3) by auto
  next
    case False
    then have "res_bind r (\<lambda>reply. res_bind (consume transfer_id n expected reply w)
          (\<lambda>w'. await_replies transfer_id n expected rs w')) = Inr w'"
      using Cons.prems(1) unfolding await_replies.simps [of transfer_id n expected "r # rs"] by (simp only: if_False list.case)
    then obtain reply v where r: "r = Inr reply" "consume transfer_id n expected reply w = Inr v" "await_replies transfer_id n expected rs v = Inr w'"
      by (cases r) auto
    have "rid c \<in> ws_pending v \<or> (\<exists>q\<in>insert r A. confirms transfer_id rid q c)"
      using consume_confirms [where rid = rid and c = c, OF r(2)] Cons.prems(2,3) r(1) by blast
    then show ?thesis using Cons.IH [OF r(3) Cons.prems(2), of "insert r A"] by simp
  qed
qed

definition attempt_replies :: "attempt_env \<Rightarrow> (serr + json) set" where
  "attempt_replies ae = (\<Union>k. set (ae_inbox ae k)) \<union> set (ae_later ae)"

definition ordered_window :: "mchunk list \<Rightarrow> bool" where
  "ordered_window cs \<longleftrightarrow> cs \<noteq> [] \<and> (\<forall>c\<in>set cs. mc_index c \<le> mc_index (last cs))"

lemma window_attempt_confirms:
  assumes "window_attempt transfer_id n rid cs ack ae = Inr ()" and "ordered_window cs" and "c \<in> set cs"
  shows "\<exists>r\<in>attempt_replies ae. confirms transfer_id rid r c"
proof -
  let ?e = "mc_index (last cs)"
  obtain w w' where w: "send_window transfer_id n ?e rid ae 0 cs \<lparr>ws_pending = {}, ws_ack_needed = ack\<rparr> = Inr w"
      "await_replies transfer_id n ?e (ae_later ae) w = Inr w'"
    using assms(1) by (auto simp: window_attempt_def Let_def)
  have c: "mc_index c \<le> ?e" "\<And>x. x \<in> set cs \<Longrightarrow> mc_index x \<le> ?e" using assms(2,3) by (auto simp: ordered_window_def)
  have "rid c \<in> ws_pending w \<or> (\<exists>r\<in>\<Union>k. set (ae_inbox ae k). confirms transfer_id rid r c)"
    by (rule send_window_confirms [OF w(1) c(2) c(1), where A = "{}"]) (use assms(3) in auto)
  from await_replies_confirms [OF w(2) c(1) this] show ?thesis by (simp add: attempt_replies_def)
qed

lemma send_window_twice_confirms:
  assumes "send_window_twice transfer_id n rid (cs, ack) aes = Inr ()" and "ordered_window cs" and "c \<in> set cs"
  shows "\<exists>r\<in>attempt_replies (fst aes) \<union> attempt_replies (snd aes). confirms transfer_id rid r c"
proof -
  consider "window_attempt transfer_id n rid cs ack (fst aes) = Inr ()" | "window_attempt transfer_id n rid cs ack (snd aes) = Inr ()"
    using assms(1) by (auto simp: send_window_twice_def split: prod.splits sum.splits serr.splits if_split_asm)
  then show ?thesis using window_attempt_confirms assms(2,3) by cases blast+
qed

lemma send_windows_confirms:
  assumes "send_windows transfer_id n rid env k ws = Inr ()" and "\<forall>w\<in>set ws. ordered_window (fst w)"
    and "w \<in> set ws" and "c \<in> set (fst w)"
  shows "\<exists>i. k \<le> i \<and> i < k + length ws \<and> (\<exists>r\<in>attempt_replies (fst (env i)) \<union> attempt_replies (snd (env i)). confirms transfer_id rid r c)"
  using assms
proof (induction ws arbitrary: k)
  case (Cons x ws)
  have x: "send_window_twice transfer_id n rid x (env k) = Inr ()" "send_windows transfer_id n rid env (k + 1) ws = Inr ()"
    using Cons.prems(1) by auto
  show ?case
  proof (cases "w = x")
    case True
    then show ?thesis using send_window_twice_confirms [of transfer_id n rid "fst x" "snd x" "env k" c] x(1) Cons.prems(2,4)
      by (intro exI [of _ k]) simp
  next
    case False
    then obtain i where "k + 1 \<le> i" "i < k + 1 + length ws"
        "\<exists>r\<in>attempt_replies (fst (env i)) \<union> attempt_replies (snd (env i)). confirms transfer_id rid r c"
      using Cons.IH [OF x(2)] Cons.prems(2,3,4) by auto
    then show ?thesis by (intro exI [of _ i]) simp
  qed
qed simp

section \<open>A stream that goes through\<close>

lemma cut_windows_chunks:
  assumes "cut_windows n origin win cs = (ws, rest)" and "length win < WINDOW_SIZE"
  shows "concat (map fst ws) @ rest = win @ cs \<and> (\<forall>w\<in>set ws. fst w \<noteq> [] \<and> length (fst w) \<le> WINDOW_SIZE)"
  using assms
proof (induction n origin win cs arbitrary: ws rest rule: cut_windows.induct)
  case (2 n origin win c cs)
  let ?boundary = "(int (mc_index c) - int origin) mod int WINDOW_SIZE = int WINDOW_SIZE - 1 \<or> mc_index c + 1 = n"
  show ?case
  proof (cases "?boundary \<or> length (win @ [c]) = WINDOW_SIZE")
    case True
    obtain vs where v: "cut_windows n origin [] cs = (vs, rest)" "ws = (win @ [c], ?boundary) # vs"
      using "2.prems"(1) True by (auto simp: Let_def split: prod.splits)
    have "concat (map fst vs) @ rest = [] @ cs \<and> (\<forall>w\<in>set vs. fst w \<noteq> [] \<and> length (fst w) \<le> WINDOW_SIZE)"
      by (rule "2.IH"(1) [OF refl refl True v(1)]) (simp add: WINDOW_SIZE_def)
    then show ?thesis using "2.prems"(2) v(2) by simp
  next
    case False
    then have c: "cut_windows n origin (win @ [c]) cs = (ws, rest)" using "2.prems"(1) by (simp add: Let_def)
    have "length (win @ [c]) < WINDOW_SIZE" using False "2.prems"(2) by simp
    then show ?thesis using "2.IH"(2) [OF refl refl False c] by simp
  qed
qed simp

lemma sorted_concat_filter:
  "sorted (concat (map f xs)) \<Longrightarrow> sorted (concat (map f (filter P xs)))"
proof (induction xs)
  case (Cons x xs)
  have "set (concat (map f (filter P xs))) \<subseteq> set (concat (map f xs))" by auto
  then show ?case using Cons by (auto simp: sorted_append)
qed simp

lemma chunks_of_indices:
  assumes "chunks_of H opened verified plan = (cs, None)" and "list_all (\<lambda>m. pm_chunks m = member_chunks (pm_size m)) plan"
  shows "map mc_index cs = concat (map (\<lambda>m. [pm_start_chunk m..<pm_start_chunk m + pm_chunks m]) (filter (\<lambda>m. pm_index m \<notin> verified) plan))"
  using assms
proof (induction plan arbitrary: cs)
  case (Cons m plan)
  show ?case
  proof (cases "pm_index m \<in> verified")
    case True
    then show ?thesis using Cons by simp
  next
    case False
    obtain cs1 cs2 where c: "member_stream H opened m = (cs1, None)" "chunks_of H opened verified plan = (cs2, None)" "cs = cs1 @ cs2"
      using Cons.prems(1) False by (auto split: prod.splits option.splits)
    note d = member_stream_delivers [OF c(1)]
    have "filter (\<lambda>c. mc_member c = pm_index m) cs1 = cs1" using d Cons.prems(2) by simp
    then have "map mc_index cs1 = [pm_start_chunk m..<pm_start_chunk m + pm_chunks m]"
      using d Cons.prems(2) by (simp add: delivered_def)
    then show ?thesis using Cons.IH [OF c(2)] Cons.prems(2) False c(3) by simp
  qed
qed simp

lemma sorted_window:
  assumes "sorted (map mc_index (pre @ w @ post))" and "w \<noteq> []"
  shows "ordered_window w"
proof (cases w rule: rev_cases)
  case (snoc ys y)
  then show ?thesis using assms(1) by (auto simp: ordered_window_def sorted_append)
qed (use assms(2) in simp)

definition well_planned :: "plan_member list \<Rightarrow> nat \<Rightarrow> bool" where
  "well_planned plan n \<longleftrightarrow> distinct (map pm_index plan) \<and> list_all (\<lambda>m. pm_chunks m = member_chunks (pm_size m)) plan
     \<and> concat (map (\<lambda>m. [pm_start_chunk m..<pm_start_chunk m + pm_chunks m]) plan) = [0..<n]"

definition stream_replies :: "(nat \<Rightarrow> attempt_env \<times> attempt_env) \<Rightarrow> (serr + json) set" where
  "stream_replies env = (\<Union>i. attempt_replies (fst (env i)) \<union> attempt_replies (snd (env i)))"

definition streamed ::
  "(bytes \<Rightarrow> bytes) \<Rightarrow> plan_member list \<Rightarrow> nat set \<Rightarrow> json \<Rightarrow> (mchunk \<Rightarrow> json) \<Rightarrow> (serr + json) set \<Rightarrow> mchunk list \<Rightarrow> bool" where
  "streamed H plan verified transfer_id rid replies cs \<longleftrightarrow>
     (\<forall>m\<in>set plan. pm_index m \<notin> verified \<longrightarrow> delivered H m cs)
     \<and> (\<forall>c\<in>set cs. mc_member c \<notin> verified \<and> (\<exists>r\<in>replies. confirms transfer_id rid r c))"

lemma stream_manifest_streamed:
  assumes "stream_manifest H opened plan n verified transfer_id rid env = Inr ()" and "well_planned plan n"
  shows "\<exists>cs. chunks_of H opened verified plan = (cs, None) \<and> streamed H plan verified transfer_id rid (stream_replies env) cs"
proof -
  obtain cs e where cs: "chunks_of H opened verified plan = (cs, e)" by (cases "chunks_of H opened verified plan")
  let ?origin = "case cs of [] \<Rightarrow> 0 | c # _ \<Rightarrow> mc_index c"
  obtain ws rest where ws: "cut_windows n ?origin [] cs = (ws, rest)" by (cases "cut_windows n ?origin [] cs")
  have s: "send_windows transfer_id n rid env 0 ws = Inr ()" "e = None"
      "rest \<noteq> [] \<Longrightarrow> send_window_twice transfer_id n rid (rest, False) (env (length ws)) = Inr ()"
    using assms(1) by (auto simp: stream_manifest_def cs ws Let_def split: option.splits if_split_asm)
  note cs' = cs [unfolded s(2)]
  have wp: "distinct (map pm_index plan)" "list_all (\<lambda>m. pm_chunks m = member_chunks (pm_size m)) plan"
      "sorted (concat (map (\<lambda>m. [pm_start_chunk m..<pm_start_chunk m + pm_chunks m]) plan))"
    using assms(2) by (simp_all add: well_planned_def)
  have srt: "sorted (map mc_index cs)" using chunks_of_indices [OF cs' wp(2)] sorted_concat_filter [OF wp(3)] by simp
  have parts: "concat (map fst ws) @ rest = cs" "\<forall>w\<in>set ws. fst w \<noteq> [] \<and> length (fst w) \<le> WINDOW_SIZE"
    using cut_windows_chunks [OF ws] by (simp_all add: WINDOW_SIZE_def)
  have ord: "ordered_window (fst w)" if w: "w \<in> set ws" for w
  proof -
    obtain pre post where "ws = pre @ w # post" using split_list [OF w] by blast
    then have "cs = concat (map fst pre) @ fst w @ (concat (map fst post) @ rest)" using parts(1) by simp
    then show ?thesis using sorted_window [of "concat (map fst pre)" "fst w" "concat (map fst post) @ rest"] srt parts(2) w by simp
  qed
  have "\<exists>r\<in>stream_replies env. confirms transfer_id rid r c" if c: "c \<in> set cs" for c
  proof (cases "c \<in> set rest")
    case True
    then have "rest \<noteq> []" by auto
    then have "ordered_window rest" using sorted_window [of "concat (map fst ws)" rest "[]"] srt parts(1) by simp
    then show ?thesis using send_window_twice_confirms [OF s(3) [OF \<open>rest \<noteq> []\<close>] _ True]
      by (auto simp: stream_replies_def)
  next
    case False
    have "set cs = (\<Union>w\<in>set ws. set (fst w)) \<union> set rest" unfolding parts(1) [symmetric] by simp
    then obtain w where w: "w \<in> set ws" "c \<in> set (fst w)" using c False by auto
    then show ?thesis using send_windows_confirms [OF s(1) _ w] ord by (auto simp: stream_replies_def)
  qed
  then show ?thesis using chunks_of_delivers [OF cs' wp(1,2)] cs' unfolding streamed_def by blast
qed

section \<open>Rounds\<close>

lemma load_plan_well_planned:
  assumes "load_plan nf cf H cfg (Some rt) hash = Inr (plan, n, volume)"
  shows "well_planned plan n"
proof -
  obtain mf where mf: "build_manifest nf cf H (rt_members rt) = Inr mf"
    using assms by (cases "build_manifest nf cf H (rt_members rt)") (simp_all add: load_plan_def lift_value_error_def)
  have i: "map r_index (mf_members mf) = [0..<length (mf_members mf)]"
    using assms mf by (simp add: load_plan_def lift_value_error_def Let_def split: if_split_asm)
  have "plan_rows cfg (mf_members mf) 0 0 = Inr (plan, n, volume)"
    using assms mf by (auto simp: load_plan_def lift_value_error_def Let_def split: if_split_asm)
  note p = plan_rows_partition [OF this]
  have "map pm_index plan = map fst (map (\<lambda>m. (pm_index m, pm_path m, pm_size m, pm_sha256 m)) plan)" by (simp add: comp_def)
  also have "\<dots> = map r_index (filter (\<lambda>r. r_role r = ''data'') (mf_members mf))" using p by (simp add: comp_def)
  finally have x: "map pm_index plan = map r_index (filter (\<lambda>r. r_role r = ''data'') (mf_members mf))" .
  have "distinct (map r_index (mf_members mf))" unfolding i by simp
  then have "distinct (map pm_index plan)" unfolding x by (rule distinct_map_filter)
  then show ?thesis using p by (auto simp: well_planned_def list_all_iff)
qed

text \<open>The stream of a round after the reply to its metadata.\<close>

definition round_streamed :: "(bytes \<Rightarrow> bytes) \<Rightarrow> plan_member list \<Rightarrow> round_env \<Rightarrow> bool" where
  "round_streamed H plan re \<longleftrightarrow>
     (\<exists>d transfer_id verified cs. res_bind (re_metadata re) result_of = Inr d \<and> accept_metadata plan d = Inr (transfer_id, verified)
        \<and> streamed H plan verified transfer_id (re_rid re) (stream_replies (re_windows re)) cs)"

lemma metadata_part_cases:
  assumes "metadata_part H opened plan n re s = (r, s')" and "well_planned plan n"
  shows "(r = Inr None \<longrightarrow> round_streamed H plan re) \<and> (\<forall>d. r = Inr (Some d) \<longrightarrow> res_bind (re_metadata re) result_of = Inr d \<and> has_grant d)"
proof (cases "res_bind (re_metadata re) result_of")
  case (Inl e)
  then show ?thesis using assms(1) by (auto simp: metadata_part_def)
next
  case (Inr d)
  show ?thesis
  proof (cases "has_grant d \<or> (\<exists>e. accept_metadata plan d = Inl e)")
    case True
    then show ?thesis using assms(1) Inr by (auto simp: metadata_part_def split: if_split_asm)
  next
    case False
    then obtain t v where a: "accept_metadata plan d = Inr (t, v)" by (cases "accept_metadata plan d") auto
    show ?thesis
    proof (cases "stream_manifest H opened plan n v t (re_rid re) (re_windows re)")
      case (Inl e)
      then show ?thesis using assms(1) Inr a False by (auto simp: metadata_part_def Let_def)
    next
      case ok: (Inr u)
      then have st: "stream_manifest H opened plan n v t (re_rid re) (re_windows re) = Inr ()" by simp
      have "round_streamed H plan re"
        using stream_manifest_streamed [OF st assms(2)] Inr a unfolding round_streamed_def by blast
      then show ?thesis using assms(1) Inr a False st by (auto simp: metadata_part_def Let_def)
    qed
  qed
qed

lemma handle_error_not_returned [simp]: "fst (handle_error re st e s) \<noteq> Returned d"
  by (cases e) (simp_all add: handle_error_def)

lemma handle_error_again:
  "fst (handle_error re st e s) = Again \<Longrightarrow> \<not> sd_need_metadata (snd (handle_error re st e s)) \<Longrightarrow> st = CompleteStage"
proof (cases e)
  case (Refusal code)
  assume "fst (handle_error re st e s) = Again" "\<not> sd_need_metadata (snd (handle_error re st e s))"
  then show ?thesis unfolding Refusal handle_error_def by (simp split: if_split_asm)
next
  case STimeout
  assume "fst (handle_error re st e s) = Again" "\<not> sd_need_metadata (snd (handle_error re st e s))"
  then show ?thesis unfolding STimeout by (cases st) (simp_all add: handle_error_def split: if_split_asm)
qed (simp_all add: handle_error_def split: if_split_asm)

lemma metadata_part_stage:
  "metadata_part H opened plan n re s = (Inl (st, e), s') \<Longrightarrow> st \<noteq> CompleteStage"
  by (auto simp: metadata_part_def Let_def split: sum.splits if_split_asm prod.splits)

text \<open>A round goes on without the metadata only after a stream went through, and returns only a grant.\<close>

lemma round_cases:
  assumes "delivery_round H opened plan n re s = (oc, s')" and "well_planned plan n"
    and "\<not> sd_need_metadata s \<Longrightarrow> P" and "round_streamed H plan re \<Longrightarrow> P"
  shows "(oc = Again \<longrightarrow> \<not> sd_need_metadata s' \<longrightarrow> P)
    \<and> (\<forall>d. oc = Returned d \<longrightarrow> has_grant d
        \<and> (res_bind (re_metadata re) result_of = Inr d \<or> P \<and> res_bind (re_complete re) result_of = Inr d))"
proof -
  obtain r s1 where m: "(if sd_need_metadata s then metadata_part H opened plan n re s else (Inr None, s)) = (r, s1)"
    by (cases "if sd_need_metadata s then metadata_part H opened plan n re s else (Inr None, s)")
  show ?thesis
  proof (cases r)
    case (Inl se)
    obtain st e where se: "se = (st, e)" by (cases se)
    have mp: "metadata_part H opened plan n re s = (Inl (st, e), s1)" using m Inl se by (simp split: if_split_asm)
    have "handle_error re st e s1 = (oc, s')" using assms(1) m Inl se by (simp add: delivery_round_def)
    then have o: "oc = fst (handle_error re st e s1)" "s' = snd (handle_error re st e s1)" by simp_all
    show ?thesis unfolding o using handle_error_again metadata_part_stage [OF mp] by auto
  next
    case (Inr od)
    show ?thesis
    proof (cases od)
      case (Some d)
      have mp: "metadata_part H opened plan n re s = (Inr (Some d), s1)" using m Inr Some by (simp split: if_split_asm)
      have "(oc, s') = (Returned d, s1)" using assms(1) m Inr Some by (simp add: delivery_round_def)
      then show ?thesis using metadata_part_cases [OF mp assms(2)] by simp
    next
      case None
      have P: P
      proof (cases "sd_need_metadata s")
        case True
        then have mp: "metadata_part H opened plan n re s = (Inr None, s1)" using m Inr None by simp
        show ?thesis using metadata_part_cases [OF mp assms(2)] assms(4) by simp
      qed (rule assms(3))
      show ?thesis
      proof (cases "complete_part re")
        case (Inl se)
        obtain st e where se: "se = (st, e)" by (cases se)
        have "handle_error re st e s1 = (oc, s')" using assms(1) m Inr None Inl se by (simp add: delivery_round_def)
        then have o: "oc = fst (handle_error re st e s1)" by simp
        show ?thesis unfolding o using P by simp
      next
        case ok: (Inr d)
        have "(oc, s') = (Returned d, s1)" using assms(1) m Inr None ok by (simp add: delivery_round_def)
        moreover have "has_grant d \<and> res_bind (re_complete re) result_of = Inr d"
          using ok by (auto simp: complete_part_def split: sum.splits if_split_asm)
        ultimately show ?thesis using P by simp
      qed
    qed
  qed
qed

lemma run_rounds_granted:
  assumes "run_rounds H opened plan n res s = (Returned d, s')" and "well_planned plan n"
    and "\<not> sd_need_metadata s \<longrightarrow> (\<exists>re\<in>past. round_streamed H plan re)"
  shows "has_grant d \<and> ((\<exists>re\<in>set res. res_bind (re_metadata re) result_of = Inr d)
    \<or> (\<exists>re\<in>set res. res_bind (re_complete re) result_of = Inr d) \<and> (\<exists>re\<in>past \<union> set res. round_streamed H plan re))"
  using assms(1,3)
proof (induction res arbitrary: s past)
  case (Cons re res)
  obtain oc t where r: "delivery_round H opened plan n re s = (oc, t)" by (cases "delivery_round H opened plan n re s")
  let ?P = "\<exists>re\<in>insert re past. round_streamed H plan re"
  have c: "(oc = Again \<longrightarrow> \<not> sd_need_metadata t \<longrightarrow> ?P)
    \<and> (\<forall>d. oc = Returned d \<longrightarrow> has_grant d
        \<and> (res_bind (re_metadata re) result_of = Inr d \<or> ?P \<and> res_bind (re_complete re) result_of = Inr d))"
    by (rule round_cases [OF r assms(2)]) (use Cons.prems(2) in auto)
  show ?case
  proof (cases oc)
    case Again
    then have "run_rounds H opened plan n res t = (Returned d, s')" using Cons.prems(1) r by simp
    from Cons.IH [OF this, of "insert re past"] c Again show ?thesis by auto
  next
    case (Returned d')
    then have "d' = d" using Cons.prems(1) r by simp
    then show ?thesis using c Returned by auto
  next
    case (Raised e)
    then show ?thesis using Cons.prems(1) r by simp
  qed
qed simp


text \<open>A round in which one empty member is sent and acknowledged.\<close>

definition demo_round :: round_env where
  "demo_round = \<lparr>
     re_metadata = Inr (JObj [(''success'', JBool True), (''transfer_id'', JStr ''t''), (''verified_member_indices'', JArr [JNum 0])]),
     re_rid = (\<lambda>_. JStr ''r''),
     re_windows = (\<lambda>_. let a = \<lparr>ae_budget = True, ae_send = (\<lambda>_. None), ae_inbox = (\<lambda>_. []),
        ae_later = [Inr (JObj [(''success'', JBool True), (''action'', JStr ''vai.fulfillment.ack''), (''transfer_id'', JStr ''t''),
          (''acked_through_index'', JNum 2), (''status'', JStr ''continue'')])]\<rparr> in (a, a)),
     re_complete = Inr (JObj [(''success'', JBool True), (''token_id'', JStr ''k'')]),
     re_in_budget = True\<rparr>"

definition demo_limits :: transfer_limits where
  "demo_limits = \<lparr>dataset_max_members = 3, transfer_max_member_bytes = 100000, dataset_max_bytes = 100000\<rparr>"

definition demo_retained :: retained where
  "demo_retained = \<lparr>rt_members = demo_members, rt_mapping = [Some 2, Some 0, Some 1], rt_root_path = text_of ''/d''\<rparr>"

definition demo_plan :: "plan_member list" where
  "demo_plan =
     [\<lparr>pm_index = 0, pm_path = [text_of ''b.csv''], pm_size = 70000, pm_sha256 = replicate 64 97, pm_start_chunk = 0,
       pm_start_byte = 0, pm_chunks = 2\<rparr>,
      \<lparr>pm_index = 2, pm_path = [text_of ''a.csv''], pm_size = 0, pm_sha256 = replicate 64 99, pm_start_chunk = 2,
       pm_start_byte = 70000, pm_chunks = 1\<rparr>]"

lemma demo_load: "\<exists>hash. load_plan id id H demo_limits (Some demo_retained) hash = Inr (demo_plan, 3, 70000)"
proof -
  obtain mf where mf: "build_manifest id id H demo_members = Inr mf" "mf_members mf = demo_rows"
    using demo_manifest by blast
  have "load_plan id id H demo_limits (Some demo_retained) (mf_manifest_hash mf) = Inr (demo_plan, 3, 70000)"
    using mf by (simp add: load_plan_def lift_value_error_def demo_rows_def text_of_def member_chunks_def CHUNK_SIZE_def upt_rec
        insert_commute demo_limits_def demo_retained_def demo_plan_def)
  then show ?thesis ..
qed


end
