(* ===== verification/Directory.thy ===== *)
theory Directory
  imports Manifest
begin

text \<open>
  The registration of directories (app/services/directory_registration.py, the member routes of
  app/routers/datasets.py and app/services/member_migration.py).  A directory is a tree of entries
  in the order \<^verbatim>\<open>scandir\<close> has them; a regular file is what each attempt to read it meets.  The
  database is the list of its datasets, each with its members; an error leaves it as it was, since
  the callers own the transaction.
\<close>

section \<open>Reading a file\<close>

record fstat =
  fs_dev :: nat
  fs_ino :: nat
  fs_size :: nat
  fs_mtime :: nat
  fs_ctime :: nat

text \<open>
  An attempt: an \<^verbatim>\<open>OSError\<close>, or whether the file is regular, its state before, the bytes read, its
  state after, and that of the name.
\<close>

datatype read_attempt = ReadFails | ReadOnce bool fstat bytes fstat fstat

datatype reg_error =
    NonUtf8Entry | BadPath string | PathCollision | UnreadableEntry | NotRegular | DatasetMaxBytes
  | DatasetMaxMembers | ChangingEntry | DatasetNotFound | IntegrityError | ManifestError string

fun stable_read :: "(bytes \<Rightarrow> bytes) \<Rightarrow> nat \<Rightarrow> (fstat \<times> ustr) option \<Rightarrow> read_attempt list \<Rightarrow> reg_error + ustr \<times> fstat" where
  "stable_read H max_bytes previous [] = Inl ChangingEntry"
| "stable_read H max_bytes previous (ReadFails # rs) = Inl UnreadableEntry"
| "stable_read H max_bytes previous (ReadOnce regular before contents after named # rs) =
     (if \<not> regular then Inl NotRegular
      else if fs_size before > max_bytes \<or> length contents > max_bytes then Inl DatasetMaxBytes
      else let digest = hex_of (H contents); current = (after, digest) in
        if before = after \<and> after = named \<and> length contents = fs_size after then
          (if previous = Some current then Inr (digest, after) else stable_read H max_bytes (Some current) rs)
        else stable_read H max_bytes None rs)"

section \<open>The walk\<close>

datatype fs_node =
    RegularFile "nat \<Rightarrow> read_attempt"
  | Directory "fs_entry list"
  | Symlink
  | SpecialFile
  | Unreadable
and fs_entry = FsEntry ustr fs_node

definition JUNK_FILES :: "string list" where
  "JUNK_FILES = [''.DS_Store'', ''Thumbs.db'', ''.gitkeep'', ''.gitignore'', ''desktop.ini'']"

definition excluded :: "ustr \<Rightarrow> fs_node \<Rightarrow> bool" where
  "excluded name node \<longleftrightarrow> take 1 name = [46] \<or> name \<in> text_of ` set JUNK_FILES \<or> (case node of Symlink \<Rightarrow> True | _ \<Rightarrow> False)"

type_synonym found = "ustr \<times> ustr \<times> (nat \<Rightarrow> read_attempt)"

text \<open>
  The stack holds, for each open directory, the entries still to come and the prefix of their names.
  The result is what the generator yields, and the error that ends it, if any.
\<close>

function walk :: "(ustr \<Rightarrow> ustr) \<Rightarrow> (ustr \<Rightarrow> ustr) \<Rightarrow> (fs_entry list \<times> ustr) list \<Rightarrow> ustr set \<Rightarrow> found list \<times> reg_error option" where
  "walk nf cf [] seen = ([], None)"
| "walk nf cf (([], prefix) # stack) seen = walk nf cf stack seen"
| "walk nf cf ((FsEntry name node # entries, prefix) # stack) seen =
     (let entry_name = prefix @ name in
      if \<not> list_all scalar_value name then ([], Some NonUtf8Entry)
      else if excluded name node then walk nf cf ((entries, prefix) # stack) seen
      else case canonical_path nf entry_name of
        Inl e \<Rightarrow> ([], Some (BadPath e))
      | Inr canonical \<Rightarrow>
          if cf canonical \<in> seen then ([], Some PathCollision)
          else let seen' = insert (cf canonical) seen in
          (case node of
             Unreadable \<Rightarrow> ([], Some UnreadableEntry)
           | Directory es \<Rightarrow> walk nf cf ((es, entry_name @ [47]) # (entries, prefix) # stack) seen'
           | RegularFile reads \<Rightarrow>
               (let (ys, e) = walk nf cf ((entries, prefix) # stack) seen' in ((name, canonical, reads) # ys, e))
           | _ \<Rightarrow> walk nf cf ((entries, prefix) # stack) seen'))"
  by pat_completeness auto
termination
  by (relation "measure (\<lambda>(nf, cf, stack, seen). sum_list (map (\<lambda>s. size_list size (fst s) + 1) stack))") auto

declare walk.simps [simp del]

section \<open>The rows of a scan\<close>

text \<open>What a scan takes from outside: Unicode, the hash, file times as dates, and the settings.\<close>

record scan_env =
  se_nfc :: "ustr \<Rightarrow> ustr"
  se_casefold :: "ustr \<Rightarrow> ustr"
  se_upper :: "ustr \<Rightarrow> ustr"
  se_lower :: "ustr \<Rightarrow> ustr"
  se_hash :: "bytes \<Rightarrow> bytes"
  se_date :: "nat \<Rightarrow> nat"
  se_limits :: transfer_limits
  se_attempts :: nat

record dvalues =
  dv_path :: ustr
  dv_size :: nat
  dv_sha256 :: "ustr option"
  dv_type :: string
  dv_role :: string
  dv_sample :: bool
  dv_status :: string
  dv_reason :: "string option"
  dv_mtime :: "nat option"

text \<open>\<^verbatim>\<open>Path(name).suffix\<close>: from the last dot on, when it neither begins nor ends the name.\<close>

definition path_suffix :: "ustr \<Rightarrow> ustr" where
  "path_suffix name =
     (let ext = rev (takeWhile (\<lambda>c. c \<noteq> 46) (rev name)) in
      if ext \<noteq> [] \<and> length ext + 1 < length name then 46 # ext else [])"

definition member_detected_type :: "ustr \<Rightarrow> string" where
  "member_detected_type file_type =
     (case find (\<lambda>t. text_of t = file_type) PROCESSABLE_TYPES of Some t \<Rightarrow> t | None \<Rightarrow> ''unsupported'')"

definition contains :: "ustr \<Rightarrow> ustr \<Rightarrow> bool" where
  "contains w s \<longleftrightarrow> list_ex (\<lambda>i. take (length w) (drop i s) = w) [0..<Suc (length s)]"

definition suggested_role :: "(ustr \<Rightarrow> ustr) \<Rightarrow> ustr \<Rightarrow> string \<Rightarrow> string" where
  "suggested_role upper path detected_type =
     (let name = upper (last (split_on 47 path)) in
      if list_ex (\<lambda>w. take (length w) name = text_of w) [''README'', ''HOW_TO_USE'', ''LICENSE'']
         \<or> contains (text_of ''DESCRIPTION'') name
      then ''documentation''
      else if detected_type = ''unsupported'' then ''other'' else ''data'')"

definition scanned_values :: "scan_env \<Rightarrow> ustr \<Rightarrow> ustr \<Rightarrow> ustr \<Rightarrow> fstat \<Rightarrow> dvalues" where
  "scanned_values en name path digest info =
     (let detected = member_detected_type (dropWhile (\<lambda>c. c = 46) (se_lower en (path_suffix name))) in
      \<lparr>dv_path = path, dv_size = fs_size info, dv_sha256 = Some digest, dv_type = detected,
       dv_role = suggested_role (se_upper en) path detected, dv_sample = False,
       dv_status = (if detected = ''unsupported'' then ''unsupported'' else ''current''),
       dv_reason = (if detected = ''unsupported'' then Some ''unsupported_type'' else None),
       dv_mtime = Some (se_date en (fs_mtime info))\<rparr>)"

fun scan_rows :: "scan_env \<Rightarrow> nat \<Rightarrow> nat \<Rightarrow> found list \<Rightarrow> reg_error option \<Rightarrow> reg_error + dvalues list" where
  "scan_rows en n used [] e = (case e of None \<Rightarrow> Inr [] | Some x \<Rightarrow> Inl x)"
| "scan_rows en n used ((name, path, reads) # ys) e =
     (if n \<ge> dataset_max_members (se_limits en) then Inl DatasetMaxMembers
      else res_bind (stable_read (se_hash en) (dataset_max_bytes (se_limits en) - used) None (map reads [0..<se_attempts en]))
        (\<lambda>(digest, info). res_bind (scan_rows en (n + 1) (used + fs_size info) ys e)
          (\<lambda>rows. Inr (scanned_values en name path digest info # rows))))"

definition scan_root :: "scan_env \<Rightarrow> fs_node \<Rightarrow> reg_error + dvalues list" where
  "scan_root en tree =
     (case tree of
        Directory es \<Rightarrow>
          (let (ys, e) = walk (se_nfc en) (se_casefold en) [(es, [])] {} in
           res_bind (scan_rows en 0 0 ys e) (\<lambda>rows. Inr (sort_key dv_path rows)))
      | _ \<Rightarrow> Inl UnreadableEntry)"

section \<open>Members and datasets\<close>

record dmember = dvalues +
  dm_index :: nat
  dm_updated :: nat

record ddataset =
  dd_id :: string
  dd_type :: string
  dd_original :: ustr
  dd_storage :: ustr
  dd_root :: "ustr option"
  dd_processed :: "ustr option"
  dd_size :: nat
  dd_directory :: "manifest option"
  dd_listing :: "string option"
  dd_members :: "dmember list"

text \<open>The constraints of the table, checked when changes are flushed.\<close>

definition member_ok :: "dmember \<Rightarrow> bool" where
  "member_ok m \<longleftrightarrow> dv_role m \<in> {''data'', ''documentation'', ''other''}
     \<and> dv_status m \<in> {''current'', ''removed'', ''missing'', ''unsupported''} \<and> (dv_sample m \<longrightarrow> dv_role m = ''data'')"

definition flush_members :: "ddataset \<Rightarrow> reg_error + ddataset" where
  "flush_members d =
     (if distinct (map dm_index (dd_members d)) \<and> distinct (map dv_path (dd_members d)) \<and> list_all member_ok (dd_members d)
      then Inr d else Inl IntegrityError)"

definition to_member :: "dmember \<Rightarrow> member" where
  "to_member m = \<lparr>mb_index = Some (int (dm_index m)), mb_path = dv_path m, mb_size = Some (int (dv_size m)),
     mb_sha256 = dv_sha256 m, mb_type = Some (dv_type m), mb_role = Some (dv_role m), mb_sample = Some (dv_sample m)\<rparr>"

definition live_members :: "ddataset \<Rightarrow> dmember list" where
  "live_members d = sort_key dm_index (filter (\<lambda>m. dv_status m \<noteq> ''removed'') (dd_members d))"

text \<open>The metadata keep the manifest without its members.\<close>

definition refresh_directory_metadata :: "scan_env \<Rightarrow> ddataset \<Rightarrow> reg_error + ddataset" where
  "refresh_directory_metadata en d =
     (if list_ex (\<lambda>m. dv_status m = ''missing'') (live_members d) then Inr (d\<lparr>dd_directory := None\<rparr>)
      else case build_manifest (se_nfc en) (se_casefold en) (se_hash en) (map to_member (live_members d)) of
        Inl e \<Rightarrow> Inl (ManifestError e)
      | Inr mf \<Rightarrow> Inr (d\<lparr>dd_directory := Some (mf\<lparr>mf_members := []\<rparr>), dd_size := mf_total_data_bytes mf\<rparr>))"

section \<open>Storing a scan\<close>

text \<open>A known path keeps its index, role and sample choice.\<close>

definition update_member :: "nat \<Rightarrow> dvalues \<Rightarrow> dmember \<Rightarrow> dmember" where
  "update_member now v m =
     (let m' = m\<lparr>dv_path := dv_path v, dv_size := dv_size v, dv_sha256 := dv_sha256 v, dv_type := dv_type v,
                 dv_status := dv_status v, dv_reason := dv_reason v, dv_mtime := dv_mtime v\<rparr>
      in if m' = m then m else m'\<lparr>dm_updated := now\<rparr>)"

fun store_rows :: "nat \<Rightarrow> ustr set \<Rightarrow> dvalues list \<Rightarrow> nat \<Rightarrow> dmember list \<Rightarrow> dmember list" where
  "store_rows now old [] next_index ms = ms"
| "store_rows now old (v # vs) next_index ms =
     (if dv_path v \<in> old
      then store_rows now old vs next_index (map (\<lambda>m. if dv_path m = dv_path v then update_member now v m else m) ms)
      else store_rows now old vs (next_index + 1) (ms @ [dvalues.extend v (dmember.fields next_index now)]))"

definition next_index :: "dmember list \<Rightarrow> nat" where
  "next_index ms = fold (\<lambda>m n. max (dm_index m + 1) n) ms 0"

definition mark_removed :: "nat \<Rightarrow> ustr set \<Rightarrow> ustr set \<Rightarrow> dmember \<Rightarrow> dmember" where
  "mark_removed now old present m =
     (if dv_path m \<in> old \<and> dv_path m \<notin> present \<and> dv_status m \<noteq> ''removed''
      then m\<lparr>dv_status := ''removed'', dm_updated := now\<rparr> else m)"

definition store_scan :: "scan_env \<Rightarrow> nat \<Rightarrow> ustr \<Rightarrow> dvalues list \<Rightarrow> ddataset \<Rightarrow> reg_error + ddataset" where
  "store_scan en now base rows d =
     (let name = last (split_on 47 base);
          old = dv_path ` set (dd_members d);
          ms = map (mark_removed now old (dv_path ` set rows))
                 (store_rows now old rows (next_index (dd_members d)) (dd_members d));
          d' = d\<lparr>dd_root := Some base, dd_type := ''directory'', dd_original := name, dd_storage := name,
                 dd_processed := None, dd_members := ms\<rparr>
      in res_bind (flush_members d') (refresh_directory_metadata en))"

definition new_dataset :: "string \<Rightarrow> ddataset" where
  "new_dataset i = \<lparr>dd_id = i, dd_type = ''directory'', dd_original = [], dd_storage = [], dd_root = None, dd_processed = None,
     dd_size = 0, dd_directory = None, dd_listing = None, dd_members = []\<rparr>"

text \<open>The dataset is the given one, or the directory registered at the same root, or a new one.\<close>

definition put_dataset :: "ddataset \<Rightarrow> ddataset list \<Rightarrow> ddataset list" where
  "put_dataset d db = map (\<lambda>x. if dd_id x = dd_id d then d else x) db"

definition register_directory ::
  "scan_env \<Rightarrow> nat \<Rightarrow> string \<Rightarrow> ustr \<Rightarrow> fs_node \<Rightarrow> string option \<Rightarrow> ddataset list \<Rightarrow> reg_error + ddataset \<times> ddataset list" where
  "register_directory en now fresh base tree dataset_id db =
     res_bind (scan_root en tree) (\<lambda>rows.
       let target = (case dataset_id of
             Some i \<Rightarrow> (case find (\<lambda>d. dd_id d = i) db of None \<Rightarrow> Inl DatasetNotFound | Some d \<Rightarrow> Inr (Some d))
           | None \<Rightarrow> Inr (find (\<lambda>d. dd_root d = Some base \<and> dd_type d = ''directory'') db))
       in res_bind target (\<lambda>t. case t of
            Some d \<Rightarrow> res_bind (store_scan en now base rows d) (\<lambda>d'. Inr (d', put_dataset d' db))
          | None \<Rightarrow>
              if fresh \<in> dd_id ` set db then Inl IntegrityError
              else res_bind (store_scan en now base rows (new_dataset fresh)) (\<lambda>d'. Inr (d', db @ [d']))))"

section \<open>The choices of the seller, and legacy rows\<close>

text \<open>
  \<^verbatim>\<open>patch_dataset_member\<close>: the fields of the body as given (\<open>None\<close> unset, \<open>Some None\<close> null); the
  error is the HTTP status.
\<close>

definition chosen_role :: "string option option \<Rightarrow> dmember \<Rightarrow> string" where
  "chosen_role role m = (case role of Some (Some ro) \<Rightarrow> ro | _ \<Rightarrow> dv_role m)"

definition patched :: "nat \<Rightarrow> string option option \<Rightarrow> bool option option \<Rightarrow> dmember \<Rightarrow> dmember" where
  "patched now role sample m =
     (let ro = chosen_role role m; sa = (case sample of Some (Some b) \<Rightarrow> b | _ \<Rightarrow> dv_sample m) in
      m\<lparr>dv_role := ro, dv_sample := (if ro = ''data'' then sa else False), dm_updated := now\<rparr>)"

definition patch_member ::
  "scan_env \<Rightarrow> nat \<Rightarrow> string \<Rightarrow> nat \<Rightarrow> string option option \<Rightarrow> bool option option \<Rightarrow> ddataset list \<Rightarrow> nat + ddataset list" where
  "patch_member en now dataset_id index role sample db =
     (if role = None \<and> sample = None \<or> role = Some None \<or> sample = Some None
         \<or> (case role of Some (Some ro) \<Rightarrow> ro \<notin> set ROLES | _ \<Rightarrow> False) then Inl 422
      else case find (\<lambda>d. dd_id d = dataset_id) db of
        None \<Rightarrow> Inl 404
      | Some d \<Rightarrow>
          if truthy (dd_listing d) then Inl 409
          else case find (\<lambda>m. dm_index m = index) (dd_members d) of
            None \<Rightarrow> Inl 404
          | Some m \<Rightarrow>
              if sample = Some (Some True) \<and> chosen_role role m \<noteq> ''data'' then Inl 422
              else
                let d' = d\<lparr>dd_members := map (\<lambda>x. if dm_index x = index then patched now role sample m else x) (dd_members d)\<rparr> in
                case res_bind (flush_members d')
                       (\<lambda>e. if truthy (dd_root d) then refresh_directory_metadata en e else Inr e) of
                  Inl _ \<Rightarrow> Inl 500
                | Inr d'' \<Rightarrow> Inr (put_dataset d'' db))"

text \<open>
  \<^verbatim>\<open>migrate_members\<close> on one dataset: \<open>parent\<close> and \<open>name\<close> are those of the file its record leads to,
  \<open>reads\<close> is \<open>None\<close> when that file is gone.
\<close>

definition migrate_member ::
  "scan_env \<Rightarrow> nat \<Rightarrow> ustr \<Rightarrow> ustr \<Rightarrow> read_attempt list option \<Rightarrow> ddataset \<Rightarrow> reg_error + ddataset" where
  "migrate_member en now parent name reads d =
     (if dd_type d = ''directory'' \<or> dd_members d \<noteq> [] then Inr d
      else
        let member = (\<lambda>path n h st why date.
              \<lparr>dv_path = path, dv_size = n, dv_sha256 = h, dv_type = member_detected_type (text_of (dd_type d)), dv_role = ''data'',
               dv_sample = False, dv_status = st, dv_reason = why, dv_mtime = date, dm_index = 0, dm_updated = now\<rparr>);
            finish = (\<lambda>m. flush_members (d\<lparr>dd_members := [m], dd_root := Some parent\<rparr>));
            canonical = (case canonical_path (se_nfc en) name of Inl e \<Rightarrow> Inl (BadPath e) | Inr p \<Rightarrow> Inr p)
        in case reads of
          None \<Rightarrow> res_bind canonical (\<lambda>path. finish (member path 0 None ''missing'' (Some ''source_missing'') None))
        | Some rs \<Rightarrow>
            res_bind (stable_read (se_hash en) (dataset_max_bytes (se_limits en)) None rs) (\<lambda>(digest, info).
              res_bind canonical (\<lambda>path.
                finish (member path (fs_size info) (Some digest) ''current'' None (Some (se_date en (fs_mtime info)))))))"

section \<open>What a scan lists\<close>

text \<open>The regular files below a directory, in the order of the walk, with their names and paths.\<close>

fun visible :: "ustr \<Rightarrow> fs_entry list \<Rightarrow> found list" where
  "visible prefix [] = []"
| "visible prefix (FsEntry name node # es) =
     (if excluded name node then [] else case node of
        RegularFile reads \<Rightarrow> [(name, prefix @ name, reads)]
      | Directory ds \<Rightarrow> visible (prefix @ name @ [47]) ds
      | _ \<Rightarrow> []) @ visible prefix es"

definition canonical_found :: "(ustr \<Rightarrow> ustr) \<Rightarrow> found \<Rightarrow> found \<Rightarrow> bool" where
  "canonical_found nf y x \<longleftrightarrow> fst y = fst x \<and> snd (snd y) = snd (snd x) \<and> canonical_path nf (fst (snd x)) = Inr (fst (snd y))"

text \<open>The stack of the walk visits the tree in order, and no two paths it yields fold to the same text.\<close>

lemma walk_visible:
  assumes "walk nf cf stack seen = (ys, None)"
  shows "list_all2 (canonical_found nf) ys (concat (map (\<lambda>(es, prefix). visible prefix es) stack))
    \<and> distinct (map (\<lambda>y. cf (fst (snd y))) ys) \<and> (\<forall>y\<in>set ys. cf (fst (snd y)) \<notin> seen)"
  using assms
proof (induction nf cf stack seen arbitrary: ys rule: walk.induct)
  case (1 nf cf seen)
  then show ?case by (simp add: walk.simps)
next
  case (2 nf cf prefix stack seen)
  then show ?case by (simp add: walk.simps)
next
  case (3 nf cf name node entries prefix stack seen)
  let ?p = "prefix @ name" and ?st = "(entries, prefix) # stack"
  note w = "3.prems" [unfolded walk.simps(3) Let_def]
  have s: "list_all scalar_value name" using w by (simp split: if_split_asm)
  then have ns: "\<not> \<not> list_all scalar_value name" by simp
  show ?case
  proof (cases "excluded name node")
    case True
    then show ?thesis using "3.IH"(1) [OF refl] s w by simp
  next
    case False
    obtain c where c: "canonical_path nf ?p = Inr c" using w s False by (cases "canonical_path nf ?p") simp_all
    have new: "cf c \<notin> seen" using w s False c by (simp split: if_split_asm)
    let ?seen = "insert (cf c) seen"
    show ?thesis
    proof (cases node)
      case (RegularFile reads)
      obtain zs where z: "walk nf cf ?st ?seen = (zs, None)" "ys = (name, c, reads) # zs"
        using w s False c new RegularFile by (simp split: prod.splits)
      from "3.IH"(2) [OF refl ns False c new refl RegularFile z(1)] s show ?thesis
        using z(2) False RegularFile c new by (auto simp: canonical_found_def)
    next
      case (Directory ds)
      have z: "walk nf cf ((ds, ?p @ [47]) # ?st) ?seen = (ys, None)" using w s False c new Directory by simp
      from "3.IH"(3) [OF refl ns False c new refl Directory z] s show ?thesis
        using False Directory by auto
    next
      case SpecialFile
      have z: "walk nf cf ?st ?seen = (ys, None)" using w s False c new SpecialFile by simp
      from "3.IH"(5) [OF refl ns False c new refl SpecialFile z] s show ?thesis using False SpecialFile by auto
    qed (use w s False c new in \<open>auto simp: excluded_def\<close>)
  qed
qed

section \<open>Stable reads\<close>

text \<open>A read that is returned was made twice in a row, between equal states of the file.\<close>

definition steady :: "read_attempt \<Rightarrow> fstat \<Rightarrow> bytes \<Rightarrow> bool" where
  "steady r info contents \<longleftrightarrow> r = ReadOnce True info contents info info \<and> length contents = fs_size info"

lemma stable_read_steady:
  assumes "stable_read H limit previous rs = Inr (digest, info)"
    and "\<And>i h. previous = Some (i, h) \<Longrightarrow> \<exists>c. steady r i c \<and> h = hex_of (H c)"
  shows "\<exists>k b c. k < length rs \<and> steady ((r # rs) ! k) info b \<and> steady (rs ! k) info c \<and> H b = H c
    \<and> digest = hex_of (H c) \<and> fs_size info \<le> limit"
  using assms
proof (induction rs arbitrary: r previous)
  case (Cons a rs)
  show ?case
  proof (cases a)
    case (ReadOnce regular before contents after named)
    have r: "regular" "fs_size before \<le> limit" "length contents \<le> limit"
      using Cons.prems(1) ReadOnce by (simp_all split: if_split_asm)
    let ?cur = "(after, hex_of (H contents))"
    show ?thesis
    proof (cases "before = after \<and> after = named \<and> length contents = fs_size after")
      case True
      then have st: "steady a after contents" using r ReadOnce by (simp add: steady_def)
      show ?thesis
      proof (cases "previous = Some ?cur")
        case prev: True
        then obtain b where "steady r after b" "hex_of (H contents) = hex_of (H b)" using Cons.prems(2) by blast
        then show ?thesis using Cons.prems(1) ReadOnce r True st prev by (intro exI [of _ 0] exI [of _ b] exI [of _ contents]) (simp add: hex_of_inj)
      next
        case False
        then have "stable_read H limit (Some ?cur) rs = Inr (digest, info)" using Cons.prems(1) ReadOnce r True by simp
        from Cons.IH [OF this, of a] st show ?thesis by (metis (no_types, lifting) Pair_inject length_Cons nth_Cons_Suc not_less_eq option.inject)
      qed
    next
      case False
      then have "stable_read H limit None rs = Inr (digest, info)" using Cons.prems(1) ReadOnce r by (simp only: stable_read.simps Let_def if_False if_True not_True_eq_False) (simp split: if_split_asm)
      from Cons.IH [OF this, of a] show ?thesis by (metis length_Cons nth_Cons_Suc not_less_eq option.distinct(1))
    qed
  qed (use Cons.prems in simp)
qed simp

text \<open>The rows of a scan, one for each file found, within the limits.\<close>

definition scanned_row :: "scan_env \<Rightarrow> dvalues \<Rightarrow> found \<Rightarrow> bool" where
  "scanned_row en v y \<longleftrightarrow> (\<exists>info k b c. Suc k < se_attempts en \<and> steady (snd (snd y) k) info b \<and> steady (snd (snd y) (Suc k)) info c
     \<and> se_hash en b = se_hash en c \<and> v = scanned_values en (fst y) (fst (snd y)) (hex_of (se_hash en c)) info)"

lemma scan_rows_read:
  assumes "scan_rows en n used ys e = Inr rows" and "used \<le> dataset_max_bytes (se_limits en)"
  shows "e = None \<and> list_all2 (scanned_row en) rows ys \<and> (rows \<noteq> [] \<longrightarrow> n + length rows \<le> dataset_max_members (se_limits en))
    \<and> used + sum_list (map dv_size rows) \<le> dataset_max_bytes (se_limits en)"
  using assms
proof (induction ys arbitrary: n used rows)
  case Nil
  then show ?case by (cases e) simp_all
next
  case (Cons y ys)
  obtain name path reads where y: "y = (name, path, reads)" by (cases y)
  let ?rs = "map reads [0..<se_attempts en]"
  have n: "n < dataset_max_members (se_limits en)" using Cons.prems y by (simp split: if_split_asm)
  obtain digest info rest where i: "stable_read (se_hash en) (dataset_max_bytes (se_limits en) - used) None ?rs = Inr (digest, info)"
      and r: "scan_rows en (n + 1) (used + fs_size info) ys e = Inr rest" "rows = scanned_values en name path digest info # rest"
    using Cons.prems y n by auto
  obtain k b c where k: "k < se_attempts en" "steady ((ReadFails # ?rs) ! k) info b" "steady (?rs ! k) info c" "se_hash en b = se_hash en c"
      "digest = hex_of (se_hash en c)" "fs_size info \<le> dataset_max_bytes (se_limits en) - used"
    using stable_read_steady [OF i, of ReadFails] by auto
  then have used: "used + fs_size info \<le> dataset_max_bytes (se_limits en)" using Cons.prems(2) by simp
  note ih = Cons.IH [OF r(1) used]
  obtain j where j: "k = Suc j" using k(2) by (cases k) (simp_all add: steady_def)
  then have "steady (reads j) info b" "steady (reads (Suc j)) info c" using k(1-3) by simp_all
  then have "scanned_row en (scanned_values en name path digest info) y" using k j y by (auto simp: scanned_row_def)
  then show ?case using ih r(2) n by (auto simp: scanned_values_def Let_def)
qed

section \<open>Scanned values\<close>

definition values_ok :: "(ustr \<Rightarrow> ustr) \<Rightarrow> 'a dvalues_scheme \<Rightarrow> bool" where
  "values_ok nf v \<longleftrightarrow> canonical_path nf (dv_path v) = Inr (dv_path v) \<and> (\<exists>h. dv_sha256 v = Some h \<and> is_sha256_hex h)
     \<and> dv_type v \<in> set PROCESSABLE_TYPES \<union> {''unsupported''} \<and> dv_role v \<in> set ROLES \<and> (dv_sample v \<longrightarrow> dv_role v = ''data'')"

lemma hex_of_sha256: "length b = 32 \<Longrightarrow> is_sha256_hex (hex_of b)"
proof -
  have "length (hex_of b) = 2 * length b" for b by (induction b) (simp_all add: hex_of_def)
  moreover have "list_all (\<lambda>c. 48 \<le> c \<and> c \<le> 57 \<or> 97 \<le> c \<and> c \<le> 102) (hex_of b)" for b
  proof (induction b)
    case (Cons a b)
    have "unat a < 256" by simp
    then have "unat a div 16 < 16" "unat a mod 16 < 16" by simp_all
    then have "unat a div 16 \<le> 15" "unat a mod 16 \<le> 15" by linarith+
    then show ?case using Cons by (simp add: hex_of_def TrustClient.hex_digit_def)
  qed (simp add: hex_of_def)
  ultimately show "length b = 32 \<Longrightarrow> is_sha256_hex (hex_of b)" by (simp add: is_sha256_hex_def)
qed

lemma canonical_path_idem:
  assumes "canonical_path nf p = Inr c" and "nf c = c"
  shows "canonical_path nf c = Inr c"
proof -
  have "nf p = c" "list_all scalar_value c"
    using assms(1) by (auto simp: canonical_path_def Let_def encode_utf8_def split: if_split_asm)
  then show ?thesis using assms by (auto simp: canonical_path_def Let_def split: if_split_asm)
qed

definition scanned_ok :: "scan_env \<Rightarrow> dvalues list \<Rightarrow> bool" where
  "scanned_ok en rows \<longleftrightarrow> distinct (map (\<lambda>v. se_casefold en (dv_path v)) rows)
     \<and> list_all (\<lambda>v. values_ok (se_nfc en) v \<and> \<not> dv_sample v \<and> dv_status v \<in> {''current'', ''unsupported''}) rows"

text \<open>A hash of 32 bytes and an idempotent normal form: what SHA-256 and NFC are.\<close>

definition proper_env :: "scan_env \<Rightarrow> bool" where
  "proper_env en \<longleftrightarrow> (\<forall>b. length (se_hash en b) = 32) \<and> (\<forall>x. se_nfc en (se_nfc en x) = se_nfc en x)"

lemma detected_type_known: "member_detected_type s \<in> set PROCESSABLE_TYPES \<union> {''unsupported''}"
  by (auto simp: member_detected_type_def find_Some_iff in_set_conv_nth split: option.split)

lemma suggested_role_known: "suggested_role up p t \<in> set ROLES"
  by (simp add: suggested_role_def ROLES_def Let_def)

lemma scanned_row_ok:
  assumes "proper_env en" and "scanned_row en v y" and "canonical_path (se_nfc en) p = Inr (fst (snd y))"
  shows "values_ok (se_nfc en) v \<and> \<not> dv_sample v \<and> dv_status v \<in> {''current'', ''unsupported''} \<and> dv_path v = fst (snd y)"
proof -
  have "fst (snd y) = se_nfc en p" using assms(3) by (auto simp: canonical_path_def Let_def split: if_split_asm)
  then have "canonical_path (se_nfc en) (fst (snd y)) = Inr (fst (snd y))"
    using assms(1,3) by (intro canonical_path_idem [OF assms(3)]) (simp add: proper_env_def)
  moreover obtain info c where "v = scanned_values en (fst y) (fst (snd y)) (hex_of (se_hash en c)) info"
    using assms(2) by (auto simp: scanned_row_def)
  moreover have "is_sha256_hex (hex_of (se_hash en c))" using assms(1) by (intro hex_of_sha256) (simp add: proper_env_def)
  ultimately show ?thesis using detected_type_known suggested_role_known
    by (simp add: scanned_values_def Let_def values_ok_def)
qed

text \<open>The rows before they are sorted, against the tree.\<close>

lemma scan_root_rows:
  assumes "scan_root en (Directory es) = Inr rows"
  shows "\<exists>ys unsorted. rows = sort_key dv_path unsorted \<and> list_all2 (scanned_row en) unsorted ys
    \<and> list_all2 (canonical_found (se_nfc en)) ys (visible [] es) \<and> distinct (map (\<lambda>y. se_casefold en (fst (snd y))) ys)
    \<and> length unsorted \<le> dataset_max_members (se_limits en) \<and> sum_list (map dv_size unsorted) \<le> dataset_max_bytes (se_limits en)"
proof -
  obtain ys e where w: "walk (se_nfc en) (se_casefold en) [(es, [])] {} = (ys, e)"
    by (cases "walk (se_nfc en) (se_casefold en) [(es, [])] {}")
  then obtain unsorted where u: "scan_rows en 0 0 ys e = Inr unsorted" "rows = sort_key dv_path unsorted"
    using assms by (auto simp: scan_root_def)
  note r = scan_rows_read [OF u(1)]
  have "e = None" using r by simp
  with w have "list_all2 (canonical_found (se_nfc en)) ys (visible [] es) \<and> distinct (map (\<lambda>y. se_casefold en (fst (snd y))) ys)"
    using walk_visible [of "se_nfc en" "se_casefold en" "[(es, [])]" "{}" ys] by simp
  then show ?thesis using r u(2) by (intro exI [of _ ys] exI [of _ unsorted]) (cases "unsorted = []"; simp)
qed

lemma scan_root_tree: "scan_root en tree = Inr rows \<Longrightarrow> \<exists>es. tree = Directory es"
  by (cases tree) (simp_all add: scan_root_def)

lemma scan_root_ok:
  assumes "proper_env en" and "scan_root en tree = Inr rows"
  shows "scanned_ok en rows"
proof -
  obtain es where "tree = Directory es" using scan_root_tree [OF assms(2)] by blast
  then obtain ys unsorted where u: "rows = sort_key dv_path unsorted" "list_all2 (scanned_row en) unsorted ys"
      "list_all2 (canonical_found (se_nfc en)) ys (visible [] es)" "distinct (map (\<lambda>y. se_casefold en (fst (snd y))) ys)"
    using scan_root_rows assms(2) by blast
  have each: "values_ok (se_nfc en) (unsorted ! i) \<and> \<not> dv_sample (unsorted ! i) \<and> dv_status (unsorted ! i) \<in> {''current'', ''unsupported''}
      \<and> dv_path (unsorted ! i) = fst (snd (ys ! i))" if i: "i < length ys" for i
  proof (rule scanned_row_ok [OF assms(1)])
    show "scanned_row en (unsorted ! i) (ys ! i)" using u(2) i by (auto simp: list_all2_conv_all_nth)
    show "canonical_path (se_nfc en) (fst (snd (visible [] es ! i))) = Inr (fst (snd (ys ! i)))"
      using u(3) i by (auto simp: list_all2_conv_all_nth canonical_found_def)
  qed
  have len: "length unsorted = length ys" using u(2) by (rule list_all2_lengthD)
  have "map (\<lambda>v. se_casefold en (dv_path v)) unsorted = map (\<lambda>y. se_casefold en (fst (snd y))) ys"
    using each len by (intro nth_equalityI) simp_all
  then have "distinct (map (\<lambda>v. se_casefold en (dv_path v)) unsorted)" using u(4) by simp
  then have "distinct (map (\<lambda>v. se_casefold en (dv_path v)) rows)"
    unfolding u(1) by (metis distinct_map set_sort distinct_sort inj_on_def)
  moreover have "values_ok (se_nfc en) v \<and> \<not> dv_sample v \<and> dv_status v \<in> {''current'', ''unsupported''}" if "v \<in> set rows" for v
    using that each len by (auto simp: u(1) in_set_conv_nth [of v unsorted])
  ultimately show ?thesis by (auto simp: scanned_ok_def list_all_iff)
qed

section \<open>Storing\<close>

text \<open>What becomes of a known member, and the members that are new.\<close>

definition stored :: "nat \<Rightarrow> dvalues list \<Rightarrow> dmember \<Rightarrow> dmember" where
  "stored now rows m =
     (case find (\<lambda>v. dv_path v = dv_path m) rows of
        Some v \<Rightarrow> update_member now v m
      | None \<Rightarrow> if dv_status m \<noteq> ''removed'' then m\<lparr>dv_status := ''removed'', dm_updated := now\<rparr> else m)"

definition new_member :: "nat \<Rightarrow> nat \<Rightarrow> dvalues \<Rightarrow> dmember" where
  "new_member now i v = dvalues.extend v (dmember.fields i now)"

definition new_members :: "nat \<Rightarrow> nat \<Rightarrow> dvalues list \<Rightarrow> dmember list" where
  "new_members now n vs = map2 (new_member now) [n..<n + length vs] vs"

lemma new_member_simps [simp]:
  "dv_path (new_member now i v) = dv_path v" "dv_size (new_member now i v) = dv_size v"
  "dv_sha256 (new_member now i v) = dv_sha256 v" "dv_type (new_member now i v) = dv_type v"
  "dv_role (new_member now i v) = dv_role v" "dv_sample (new_member now i v) = dv_sample v"
  "dv_status (new_member now i v) = dv_status v" "dm_index (new_member now i v) = i"
  "dv_reason (new_member now i v) = dv_reason v" "dv_mtime (new_member now i v) = dv_mtime v"
  by (simp_all add: new_member_def dvalues.defs dmember.defs)

lemma update_member_simps [simp]:
  "dv_path (update_member now v m) = dv_path v" "dv_size (update_member now v m) = dv_size v"
  "dv_sha256 (update_member now v m) = dv_sha256 v" "dv_type (update_member now v m) = dv_type v"
  "dv_role (update_member now v m) = dv_role m" "dv_sample (update_member now v m) = dv_sample m"
  "dv_status (update_member now v m) = dv_status v" "dm_index (update_member now v m) = dm_index m"
  "dv_reason (update_member now v m) = dv_reason v" "dv_mtime (update_member now v m) = dv_mtime v"
  by (cases m; auto simp: update_member_def Let_def)+

lemma find_path: "find (\<lambda>v. dv_path v = p) rows = Some v \<Longrightarrow> v \<in> set rows \<and> dv_path v = p"
  by (auto simp: find_Some_iff in_set_conv_nth)

lemma find_path_None: "find (\<lambda>v. dv_path v = p) rows = None \<longleftrightarrow> p \<notin> dv_path ` set rows"
  by (auto simp: find_None_iff)

lemma find_path_distinct: "distinct (map dv_path rows) \<Longrightarrow> v \<in> set rows \<Longrightarrow> find (\<lambda>w. dv_path w = dv_path v) rows = Some v"
  by (induction rows) auto

lemma new_members_Nil [simp]: "new_members now n [] = []"
  by (simp add: new_members_def)

lemma new_members_Cons [simp]: "new_members now n (v # vs) = new_member now n v # new_members now (n + 1) vs"
  by (simp add: new_members_def upt_rec)

definition updated :: "nat \<Rightarrow> dvalues list \<Rightarrow> dmember \<Rightarrow> dmember" where
  "updated now rows m = (case find (\<lambda>v. dv_path v = dv_path m) rows of Some v \<Rightarrow> update_member now v m | None \<Rightarrow> m)"

lemma store_rows_members:
  assumes "distinct (map dv_path rows)" and "\<And>m. m \<in> set ms \<Longrightarrow> dv_path m \<in> dv_path ` set rows \<Longrightarrow> dv_path m \<in> old"
  shows "store_rows now old rows n ms = map (updated now rows) ms @ new_members now n (filter (\<lambda>v. dv_path v \<notin> old) rows)"
  using assms
proof (induction rows arbitrary: n ms)
  case Nil
  then show ?case by (simp add: updated_def)
next
  case (Cons v vs)
  show ?case
  proof (cases "dv_path v \<in> old")
    case True
    let ?u = "\<lambda>m. if dv_path m = dv_path v then update_member now v m else m"
    have "store_rows now old vs n (map ?u ms) = map (updated now vs) (map ?u ms) @ new_members now n (filter (\<lambda>v. dv_path v \<notin> old) vs)"
      by (rule Cons.IH) (use Cons.prems in \<open>auto split: if_split_asm\<close>)
    moreover have "updated now vs (?u m) = updated now (v # vs) m" for m
    proof (cases "dv_path m = dv_path v")
      case True
      then have "find (\<lambda>w. dv_path w = dv_path v) vs = None" using Cons.prems(1) by (simp add: find_path_None)
      then show ?thesis using True by (simp add: updated_def)
    qed (auto simp: updated_def)
    ultimately show ?thesis using True by simp
  next
    case False
    have new: "new_member now n v = dvalues.extend v (dmember.fields n now)" by (simp add: new_member_def)
    have "store_rows now old vs (n + 1) (ms @ [new_member now n v])
        = map (updated now vs) (ms @ [new_member now n v]) @ new_members now (n + 1) (filter (\<lambda>v. dv_path v \<notin> old) vs)"
      by (rule Cons.IH) (use Cons.prems in auto)
    moreover have "updated now vs m = updated now (v # vs) m" if "m \<in> set ms" for m
      using Cons.prems(2) [OF that] False by (auto simp: updated_def)
    moreover have "updated now vs (new_member now n v) = new_member now n v"
    proof -
      have "find (\<lambda>w. dv_path w = dv_path v) vs = None" using Cons.prems(1) by (simp add: find_path_None)
      then show ?thesis by (simp add: updated_def)
    qed
    ultimately show ?thesis using False by (simp add: new [symmetric])
  qed
qed

definition stored_members :: "nat \<Rightarrow> dvalues list \<Rightarrow> dmember list \<Rightarrow> dmember list" where
  "stored_members now rows ms = map (stored now rows) ms
     @ new_members now (next_index ms) (filter (\<lambda>v. dv_path v \<notin> dv_path ` set ms) rows)"

lemma new_members_path: "m \<in> set (new_members now n vs) \<Longrightarrow> dv_path m \<in> dv_path ` set vs"
  by (induction vs arbitrary: n) auto

lemma store_members:
  assumes "distinct (map dv_path rows)"
  shows "map (mark_removed now (dv_path ` set ms) (dv_path ` set rows)) (store_rows now (dv_path ` set ms) rows (next_index ms) ms)
    = stored_members now rows ms"
proof -
  have "mark_removed now (dv_path ` set ms) (dv_path ` set rows) (updated now rows m) = stored now rows m" if m: "m \<in> set ms" for m
  proof (cases "find (\<lambda>v. dv_path v = dv_path m) rows")
    case None
    then have "dv_path m \<notin> dv_path ` set rows" by (simp add: find_path_None)
    then show ?thesis using m None by (auto simp: updated_def stored_def mark_removed_def)
  next
    case (Some v)
    then have "dv_path m \<in> dv_path ` set rows" using find_path [OF Some] by (metis imageI)
    then show ?thesis using Some by (simp add: updated_def stored_def mark_removed_def find_path [OF Some])
  qed
  moreover have "mark_removed now (dv_path ` set ms) (dv_path ` set rows) m = m"
    if "m \<in> set (new_members now (next_index ms) (filter (\<lambda>v. dv_path v \<notin> dv_path ` set ms) rows))" for m
    using new_members_path [OF that] by (auto simp: mark_removed_def)
  ultimately show ?thesis
    by (subst store_rows_members [OF assms]) (auto simp: stored_members_def intro: map_idI)
qed

section \<open>Datasets\<close>

definition dataset_ok :: "ddataset \<Rightarrow> bool" where
  "dataset_ok d \<longleftrightarrow> distinct (map dm_index (dd_members d)) \<and> distinct (map dv_path (dd_members d)) \<and> list_all member_ok (dd_members d)"

lemma flush_ok: "flush_members d = Inr d' \<longleftrightarrow> d' = d \<and> dataset_ok d"
  by (auto simp: flush_members_def dataset_ok_def)

lemma next_index_above: "m \<in> set ms \<Longrightarrow> dm_index m < next_index ms"
proof -
  have "n \<le> fold (\<lambda>m n. max (dm_index m + 1) n) ms n \<and> (\<forall>m\<in>set ms. dm_index m < fold (\<lambda>m n. max (dm_index m + 1) n) ms n)" for n :: nat
  proof (induction ms arbitrary: n)
    case (Cons m ms)
    from Cons [of "max (dm_index m + 1) n"] show ?case by auto
  qed simp
  then show "m \<in> set ms \<Longrightarrow> dm_index m < next_index ms" by (simp add: next_index_def)
qed

lemma new_members_index: "map dm_index (new_members now n vs) = [n..<n + length vs]"
proof (induction vs arbitrary: n)
  case (Cons v vs)
  have "[n..<n + length (v # vs)] = n # [n + 1..<n + 1 + length vs]" using upt_conv_Cons [of n "n + length (v # vs)"] by (simp del: upt_Suc)
  then show ?case using Cons [of "n + 1"] by (simp del: upt_Suc)
qed simp

lemma new_members_paths: "map dv_path (new_members now n vs) = map dv_path vs"
  by (induction vs arbitrary: n) simp_all

lemma new_members_all: "list_all P (new_members now n vs)" if "\<And>i v. v \<in> set vs \<Longrightarrow> P (new_member now i v)"
  using that by (induction vs arbitrary: n) simp_all

lemma stored_simps [simp]:
  "dv_path (stored now rows m) = dv_path m" "dm_index (stored now rows m) = dm_index m"
  "dv_role (stored now rows m) = dv_role m" "dv_sample (stored now rows m) = dv_sample m"
proof -
  have "dv_path (stored now rows m) = dv_path m \<and> dm_index (stored now rows m) = dm_index m
    \<and> dv_role (stored now rows m) = dv_role m \<and> dv_sample (stored now rows m) = dv_sample m"
  proof (cases "find (\<lambda>v. dv_path v = dv_path m) rows")
    case (Some v)
    then show ?thesis by (simp add: stored_def find_path [OF Some])
  qed (simp add: stored_def)
  then show "dv_path (stored now rows m) = dv_path m" "dm_index (stored now rows m) = dm_index m"
      "dv_role (stored now rows m) = dv_role m" "dv_sample (stored now rows m) = dv_sample m"
    by simp_all
qed

lemma stored_members_index: "map dm_index (stored_members now rows ms)
    = map dm_index ms @ [next_index ms..<next_index ms + length (filter (\<lambda>v. dv_path v \<notin> dv_path ` set ms) rows)]"
  by (simp add: stored_members_def new_members_index comp_def)

lemma stored_members_path: "map dv_path (stored_members now rows ms)
    = map dv_path ms @ map dv_path (filter (\<lambda>v. dv_path v \<notin> dv_path ` set ms) rows)"
  by (simp add: stored_members_def new_members_paths comp_def)

lemma distinct_paths: "scanned_ok en rows \<Longrightarrow> distinct (map dv_path rows)"
  by (auto simp: scanned_ok_def distinct_map inj_on_def)

lemma scanned_status: "scanned_ok en rows \<Longrightarrow> v \<in> set rows \<Longrightarrow> dv_status v \<in> {''current'', ''unsupported''} \<and> values_ok (se_nfc en) v"
  by (auto simp: scanned_ok_def list_all_iff)

lemma stored_members_ok:
  assumes "dataset_ok d" and "scanned_ok en rows" and "dd_members d' = stored_members now rows (dd_members d)"
  shows "dataset_ok d'"
proof -
  let ?ms = "dd_members d"
  have "distinct (map dm_index (dd_members d'))"
    using assms(1) by (auto simp: assms(3) stored_members_index dataset_ok_def dest!: next_index_above)
  moreover have "distinct (map dv_path (dd_members d'))"
    using assms(1) distinct_paths [OF assms(2)] by (auto simp: assms(3) stored_members_path dataset_ok_def distinct_map_filter) (metis imageI)
  moreover have "list_all member_ok (dd_members d')"
  proof -
    have "member_ok (stored now rows m)" if "m \<in> set ?ms" for m
    proof -
      have m: "member_ok m" using that assms(1) by (auto simp: dataset_ok_def list_all_iff)
      show ?thesis
      proof (cases "find (\<lambda>v. dv_path v = dv_path m) rows")
        case (Some v)
        have "dv_status v \<in> {''current'', ''unsupported''}" using scanned_status [OF assms(2)] find_path [OF Some] by blast
        then show ?thesis using m Some by (auto simp: member_ok_def stored_def)
      qed (use m in \<open>simp add: member_ok_def stored_def\<close>)
    qed
    moreover have "member_ok (new_member now i v)" if "v \<in> set rows" for i v
      using scanned_status [OF assms(2) that] by (auto simp: member_ok_def values_ok_def ROLES_def)
    ultimately show ?thesis by (auto simp: assms(3) stored_members_def list_all_iff [of member_ok "map _ _"] intro!: new_members_all)
  qed
  ultimately show ?thesis by (simp add: dataset_ok_def)
qed

section \<open>The manifest of a directory\<close>

definition row_of :: "dmember \<Rightarrow> mrow" where
  "row_of m = \<lparr>r_index = dm_index m, r_path = dv_path m, r_size = dv_size m, r_sha256 = the (dv_sha256 m), r_type = dv_type m,
     r_role = dv_role m, r_sample = dv_sample m\<rparr>"

lemma member_tuple_row: "values_ok nf m \<Longrightarrow> member_tuple nf (to_member m) = Inr (row_of m)"
  by (auto simp: values_ok_def member_tuple_def to_member_def row_of_def)

lemma manifest_of_members:
  assumes "list_all (values_ok nf) ms" and "distinct (map dm_index ms)" and "distinct (map (\<lambda>m. cf (dv_path m)) ms)"
  shows "\<exists>mf. build_manifest nf cf H (map to_member ms) = Inr mf \<and> mf_members mf = map row_of ms"
proof -
  have rows: "res_map (member_tuple nf) (map to_member ms) = Inr (map row_of ms)"
    using assms(1) by (intro res_map_map member_tuple_row) (auto simp: list_all_iff)
  then have "list_all (valid_row nf) (map row_of ms)" by (rule res_map_valid)
  then obtain b where "signer_json_bytes (PList (map row_json (map row_of ms))) = Inr b" using rows_have_bytes by blast
  then show ?thesis using rows assms(2,3) by (simp add: build_manifest_def comp_def row_of_def)
qed

text \<open>The members in force after a registration are those of the scan.\<close>

lemma distinct_live: "dataset_ok d \<Longrightarrow> distinct (map dm_index (live_members d)) \<and> distinct (map dv_path (live_members d))"
proof -
  assume "dataset_ok d"
  then have "distinct (filter (\<lambda>m. dv_status m \<noteq> ''removed'') (dd_members d))"
    and "inj_on dm_index (set (live_members d))" and "inj_on dv_path (set (live_members d))"
    by (auto simp: dataset_ok_def live_members_def distinct_map intro: inj_on_subset)
  then show ?thesis by (simp add: live_members_def distinct_map)
qed

lemma live_stored:
  assumes "scanned_ok en rows" and "dd_members d' = stored_members now rows ms"
  shows "m \<in> set (live_members d') \<longleftrightarrow> m \<in> set (dd_members d') \<and> dv_path m \<in> dv_path ` set rows"
proof -
  have "dv_status m \<noteq> ''removed'' \<longleftrightarrow> dv_path m \<in> dv_path ` set rows" if m: "m \<in> set (dd_members d')"
  proof -
    consider (known) k where "k \<in> set ms" "m = stored now rows k"
      | (new) i v where "v \<in> set rows" "m = new_member now i v"
    proof -
      have "list_all (\<lambda>m. \<exists>i v. v \<in> set rows \<and> m = new_member now i v)
          (new_members now (next_index ms) (filter (\<lambda>v. dv_path v \<notin> dv_path ` set ms) rows))"
        by (rule new_members_all) auto
      then show thesis using m that by (auto simp: assms(2) stored_members_def list_all_iff)
    qed
    then show ?thesis
    proof cases
      case known
      show ?thesis
      proof (cases "find (\<lambda>v. dv_path v = dv_path k) rows")
        case (Some v)
        have "dv_status v \<in> {''current'', ''unsupported''}" using scanned_status [OF assms(1)] find_path [OF Some] by blast
        moreover have "dv_path m \<in> dv_path ` set rows" using find_path [OF Some] known by (metis imageI stored_simps(1))
        ultimately show ?thesis using known Some by (auto simp: stored_def)
      next
        case None
        then show ?thesis using known by (simp add: stored_def) (simp add: find_path_None)
      qed
    next
      case new
      then show ?thesis using scanned_status [OF assms(1) new(1)] by auto
    qed
  qed
  then show ?thesis by (auto simp: live_members_def)
qed

text \<open>Every row of the scan is a member, with the values of the scan.\<close>

lemma row_stored:
  assumes "scanned_ok en rows" and "v \<in> set rows"
  shows "\<exists>m\<in>set (stored_members now rows ms). dv_path m = dv_path v"
proof (cases "dv_path v \<in> dv_path ` set ms")
  case True
  then obtain k where "k \<in> set ms" "dv_path k = dv_path v" by auto
  then show ?thesis by (auto simp: stored_members_def intro!: bexI [of _ "stored now rows k"])
next
  case False
  then have "dv_path v \<in> set (map dv_path (stored_members now rows ms))"
    using assms(2) by (auto simp: stored_members_path)
  then show ?thesis by auto
qed

definition same_file :: "dmember \<Rightarrow> dvalues \<Rightarrow> bool" where
  "same_file m v \<longleftrightarrow> dv_path m = dv_path v \<and> dv_size m = dv_size v \<and> dv_sha256 m = dv_sha256 v \<and> dv_type m = dv_type v
     \<and> dv_status m = dv_status v \<and> dv_reason m = dv_reason v \<and> dv_mtime m = dv_mtime v"

lemma stored_file:
  assumes "scanned_ok en rows" and "m \<in> set (stored_members now rows ms)" and "v \<in> set rows" and "dv_path m = dv_path v"
  shows "same_file m v"
proof -
  note f = find_path_distinct [OF distinct_paths [OF assms(1)]]
  have new: "list_all (\<lambda>m. \<exists>i w. w \<in> set rows \<and> m = new_member now i w)
      (new_members now (next_index ms) (filter (\<lambda>v. dv_path v \<notin> dv_path ` set ms) rows))"
    by (rule new_members_all) auto
  show ?thesis
  proof (cases "m \<in> stored now rows ` set ms")
    case True
    then obtain k where k: "m = stored now rows k" by blast
    then have "dv_path k = dv_path v" using assms(4) by simp
    then have "m = update_member now v k" using k f [OF assms(3)] by (simp add: stored_def)
    then show ?thesis by (simp add: same_file_def)
  next
    case False
    then have "m \<in> set (new_members now (next_index ms) (filter (\<lambda>v. dv_path v \<notin> dv_path ` set ms) rows))"
      using assms(2) by (simp add: stored_members_def)
    then have "\<exists>i w. w \<in> set rows \<and> m = new_member now i w" using new unfolding list_all_iff by (rule bspec [rotated])
    then obtain i w where "w \<in> set rows" "m = new_member now i w" by blast
    moreover from this have "find (\<lambda>u. dv_path u = dv_path v) rows = Some w" using f [of w] assms(4) by simp
    ultimately show ?thesis using f [OF assms(3)] by (simp add: same_file_def)
  qed
qed

lemma live_values_ok:
  assumes "scanned_ok en rows" and "dataset_ok d'" and "dd_members d' = stored_members now rows ms" and "m \<in> set (live_members d')"
  shows "values_ok (se_nfc en) m"
proof -
  have m: "m \<in> set (dd_members d')" "dv_path m \<in> dv_path ` set rows" using live_stored [OF assms(1,3)] assms(4) by blast+
  then obtain v where v: "v \<in> set rows" "dv_path m = dv_path v" by auto
  have "same_file m v" by (rule stored_file [OF assms(1) _ v]) (use m assms(3) in simp)
  moreover have "member_ok m" using assms(2) m(1) by (auto simp: dataset_ok_def list_all_iff)
  ultimately show ?thesis using scanned_status [OF assms(1) v(1)]
    by (auto simp: values_ok_def same_file_def member_ok_def ROLES_def)
qed

definition same_dataset :: "ddataset \<Rightarrow> ustr \<Rightarrow> ddataset \<Rightarrow> bool" where
  "same_dataset d base d' \<longleftrightarrow> dd_id d' = dd_id d \<and> dd_listing d' = dd_listing d \<and> dd_root d' = Some base \<and> dd_type d' = ''directory''
     \<and> dd_processed d' = None \<and> dd_original d' = last (split_on 47 base) \<and> dd_storage d' = last (split_on 47 base)"

lemma stored_dataset:
  assumes "scanned_ok en rows" and "dataset_ok d"
  shows "\<exists>d' mf. store_scan en now base rows d = Inr d' \<and> dataset_ok d' \<and> dd_members d' = stored_members now rows (dd_members d)
    \<and> same_dataset d base d' \<and> build_manifest (se_nfc en) (se_casefold en) (se_hash en) (map to_member (live_members d')) = Inr mf
    \<and> mf_members mf = map row_of (live_members d') \<and> dd_directory d' = Some (mf\<lparr>mf_members := []\<rparr>) \<and> dd_size d' = mf_total_data_bytes mf"
proof -
  let ?ms = "stored_members now rows (dd_members d)" and ?n = "last (split_on 47 base)"
  let ?d = "d\<lparr>dd_root := Some base, dd_type := ''directory'', dd_original := ?n, dd_storage := ?n, dd_processed := None, dd_members := ?ms\<rparr>"
  have mem: "dd_members ?d = ?ms" by simp
  have ok: "dataset_ok ?d" by (rule stored_members_ok [OF assms(2,1) mem])
  have live: "list_all (values_ok (se_nfc en)) (live_members ?d)"
    using live_values_ok [OF assms(1) ok mem] by (simp add: list_all_iff)
  have "inj_on (se_casefold en) (dv_path ` set rows)"
    using assms(1) by (auto simp: scanned_ok_def distinct_map inj_on_def)
  moreover have "dv_path ` set (live_members ?d) \<subseteq> dv_path ` set rows" using live_stored [OF assms(1) mem] by auto
  ultimately have "inj_on (se_casefold en) (dv_path ` set (live_members ?d))" by (rule inj_on_subset)
  moreover have "inj_on dv_path (set (live_members ?d))" "distinct (live_members ?d)" using distinct_live [OF ok] by (simp_all add: distinct_map)
  ultimately have "inj_on (se_casefold en \<circ> dv_path) (set (live_members ?d))" "distinct (live_members ?d)" by (blast intro: comp_inj_on)+
  then have "distinct (map (se_casefold en \<circ> dv_path) (live_members ?d))" unfolding distinct_map by (rule conjI [rotated])
  then have "distinct (map (\<lambda>m. se_casefold en (dv_path m)) (live_members ?d))" by (simp add: comp_def)
  then obtain mf where mf: "build_manifest (se_nfc en) (se_casefold en) (se_hash en) (map to_member (live_members ?d)) = Inr mf"
      "mf_members mf = map row_of (live_members ?d)"
    using manifest_of_members [OF live] distinct_live [OF ok] by blast
  have nm: "\<not> list_ex (\<lambda>m. dv_status m = ''missing'') (live_members ?d)"
  proof -
    have "dv_status m \<noteq> ''missing''" if "m \<in> set (live_members ?d)" for m
    proof -
      have m: "m \<in> set (dd_members ?d)" "dv_path m \<in> dv_path ` set rows" using live_stored [OF assms(1) mem] that by blast+
      then obtain v where v: "v \<in> set rows" "dv_path m = dv_path v" by auto
      have "same_file m v" by (rule stored_file [OF assms(1) _ v]) (use m mem in simp)
      then show ?thesis using scanned_status [OF assms(1) v(1)] by (auto simp: same_file_def)
    qed
    then show ?thesis by (auto simp: list_ex_iff)
  qed
  let ?d' = "?d\<lparr>dd_directory := Some (mf\<lparr>mf_members := []\<rparr>), dd_size := mf_total_data_bytes mf\<rparr>"
  have "store_scan en now base rows d = Inr ?d'"
    using ok mf(1) nm unfolding store_scan_def Let_def store_members [OF distinct_paths [OF assms(1)]]
    by (simp add: flush_members_def dataset_ok_def refresh_directory_metadata_def)
  moreover have "live_members ?d' = live_members ?d" by (simp add: live_members_def)
  moreover have "dataset_ok ?d'" using ok by (simp add: dataset_ok_def)
  ultimately show ?thesis using mf by (intro exI [of _ ?d'] exI [of _ mf]) (simp add: same_dataset_def)
qed

text \<open>
  C21. A directory that was scanned is registered: whatever members its dataset had, storing the scan
  succeeds; the members in force are then exactly the files of the scan, with their sizes, hashes
  and types, and the dataset carries the manifest of these members.
\<close>

theorem scanned_directory_registered:
  assumes "proper_env en" and "scan_root en tree = Inr rows" and "dataset_ok d"
  shows "\<exists>d' mf. store_scan en now base rows d = Inr d' \<and> dataset_ok d'
    \<and> list_all (\<lambda>m. list_ex (same_file m) rows) (live_members d')
    \<and> list_all (\<lambda>v. list_ex (\<lambda>m. same_file m v) (live_members d')) rows
    \<and> length (live_members d') = length rows
    \<and> build_manifest (se_nfc en) (se_casefold en) (se_hash en) (map to_member (live_members d')) = Inr mf
    \<and> dd_directory d' = Some (mf\<lparr>mf_members := []\<rparr>)"
proof -
  note ok = scan_root_ok [OF assms(1,2)]
  obtain d' mf where d': "store_scan en now base rows d = Inr d'" "dataset_ok d'" "dd_members d' = stored_members now rows (dd_members d)"
      "build_manifest (se_nfc en) (se_casefold en) (se_hash en) (map to_member (live_members d')) = Inr mf"
      "dd_directory d' = Some (mf\<lparr>mf_members := []\<rparr>)"
    using stored_dataset [OF ok assms(3)] by blast
  note live = live_stored [OF ok d'(3)]
  have f: "same_file m v" if "m \<in> set (live_members d')" "v \<in> set rows" "dv_path m = dv_path v" for m v
  proof -
    have "m \<in> set (stored_members now rows (dd_members d))" using live [of m] that(1) d'(3) by simp
    from stored_file [OF ok this that(2,3)] show ?thesis .
  qed
  have a: "\<exists>v\<in>set rows. same_file m v" if m: "m \<in> set (live_members d')" for m
  proof -
    obtain v where "v \<in> set rows" "dv_path m = dv_path v" using live [of m] m by auto
    then show ?thesis using f [OF m] by blast
  qed
  have b: "\<exists>m\<in>set (live_members d'). same_file m v" if v: "v \<in> set rows" for v
  proof -
    obtain m where m: "m \<in> set (dd_members d')" "dv_path m = dv_path v" using row_stored [OF ok v] d'(3) by metis
    then have "m \<in> set (live_members d')" using live [of m] v by auto
    then show ?thesis using f [OF _ v m(2)] by blast
  qed
  have "dv_path ` set (live_members d') = dv_path ` set rows"
    using a b by (auto simp: same_file_def image_iff) metis+
  then have "length (live_members d') = length rows"
    using distinct_live [OF d'(2)] distinct_paths [OF ok] by (metis distinct_card length_map set_map)
  then show ?thesis using d' a b by (intro exI [of _ d'] exI [of _ mf]) (simp add: list_all_iff list_ex_iff)
qed

section \<open>Scans, repeated registrations, runs\<close>

text \<open>
  C23. A scan lists its tree: the rows are those of the regular files below the directory that are
  neither hidden nor behind a link, each under its canonical path, with the hash of bytes that two
  consecutive attempts read between equal states of the file, sorted by path; no two paths fold to
  the same text, and the limits on files and bytes hold.
\<close>

theorem scan_lists_tree:
  assumes "scan_root en (Directory es) = Inr rows"
  shows "\<exists>listed unsorted. rows = sort_key dv_path unsorted \<and> list_all2 (scanned_row en) unsorted listed
    \<and> list_all2 (canonical_found (se_nfc en)) listed (visible [] es) \<and> distinct (map (\<lambda>y. se_casefold en (fst (snd y))) listed)
    \<and> length rows \<le> dataset_max_members (se_limits en) \<and> sum_list (map dv_size rows) \<le> dataset_max_bytes (se_limits en)"
proof -
  obtain ys unsorted where u: "rows = sort_key dv_path unsorted" "list_all2 (scanned_row en) unsorted ys"
      "list_all2 (canonical_found (se_nfc en)) ys (visible [] es)" "distinct (map (\<lambda>y. se_casefold en (fst (snd y))) ys)"
      "length unsorted \<le> dataset_max_members (se_limits en)" "sum_list (map dv_size unsorted) \<le> dataset_max_bytes (se_limits en)"
    using scan_root_rows [OF assms] by blast
  have "mset (map dv_size rows) = mset (map dv_size unsorted)" by (simp add: u(1))
  then have "sum_list (map dv_size rows) = sum_list (map dv_size unsorted)" by (metis sum_mset_sum_list)
  then show ?thesis using u by (intro exI [of _ ys] exI [of _ unsorted]) simp
qed

lemma update_same: "same_file m v \<Longrightarrow> update_member now v m = m"
  by (cases m) (simp add: update_member_def same_file_def Let_def)

lemma stored_members_again:
  assumes "scanned_ok en rows"
  shows "stored_members later rows (stored_members now rows ms) = stored_members now rows ms"
proof -
  let ?ms = "stored_members now rows ms"
  define d' where "d' = (new_dataset [])\<lparr>dd_members := ?ms\<rparr>"
  have mem: "dd_members d' = ?ms" by (simp add: d'_def)
  have "dv_path v \<in> dv_path ` set ?ms" if "v \<in> set rows" for v using row_stored [OF assms that, of now ms] by (metis imageI)
  then have new: "filter (\<lambda>v. dv_path v \<notin> dv_path ` set ?ms) rows = []" by (simp add: filter_empty_conv)
  have "stored later rows m = m" if m: "m \<in> set ?ms" for m
  proof (cases "find (\<lambda>v. dv_path v = dv_path m) rows")
    case (Some v)
    then have v: "v \<in> set rows" "dv_path m = dv_path v" using find_path [OF Some] by simp_all
    show ?thesis using Some update_same [OF stored_file [OF assms m v]] by (simp add: stored_def)
  next
    case None
    then have "m \<notin> set (live_members d')" using live_stored [OF assms mem, of m] by (simp add: find_path_None)
    then have "dv_status m = ''removed''" using m by (simp add: live_members_def mem)
    then show ?thesis using None by (simp add: stored_def)
  qed
  then have "map (stored later rows) ?ms = ?ms" by (rule map_idI)
  then show ?thesis unfolding stored_members_def [of later rows ?ms] new by simp
qed

text \<open>
  C24. Registering an unchanged directory again changes nothing: storing the same scan a second time,
  at any later time, gives back the same dataset, with the dates of its members.
\<close>

theorem reregistration_changes_nothing:
  assumes "proper_env en" and "scan_root en tree = Inr rows" and "dataset_ok d" and "store_scan en now base rows d = Inr d'"
  shows "store_scan en later base rows d' = Inr d'"
proof -
  note ok = scan_root_ok [OF assms(1,2)]
  obtain mf where d': "dataset_ok d'" "dd_members d' = stored_members now rows (dd_members d)" "same_dataset d base d'"
      "build_manifest (se_nfc en) (se_casefold en) (se_hash en) (map to_member (live_members d')) = Inr mf"
      "dd_directory d' = Some (mf\<lparr>mf_members := []\<rparr>)" "dd_size d' = mf_total_data_bytes mf"
    using stored_dataset [OF ok assms(3), of now base] assms(4) by auto
  obtain e mf' where e: "store_scan en later base rows d' = Inr e" "dd_members e = stored_members later rows (dd_members d')"
      "same_dataset d' base e" "build_manifest (se_nfc en) (se_casefold en) (se_hash en) (map to_member (live_members e)) = Inr mf'"
      "dd_directory e = Some (mf'\<lparr>mf_members := []\<rparr>)" "dd_size e = mf_total_data_bytes mf'"
    using stored_dataset [OF ok d'(1), of later base] by auto
  have mem: "dd_members e = dd_members d'" using e(2) d'(2) stored_members_again [OF ok] by simp
  then have "live_members e = live_members d'" by (simp add: live_members_def)
  then have "mf' = mf" using e(4) d'(4) by simp
  then have "e = d'" using mem e(3,5,6) d'(3,5,6) by (cases e; cases d') (simp add: same_dataset_def)
  then show ?thesis using e(1) by simp
qed

text \<open>The operations that change members, on the whole database; one that is refused changes nothing.\<close>

datatype dir_op =
    RegisterOp nat string ustr fs_node "string option"
  | PatchOp nat string nat "string option option" "bool option option"
  | PublishOp string string

fun dir_step :: "scan_env \<Rightarrow> ddataset list \<Rightarrow> dir_op \<Rightarrow> ddataset list" where
  "dir_step en db (RegisterOp now fresh base tree i) =
     (case register_directory en now fresh base tree i db of Inl _ \<Rightarrow> db | Inr (_, db') \<Rightarrow> db')"
| "dir_step en db (PatchOp now i index role sample) =
     (case patch_member en now i index role sample db of Inl _ \<Rightarrow> db | Inr db' \<Rightarrow> db')"
| "dir_step en db (PublishOp i listing) = map (\<lambda>d. if dd_id d = i then d\<lparr>dd_listing := Some listing\<rparr> else d) db"

definition db_ok :: "ddataset list \<Rightarrow> bool" where
  "db_ok db \<longleftrightarrow> distinct (map dd_id db) \<and> list_all dataset_ok db"

text \<open>Every member keeps its index and its path.\<close>

definition keeps_members :: "ddataset \<Rightarrow> ddataset \<Rightarrow> bool" where
  "keeps_members d d' \<longleftrightarrow> dd_id d' = dd_id d
     \<and> (\<forall>m\<in>set (dd_members d). \<exists>m'\<in>set (dd_members d'). dm_index m' = dm_index m \<and> dv_path m' = dv_path m)"

lemma keeps_refl: "keeps_members d d"
  by (auto simp: keeps_members_def)

lemma keeps_trans: "keeps_members d d' \<Longrightarrow> keeps_members d' d'' \<Longrightarrow> keeps_members d d''"
  unfolding keeps_members_def by metis

definition keeps_all :: "ddataset list \<Rightarrow> ddataset list \<Rightarrow> bool" where
  "keeps_all db db' \<longleftrightarrow> (\<forall>d\<in>set db. \<exists>d'\<in>set db'. keeps_members d d')"

lemma keeps_all_refl: "keeps_all db db"
  using keeps_refl by (auto simp: keeps_all_def)

lemma put_dataset_ok:
  assumes "db_ok db" and "dataset_ok d'" and "d \<in> set db" and "keeps_members d d'"
  shows "db_ok (put_dataset d' db) \<and> keeps_all db (put_dataset d' db)"
proof
  have "dd_id d' = dd_id d" using assms(4) by (simp add: keeps_members_def)
  have ids: "map dd_id (put_dataset d' db) = map dd_id db" by (auto simp: put_dataset_def)
  have "list_all dataset_ok (put_dataset d' db)" using assms(1,2) by (auto simp: db_ok_def put_dataset_def list_all_iff)
  then show "db_ok (put_dataset d' db)" using assms(1) unfolding db_ok_def ids by blast
  show "keeps_all db (put_dataset d' db)"
    unfolding keeps_all_def
  proof
    fix x assume x: "x \<in> set db"
    show "\<exists>y\<in>set (put_dataset d' db). keeps_members x y"
    proof (cases "dd_id x = dd_id d'")
      case True
      then have "x = d" using x assms(1,3) \<open>dd_id d' = dd_id d\<close> by (auto simp: db_ok_def distinct_map inj_on_def)
      then show ?thesis using x True assms(4) by (intro bexI [of _ d']) (auto simp: put_dataset_def image_iff)
    next
      case False
      then show ?thesis using x keeps_refl [of x] by (intro bexI [of _ x]) (auto simp: put_dataset_def image_iff)
    qed
  qed
qed

lemma find_in: "find P xs = Some x \<Longrightarrow> x \<in> set xs \<and> P x"
  by (auto simp: find_Some_iff in_set_conv_nth)

lemma register_keeps:
  assumes "proper_env en" and "db_ok db" and "register_directory en now fresh base tree i db = Inr (d', db')"
  shows "db_ok db' \<and> keeps_all db db'"
proof -
  obtain rows where rows: "scan_root en tree = Inr rows" using assms(3) by (auto simp: register_directory_def)
  note ok = scan_root_ok [OF assms(1) rows]
  have stored: "dataset_ok d' \<and> keeps_members d d'" if d: "dataset_ok d" "store_scan en now base rows d = Inr d'" for d
  proof -
    have d': "dataset_ok d'" "dd_members d' = stored_members now rows (dd_members d)" "same_dataset d base d'"
      using stored_dataset [OF ok d(1), of now base] d(2) by auto
    have "\<exists>m'\<in>set (dd_members d'). dm_index m' = dm_index m \<and> dv_path m' = dv_path m" if "m \<in> set (dd_members d)" for m
      using that d'(2) by (intro bexI [of _ "stored now rows m"]) (simp_all add: stored_members_def)
    then show ?thesis using d' by (simp add: keeps_members_def same_dataset_def)
  qed
  consider (known) d where "d \<in> set db" "store_scan en now base rows d = Inr d'" "db' = put_dataset d' db"
    | (new) "fresh \<notin> dd_id ` set db" "store_scan en now base rows (new_dataset fresh) = Inr d'" "db' = db @ [d']"
    using assms(3) rows
    by (auto simp: register_directory_def dest!: find_in split: option.splits if_split_asm)
  then show ?thesis
  proof cases
    case known
    then have "dataset_ok d" using assms(2) by (auto simp: db_ok_def list_all_iff)
    then show ?thesis using stored [OF _ known(2)] put_dataset_ok [OF assms(2) _ known(1)] known(3) by blast
  next
    case new
    have "dataset_ok (new_dataset fresh)" by (simp add: dataset_ok_def new_dataset_def)
    then have "dataset_ok d'" "keeps_members (new_dataset fresh) d'" using stored [OF _ new(2)] by blast+
    moreover have "dd_id d' = fresh" using \<open>keeps_members (new_dataset fresh) d'\<close> by (simp add: keeps_members_def new_dataset_def)
    moreover have "keeps_all db db'" using keeps_refl new(3) by (auto simp: keeps_all_def)
    ultimately show ?thesis using assms(2) new(1,3) by (auto simp: db_ok_def)
  qed
qed

lemma refresh_members: "refresh_directory_metadata en d = Inr d' \<Longrightarrow> dd_members d' = dd_members d \<and> dd_id d' = dd_id d"
  by (auto simp: refresh_directory_metadata_def split: if_split_asm sum.splits)

lemma patch_keeps:
  assumes "db_ok db" and "patch_member en now i index role sample db = Inr db'"
  shows "db_ok db' \<and> keeps_all db db'"
proof -
  have ok: "\<not> (role = None \<and> sample = None \<or> role = Some None \<or> sample = Some None
      \<or> (case role of Some (Some ro) \<Rightarrow> ro \<notin> set ROLES | _ \<Rightarrow> False))"
    using assms(2) unfolding patch_member_def by (cases "role = None \<and> sample = None \<or> role = Some None \<or> sample = Some None
      \<or> (case role of Some (Some ro) \<Rightarrow> ro \<notin> set ROLES | _ \<Rightarrow> False)") simp_all
  note p = assms(2) [unfolded patch_member_def if_not_P [OF ok]]
  obtain d where fd: "find (\<lambda>d. dd_id d = i) db = Some d" using p by (cases "find (\<lambda>d. dd_id d = i) db") simp_all
  note p = p [unfolded fd option.case]
  have nl: "\<not> truthy (dd_listing d)" using p by (cases "truthy (dd_listing d)") simp_all
  obtain m where fm: "find (\<lambda>m. dm_index m = index) (dd_members d) = Some m"
    using p nl by (cases "find (\<lambda>m. dm_index m = index) (dd_members d)") simp_all
  have d: "d \<in> set db" and m: "m \<in> set (dd_members d)" "dm_index m = index"
    using find_in [OF fd] find_in [OF fm] by simp_all
  define m' where "m' = patched now role sample m"
  have m': "dm_index m' = index" "dv_path m' = dv_path m" using m(2) by (simp_all add: m'_def patched_def Let_def)
  obtain d'' where d'': "res_bind (flush_members (d\<lparr>dd_members := map (\<lambda>x. if dm_index x = index then m' else x) (dd_members d)\<rparr>))
        (\<lambda>e. if truthy (dd_root d) then refresh_directory_metadata en e else Inr e) = Inr d''" "db' = put_dataset d'' db"
    using p nl unfolding fm option.case m'_def Let_def by (auto split: if_split_asm sum.splits)
  let ?ms = "map (\<lambda>x. if dm_index x = index then m' else x) (dd_members d)"
  have mem: "dd_members d'' = ?ms" "dd_id d'' = dd_id d" and good: "dataset_ok (d\<lparr>dd_members := ?ms\<rparr>)"
    using d''(1) by (auto simp: flush_ok dest: refresh_members split: if_split_asm)
  have "\<exists>y\<in>set ?ms. dm_index y = dm_index x \<and> dv_path y = dv_path x" if x: "x \<in> set (dd_members d)" for x
  proof (cases "dm_index x = index")
    case True
    then have "x = m" using x m d assms(1) by (auto simp: db_ok_def list_all_iff dataset_ok_def distinct_map inj_on_def)
    then show ?thesis using x True m' by (intro bexI [of _ m']) (auto simp: image_iff)
  next
    case False
    then show ?thesis using x by (intro bexI [of _ x]) (auto simp: image_iff)
  qed
  then have "keeps_members d d''" by (simp add: keeps_members_def mem)
  moreover have "dataset_ok d''" using good by (simp add: dataset_ok_def mem)
  ultimately show ?thesis using put_dataset_ok [OF assms(1) _ d] d''(2) by blast
qed

lemma dir_step_keeps: "proper_env en \<Longrightarrow> db_ok db \<Longrightarrow> db_ok (dir_step en db op) \<and> keeps_all db (dir_step en db op)"
proof (cases op)
  case (PublishOp i listing)
  assume "db_ok db"
  let ?f = "\<lambda>d. if dd_id d = i then d\<lparr>dd_listing := Some listing\<rparr> else d"
  have f: "dd_id (?f d) = dd_id d" "dd_members (?f d) = dd_members d" for d by simp_all
  have ids: "map dd_id (map ?f db) = map dd_id db" by (simp add: f comp_def)
  have "list_all dataset_ok (map ?f db)" using \<open>db_ok db\<close> by (auto simp: db_ok_def list_all_iff dataset_ok_def)
  then have "db_ok (map ?f db)" using \<open>db_ok db\<close> unfolding db_ok_def ids by blast
  moreover have "keeps_members d (?f d)" for d by (auto simp: keeps_members_def)
  then have "keeps_all db (map ?f db)" unfolding keeps_all_def set_map by (intro ballI bexI [OF _ imageI])
  ultimately show ?thesis by (simp add: PublishOp)
qed (auto split: sum.split intro: keeps_all_refl dest: register_keeps patch_keeps)

text \<open>
  C22. An index names one path for ever: over any run of registrations, seller choices and
  publications, refused ones included, no member of a dataset is lost, and a member of the end has
  the index of an earlier one exactly when it has its path.
\<close>

theorem member_indices_permanent:
  assumes "proper_env en" and "db_ok db" and "d \<in> set db"
  shows "\<exists>d'\<in>set (foldl (dir_step en) db ops). dd_id d' = dd_id d \<and> dataset_ok d'
    \<and> list_all (\<lambda>m. list_ex (\<lambda>m'. dm_index m' = dm_index m \<and> dv_path m' = dv_path m) (dd_members d')
         \<and> list_all (\<lambda>m'. (dm_index m' = dm_index m) = (dv_path m' = dv_path m)) (dd_members d')) (dd_members d)"
proof -
  have "db_ok (foldl (dir_step en) db ops) \<and> (\<exists>d'\<in>set (foldl (dir_step en) db ops). keeps_members d d')"
    using assms(2,3)
  proof (induction ops arbitrary: db d)
    case Nil
    then show ?case using keeps_refl by auto
  next
    case (Cons op ops)
    have ok: "db_ok (dir_step en db op)" and all: "keeps_all db (dir_step en db op)"
      using dir_step_keeps [OF assms(1) Cons.prems(1)] by blast+
    obtain e where e: "e \<in> set (dir_step en db op)" "keeps_members d e" using all Cons.prems(2) by (auto simp: keeps_all_def)
    from Cons.IH [OF ok e(1)] show ?case using keeps_trans [OF e(2)] by auto
  qed
  then obtain d' where d': "d' \<in> set (foldl (dir_step en) db ops)" "dataset_ok d'" "keeps_members d d'"
    by (auto simp: db_ok_def list_all_iff)
  have "list_all (\<lambda>m. list_ex (\<lambda>m'. dm_index m' = dm_index m \<and> dv_path m' = dv_path m) (dd_members d')
      \<and> list_all (\<lambda>m'. (dm_index m' = dm_index m) = (dv_path m' = dv_path m)) (dd_members d')) (dd_members d)"
    unfolding list_all_iff list_ex_iff
  proof (intro ballI conjI)
    fix m assume m: "m \<in> set (dd_members d)"
    then obtain k where k: "k \<in> set (dd_members d')" "dm_index k = dm_index m" "dv_path k = dv_path m"
      using d'(3) by (auto simp: keeps_members_def)
    then show "\<exists>m'\<in>set (dd_members d'). dm_index m' = dm_index m \<and> dv_path m' = dv_path m" by blast
    fix m' assume m': "m' \<in> set (dd_members d')"
    have "inj_on dm_index (set (dd_members d'))" "inj_on dv_path (set (dd_members d'))"
      using d'(2) by (simp_all add: dataset_ok_def distinct_map)
    then have "dm_index m' = dm_index k \<longleftrightarrow> m' = k" "dv_path m' = dv_path k \<longleftrightarrow> m' = k"
      using inj_on_eq_iff k(1) m' by metis+
    then show "(dm_index m' = dm_index m) = (dv_path m' = dv_path m)" using k(2,3) by simp
  qed
  then show ?thesis using d' by (intro bexI [OF _ d'(1)]) (simp add: keeps_members_def)
qed

section \<open>Witnesses\<close>

text \<open>A directory with a table, a hidden file, a link and, deeper, a licence.\<close>

definition small_stat :: fstat where
  "small_stat = \<lparr>fs_dev = 1, fs_ino = 2, fs_size = 1, fs_mtime = 3, fs_ctime = 4\<rparr>"

definition small_file :: fs_node where
  "small_file = RegularFile (\<lambda>_. ReadOnce True small_stat [7] small_stat small_stat)"

definition small_entries :: "fs_entry list" where
  "small_entries = [FsEntry (text_of ''d'') (Directory [FsEntry (text_of ''LICENSE'') small_file]),
     FsEntry (text_of ''.h'') small_file, FsEntry (text_of ''l'') Symlink, FsEntry (text_of ''a.csv'') small_file]"

definition small_env :: scan_env where
  "small_env = \<lparr>se_nfc = id, se_casefold = id, se_upper = id, se_lower = id, se_hash = (\<lambda>_. replicate 32 204), se_date = id,
     se_limits = \<lparr>dataset_max_members = 3, transfer_max_member_bytes = 10, dataset_max_bytes = 10\<rparr>, se_attempts = 2\<rparr>"

definition small_row :: "string \<Rightarrow> string \<Rightarrow> string \<Rightarrow> dvalues" where
  "small_row p t ro = \<lparr>dv_path = text_of p, dv_size = 1, dv_sha256 = Some (hex_of (replicate 32 204)), dv_type = t, dv_role = ro,
     dv_sample = False, dv_status = (if t = ''unsupported'' then ''unsupported'' else ''current''),
     dv_reason = (if t = ''unsupported'' then Some ''unsupported_type'' else None), dv_mtime = Some 3\<rparr>"

definition small_rows :: "dvalues list" where
  "small_rows = [small_row ''a.csv'' ''csv'' ''data'', small_row ''d/LICENSE'' ''unsupported'' ''documentation'']"

lemma small_proper: "proper_env small_env"
  by (simp add: proper_env_def small_env_def)

lemma small_path: "p \<in> {''d'', ''d/LICENSE'', ''a.csv''} \<Longrightarrow> canonical_path id (text_of p) = Inr (text_of p)"
  by (elim insertE emptyE; simp add: canonical_path_def text_of_def scalar_value_def control_char_def encode_utf8_def utf8_def utf8_char_def)

lemma small_scan: "scan_root small_env (Directory small_entries) = Inr small_rows"
proof -
  have w: "walk id id [(small_entries, [])] {} =
      ([(text_of ''LICENSE'', text_of ''d/LICENSE'', \<lambda>_. ReadOnce True small_stat [7] small_stat small_stat),
        (text_of ''a.csv'', text_of ''a.csv'', \<lambda>_. ReadOnce True small_stat [7] small_stat small_stat)], None)"
    using small_path [of "''d''"] small_path [of "''d/LICENSE''"] small_path [of "''a.csv''"]
    by (simp add: small_entries_def small_file_def walk.simps excluded_def JUNK_FILES_def text_of_def scalar_value_def Let_def)
  have r: "stable_read H k None (map (\<lambda>_. ReadOnce True small_stat [7] small_stat small_stat) [0..<2]) = Inr (hex_of (H [7]), small_stat)"
    if "0 < k" for H k
    using that by (simp add: upt_rec small_stat_def)
  have v: "scanned_values small_env (text_of ''LICENSE'') (text_of ''d/LICENSE'') h small_stat
        = (small_row ''d/LICENSE'' ''unsupported'' ''documentation'')\<lparr>dv_sha256 := Some h\<rparr>"
      "scanned_values small_env (text_of ''a.csv'') (text_of ''a.csv'') h small_stat = (small_row ''a.csv'' ''csv'' ''data'')\<lparr>dv_sha256 := Some h\<rparr>" for h
    by (simp_all add: scanned_values_def small_env_def small_row_def small_stat_def text_of_def path_suffix_def member_detected_type_def
        PROCESSABLE_TYPES_def suggested_role_def contains_def upt_rec Let_def)
  have e: "se_nfc small_env = id" "se_casefold small_env = id" "se_attempts small_env = 2" "se_hash small_env = (\<lambda>_. replicate 32 204)"
      "dataset_max_members (se_limits small_env) = 3" "dataset_max_bytes (se_limits small_env) = 10" "fs_size small_stat = 1"
    by (simp_all add: small_env_def small_stat_def)
  have sha: "(small_row p t ro)\<lparr>dv_sha256 := Some (hex_of (replicate 32 204))\<rparr> = small_row p t ro" for p t ro
    by (simp add: small_row_def)
  have "scan_root small_env (Directory small_entries)
      = Inr (sort_key dv_path [small_row ''d/LICENSE'' ''unsupported'' ''documentation'', small_row ''a.csv'' ''csv'' ''data''])"
    using w by (simp add: scan_root_def e r v sha del: replicate.simps)
  also have "sort_key dv_path [small_row ''d/LICENSE'' ''unsupported'' ''documentation'', small_row ''a.csv'' ''csv'' ''data''] = small_rows"
    by (simp add: sort_key_def small_row_def small_rows_def text_of_def)
  finally show ?thesis .
qed

theorem scan_lists_tree_witness:
  "\<exists>listed unsorted. small_rows = sort_key dv_path unsorted \<and> list_all2 (scanned_row small_env) unsorted listed
    \<and> list_all2 (canonical_found id) listed (visible [] small_entries) \<and> length listed = 2"
proof -
  obtain listed unsorted where l: "small_rows = sort_key dv_path unsorted" "list_all2 (scanned_row small_env) unsorted listed"
      "list_all2 (canonical_found (se_nfc small_env)) listed (visible [] small_entries)"
    using scan_lists_tree [OF small_scan] by blast
  have "length unsorted = 2" using arg_cong [OF l(1), of length] by (simp add: small_rows_def)
  then have "length listed = 2" using list_all2_lengthD [OF l(2)] by simp
  then show ?thesis using l by (intro exI [of _ listed] exI [of _ unsorted]) (simp add: small_env_def)
qed

theorem scanned_directory_registered_witness:
  "\<exists>d'. store_scan small_env 5 (text_of ''/r'') small_rows (new_dataset ''i'') = Inr d' \<and> length (live_members d') = 2"
proof -
  have "dataset_ok (new_dataset ''i'')" by (simp add: dataset_ok_def new_dataset_def)
  from scanned_directory_registered [OF small_proper small_scan this, of 5 "text_of ''/r''"]
  show ?thesis by (auto simp: small_rows_def)
qed

lemma small_registered: "\<exists>d'. store_scan small_env 5 (text_of ''/r'') small_rows (new_dataset ''i'') = Inr d'"
  using stored_dataset [OF scan_root_ok [OF small_proper small_scan], of "new_dataset ''i''" 5 "text_of ''/r''"]
  by (auto simp: dataset_ok_def new_dataset_def)

theorem reregistration_changes_nothing_witness:
  "\<exists>d'. store_scan small_env 5 (text_of ''/r'') small_rows (new_dataset ''i'') = Inr d'
    \<and> store_scan small_env 9 (text_of ''/r'') small_rows d' = Inr d'"
proof -
  obtain d' where d': "store_scan small_env 5 (text_of ''/r'') small_rows (new_dataset ''i'') = Inr d'" using small_registered by blast
  have "dataset_ok (new_dataset ''i'')" by (simp add: dataset_ok_def new_dataset_def)
  from reregistration_changes_nothing [OF small_proper small_scan this d'] show ?thesis using d' by blast
qed

text \<open>A dataset with one member, which the seller makes documentation.\<close>

definition small_dataset :: ddataset where
  "small_dataset = (new_dataset ''i'')\<lparr>dd_members := [new_member 5 4 (small_row ''a.csv'' ''csv'' ''data'')]\<rparr>"

theorem member_indices_permanent_witness:
  "\<exists>d'\<in>set (foldl (dir_step small_env) [small_dataset]
      [RegisterOp 6 ''j'' (text_of ''/r'') (Directory small_entries) (Some ''i''), PatchOp 7 ''i'' 4 (Some (Some ''documentation'')) None]).
    dd_id d' = ''i'' \<and> list_ex (\<lambda>m. dm_index m = 4 \<and> dv_path m = text_of ''a.csv'') (dd_members d')"
proof -
  have "db_ok [small_dataset]"
    by (simp add: db_ok_def dataset_ok_def small_dataset_def new_dataset_def member_ok_def small_row_def)
  from member_indices_permanent [OF small_proper this, of small_dataset
      "[RegisterOp 6 ''j'' (text_of ''/r'') (Directory small_entries) (Some ''i''), PatchOp 7 ''i'' 4 (Some (Some ''documentation'')) None]"]
  obtain d' where d': "d' \<in> set (foldl (dir_step small_env) [small_dataset]
      [RegisterOp 6 ''j'' (text_of ''/r'') (Directory small_entries) (Some ''i''), PatchOp 7 ''i'' 4 (Some (Some ''documentation'')) None])"
      "dd_id d' = dd_id small_dataset"
      "list_all (\<lambda>m. list_ex (\<lambda>m'. dm_index m' = dm_index m \<and> dv_path m' = dv_path m) (dd_members d')) (dd_members small_dataset)"
    by (auto simp: list_all_iff)
  show ?thesis by (rule bexI [OF _ d'(1)]) (use d'(2,3) in \<open>simp add: small_dataset_def new_dataset_def small_row_def\<close>)
qed

end
