(* ===== verification/Spec2Isabelle.thy ===== *)
theory Spec2Isabelle
  imports RateLimiter DeductionQueue RowCommitment ApprovalTokens Metering Lifecycle DiskTree
    ConnTokens Nudge Reconciliation Checkpoint Rows Consistency ManifestTransfer Directory
begin

text \<open>
  A verification development for aim-data, the Python backend that a data seller runs on the own
  machine.  The backend ingests files, commits to their rows, publishes listings and previews on
  the ai.market marketplace, serves external language models over access tokens, and meters what
  it does.  The development models the services in which this logic lives (src/app/services) and
  proves what makes them correct.

  \<^bold>\<open>How the parts interact.\<close>  A dataset is read record by record; a record becomes a canonical row
  under a declared schema, rows become leaves of a Merkle tree, the tree's root is signed and
  entered in a transparency log, and a preview shows rows with their inclusion proofs.  The
  lifecycle journal records what has become of a preview.  Tool calls of the assistant pass the
  rate limiter, the access tokens and the approval gate, and are metered: by the serial of the
  installation while it is not registered, by the queue of deductions afterwards.  Replies of the
  marketplace arrive over HTTP or over the encrypted trust channel.

  \<^bold>\<open>Commitments\<close> (dataset_merkle_service.py).  \<^theory_text>\<open>Bytes\<close>: base64url, digests, big-endian integers.
  \<^theory_text>\<open>Sha256\<close>: the hash, and the locale \<^theory_text>\<open>digest32\<close> under which the trees are proved (a digest has 32
  bytes), interpreted on it.  \<^theory_text>\<open>Merkle\<close>: row, leaf and node hashes, roots, inclusion proofs, as
  the code computes them on index ranges.  \<^theory_text>\<open>MerkleTree\<close>: the tree hash and audit path on lists
  which they refine; completeness and soundness of inclusion proofs.  \<^theory_text>\<open>Consistency\<close>: the proofs
  that a log was only appended to; builder and verifier are both related to one path between the
  two trees.  \<^theory_text>\<open>RowCommitment\<close>: from rows to leaves, and the list of nodes.  \<^theory_text>\<open>DiskTree\<close>: the
  external sort with its budget, the index and tree on disk and the proofs read from them; a build
  that finishes agrees with the reference routines, and it finishes given room on disk.
  \<^theory_text>\<open>Json\<close>: the canonical JSON text.  \<^theory_text>\<open>Checkpoint\<close>: the signed bytes of a checkpoint.

  \<^bold>\<open>Canonical rows\<close> (dataset_canonicalization.py).  \<^theory_text>\<open>Decimals\<close>, \<^theory_text>\<open>Timestamps\<close>: the texts of numbers
  and times, each with the number or instant it denotes.  \<^theory_text>\<open>Canonical\<close>: validation of a schema with
  its counters, against a declarative reading of descriptors; the schema digest.  \<^theory_text>\<open>Rows\<close>: the row
  of a record; equal bytes are equal meanings.

  \<^bold>\<open>Access and approval.\<close>  \<^theory_text>\<open>RateLimiter\<close> (connectivity_rate_limiter.py), \<^theory_text>\<open>ConnTokens\<close>
  (connectivity_token_service.py), \<^theory_text>\<open>ApprovalTokens\<close> (approval_token_service.py), \<^theory_text>\<open>Nudge\<close>
  (nudge_manager.py).  Each has its state as a record, one function per operation, and the runs of
  operations as a step relation or a fold, over which its limits are proved.

  \<^bold>\<open>Metering and billing.\<close>  \<^theory_text>\<open>Serial\<close> (serial_store.py, serial_client.py, activation_manager.py) and
  \<^theory_text>\<open>Metering\<close> (offline_queue.py, serial_metering.py): the state of the installation in memory and on
  disk.  \<^theory_text>\<open>DeductionQueue\<close> (deduction_queue.py): the table of deductions with its leases, retries
  and dead letters, under any interleaving of workers.  \<^theory_text>\<open>Reconciliation\<close> (reconciliation.py).

  \<^bold>\<open>Previews.\<close>  \<^theory_text>\<open>Lifecycle\<close> (preview_lifecycle.py, part of preview_origin_service.py): rights,
  candidates, retirement receipts and the journal.

  \<^bold>\<open>Trust channel.\<close>  \<^theory_text>\<open>TrustChannel\<close> (trust_channel_protocol.py): vectors, transcript and traffic
  session on 64-bit words.  \<^theory_text>\<open>TrustClient\<close> (trust_channel_client.py): handshake, dispatch and
  reconnection, cut at the awaits.

  \<^bold>\<open>Directories.\<close>  \<^theory_text>\<open>Directory\<close> (directory_registration.py, \<^verbatim>\<open>patch_dataset_member\<close> of
  routers/datasets.py, member_migration.py): a directory as a tree of entries, the walk over it with
  its stack, stable reads, and the database of datasets with their members.  The lemmas relate the
  walk to a recursion on the tree and a registration to the list of members it leaves; the members
  in force have a manifest (\<^theory_text>\<open>Manifest\<close>), from which a delivery is planned.

  \<^bold>\<open>Delivery of a sale.\<close>  \<^theory_text>\<open>Fulfillment\<close> (fulfillment_service.py): a delivery of one file or of one S3
  object with its log entry.  The operations are functions of the transfer's state, with an error
  as the value that ends them; the lemmas show what has been sent when a delivery is recorded as
  completed, that windows wait for their acknowledgements, and that every delivery is settled.
  \<^theory_text>\<open>Manifest\<close> (dataset_manifest.py, \<^verbatim>\<open>load_plan\<close> of manifest_fulfillment.py): the rows of a directory,
  its manifest with its hash, and the plan that cuts the members into chunks.  \<^theory_text>\<open>ManifestTransfer\<close>
  (manifest_fulfillment.py): replies, windows and rounds of a delivery of a manifest; the lemmas
  follow one member, one window, one round and the whole run.  A delivery is given the finite list
  of rounds it meets, so it needs no fuel; a list that ends early leaves the entry uploading, which
  is not completed.

  \<^bold>\<open>Conventions\<close> (\<^theory_text>\<open>Prelude\<close>).  A raise is the left value of a sum, a return the right one; loops are
  structural recursions or functions with a measure, so every definition is total and needs no
  fuel.  A transaction of the database, a critical section of a lock and the code between two
  awaits are each one atomic function.  What the program takes from outside its sources is an
  argument of the definitions: the clock, random choices, replies of the network, Unicode
  normalisation, the object sizes and disk space of the machine, and the cryptographic primitives
  other than SHA-256.  Freedom from collisions is assumed only of the inputs a theorem names, as
  injectivity of the hash on that finite set, or the theorem exhibits the two inputs.

  \<^bold>\<open>Not modelled.\<close>  The routers and middleware translate requests into calls of the services; of them
  only the nudge dismissal and the choices of a seller on members are modelled, the publication of a
  dataset only as its listing id.  The assistant (copilot, allAI provider, prompts, tool executor)
  and the query services build text for language models and SQL for DuckDB, whose meaning lies in
  those systems.  File processing, profiling, document extraction and PII detection are calls of
  third-party libraries.  The preview builder, packager and signer drive the modelled parts with file
  system and process effects, the data verification connectors and S3 services drive remote systems;
  what the artifact resolver and the broker answer is an argument of a delivery.  Authentication,
  portal login, OAuth, billing and prices rest on signature libraries, remote services and floating
  point.  Sources of a dataset are read by the csv, json and pyarrow libraries.  Of deliveries and
  registrations the worker queue, redacted error texts, the walk to a member's file and the moves of
  uploaded files are left out.  The web frontend, migrations, scripts and tests are glue.
\<close>

end
